(* ===== verification/Prelude.thy ===== *)
theory Prelude
  imports Main "HOL-Library.Word"
begin

text \<open>
  What every component shares: the machine types, the result type with its errors, the bounded
  reads of a byte slice, the little-endian fields, the integer operations of Rust that saturate
  or check, and the locales that state what a pair of build and parse functions promises.

  A Rust \<open>String\<close> or \<open>&str\<close> is the list of its UTF-8 bytes, so \<open>len()\<close> is \<open>length\<close> and
  \<open>as_bytes()\<close> is the identity. A \<open>usize\<close> position or length is a \<open>nat\<close>: on the 64-bit targets
  a slice is shorter than \<open>2 ^ 63\<close> bytes, so the unchecked sums of positions of the code cannot
  wrap; the checked and the saturating operations are written out below.
\<close>

unbundle bit_operations_syntax

section \<open>Machine types\<close>

type_synonym byte = "8 word"
type_synonym bytes = "8 word list"
type_synonym str = "8 word list"
type_synonym u16 = "16 word"
type_synonym u32 = "32 word"
type_synonym u64 = "64 word"

text \<open>A byte-string literal \<open>b"..."\<close> of the source.\<close>

definition lit :: "string \<Rightarrow> bytes" where
  "lit cs = map of_char cs"

lemma lit_simps [simp]:
  "lit [] = []"
  "lit (c # cs) = of_char c # lit cs"
  by (simp_all add: lit_def)

lemma length_lit [simp]: "length (lit cs) = length cs"
  by (simp add: lit_def)

section \<open>Results and errors\<close>

text \<open>
  The variants of \<open>CryptoError\<close>. The text of a \<open>Format\<close> error is the one of the source, less its
  interpolated values. \<open>Panic\<close> is not a variant of the source: it is what an out-of-range index or
  slice does there, so that a theorem can say that it never happens.
\<close>

datatype crypto_error =
    Kdf string
  | InvalidKdfParams u32 u32 u32
  | Aead
  | Format string
  | Hkdf
  | Panic

text \<open>\<open>Result<T>\<close> of \<open>dctl-crypto\<close>; \<open>Ok\<close> is \<open>Inr\<close> and \<open>Err\<close> is \<open>Inl\<close>.\<close>

type_synonym 'a crypto = "crypto_error + 'a"

abbreviation Ok :: "'a \<Rightarrow> 'e + 'a" where
  "Ok \<equiv> Inr"

abbreviation Err :: "'e \<Rightarrow> 'e + 'a" where
  "Err \<equiv> Inl"

text \<open>\<open>m?\<close> followed by the rest of the function: \<open>Result::and_then\<close>.\<close>

definition and_then :: "'e + 'a \<Rightarrow> ('a \<Rightarrow> 'e + 'b) \<Rightarrow> 'e + 'b" where
  "and_then m k = (case m of Err e \<Rightarrow> Err e | Ok x \<Rightarrow> k x)"

lemma and_then_simps [simp]:
  "and_then (Err e) k = Err e"
  "and_then (Ok x) k = k x"
  by (simp_all add: and_then_def)

lemma and_then_Ok_iff: "and_then m k = Ok y \<longleftrightarrow> (\<exists>x. m = Ok x \<and> k x = Ok y)"
  by (cases m) auto

lemma and_then_Err_iff:
  "and_then m k = Err e \<longleftrightarrow> m = Err e \<or> (\<exists>x. m = Ok x \<and> k x = Err e)"
  by (cases m) auto

lemma and_then_cong [fundef_cong]:
  "m = m' \<Longrightarrow> (\<And>x. m' = Ok x \<Longrightarrow> k x = k' x) \<Longrightarrow> and_then m k = and_then m' k'"
  by (cases m') auto

lemma and_then_assoc: "and_then (and_then m k) l = and_then m (\<lambda>x. and_then (k x) l)"
  by (cases m) auto

lemma if_Err_Ok_iff [simp]:
  "(if c then Err e else r) = Ok x \<longleftrightarrow> \<not> c \<and> r = Ok x"
  "(if c then r else Err e) = Ok x \<longleftrightarrow> c \<and> r = Ok x"
  by auto

text \<open>\<open>ok_or\<close> and \<open>map_err\<close>.\<close>

definition ok_or :: "'e \<Rightarrow> 'a option \<Rightarrow> 'e + 'a" where
  "ok_or e m = (case m of None \<Rightarrow> Err e | Some x \<Rightarrow> Ok x)"

lemma ok_or_simps [simp]:
  "ok_or e None = Err e"
  "ok_or e (Some x) = Ok x"
  by (simp_all add: ok_or_def)

lemma ok_or_Ok_iff [simp]: "ok_or e m = Ok x \<longleftrightarrow> m = Some x"
  by (cases m) auto

definition map_err :: "('e \<Rightarrow> 'f) \<Rightarrow> 'e + 'a \<Rightarrow> 'f + 'a" where
  "map_err f m = (case m of Err e \<Rightarrow> Err (f e) | Ok x \<Rightarrow> Ok x)"

lemma map_err_simps [simp]:
  "map_err f (Err e) = Err (f e)"
  "map_err f (Ok x) = Ok x"
  by (simp_all add: map_err_def)

lemma map_err_Ok_iff [simp]: "map_err f m = Ok x \<longleftrightarrow> m = Ok x"
  by (cases m) auto

section \<open>Panics\<close>

definition no_panic :: "'a crypto \<Rightarrow> bool" where
  "no_panic m \<longleftrightarrow> m \<noteq> Err Panic"

named_theorems no_panic_intros \<open>rules that discharge the absence of a panic\<close>

lemma no_panic_simps [simp]:
  "no_panic (Ok x)"
  "no_panic (Err e) \<longleftrightarrow> e \<noteq> Panic"
  by (simp_all add: no_panic_def)

lemma no_panic_and_then [no_panic_intros]:
  assumes "no_panic m" and "\<And>x. m = Ok x \<Longrightarrow> no_panic (k x)"
  shows "no_panic (and_then m k)"
  using assms by (cases m) (auto simp: no_panic_def)

lemma no_panic_if [no_panic_intros]:
  "(c \<Longrightarrow> no_panic r) \<Longrightarrow> (\<not> c \<Longrightarrow> no_panic s) \<Longrightarrow> no_panic (if c then r else s)"
  by simp

lemma no_panic_ok_or [no_panic_intros]: "e \<noteq> Panic \<Longrightarrow> no_panic (ok_or e m)"
  by (cases m) auto

section \<open>Code that acts\<close>

text \<open>
  A fallible operation on a state: the result, and the state it leaves behind also where it fails,
  since the source's early returns keep the effects made so far.
\<close>

type_synonym ('s, 'e, 'a) io = "'s \<Rightarrow> ('e + 'a) \<times> 's"

definition io_return :: "'a \<Rightarrow> ('s, 'e, 'a) io" where
  "io_return x = (\<lambda>s. (Ok x, s))"

definition io_fail :: "'e \<Rightarrow> ('s, 'e, 'a) io" where
  "io_fail e = (\<lambda>s. (Err e, s))"

definition io_bind :: "('s, 'e, 'a) io \<Rightarrow> ('a \<Rightarrow> ('s, 'e, 'b) io) \<Rightarrow> ('s, 'e, 'b) io" where
  "io_bind m k = (\<lambda>s. case m s of (Err e, s') \<Rightarrow> (Err e, s') | (Ok x, s') \<Rightarrow> k x s')"

definition io_lift :: "'e + 'a \<Rightarrow> ('s, 'e, 'a) io" where
  "io_lift m = (\<lambda>s. (m, s))"

lemma io_simps [simp]:
  "io_return x s = (Ok x, s)"
  "io_fail e s = (Err e, s)"
  "io_lift m s = (m, s)"
  by (simp_all add: io_return_def io_fail_def io_lift_def)

lemma io_bind_Ok: "m s = (Ok x, s') \<Longrightarrow> io_bind m k s = k x s'"
  by (simp add: io_bind_def)

lemma io_bind_Err: "m s = (Err e, s') \<Longrightarrow> io_bind m k s = (Err e, s')"
  by (simp add: io_bind_def)

lemma io_bind_simps [simp]:
  "io_bind (io_return x) k s = k x s"
  "io_bind (io_fail e) k s = (Err e, s)"
  "io_bind (io_lift (Ok x)) k s = k x s"
  "io_bind (io_lift (Err e)) k s = (Err e, s)"
  by (simp_all add: io_bind_def)

lemma io_bind_unit [simp]:
  "io_bind (io_return x) k = k x"
  "io_bind (io_fail e) k = io_fail e"
  "io_bind (io_lift (Ok x)) k = k x"
  "io_bind (io_lift (Err e)) k = io_fail e"
  by (auto intro!: ext)

lemma io_bind_return [simp]: "io_bind m io_return = m"
  by (auto simp: io_bind_def split: prod.splits sum.splits intro!: ext)

lemma io_bind_Ok_iff:
  "io_bind m k s = (Ok y, t) \<longleftrightarrow> (\<exists>x s'. m s = (Ok x, s') \<and> k x s' = (Ok y, t))"
  by (auto simp: io_bind_def split: prod.splits sum.splits)

lemma io_if_fail_Ok_iff [simp]:
  "(if c then io_fail e else m) s = (Ok y, t) \<longleftrightarrow> \<not> c \<and> m s = (Ok y, t)"
  by simp

lemma io_bind_Err_iff:
  "io_bind m k s = (Err e, t) \<longleftrightarrow>
     m s = (Err e, t) \<or> (\<exists>x s'. m s = (Ok x, s') \<and> k x s' = (Err e, t))"
  by (auto simp: io_bind_def split: prod.splits sum.splits)

lemma io_bind_assoc: "io_bind (io_bind m k) l = io_bind m (\<lambda>x. io_bind (k x) l)"
  by (auto simp: io_bind_def split: prod.splits sum.splits intro!: ext)

lemma io_bind_cong [fundef_cong]:
  "m s = m' s' \<Longrightarrow> (\<And>x t. m' s' = (Ok x, t) \<Longrightarrow> k x t = k' x t) \<Longrightarrow> io_bind m k s = io_bind m' k' s'"
  by (auto simp: io_bind_def split: prod.splits sum.splits)

text \<open>An operation that never panics, from any state.\<close>

definition no_panic_io :: "('s, crypto_error, 'a) io \<Rightarrow> bool" where
  "no_panic_io m \<longleftrightarrow> (\<forall>s. no_panic (fst (m s)))"

lemma no_panic_io_simps [simp]:
  "no_panic_io (io_return x)"
  "no_panic_io (io_fail e) \<longleftrightarrow> e \<noteq> Panic"
  "no_panic_io (io_lift m) \<longleftrightarrow> no_panic m"
  by (simp_all add: no_panic_io_def)

lemma no_panic_io_bind [no_panic_intros]:
  assumes "no_panic_io m" and "\<And>x s s'. m s = (Ok x, s') \<Longrightarrow> no_panic_io (k x)"
  shows "no_panic_io (io_bind m k)"
  using assms unfolding no_panic_io_def io_bind_def
  by (auto split: prod.splits sum.splits) (metis fst_conv no_panic_simps(2))

lemma no_panic_io_if [no_panic_intros]:
  "(c \<Longrightarrow> no_panic_io r) \<Longrightarrow> (\<not> c \<Longrightarrow> no_panic_io s) \<Longrightarrow> no_panic_io (if c then r else s)"
  by simp

section \<open>Byte slices\<close>

text \<open>Positions stay sums: no rewriting of a numeral offset to successors.\<close>

declare add_2_eq_Suc [simp del] add_2_eq_Suc' [simp del]

text \<open>\<open>seg a b xs\<close> is \<open>xs[a..b]\<close> where the range is inside \<open>xs\<close>.\<close>

definition seg :: "nat \<Rightarrow> nat \<Rightarrow> 'a list \<Rightarrow> 'a list" where
  "seg a b xs = take (b - a) (drop a xs)"

text \<open>\<open>&xs[a..b]\<close> and \<open>xs[i]\<close>, with the panic of the source out of range.\<close>

definition slice_at :: "nat \<Rightarrow> nat \<Rightarrow> bytes \<Rightarrow> bytes crypto" where
  "slice_at a b xs = (if a \<le> b \<and> b \<le> length xs then Ok (seg a b xs) else Err Panic)"

definition byte_at :: "nat \<Rightarrow> bytes \<Rightarrow> byte crypto" where
  "byte_at i xs = (if i < length xs then Ok (xs ! i) else Err Panic)"

lemma slice_at_in [simp]: "a \<le> b \<Longrightarrow> b \<le> length xs \<Longrightarrow> slice_at a b xs = Ok (seg a b xs)"
  by (simp add: slice_at_def)

lemma byte_at_in [simp]: "i < length xs \<Longrightarrow> byte_at i xs = Ok (xs ! i)"
  by (simp add: byte_at_def)

lemma slice_at_Ok_iff: "slice_at a b xs = Ok ys \<longleftrightarrow> a \<le> b \<and> b \<le> length xs \<and> ys = seg a b xs"
  by (auto simp: slice_at_def)

lemma byte_at_Ok_iff: "byte_at i xs = Ok x \<longleftrightarrow> i < length xs \<and> x = xs ! i"
  by (auto simp: byte_at_def)

lemma no_panic_slice_at [no_panic_intros]: "a \<le> b \<Longrightarrow> b \<le> length xs \<Longrightarrow> no_panic (slice_at a b xs)"
  by simp

lemma no_panic_byte_at [no_panic_intros]: "i < length xs \<Longrightarrow> no_panic (byte_at i xs)"
  by simp

lemma length_seg [simp]: "length (seg a b xs) = min (b - a) (length xs - a)"
  by (simp add: seg_def)

lemma seg_eq_Nil_iff [simp]: "seg a b xs = [] \<longleftrightarrow> b \<le> a \<or> length xs \<le> a"
  by (auto simp: seg_def)

lemma seg_same [simp]: "seg a a xs = []"
  by (simp add: seg_def)

lemma seg_all [simp]: "length xs \<le> b \<Longrightarrow> seg 0 b xs = xs"
  by (simp add: seg_def)

lemma seg_to_end: "length xs \<le> b \<Longrightarrow> seg a b xs = drop a xs"
  by (simp add: seg_def)

lemma seg_join [simp]:
  "a \<le> b \<Longrightarrow> b \<le> c \<Longrightarrow> seg a b xs @ seg b c xs = seg a c xs"
proof -
  assume "a \<le> b" "b \<le> c"
  then obtain n m where "b = a + n" "c = a + n + m"
    by (metis le_add_diff_inverse)
  then have "seg a b xs = take n (drop a xs)" "seg b c xs = take m (drop n (drop a xs))"
    "seg a c xs = take (n + m) (drop a xs)"
    by (simp_all add: seg_def add.commute)
  then show ?thesis by (simp only: take_add)
qed

lemma seg_join_append [simp]:
  "a \<le> b \<Longrightarrow> b \<le> c \<Longrightarrow> seg a b xs @ seg b c xs @ ys = seg a c xs @ ys"
  by (metis append_assoc seg_join)

lemma seg_Cons_nth: "a < length xs \<Longrightarrow> [xs ! a] = seg a (Suc a) xs"
  by (simp add: seg_def Cons_nth_drop_Suc [symmetric])

lemma seg_Cons: "a < b \<Longrightarrow> a < length xs \<Longrightarrow> seg a b xs = xs ! a # seg (Suc a) b xs"
  by (simp add: seg_def Cons_nth_drop_Suc [symmetric] take_Cons')

lemma seg_append_left [simp]: "b \<le> length xs \<Longrightarrow> seg a b (xs @ ys) = seg a b xs"
  by (cases "a \<le> b") (simp_all add: seg_def)

lemma seg_append_right [simp]:
  "length xs \<le> a \<Longrightarrow> seg a b (xs @ ys) = seg (a - length xs) (b - length xs) ys"
  by (simp add: seg_def)

lemma seg_seg: "b \<le> d - c \<Longrightarrow> seg a b (seg c d xs) = seg (c + a) (c + b) xs"
  by (simp add: seg_def drop_take min_def add.commute)

lemma seg_take [simp]: "b \<le> n \<Longrightarrow> seg a b (take n xs) = seg a b xs"
  by (simp add: seg_def drop_take min_def)

lemma slice_at_take [simp]:
  "b \<le> n \<Longrightarrow> n \<le> length xs \<Longrightarrow> slice_at a b (take n xs) = slice_at a b xs"
  by (simp add: slice_at_def)

lemma byte_at_take [simp]:
  "i < n \<Longrightarrow> n \<le> length xs \<Longrightarrow> byte_at i (take n xs) = byte_at i xs"
  by (simp add: byte_at_def)

lemma seg_prefix [simp]: "length xs = n \<Longrightarrow> seg 0 n (xs @ ys) = xs"
  by (auto simp: seg_def)

lemma seg_nth: "a + i < b \<Longrightarrow> a + i < length xs \<Longrightarrow> seg a b xs ! i = xs ! (a + i)"
  by (simp add: seg_def)

lemma seg_eq_take: "seg 0 b xs = take b xs"
  by (simp add: seg_def)

section \<open>Little-endian fields\<close>

fun nat_le :: "nat \<Rightarrow> nat \<Rightarrow> bytes" where
  "nat_le 0 x = []"
| "nat_le (Suc n) x = of_nat (x mod 256) # nat_le n (x div 256)"

lemma nat_le_numeral [simp]:
  "nat_le (numeral k) x = of_nat (x mod 256) # nat_le (pred_numeral k) (x div 256)"
  by (subst numeral_eq_Suc) (rule nat_le.simps(2))

fun le_nat :: "bytes \<Rightarrow> nat" where
  "le_nat [] = 0"
| "le_nat (b # bs) = unat b + 256 * le_nat bs"

lemma unat_byte_bound: "unat (b :: byte) < 256"
  using unsigned_less [of b] by simp

lemma unat_bounds:
  "unat (a :: u16) < 2 ^ 16" "unat (b :: u32) < 2 ^ 32" "unat (c :: u64) < 2 ^ 64"
  using unsigned_less [of a] unsigned_less [of b] unsigned_less [of c] by simp_all

lemma unat_of_nat_id:
  "n < 2 ^ 16 \<Longrightarrow> unat (of_nat n :: u16) = n" "n < 2 ^ 32 \<Longrightarrow> unat (of_nat n :: u32) = n"
  "n < 2 ^ 64 \<Longrightarrow> unat (of_nat n :: u64) = n"
  by (simp_all add: unat_of_nat)

lemma length_nat_le: "length (nat_le n x) = n"
  by (induction n arbitrary: x) auto

lemma le_nat_bound: "le_nat bs < 256 ^ length bs"
proof (induction bs)
  case (Cons b bs)
  have "unat b < 256" by (rule unat_byte_bound)
  with Cons show ?case by simp
qed simp

lemma le_nat_nat_le: "x < 256 ^ n \<Longrightarrow> le_nat (nat_le n x) = x"
proof (induction n arbitrary: x)
  case (Suc n)
  then have "x div 256 < 256 ^ n" by (simp add: div_less_iff_less_mult)
  with Suc show ?case by (simp add: unat_of_nat)
qed simp

lemma nat_le_le_nat: "length bs = n \<Longrightarrow> nat_le n (le_nat bs) = bs"
proof (induction bs arbitrary: n)
  case (Cons b bs)
  have "unat b < 256" by (rule unat_byte_bound)
  with Cons show ?case by (auto simp: mod_mult_self2 div_mult_self2)
qed simp

text \<open>\<open>to_le_bytes\<close> and \<open>from_le_bytes\<close> at the three widths of the formats.\<close>

definition u16_le :: "u16 \<Rightarrow> bytes" where
  "u16_le w = nat_le 2 (unat w)"

definition u32_le :: "u32 \<Rightarrow> bytes" where
  "u32_le w = nat_le 4 (unat w)"

definition u64_le :: "u64 \<Rightarrow> bytes" where
  "u64_le w = nat_le 8 (unat w)"

definition u16_from_le :: "bytes \<Rightarrow> u16" where
  "u16_from_le bs = of_nat (le_nat bs)"

definition u32_from_le :: "bytes \<Rightarrow> u32" where
  "u32_from_le bs = of_nat (le_nat bs)"

definition u64_from_le :: "bytes \<Rightarrow> u64" where
  "u64_from_le bs = of_nat (le_nat bs)"

lemma length_le_fields [simp]:
  "length (u16_le a) = 2" "length (u32_le b) = 4" "length (u64_le c) = 8"
  by (simp_all only: u16_le_def u32_le_def u64_le_def length_nat_le)

lemma from_to_le [simp]:
  "u16_from_le (u16_le a) = a" "u32_from_le (u32_le b) = b" "u64_from_le (u64_le c) = c"
  using unat_bounds(1) [of a] unat_bounds(2) [of b] unat_bounds(3) [of c]
  by (simp_all del: nat_le_numeral add: u16_from_le_def u32_from_le_def u64_from_le_def
      u16_le_def u32_le_def u64_le_def le_nat_nat_le)

lemma to_from_le:
  "length xs = 2 \<Longrightarrow> u16_le (u16_from_le xs) = xs"
  "length xs = 4 \<Longrightarrow> u32_le (u32_from_le xs) = xs"
  "length xs = 8 \<Longrightarrow> u64_le (u64_from_le xs) = xs"
  using le_nat_bound [of xs]
  by (simp_all del: nat_le_numeral add: u16_from_le_def u32_from_le_def u64_from_le_def
      u16_le_def u32_le_def u64_le_def unat_of_nat nat_le_le_nat)

text \<open>\<open>len().try_into()\<close> to the width of a length field.\<close>

definition len_u8 :: "string \<Rightarrow> bytes \<Rightarrow> byte crypto" where
  "len_u8 e xs = (if length xs < 2 ^ 8 then Ok (of_nat (length xs)) else Err (Format e))"

definition len_u16 :: "string \<Rightarrow> bytes \<Rightarrow> u16 crypto" where
  "len_u16 e xs = (if length xs < 2 ^ 16 then Ok (of_nat (length xs)) else Err (Format e))"

lemma len_u8_Ok_iff [simp]:
  "len_u8 e xs = Ok w \<longleftrightarrow> length xs < 256 \<and> w = of_nat (length xs)"
  by (auto simp: len_u8_def)

lemma len_u16_Ok_iff [simp]:
  "len_u16 e xs = Ok w \<longleftrightarrow> length xs < 65536 \<and> w = of_nat (length xs)"
  by (auto simp: len_u16_def)

lemma no_panic_len [no_panic_intros]: "no_panic (len_u8 e xs)" "no_panic (len_u16 e xs)"
  by (simp_all add: len_u8_def len_u16_def)

lemma len_u8_unat: "length xs = unat b \<Longrightarrow> len_u8 e xs = Ok b"
  using unat_byte_bound [of b] by simp

lemma len_u16_from_le:
  "length xs = unat (u16_from_le ys) \<Longrightarrow> len_u16 e xs = Ok (u16_from_le ys)"
  using unat_bounds(1) [of "u16_from_le ys"] by simp

section \<open>Checked and saturating arithmetic\<close>

text \<open>
  \<open>u64\<close> and \<open>usize\<close> values that only take part in arithmetic are natural numbers; the operations
  whose overflow the code handles are written out at 64 bits.
\<close>

definition U64_MAX :: nat where
  "U64_MAX = 2 ^ 64 - 1"

definition checked_add :: "nat \<Rightarrow> nat \<Rightarrow> nat option" where
  "checked_add a b = (if a + b \<le> U64_MAX then Some (a + b) else None)"

definition checked_mul :: "nat \<Rightarrow> nat \<Rightarrow> nat option" where
  "checked_mul a b = (if a * b \<le> U64_MAX then Some (a * b) else None)"

definition checked_sub :: "nat \<Rightarrow> nat \<Rightarrow> nat option" where
  "checked_sub a b = (if b \<le> a then Some (a - b) else None)"

definition saturating_add :: "nat \<Rightarrow> nat \<Rightarrow> nat" where
  "saturating_add a b = min (a + b) U64_MAX"

definition saturating_mul :: "nat \<Rightarrow> nat \<Rightarrow> nat" where
  "saturating_mul a b = min (a * b) U64_MAX"

definition saturating_sub :: "nat \<Rightarrow> nat \<Rightarrow> nat" where
  "saturating_sub a b = a - b"

definition div_ceil :: "nat \<Rightarrow> nat \<Rightarrow> nat" where
  "div_ceil a b = (if a mod b = 0 then a div b else a div b + 1)"

lemma checked_Some_iff [simp]:
  "checked_add a b = Some c \<longleftrightarrow> c = a + b \<and> a + b \<le> U64_MAX"
  "checked_mul a b = Some c \<longleftrightarrow> c = a * b \<and> a * b \<le> U64_MAX"
  "checked_sub a b = Some c \<longleftrightarrow> c = a - b \<and> b \<le> a"
  by (auto simp: checked_add_def checked_mul_def checked_sub_def)

lemma unat_u64_le_max: "unat (w :: u64) \<le> U64_MAX"
  using unat_bounds(3) [of w] by (simp add: U64_MAX_def)

lemma unat_u32_le_max: "unat (w :: u32) \<le> U64_MAX"
  using unat_bounds(2) [of w] by (simp add: U64_MAX_def)

lemma less_div_ceil_iff:
  assumes b: "0 < b"
  shows "n < div_ceil a b \<longleftrightarrow> n * b < a"
proof -
  define q r where "q = a div b" and "r = a mod b"
  have a: "a = q * b + r" and r: "r < b"
    using b by (simp_all add: q_def r_def)
  have less: "n * b \<le> q * b" if "n \<le> q" using that by simp
  have ge: "q * b + b \<le> n * b" if "q < n"
  proof -
    have "Suc q * b \<le> n * b" using that by (intro mult_le_mono) simp_all
    then show ?thesis by simp
  qed
  have eq: "div_ceil a b = (if r = 0 then q else q + 1)"
    by (simp add: div_ceil_def q_def r_def)
  show ?thesis
  proof (cases "r = 0")
    case True
    then show ?thesis unfolding eq using a b by simp
  next
    case False
    have "n * b < q * b + r" if "n \<le> q"
      using less [OF that] False by linarith
    moreover have "\<not> n * b < q * b + r" if "q < n"
      using ge [OF that] r by simp
    ultimately have "n < q + 1 \<longleftrightarrow> n * b < q * b + r"
      by (cases "n \<le> q") (simp_all add: not_le)
    then show ?thesis unfolding eq using a False by simp
  qed
qed

lemma div_ceil_0 [simp]: "div_ceil 0 b = 0"
  by (simp add: div_ceil_def)

lemma div_ceil_le:
  assumes "0 < b"
  shows "div_ceil a b \<le> a"
proof (rule ccontr)
  assume "\<not> div_ceil a b \<le> a"
  then have "a * b < a" using less_div_ceil_iff [OF assms] by (simp add: not_le)
  then show False using assms by simp
qed

section \<open>Interfaces: what a build and a parse function promise\<close>

text \<open>
  A self-delimiting format: the bytes a value is built to, followed by anything, parse to the
  value, and whatever parses starts with the bytes of the value it parses to. A client that
  stores the bytes gets from this that no two values share an image and that a value has one
  encoding only.
\<close>

locale prefix_format =
  fixes build :: "'a \<Rightarrow> bytes"
    and parse :: "bytes \<Rightarrow> 'a crypto"
    and valid :: "'a \<Rightarrow> bool"
  assumes parse_build: "valid x \<Longrightarrow> parse (build x @ r) = Ok x"
    and build_parse: "parse bs = Ok x \<Longrightarrow> valid x \<and> (\<exists>r. bs = build x @ r)"
begin

lemma parse_iff: "parse bs = Ok x \<longleftrightarrow> valid x \<and> (\<exists>r. bs = build x @ r)"
  using parse_build build_parse by metis

lemma build_inj: "valid x \<Longrightarrow> valid y \<Longrightarrow> build x = build y \<Longrightarrow> x = y"
  using parse_build [of x "[]"] parse_build [of y "[]"] by simp

lemma prefix_free:
  "valid x \<Longrightarrow> valid y \<Longrightarrow> build x @ r = build y @ s \<Longrightarrow> x = y \<and> r = s"
  by (metis parse_build same_append_eq sum.inject(2))

end

text \<open>
  A format that must be the whole input, whose builder can refuse a value: parsing and building
  are inverse on the valid values, and nothing but a built value parses.
\<close>

locale exact_format =
  fixes build :: "'a \<Rightarrow> bytes crypto"
    and parse :: "bytes \<Rightarrow> 'a crypto"
    and valid :: "'a \<Rightarrow> bool"
  assumes build_total: "valid x \<Longrightarrow> \<exists>bs. build x = Ok bs"
    and parse_build: "valid x \<Longrightarrow> build x = Ok bs \<Longrightarrow> parse bs = Ok x"
    and build_parse: "parse bs = Ok x \<Longrightarrow> valid x \<and> build x = Ok bs"
begin

lemma parse_iff: "parse bs = Ok x \<longleftrightarrow> valid x \<and> build x = Ok bs"
  using parse_build build_parse by metis

lemma build_inj: "valid x \<Longrightarrow> valid y \<Longrightarrow> build x = build y \<Longrightarrow> x = y"
  using build_total parse_build by (metis sum.inject(2))

lemma parse_inj: "parse bs = Ok x \<Longrightarrow> parse cs = Ok x \<Longrightarrow> bs = cs"
  using build_parse by (metis sum.inject(2))

lemma parses_image: "(\<exists>x. parse bs = Ok x) \<longleftrightarrow> (\<exists>x. valid x \<and> build x = Ok bs)"
  using parse_iff by blast

end

section \<open>Splitting a string\<close>

text \<open>\<open>str::split\<close> at a separator byte, and \<open>join\<close>.\<close>

fun split_on :: "byte \<Rightarrow> str \<Rightarrow> str list" where
  "split_on c [] = [[]]"
| "split_on c (x # xs) =
     (if x = c then [] # split_on c xs
      else case split_on c xs of s # ss \<Rightarrow> (x # s) # ss | [] \<Rightarrow> [[x]])"

fun join_with :: "byte \<Rightarrow> str list \<Rightarrow> str" where
  "join_with c [] = []"
| "join_with c [s] = s"
| "join_with c (s # ss) = s @ c # join_with c ss"

lemma split_on_neq_Nil [simp]: "split_on c xs \<noteq> []"
  by (induction xs) (auto split: list.splits)

lemma join_split_on: "join_with c (split_on c xs) = xs"
proof (induction xs)
  case (Cons x xs)
  obtain s ss where "split_on c xs = s # ss"
    by (metis neq_Nil_conv split_on_neq_Nil)
  with Cons show ?case by (cases ss) auto
qed simp

lemma split_on_no_sep: "s \<in> set (split_on c xs) \<Longrightarrow> c \<notin> set s"
  by (induction xs arbitrary: s) (auto split: list.splits if_splits)

lemma split_on_single: "c \<notin> set s \<Longrightarrow> split_on c s = [s]"
  by (induction s) auto

lemma split_on_append_sep: "c \<notin> set s \<Longrightarrow> split_on c (s @ c # xs) = s # split_on c xs"
  by (induction s) auto

lemma split_on_join:
  "ss \<noteq> [] \<Longrightarrow> \<forall>s\<in>set ss. c \<notin> set s \<Longrightarrow> split_on c (join_with c ss) = ss"
  by (induction c ss rule: join_with.induct) (auto simp: split_on_single split_on_append_sep)

lemma split_on_inj: "split_on c xs = split_on c ys \<Longrightarrow> xs = ys"
  by (metis join_split_on)

lemma set_split_on_subset: "s \<in> set (split_on c xs) \<Longrightarrow> set s \<subseteq> set xs"
proof (induction xs arbitrary: s)
  case (Cons x xs)
  obtain t ts where "split_on c xs = t # ts"
    by (metis neq_Nil_conv split_on_neq_Nil)
  with Cons.IH [of t] Cons.IH [of s] Cons.prems show ?case by (auto split: if_splits)
qed simp

lemma hd_split_on_Nil: "hd (split_on c xs) = [] \<longleftrightarrow> xs = [] \<or> hd xs = c"
  by (cases xs) (auto split: list.splits)

lemma last_split_on_Nil: "last (split_on c xs) = [] \<longleftrightarrow> xs = [] \<or> last xs = c"
proof (induction xs)
  case (Cons x xs)
  obtain s ss where "split_on c xs = s # ss"
    by (metis neq_Nil_conv split_on_neq_Nil)
  with Cons join_split_on [of c xs] show ?case by (cases ss) (auto split: if_splits)
qed simp

end
