(* ===== verification/Utf8.thy ===== *)
theory Utf8
  imports Prelude
begin

text \<open>
  UTF-8 as Rust's standard library reads it: the decoder behind \<open>str::chars\<close> and the check of
  \<open>String::from_utf8\<close>, by the table of well-formed byte sequences of the Unicode standard (no
  overlong form, no surrogate, nothing above \<open>0x10FFFF\<close>).
\<close>

definition continuation :: "byte \<Rightarrow> bool" where
  "continuation b \<longleftrightarrow> 0x80 \<le> b \<and> b \<le> 0xBF"

definition ascii :: "byte \<Rightarrow> bool" where
  "ascii b \<longleftrightarrow> b \<le> 0x7F"

text \<open>The first bytes of the sequences of two, three and four bytes.\<close>

definition lead2 :: "byte \<Rightarrow> bool" where
  "lead2 a \<longleftrightarrow> 0xC2 \<le> a \<and> a \<le> 0xDF"

definition lead3 :: "byte \<Rightarrow> bool" where
  "lead3 a \<longleftrightarrow> 0xE0 \<le> a \<and> a \<le> 0xEF"

definition lead4 :: "byte \<Rightarrow> bool" where
  "lead4 a \<longleftrightarrow> 0xF0 \<le> a \<and> a \<le> 0xF4"

text \<open>The admissible second byte after a given first byte of a sequence of three or four.\<close>

definition second_ok :: "byte \<Rightarrow> byte \<Rightarrow> bool" where
  "second_ok a b \<longleftrightarrow>
     (if a = 0xE0 then 0xA0 \<le> b \<and> b \<le> 0xBF
      else if a = 0xED then 0x80 \<le> b \<and> b \<le> 0x9F
      else if a = 0xF0 then 0x90 \<le> b \<and> b \<le> 0xBF
      else if a = 0xF4 then 0x80 \<le> b \<and> b \<le> 0x8F
      else continuation b)"

definition low6 :: "byte \<Rightarrow> nat" where
  "low6 b = unat b mod 64"

fun utf8_chars :: "bytes \<Rightarrow> nat list option" where
  "utf8_chars [] = Some []"
| "utf8_chars (a # as) =
     (if ascii a then map_option ((#) (unat a)) (utf8_chars as)
      else if lead2 a then
        (case as of
           b # bs \<Rightarrow>
             if continuation b
             then map_option ((#) (unat a mod 32 * 64 + low6 b)) (utf8_chars bs) else None
         | _ \<Rightarrow> None)
      else if lead3 a then
        (case as of
           b # c # cs \<Rightarrow>
             if second_ok a b \<and> continuation c
             then map_option ((#) (unat a mod 16 * 4096 + low6 b * 64 + low6 c)) (utf8_chars cs)
             else None
         | _ \<Rightarrow> None)
      else if lead4 a then
        (case as of
           b # c # d # ds \<Rightarrow>
             if second_ok a b \<and> continuation c \<and> continuation d
             then map_option ((#) (unat a mod 8 * 262144 + low6 b * 4096 + low6 c * 64 + low6 d))
               (utf8_chars ds)
             else None
         | _ \<Rightarrow> None)
      else None)"

definition utf8_valid :: "bytes \<Rightarrow> bool" where
  "utf8_valid bs \<longleftrightarrow> utf8_chars bs \<noteq> None"

definition chars :: "str \<Rightarrow> nat list" where
  "chars s = (case utf8_chars s of Some cs \<Rightarrow> cs | None \<Rightarrow> [])"

text \<open>\<open>String::from_utf8\<close> with the error the caller maps a failure to.\<close>

definition from_utf8 :: "crypto_error \<Rightarrow> bytes \<Rightarrow> str crypto" where
  "from_utf8 e bs = (if utf8_valid bs then Ok bs else Err e)"

lemma from_utf8_Ok_iff [simp]: "from_utf8 e bs = Ok s \<longleftrightarrow> utf8_valid bs \<and> s = bs"
  by (auto simp: from_utf8_def)

lemma no_panic_from_utf8 [no_panic_intros]: "e \<noteq> Panic \<Longrightarrow> no_panic (from_utf8 e bs)"
  by (simp add: from_utf8_def)

lemma utf8_valid_Nil [simp]: "utf8_valid []"
  by (simp add: utf8_valid_def)

lemma utf8_valid_ascii: "\<forall>b\<in>set bs. ascii b \<Longrightarrow> utf8_valid bs"
  by (induction bs) (auto simp: utf8_valid_def)

lemma chars_ascii: "\<forall>b\<in>set bs. ascii b \<Longrightarrow> chars bs = map unat bs"
  using utf8_valid_ascii
  by (induction bs) (auto simp: chars_def utf8_valid_def split: option.splits)

text \<open>A byte below \<open>0x80\<close> always stands for itself.\<close>

lemma ascii_not_tail: "ascii b \<Longrightarrow> \<not> continuation b" "ascii b \<Longrightarrow> \<not> second_ok a b"
  by (simp_all add: ascii_def continuation_def second_ok_def word_le_nat_alt)

lemma ascii_not_lead: "ascii b \<Longrightarrow> \<not> lead2 b" "ascii b \<Longrightarrow> \<not> lead3 b" "ascii b \<Longrightarrow> \<not> lead4 b"
  by (simp_all add: ascii_def lead2_def lead3_def lead4_def word_le_nat_alt)

lemma utf8_chars_step:
  assumes "utf8_chars (a # as) = Some cs"
  obtains pre suf c cs' where "a # as = pre @ suf" "pre \<noteq> []" "cs = c # cs'"
    "utf8_chars suf = Some cs'" "\<forall>b\<in>set pre. ascii b \<longrightarrow> unat b = c"
proof (cases "ascii a")
  case True
  with assms obtain cs' where "utf8_chars as = Some cs'" "cs = unat a # cs'" by auto
  with that [of "[a]" as] show ?thesis by simp
next
  case False
  consider (two) "lead2 a" | (three) "\<not> lead2 a" "lead3 a"
    | (four) "\<not> lead2 a" "\<not> lead3 a" "lead4 a"
    using assms False by (auto split: if_splits)
  then show ?thesis
  proof cases
    case two
    with assms False obtain b bs where "as = b # bs" "continuation b"
      by (auto split: list.splits if_splits)
    with assms False two that [of "[a, b]" bs] show ?thesis by (auto dest: ascii_not_tail)
  next
    case three
    with assms False obtain b c bs where "as = b # c # bs" "second_ok a b" "continuation c"
      by (auto split: list.splits if_splits)
    with assms False three that [of "[a, b, c]" bs] show ?thesis by (auto dest: ascii_not_tail)
  next
    case four
    with assms False obtain b c d bs where "as = b # c # d # bs" "second_ok a b"
      "continuation c" "continuation d"
      by (auto split: list.splits if_splits)
    with assms False four that [of "[a, b, c, d]" bs] show ?thesis
      by (auto dest: ascii_not_tail)
  qed
qed

lemma ascii_byte_in_chars:
  "utf8_chars bs = Some cs \<Longrightarrow> b \<in> set bs \<Longrightarrow> ascii b \<Longrightarrow> unat b \<in> set cs"
proof (induction bs arbitrary: cs rule: length_induct)
  case (1 bs)
  show ?case
  proof (cases bs)
    case (Cons a as)
    from "1.prems"(1) obtain pre suf c cs' where split: "bs = pre @ suf" "pre \<noteq> []"
      "cs = c # cs'" "utf8_chars suf = Some cs'" "\<forall>b\<in>set pre. ascii b \<longrightarrow> unat b = c"
      unfolding Cons by (blast elim: utf8_chars_step)
    from split(1,2) have "length suf < length bs" by simp
    then have "unat b \<in> set cs'" if "b \<in> set suf"
      using "1.IH" "1.prems"(3) split(4) that by blast
    with "1.prems"(2,3) split(1,3,5) show ?thesis by auto
  qed (use "1.prems" in simp)
qed

end
