(* ===== verification/Glob.thy ===== *)
theory Glob
  imports Utf8
begin

text \<open>
  \<open>dctl-cli/src/filter/glob.rs\<close>: the pattern language of the filters. A pattern is parsed into nodes, the
  nodes are compiled into a program, and the program is run over all its live states at once. A \<open>char\<close> is
  its code point, as in \<open>chars\<close> of \<open>Utf8\<close>.
\<close>

section \<open>Constants\<close>

definition PATH_SEPARATOR :: nat where [simp]: "PATH_SEPARATOR = 47"
definition GLOB_ANY_SEQUENCE :: nat where [simp]: "GLOB_ANY_SEQUENCE = 42"
definition GLOB_ANY_CHAR :: nat where [simp]: "GLOB_ANY_CHAR = 63"
definition GLOB_CLASS_OPEN :: nat where [simp]: "GLOB_CLASS_OPEN = 91"
definition GLOB_CLASS_CLOSE :: nat where [simp]: "GLOB_CLASS_CLOSE = 93"
definition GLOB_CLASS_NEGATE :: "nat list" where [simp]: "GLOB_CLASS_NEGATE = [33, 94]"
definition GLOB_CLASS_RANGE :: nat where [simp]: "GLOB_CLASS_RANGE = 45"
definition GLOB_ESCAPE :: nat where [simp]: "GLOB_ESCAPE = 92"
definition GLOB_ALTERNATION_OPEN :: nat where [simp]: "GLOB_ALTERNATION_OPEN = 123"
definition GLOB_ALTERNATION_CLOSE :: nat where [simp]: "GLOB_ALTERNATION_CLOSE = 125"
definition GLOB_ALTERNATION_SEPARATOR :: nat where [simp]: "GLOB_ALTERNATION_SEPARATOR = 44"
definition GLOB_MAX_PATTERN_CHARS :: nat where [simp]: "GLOB_MAX_PATTERN_CHARS = 1024"
definition GLOB_MAX_NESTING_DEPTH :: nat where [simp]: "GLOB_MAX_NESTING_DEPTH = 16"
definition GLOB_MAX_INSTRUCTIONS :: nat where [simp]: "GLOB_MAX_INSTRUCTIONS = 4 * GLOB_MAX_PATTERN_CHARS"

section \<open>Failure\<close>

datatype pattern_problem =
    Empty
  | UnclosedClass
  | UnclosedAlternation
  | TrailingEscape
  | ReversedRange nat nat
  | TooLong nat
  | TooDeep nat
  | TooComplex nat
  | UnsupportedClass string

record pattern_error =
  pe_pattern :: str
  pe_position :: nat
  pe_problem :: pattern_problem

section \<open>Nodes\<close>

datatype class_item = Char nat | Range nat nat

fun item_contains :: "class_item \<Rightarrow> nat \<Rightarrow> bool" where
  "item_contains (Char c) candidate \<longleftrightarrow> c = candidate"
| "item_contains (Range low high) candidate \<longleftrightarrow> low \<le> candidate \<and> candidate \<le> high"

datatype node =
    Literal nat
  | AnyChar
  | Star
  | Globstar
  | Class bool "class_item list"
  | Alternation "node list list"

section \<open>The parser\<close>

text \<open>The fields of the parser that stay; the index and the depth are threaded.\<close>

record parser =
  ps_pattern :: str
  ps_chars :: "nat list"

definition fail :: "parser \<Rightarrow> nat \<Rightarrow> pattern_problem \<Rightarrow> pattern_error + 'a" where
  "fail ps position problem =
     Err \<lparr>pe_pattern = ps_pattern ps, pe_position = position, pe_problem = problem\<rparr>"

definition char_at :: "parser \<Rightarrow> nat \<Rightarrow> nat option" where
  "char_at ps i = (if i < length (ps_chars ps) then Some (ps_chars ps ! i) else None)"

definition new_parser :: "str \<Rightarrow> pattern_error + parser" where
  "new_parser pattern =
     (let ps = \<lparr>ps_pattern = pattern, ps_chars = chars pattern\<rparr> in
      if ps_chars ps = [] then fail ps 0 Empty
      else if GLOB_MAX_PATTERN_CHARS < length (ps_chars ps)
        then fail ps GLOB_MAX_PATTERN_CHARS (TooLong GLOB_MAX_PATTERN_CHARS)
      else Ok ps)"

definition named_class_at :: "parser \<Rightarrow> nat \<Rightarrow> string option" where
  "named_class_at ps i =
     (if char_at ps i = Some GLOB_CLASS_OPEN \<and> char_at ps (i + 1) = Some 58 then Some ''[:...:]''
      else if char_at ps i = Some GLOB_ESCAPE then
        (case char_at ps (i + 1) of
           None \<Rightarrow> None
         | Some letter \<Rightarrow>
             if letter = 100 then Some [CHR 92, CHR ''d'']
             else if letter = 68 then Some [CHR 92, CHR ''D'']
             else if letter = 115 then Some [CHR 92, CHR ''s'']
             else if letter = 83 then Some [CHR 92, CHR ''S'']
             else if letter = 119 then Some [CHR 92, CHR ''w'']
             else if letter = 87 then Some [CHR 92, CHR ''W'']
             else None)
      else None)"

text \<open>The character that an item of a class starts with, and where it is.\<close>

definition class_low :: "parser \<Rightarrow> nat \<Rightarrow> nat \<Rightarrow> pattern_error + nat \<times> nat" where
  "class_low ps i current =
     (if current = GLOB_ESCAPE then
        (case char_at ps (i + 1) of
           None \<Rightarrow> fail ps i TrailingEscape
         | Some escaped \<Rightarrow> Ok (escaped, i + 1))
      else Ok (current, i))"

text \<open>The character that ends a range which opens after position \<open>i\<close>.\<close>

definition range_high :: "parser \<Rightarrow> nat \<Rightarrow> nat option" where
  "range_high ps i =
     (if char_at ps (i + 1) = Some GLOB_CLASS_RANGE
      then (case char_at ps (i + 2) of
          None \<Rightarrow> None
        | Some c \<Rightarrow> if c \<noteq> GLOB_CLASS_CLOSE then Some c else None)
      else None)"

lemma class_low_index: "class_low ps i current = Ok (low, j) \<Longrightarrow> i \<le> j"
  by (auto simp: class_low_def fail_def split: if_splits option.splits)

lemma char_at_bound: "char_at ps i = Some c \<Longrightarrow> i < length (ps_chars ps)"
  by (auto simp: char_at_def split: if_splits)

function class_items ::
  "parser \<Rightarrow> nat \<Rightarrow> bool \<Rightarrow> nat \<Rightarrow> bool \<Rightarrow> class_item list \<Rightarrow> pattern_error + node \<times> nat" where
  "class_items ps start negated i first items =
     (case char_at ps i of
        None \<Rightarrow> fail ps start UnclosedClass
      | Some current \<Rightarrow>
          if current = GLOB_CLASS_CLOSE \<and> \<not> first then Ok (Class negated items, i + 1)
          else (case named_class_at ps i of
              Some named \<Rightarrow> fail ps i (UnsupportedClass named)
            | None \<Rightarrow>
                and_then (class_low ps i current) (\<lambda>(low, j).
                case range_high ps j of
                  Some high \<Rightarrow>
                    if high < low then fail ps j (ReversedRange low high)
                    else class_items ps start negated (j + 3) False (items @ [Range low high])
                | None \<Rightarrow> class_items ps start negated (j + 1) False (items @ [Char low]))))"
  by pat_completeness auto
termination
  by (relation "measure (\<lambda>(ps, _, _, i, _, _). length (ps_chars ps) - i)")
    (auto dest!: char_at_bound class_low_index)

declare class_items.simps [simp del]

definition class_node :: "parser \<Rightarrow> nat \<Rightarrow> pattern_error + node \<times> nat" where
  "class_node ps start =
     (let negated = (case char_at ps (start + 1) of None \<Rightarrow> False | Some c \<Rightarrow> c \<in> set GLOB_CLASS_NEGATE) in
      class_items ps start negated (if negated then start + 2 else start + 1) True [])"

text \<open>
  \<open>sequence\<close> and the loop of \<open>alternation\<close>, which call each other. The depth is a parameter, as each
  \<open>alternation\<close> that succeeds restores it.
\<close>

function sequence ::
    "parser \<Rightarrow> nat \<Rightarrow> bool \<Rightarrow> nat \<Rightarrow> node list \<Rightarrow> pattern_error + node list \<times> nat"
  and branches ::
    "parser \<Rightarrow> nat \<Rightarrow> nat \<Rightarrow> nat \<Rightarrow> node list list \<Rightarrow> pattern_error + node list list \<times> nat" where
  "sequence ps depth inside i nodes =
     (case char_at ps i of
        None \<Rightarrow> Ok (nodes, i)
      | Some current \<Rightarrow>
          if inside \<and> (current = GLOB_ALTERNATION_SEPARATOR \<or> current = GLOB_ALTERNATION_CLOSE)
            then Ok (nodes, i)
          else if current = GLOB_ESCAPE then
            (case char_at ps (i + 1) of
               None \<Rightarrow> fail ps i TrailingEscape
             | Some escaped \<Rightarrow> sequence ps depth inside (i + 2) (nodes @ [Literal escaped]))
          else if current = GLOB_ANY_SEQUENCE then
            (if char_at ps (i + 1) = Some GLOB_ANY_SEQUENCE
             then sequence ps depth inside (i + 2) (nodes @ [Globstar])
             else sequence ps depth inside (i + 1) (nodes @ [Star]))
          else if current = GLOB_ANY_CHAR then sequence ps depth inside (i + 1) (nodes @ [AnyChar])
          else if current = GLOB_CLASS_OPEN then
            and_then (class_node ps i) (\<lambda>(n, j). sequence ps depth inside j (nodes @ [n]))
          else if current = GLOB_ALTERNATION_OPEN then
            (if GLOB_MAX_NESTING_DEPTH < depth + 1 then fail ps i (TooDeep GLOB_MAX_NESTING_DEPTH)
             else and_then (branches ps (depth + 1) i (i + 1) []) (\<lambda>(bs, j).
               sequence ps depth inside j (nodes @ [Alternation bs])))
          else sequence ps depth inside (i + 1) (nodes @ [Literal current]))"
| "branches ps depth start i bs =
     and_then (sequence ps depth True i []) (\<lambda>(b, j).
     if char_at ps j = Some GLOB_ALTERNATION_SEPARATOR then branches ps depth start (j + 1) (bs @ [b])
     else if char_at ps j = Some GLOB_ALTERNATION_CLOSE then Ok (bs @ [b], j + 1)
     else fail ps start UnclosedAlternation)"
  by pat_completeness auto

text \<open>Both only move forward, which ends the loops.\<close>

lemma class_items_index: "class_items ps start negated i first items = Ok (n, j) \<Longrightarrow> i < j"
proof (induction ps start negated i first items rule: class_items.induct)
  case (1 ps start negated i first items)
  note run = 1(3) [unfolded class_items.simps [of ps start negated i]]
  show ?case
  proof (cases "char_at ps i")
    case None
    with run show ?thesis by (simp add: fail_def)
  next
    case c: (Some c)
    show ?thesis
    proof (cases "(c = GLOB_CLASS_CLOSE \<and> \<not> first) \<or> named_class_at ps i \<noteq> None")
      case True
      with run c show ?thesis by (auto simp: fail_def split: if_splits)
    next
      case False
      then have named: "named_class_at ps i = None" and opens: "\<not> (c = GLOB_CLASS_CLOSE \<and> \<not> first)" by auto
      with run c obtain low l where low: "class_low ps i c = Ok (low, l)"
        by (cases "class_low ps i c") auto
      show ?thesis
      proof (cases "range_high ps l")
        case None
        with run c named opens low 1(1) [OF c opens named low refl None]  class_low_index [OF low] show ?thesis by auto
      next
        case (Some high)
        with run c named opens low class_low_index [OF low] 1(2) [OF c opens named low refl Some] show ?thesis
          by (auto simp: fail_def split: if_splits)
      qed
    qed
  qed
qed

lemma class_node_index: "class_node ps i = Ok (n, j) \<Longrightarrow> i < j"
  by (auto simp: class_node_def Let_def split: if_splits dest!: class_items_index)

lemma parse_index:
  "sequence_branches_dom (Inl (ps, depth, inside, i, nodes)) \<Longrightarrow>
    sequence ps depth inside i nodes = Ok (ns, j) \<Longrightarrow> i \<le> j"
  "sequence_branches_dom (Inr (ps, depth', start, i', bs)) \<Longrightarrow>
    branches ps depth' start i' bs = Ok (bs', j') \<Longrightarrow> i' < j'"
proof (induction ps depth inside i nodes and ps depth' start i' bs arbitrary: ns j and bs' j'
    rule: sequence_branches.pinduct)
  case (1 ps depth inside i nodes)
  note run = "1.prems" [unfolded sequence.psimps [OF 1(1)]]
  show ?case
  proof (cases "char_at ps i")
    case None
    with run show ?thesis by simp
  next
    case c: (Some c)
    consider (stop) "inside \<and> (c = GLOB_ALTERNATION_SEPARATOR \<or> c = GLOB_ALTERNATION_CLOSE)"
      | (goes) "\<not> (inside \<and> (c = GLOB_ALTERNATION_SEPARATOR \<or> c = GLOB_ALTERNATION_CLOSE))" by blast
    then show ?thesis
    proof cases
      case stop
      with run c show ?thesis by simp
    next
      case goes
      note run = run [unfolded c option.case if_not_P [OF goes]]
      consider "c = GLOB_ESCAPE" | "c = GLOB_ANY_SEQUENCE" | "c = GLOB_ANY_CHAR" | "c = GLOB_CLASS_OPEN"
        | (alt) "c = GLOB_ALTERNATION_OPEN" | (other) "c \<noteq> GLOB_ESCAPE" "c \<noteq> GLOB_ANY_SEQUENCE" "c \<noteq> GLOB_ANY_CHAR"
          "c \<noteq> GLOB_CLASS_OPEN" "c \<noteq> GLOB_ALTERNATION_OPEN" by blast
      then show ?thesis
      proof cases
        case 1
        with run obtain e where e: "char_at ps (i + 1) = Some e" "sequence ps depth inside (i + 2) (nodes @ [Literal e]) = Ok (ns, j)"
          by (auto simp: fail_def split: option.splits)
        from "1.IH"(1) [OF c goes 1 e] show ?thesis by simp
      next
        case 2
        with run "1.IH"(2,3) [OF c goes] show ?thesis by (auto split: if_splits)
      next
        case 3
        with run "1.IH"(4) [OF c goes] show ?thesis by auto
      next
        case 4
        with run obtain n l where n: "class_node ps i = Ok (n, l)" "sequence ps depth inside l (nodes @ [n]) = Ok (ns, j)"
          by (auto simp: and_then_Ok_iff)
        from "1.IH"(5) [OF c goes _ _ _ 4 n(1) refl n(2)] class_node_index [OF n(1)] show ?thesis by (simp add: 4)
      next
        case alt
        with run obtain b l where n: "\<not> GLOB_MAX_NESTING_DEPTH < depth + 1" "branches ps (depth + 1) i (i + 1) [] = Ok (b, l)"
          "sequence ps depth inside l (nodes @ [Alternation b]) = Ok (ns, j)"
          by (auto simp: and_then_Ok_iff fail_def split: if_splits)
        from "1.IH"(6) [OF c goes _ _ _ _ alt n(1,2)] "1.IH"(7) [OF c goes _ _ _ _ alt n(1,2) refl n(3)] show ?thesis
          by (simp add: alt)
      next
        case other
        with run "1.IH"(8) [OF c goes] show ?thesis by auto
      qed
    qed
  qed
next
  case (2 ps depth start i bs)
  from "2.prems" [unfolded branches.psimps [OF 2(1)]] obtain b j where b: "sequence ps depth True i [] = Ok (b, j)"
    "(if char_at ps j = Some GLOB_ALTERNATION_SEPARATOR then branches ps depth start (j + 1) (bs @ [b])
      else if char_at ps j = Some GLOB_ALTERNATION_CLOSE then Ok (bs @ [b], j + 1)
      else fail ps start UnclosedAlternation) = Ok (bs', j')"
    by (auto simp: and_then_Ok_iff)
  with "2.IH"(1) [OF b(1)] "2.IH"(2) [OF b(1) refl] show ?case
    by (auto simp: fail_def split: if_splits)
qed

termination sequence
proof (relation "measure (\<lambda>x. case x of
    Inl (ps, _, _, i, _) \<Rightarrow> 2 * (length (ps_chars ps) + 2 - i)
  | Inr (ps, _, _, i, _) \<Rightarrow> 2 * (length (ps_chars ps) + 2 - i) + 1)", goal_cases)
  case 1 show ?case by simp
qed (auto dest!: char_at_bound class_node_index parse_index)

declare sequence.simps [simp del] branches.simps [simp del]

section \<open>The program\<close>

datatype char_test = Exact nat | WithinComponent | AcrossComponents | ClassTest bool "class_item list"

fun test_admits :: "char_test \<Rightarrow> nat \<Rightarrow> bool" where
  "test_admits (Exact expected) candidate \<longleftrightarrow> expected = candidate"
| "test_admits WithinComponent candidate \<longleftrightarrow> candidate \<noteq> PATH_SEPARATOR"
| "test_admits AcrossComponents candidate \<longleftrightarrow> True"
| "test_admits (ClassTest negated items) candidate \<longleftrightarrow>
     candidate \<noteq> PATH_SEPARATOR \<and> list_ex (\<lambda>item. item_contains item candidate) items \<noteq> negated"

datatype inst = Consume char_test | Split nat nat | Jump nat | Match

text \<open>The program is the list of its instructions; \<open>push\<close> appends and \<open>here\<close> is the length.\<close>

definition patch :: "inst list \<Rightarrow> nat \<Rightarrow> inst \<Rightarrow> inst list" where
  "patch insts at inst = (if at < length insts then insts[at := inst] else insts)"

definition emit_repeat :: "char_test \<Rightarrow> inst list \<Rightarrow> inst list" where
  "emit_repeat test p =
     (let split = length p; p = p @ [Jump 0];
          body = length p; p = p @ [Consume test];
          p = p @ [Jump split];
          after = length p in
      patch p split (Split body after))"

text \<open>\<open>emit\<close>, and \<open>emit_alternation\<close> with the escapes so far: the last branch needs none.\<close>

fun emit :: "node list \<Rightarrow> inst list \<Rightarrow> inst list"
  and emit_branches :: "node list list \<Rightarrow> nat list \<Rightarrow> inst list \<Rightarrow> inst list" where
  "emit [] p = p"
| "emit (n # ns) p = emit ns (case n of
     Literal c \<Rightarrow> p @ [Consume (Exact c)]
   | AnyChar \<Rightarrow> p @ [Consume WithinComponent]
   | Class negated items \<Rightarrow> p @ [Consume (ClassTest negated items)]
   | Star \<Rightarrow> emit_repeat WithinComponent p
   | Globstar \<Rightarrow> emit_repeat AcrossComponents p
   | Alternation bs \<Rightarrow> emit_branches bs [] p)"
| "emit_branches [] escapes p = p"
| "emit_branches [b] escapes p =
     (let p = emit b p; stop = length p in fold (\<lambda>escape p. patch p escape (Jump stop)) escapes p)"
| "emit_branches (b # b' # bs) escapes p =
     (let split = length p; p = p @ [Jump 0];
          start = length p; p = emit b p;
          escape = length p; p = p @ [Jump 0];
          following = length p in
      emit_branches (b' # bs) (escapes @ [escape]) (patch p split (Split start following)))"

definition compile_glob :: "str \<Rightarrow> pattern_error + inst list" where
  "compile_glob pattern =
     and_then (new_parser pattern) (\<lambda>ps.
     and_then (sequence ps 0 False 0 []) (\<lambda>(nodes, i).
     if i < length (ps_chars ps) then fail ps i UnclosedAlternation
     else let program = emit nodes [] @ [Match] in
       if GLOB_MAX_INSTRUCTIONS < length program then fail ps 0 (TooComplex GLOB_MAX_INSTRUCTIONS)
       else Ok program))"

section \<open>The matcher\<close>

definition inst_at :: "inst list \<Rightarrow> nat \<Rightarrow> inst option" where
  "inst_at program pc = (if pc < length program then Some (program ! pc) else None)"

lemma unseen_less:
  assumes "pc < length seen" "\<not> seen ! pc"
  shows "length (filter Not (seen[pc := True])) < length (filter Not seen)"
  using assms
proof (induction seen arbitrary: pc)
  case (Cons s seen)
  then show ?case by (cases pc) auto
qed simp

text \<open>
  Following the jumps and splits from the pending states. Each round marks a state or drops one; the
  stack is a list with its top first.
\<close>

function spawn_loop :: "inst list \<Rightarrow> nat list \<Rightarrow> nat list \<Rightarrow> bool list \<Rightarrow> nat list \<times> bool list" where
  "spawn_loop program [] found seen = (found, seen)"
| "spawn_loop program (pc # pending) found seen =
     (if pc < length seen \<and> \<not> seen ! pc
      then (case inst_at program pc of
          Some (Jump target) \<Rightarrow> spawn_loop program (target # pending) found (seen[pc := True])
        | Some (Split one two) \<Rightarrow> spawn_loop program (one # two # pending) found (seen[pc := True])
        | Some (Consume _) \<Rightarrow> spawn_loop program pending (found @ [pc]) (seen[pc := True])
        | Some Match \<Rightarrow> spawn_loop program pending (found @ [pc]) (seen[pc := True])
        | None \<Rightarrow> spawn_loop program pending found (seen[pc := True]))
      else spawn_loop program pending found seen)"
  by pat_completeness auto

termination
  by (relation "(\<lambda>(_, pending, _, seen). length (filter Not seen)) <*mlex*> measure (\<lambda>(_, pending, _, _). length pending)")
    (auto simp: mlex_iff unseen_less intro: wf_mlex)

definition spawn :: "inst list \<Rightarrow> nat \<Rightarrow> nat list \<times> bool list \<Rightarrow> nat list \<times> bool list" where
  "spawn program start = (\<lambda>(found, seen). spawn_loop program [start] found seen)"

text \<open>One character: every live state that admits it is followed, into a fresh set.\<close>

fun advance :: "inst list \<Rightarrow> nat \<Rightarrow> nat list \<Rightarrow> nat list \<times> bool list \<Rightarrow> nat list \<times> bool list" where
  "advance program character [] acc = acc"
| "advance program character (pc # live) acc = advance program character live
     (case inst_at program pc of
        Some (Consume test) \<Rightarrow> if test_admits test character then spawn program (pc + 1) acc else acc
      | _ \<Rightarrow> acc)"

fun run_program :: "inst list \<Rightarrow> nat list \<Rightarrow> nat list \<Rightarrow> bool" where
  "run_program program live [] \<longleftrightarrow> list_ex (\<lambda>pc. inst_at program pc = Some Match) live"
| "run_program program live (character # text) \<longleftrightarrow>
     (if live = [] then False
      else run_program program
        (fst (advance program character live ([], replicate (length program) False))) text)"

definition glob_matches :: "inst list \<Rightarrow> str \<Rightarrow> bool" where
  "glob_matches program text =
     run_program program (fst (spawn program 0 ([], replicate (length program) False))) (chars text)"

end
