(* ===== verification/Format_Constants.thy ===== *)
theory Format_Constants
  imports Prelude
begin

text \<open>
  The constants of the frozen format, \<open>dctl-crypto/src/constants.rs\<close>: magics, versions, field
  widths, limits and the labels that separate the uses of a key. The compile-time assertions of
  that file are lemmas here.
\<close>

section \<open>Widths\<close>

definition NONCE_LEN :: nat where [simp]: "NONCE_LEN = 24"
definition TAG_LEN :: nat where [simp]: "TAG_LEN = 16"
definition KEY_LEN :: nat where [simp]: "KEY_LEN = 32"
definition FOOTER_LEN :: nat where [simp]: "FOOTER_LEN = 32"
definition VAULT_ID_LEN :: nat where [simp]: "VAULT_ID_LEN = 16"
definition COMMIT_LEN :: nat where [simp]: "COMMIT_LEN = 32"
definition FILE_ID_LEN :: nat where [simp]: "FILE_ID_LEN = 16"
definition HEAD_HASH_LEN :: nat where [simp]: "HEAD_HASH_LEN = 32"

section \<open>Envelope\<close>

definition ENVELOPE_MAGIC :: bytes where "ENVELOPE_MAGIC = lit ''DKE1''"
definition ENVELOPE_VERSION :: byte where [simp]: "ENVELOPE_VERSION = 1"
definition MAX_SLOT_COUNT :: nat where [simp]: "MAX_SLOT_COUNT = 64"
definition SLOT_FIXED_PREFIX_LEN :: nat where [simp]: "SLOT_FIXED_PREFIX_LEN = 57"
definition SLOT_TYPE_DEVICE :: byte where [simp]: "SLOT_TYPE_DEVICE = 0"
definition SLOT_TYPE_PASSWORD :: byte where [simp]: "SLOT_TYPE_PASSWORD = 1"
definition SLOT_TYPE_MNEMONIC :: byte where [simp]: "SLOT_TYPE_MNEMONIC = 2"
definition KDF_ID_ARGON2ID :: byte where [simp]: "KDF_ID_ARGON2ID = 1"
definition WRAP_ALGO_XCHACHA20_POLY1305 :: byte where [simp]: "WRAP_ALGO_XCHACHA20_POLY1305 = 1"
definition SLOT_COMMIT_INFO :: bytes where "SLOT_COMMIT_INFO = lit ''dctl-slot-commit-v1''"
definition SLOT_AAD_PREFIX :: bytes where "SLOT_AAD_PREFIX = lit ''dctl-slot-v1::''"

section \<open>Object\<close>

definition OBJECT_MAGIC :: bytes where "OBJECT_MAGIC = lit ''DSF1''"
definition OBJECT_VERSION :: byte where [simp]: "OBJECT_VERSION = 1"
definition ALGO_XCHACHA20_POLY1305 :: byte where [simp]: "ALGO_XCHACHA20_POLY1305 = 1"
definition FLAG_FOOTER :: byte where [simp]: "FLAG_FOOTER = 0x01"
definition OBJECT_HEAD_LEN :: nat where [simp]: "OBJECT_HEAD_LEN = 68"
definition KEM_ID_NONE :: byte where [simp]: "KEM_ID_NONE = 0"
definition KEM_ID_HYBRID :: byte where [simp]: "KEM_ID_HYBRID = 1"
definition WRAPPED_DEK_LEN :: nat where [simp]: "WRAPPED_DEK_LEN = NONCE_LEN + KEY_LEN + TAG_LEN"
definition DEK_WRAP_AAD_PREFIX :: bytes where "DEK_WRAP_AAD_PREFIX = lit ''dctl-dek-v1::''"
definition META_AAD_PREFIX :: bytes where "META_AAD_PREFIX = lit ''dctl-meta-v1::''"
definition META_MIN_PLAINTEXT_LEN :: nat where [simp]: "META_MIN_PLAINTEXT_LEN = 76"
definition META_MIN_LEN :: nat where
  [simp]: "META_MIN_LEN = NONCE_LEN + META_MIN_PLAINTEXT_LEN + TAG_LEN"
definition META_MAX_LEN :: nat where [simp]: "META_MAX_LEN = 262144"
definition META_SCHEMA_V1 :: byte where [simp]: "META_SCHEMA_V1 = 0x01"
definition META_FLAG_TOMBSTONE :: byte where [simp]: "META_FLAG_TOMBSTONE = 0x08"
definition NONCE_DOMAIN_CHUNK :: byte where [simp]: "NONCE_DOMAIN_CHUNK = 0x00"
definition NONCE_DOMAIN_META :: byte where [simp]: "NONCE_DOMAIN_META = 0x01"
definition NONCE_DOMAIN_BYTE :: nat where [simp]: "NONCE_DOMAIN_BYTE = 23"
definition DEFAULT_CHUNK_SIZE :: u32 where [simp]: "DEFAULT_CHUNK_SIZE = 1024 * 1024"
definition MAX_CHUNK_SIZE :: u32 where [simp]: "MAX_CHUNK_SIZE = 16 * 1024 * 1024"
definition OBJECT_HEADER_PROBE_LEN :: nat where [simp]: "OBJECT_HEADER_PROBE_LEN = 4096"

section \<open>Names and paths\<close>

definition INFO_INDEX :: bytes where "INFO_INDEX = lit ''index-key-v1''"
definition INFO_NAME_HASH :: bytes where "INFO_NAME_HASH = lit ''name-hash-key-v1''"
definition INFO_NAME_VALUE :: bytes where "INFO_NAME_VALUE = lit ''name-value-key-v1''"
definition NAME_AAD_PREFIX :: bytes where "NAME_AAD_PREFIX = lit ''dctl-name-v1::''"
definition NAME_KEY_PREFIX :: str where "NAME_KEY_PREFIX = lit ''n/''"
definition MAX_PATH_SEGMENT_BYTES :: nat where [simp]: "MAX_PATH_SEGMENT_BYTES = 255"
definition MAX_PATH_BYTES :: nat where [simp]: "MAX_PATH_BYTES = 4096"

section \<open>Hybrid key encapsulation and sharing\<close>

definition KEM_SUITE_X25519_MLKEM768 :: byte where [simp]: "KEM_SUITE_X25519_MLKEM768 = 0x01"
definition X25519_PK_LEN :: nat where [simp]: "X25519_PK_LEN = 32"
definition X25519_SK_LEN :: nat where [simp]: "X25519_SK_LEN = 32"
definition X25519_SHARED_LEN :: nat where [simp]: "X25519_SHARED_LEN = 32"
definition MLKEM768_EK_LEN :: nat where [simp]: "MLKEM768_EK_LEN = 1184"
definition MLKEM768_DK_LEN :: nat where [simp]: "MLKEM768_DK_LEN = 2400"
definition MLKEM768_CT_LEN :: nat where [simp]: "MLKEM768_CT_LEN = 1088"
definition MLKEM768_SHARED_LEN :: nat where [simp]: "MLKEM768_SHARED_LEN = 32"
definition KEY_ID_LEN :: nat where [simp]: "KEY_ID_LEN = 32"
definition RECIP_ID_MAGIC :: bytes where "RECIP_ID_MAGIC = lit ''DRK1''"
definition RECIP_ID_VERSION :: byte where [simp]: "RECIP_ID_VERSION = 0x01"
definition DRK1_LEN :: nat where [simp]: "DRK1_LEN = 4 + 1 + 1 + X25519_PK_LEN + MLKEM768_EK_LEN"
definition RECIP_ID_LABEL :: bytes where "RECIP_ID_LABEL = lit ''dctl-recip-id-v1'' @ [0]"
definition RECIP_SEED_LABEL :: bytes where "RECIP_SEED_LABEL = lit ''dctl-recip-seed-v1''"
definition RECIP_X25519_LABEL :: bytes where "RECIP_X25519_LABEL = lit ''dctl-recip-x25519-v1''"
definition RECIP_MLKEM_D_LABEL :: bytes where "RECIP_MLKEM_D_LABEL = lit ''dctl-recip-mlkem-d-v1''"
definition RECIP_MLKEM_Z_LABEL :: bytes where "RECIP_MLKEM_Z_LABEL = lit ''dctl-recip-mlkem-z-v1''"
definition RECIP_IDX_DEFAULT :: u32 where [simp]: "RECIP_IDX_DEFAULT = 0"
definition KEM_HYBRID_INFO_LABEL :: bytes where
  "KEM_HYBRID_INFO_LABEL = lit ''dctl-kem-hybrid-x25519-mlkem768-v1''"
definition KEM_HYBRID_INFO_LEN :: nat where
  [simp]: "KEM_HYBRID_INFO_LEN = 34 + 1 + OBJECT_HEAD_LEN + KEY_ID_LEN + X25519_PK_LEN
     + MLKEM768_CT_LEN + X25519_PK_LEN + MLKEM768_EK_LEN"
definition KEM_KW_AAD_PREFIX :: bytes where "KEM_KW_AAD_PREFIX = lit ''dctl-kem-kw-v1::''"
definition WRAPPED_KW_LEN :: nat where [simp]: "WRAPPED_KW_LEN = NONCE_LEN + KEY_LEN + TAG_LEN"
definition KEM_WRAP_MAGIC :: bytes where "KEM_WRAP_MAGIC = lit ''DKW1''"
definition KEM_WRAP_VERSION :: byte where [simp]: "KEM_WRAP_VERSION = 0x01"
definition KEM_WRAP_HEADER_LEN :: nat where [simp]: "KEM_WRAP_HEADER_LEN = 10"
definition KEM_WRAP_FLAG_SIDECAR :: byte where [simp]: "KEM_WRAP_FLAG_SIDECAR = 0x01"
definition RECIP_SUBRECORD_LEN :: nat where
  [simp]: "RECIP_SUBRECORD_LEN =
     4 + KEY_ID_LEN + 2 + MLKEM768_CT_LEN + 2 + X25519_PK_LEN + 2 + WRAPPED_KW_LEN"
definition MAX_RECIP_COUNT :: nat where [simp]: "MAX_RECIP_COUNT = 53"
definition GRANT_SIDECAR_MAGIC :: bytes where "GRANT_SIDECAR_MAGIC = lit ''DGS1''"
definition GRANT_SIDECAR_VERSION :: byte where [simp]: "GRANT_SIDECAR_VERSION = 0x01"
definition GRANT_SIDECAR_HEADER_LEN :: nat where
  [simp]: "GRANT_SIDECAR_HEADER_LEN = 4 + 1 + 1 + 2 + FILE_ID_LEN + HEAD_HASH_LEN + 8 + 2"
definition MAX_GRANT_COUNT :: nat where [simp]: "MAX_GRANT_COUNT = 4096"
definition IMPORTED_KEY_MAGIC :: bytes where "IMPORTED_KEY_MAGIC = lit ''DIK1''"
definition IMPORTED_KEY_VERSION :: byte where [simp]: "IMPORTED_KEY_VERSION = 0x01"
definition DIK1_HEADER_LEN :: nat where [simp]: "DIK1_HEADER_LEN = 4 + 1 + 1 + 2 + KEY_ID_LEN"
definition DIK1_PLAINTEXT_LEN :: nat where
  [simp]: "DIK1_PLAINTEXT_LEN = X25519_SK_LEN + MLKEM768_DK_LEN + X25519_PK_LEN + MLKEM768_EK_LEN"
definition DIK1_LEN :: nat where
  [simp]: "DIK1_LEN = DIK1_HEADER_LEN + NONCE_LEN + DIK1_PLAINTEXT_LEN + TAG_LEN"
definition IK_WRAP_LABEL :: bytes where "IK_WRAP_LABEL = lit ''dctl-ik-wrap-v1''"
definition IK_AAD_PREFIX :: bytes where "IK_AAD_PREFIX = lit ''dctl-ik-v1::''"
definition DISCOVERY_MAGIC :: bytes where "DISCOVERY_MAGIC = lit ''DGD1''"
definition DISCOVERY_VERSION :: byte where [simp]: "DISCOVERY_VERSION = 0x01"
definition DGD1_HEADER_LEN :: nat where
  [simp]: "DGD1_HEADER_LEN = 4 + 1 + 1 + 2 + KEY_ID_LEN + FILE_ID_LEN + HEAD_HASH_LEN"
definition DGD1_BODY_OFFSET :: nat where
  [simp]: "DGD1_BODY_OFFSET = DGD1_HEADER_LEN + RECIP_SUBRECORD_LEN"
definition DISC_AAD_PREFIX :: bytes where "DISC_AAD_PREFIX = lit ''dctl-disc-v1::''"
definition DISC_SCHEMA_V1 :: byte where [simp]: "DISC_SCHEMA_V1 = 0x01"
definition DISC_MIN_PLAINTEXT_LEN :: nat where [simp]: "DISC_MIN_PLAINTEXT_LEN = 62"

section \<open>Password-based derivation\<close>

definition DEFAULT_ARGON2_M_COST :: u32 where [simp]: "DEFAULT_ARGON2_M_COST = 131072"
definition DEFAULT_ARGON2_T_COST :: u32 where [simp]: "DEFAULT_ARGON2_T_COST = 3"
definition DEFAULT_ARGON2_P_LANES :: u32 where [simp]: "DEFAULT_ARGON2_P_LANES = 4"
definition DEFAULT_SALT_LEN :: nat where [simp]: "DEFAULT_SALT_LEN = 16"
definition RECOVERY_MNEMONIC_ENTROPY_BYTES :: nat where
  [simp]: "RECOVERY_MNEMONIC_ENTROPY_BYTES = KEY_LEN"
definition ARGON2_MIN_M_COST :: u32 where [simp]: "ARGON2_MIN_M_COST = 8"
definition ARGON2_MAX_M_COST :: u32 where [simp]: "ARGON2_MAX_M_COST = 1048576"
definition ARGON2_MAX_T_COST :: u32 where [simp]: "ARGON2_MAX_T_COST = 16"
definition ARGON2_MAX_P_LANES :: u32 where [simp]: "ARGON2_MAX_P_LANES = 8"
definition TEST_ARGON2_M_COST :: u32 where [simp]: "TEST_ARGON2_M_COST = ARGON2_MIN_M_COST"
definition TEST_ARGON2_T_COST :: u32 where [simp]: "TEST_ARGON2_T_COST = 1"
definition TEST_ARGON2_P_LANES :: u32 where [simp]: "TEST_ARGON2_P_LANES = 1"

section \<open>The compile-time assertions\<close>

lemma length_magics [simp]:
  "length ENVELOPE_MAGIC = 4" "length OBJECT_MAGIC = 4" "length RECIP_ID_MAGIC = 4"
  "length KEM_WRAP_MAGIC = 4" "length GRANT_SIDECAR_MAGIC = 4" "length IMPORTED_KEY_MAGIC = 4"
  "length DISCOVERY_MAGIC = 4"
  by (simp_all add: ENVELOPE_MAGIC_def OBJECT_MAGIC_def RECIP_ID_MAGIC_def KEM_WRAP_MAGIC_def
      GRANT_SIDECAR_MAGIC_def IMPORTED_KEY_MAGIC_def DISCOVERY_MAGIC_def)

lemma length_labels [simp]:
  "length RECIP_ID_LABEL = 17" "length RECIP_SEED_LABEL = 18" "length RECIP_X25519_LABEL = 20"
  "length RECIP_MLKEM_D_LABEL = 21" "length RECIP_MLKEM_Z_LABEL = 21"
  "length KEM_HYBRID_INFO_LABEL = 34" "length KEM_KW_AAD_PREFIX = 16"
  "length IK_WRAP_LABEL = 15" "length IK_AAD_PREFIX = 12" "length DISC_AAD_PREFIX = 14"
  by (simp_all add: RECIP_ID_LABEL_def RECIP_SEED_LABEL_def RECIP_X25519_LABEL_def
      RECIP_MLKEM_D_LABEL_def RECIP_MLKEM_Z_LABEL_def KEM_HYBRID_INFO_LABEL_def
      KEM_KW_AAD_PREFIX_def IK_WRAP_LABEL_def IK_AAD_PREFIX_def DISC_AAD_PREFIX_def)

lemma format_lengths:
  "DRK1_LEN = 1222" "KEM_HYBRID_INFO_LEN = 2471" "RECIP_SUBRECORD_LEN = 1234"
  "WRAPPED_KW_LEN = 72" "GRANT_SIDECAR_HEADER_LEN = 66" "DIK1_HEADER_LEN = 40"
  "DIK1_PLAINTEXT_LEN = 3648" "DIK1_LEN = 3728" "DGD1_HEADER_LEN = 88"
  "DGD1_BODY_OFFSET = 1322"
  "KEM_WRAP_HEADER_LEN + RECIP_SUBRECORD_LEN * MAX_RECIP_COUNT \<le> 65535"
  "65535 < KEM_WRAP_HEADER_LEN + RECIP_SUBRECORD_LEN * (MAX_RECIP_COUNT + 1)"
  "OBJECT_HEAD_LEN + 2 + WRAPPED_DEK_LEN + 4 \<le> OBJECT_HEADER_PROBE_LEN"
  by simp_all

text \<open>No two uses of a key share a label: the prefixes of the additional data and the derivation
  labels differ in their first bytes, so none is a prefix of another.\<close>

lemma aad_prefixes_differ:
  "take 6 SLOT_AAD_PREFIX \<noteq> take 6 DEK_WRAP_AAD_PREFIX"
  "take 6 SLOT_AAD_PREFIX \<noteq> take 6 META_AAD_PREFIX"
  "take 6 DEK_WRAP_AAD_PREFIX \<noteq> take 6 META_AAD_PREFIX"
  "take 6 NAME_AAD_PREFIX \<noteq> take 6 SLOT_AAD_PREFIX"
  by (simp_all add: SLOT_AAD_PREFIX_def DEK_WRAP_AAD_PREFIX_def META_AAD_PREFIX_def
      NAME_AAD_PREFIX_def)

end
