(* ===== verification/Primitives.thy ===== *)
theory Primitives
  imports Format_Constants
begin

text \<open>
  The third-party code the program calls, as the fields of one record that every definition
  takes as an argument, and the wrappers of the source around it: \<open>dctl-crypto/src/aead\<close>,
  \<open>keys\<close> and \<open>rng.rs\<close>. What the proofs need of a primitive is a named predicate on the record;
  \<open>toy_prims\<close> is a record of concrete functions that satisfies them all, on which the witnesses
  run.
\<close>

section \<open>The primitives\<close>

record prims =
  cipher_encrypt :: "bytes \<Rightarrow> bytes \<Rightarrow> bytes \<Rightarrow> bytes \<Rightarrow> bytes option"
    \<comment> \<open>XChaCha20-Poly1305: key, nonce, message, additional data\<close>
  cipher_decrypt :: "bytes \<Rightarrow> bytes \<Rightarrow> bytes \<Rightarrow> bytes \<Rightarrow> bytes option"
  hkdf_expand :: "bytes \<Rightarrow> bytes \<Rightarrow> bytes option" \<comment> \<open>HKDF-SHA512, no salt, 32 bytes out\<close>
  blake3_hash :: "bytes \<Rightarrow> bytes"
  blake3_keyed_hash :: "bytes \<Rightarrow> bytes \<Rightarrow> bytes"
  argon2_hash :: "bytes \<Rightarrow> bytes \<Rightarrow> u32 \<Rightarrow> u32 \<Rightarrow> u32 \<Rightarrow> bytes option"
    \<comment> \<open>secret, salt, memory, time, lanes\<close>
  bip39_seed :: "str \<Rightarrow> bytes option" \<comment> \<open>\<open>Mnemonic::parse\<close> and \<open>to_seed("")\<close>\<close>
  bip39_phrase :: "bytes \<Rightarrow> str option" \<comment> \<open>\<open>Mnemonic::from_entropy\<close> as a string\<close>
  nfc :: "str \<Rightarrow> str" \<comment> \<open>Unicode normalisation form C\<close>
  assigned :: "nat \<Rightarrow> bool" \<comment> \<open>the code point has a general category in Unicode 15.1\<close>
  hex_encode :: "bytes \<Rightarrow> str"
  hex_decode :: "str \<Rightarrow> bytes option"
  x25519_public :: "bytes \<Rightarrow> bytes"
  x25519_dh :: "bytes \<Rightarrow> bytes \<Rightarrow> bytes"
  was_contributory :: "bytes \<Rightarrow> bool"
  mlkem_generate :: "bytes \<Rightarrow> bytes \<Rightarrow> bytes \<times> bytes" \<comment> \<open>decapsulation and encapsulation key\<close>
  mlkem_ek_of_dk :: "bytes \<Rightarrow> bytes"
  mlkem_encaps :: "bytes \<Rightarrow> bytes \<Rightarrow> (bytes \<times> bytes) option" \<comment> \<open>ciphertext and shared secret\<close>
  mlkem_decaps :: "bytes \<Rightarrow> bytes \<Rightarrow> bytes option"

section \<open>What is relied on\<close>

text \<open>
  Encryption under a key and nonce of the right width succeeds on any message the program
  forms, adds a tag of 16 bytes, and decrypts to the message. The bound stands for the limit of
  the cipher, far above the 16 MiB of a chunk.
\<close>

definition cipher_ok :: "prims \<Rightarrow> bool" where
  "cipher_ok P \<longleftrightarrow> (\<forall>k n m a. length k = KEY_LEN \<longrightarrow> length n = NONCE_LEN \<longrightarrow> length m < 2 ^ 32 \<longrightarrow>
     (\<exists>c. cipher_encrypt P k n m a = Some c \<and> length c = length m + TAG_LEN \<and>
          cipher_decrypt P k n c a = Some m))"

text \<open>
  Decryption accepts the ciphertext the cipher makes of the message and no other: the stream
  cipher is an involution for a key and nonce, and the tag is recomputed and compared.
\<close>

definition cipher_tidy :: "prims \<Rightarrow> bool" where
  "cipher_tidy P \<longleftrightarrow> (\<forall>k n c a m. cipher_decrypt P k n c a = Some m \<longrightarrow>
     cipher_encrypt P k n m a = Some c \<and> length c = length m + TAG_LEN)"

definition hashes_ok :: "prims \<Rightarrow> bool" where
  "hashes_ok P \<longleftrightarrow> (\<forall>x. length (blake3_hash P x) = 32) \<and> (\<forall>k x. length (blake3_keyed_hash P k x) = 32)"

definition hkdf_ok :: "prims \<Rightarrow> bool" where
  "hkdf_ok P \<longleftrightarrow> (\<forall>ikm info. \<exists>k. hkdf_expand P ikm info = Some k \<and> length k = KEY_LEN)"

definition hex_ok :: "prims \<Rightarrow> bool" where
  "hex_ok P \<longleftrightarrow> (\<forall>bs. hex_decode P (hex_encode P bs) = Some bs)"

text \<open>
  The two halves of the hybrid agree on their shared secrets, and a Diffie-Hellman with the public
  key of a secret is contributory: only the points of low order, which no secret has, are not.
\<close>

definition dh_ok :: "prims \<Rightarrow> bool" where
  "dh_ok P \<longleftrightarrow> (\<forall>a b. length a = 32 \<longrightarrow> length b = 32 \<longrightarrow>
     x25519_dh P a (x25519_public P b) = x25519_dh P b (x25519_public P a)) \<and>
     (\<forall>a. length (x25519_public P a) = X25519_PK_LEN) \<and>
     (\<forall>a b. length (x25519_dh P a b) = X25519_SHARED_LEN) \<and>
     (\<forall>a b. was_contributory P (x25519_dh P a (x25519_public P b)))"

definition mlkem_ok :: "prims \<Rightarrow> bool" where
  "mlkem_ok P \<longleftrightarrow>
     (\<forall>dk. length dk = MLKEM768_DK_LEN \<longrightarrow> length (mlkem_ek_of_dk P dk) = MLKEM768_EK_LEN) \<and>
     (\<forall>d z. length (fst (mlkem_generate P d z)) = MLKEM768_DK_LEN \<and>
            snd (mlkem_generate P d z) = mlkem_ek_of_dk P (fst (mlkem_generate P d z))) \<and>
     (\<forall>dk m. length dk = MLKEM768_DK_LEN \<longrightarrow> length m = 32 \<longrightarrow>
        (\<exists>ct ss. mlkem_encaps P (mlkem_ek_of_dk P dk) m = Some (ct, ss) \<and>
           length ct = MLKEM768_CT_LEN \<and> length ss = MLKEM768_SHARED_LEN \<and>
           mlkem_decaps P dk ct = Some ss))"

lemma cipher_okD:
  assumes "cipher_ok P" "length k = 32" "length n = 24" "length m < 2 ^ 32"
  obtains c where "cipher_encrypt P k n m a = Some c" "length c = length m + 16"
    "cipher_decrypt P k n c a = Some m"
  using assms by (fastforce simp: cipher_ok_def)

lemma cipher_tidyD:
  assumes "cipher_tidy P" "cipher_decrypt P k n c a = Some m"
  shows "cipher_encrypt P k n m a = Some c" "length c = length m + 16"
  using assms by (auto simp: cipher_tidy_def)

lemma hashes_okD:
  assumes "hashes_ok P"
  shows "length (blake3_hash P x) = 32" "length (blake3_keyed_hash P k x) = 32"
  using assms by (simp_all add: hashes_ok_def)

lemma hkdf_okE:
  assumes "hkdf_ok P"
  obtains k where "hkdf_expand P ikm info = Some k" "length k = 32"
  using assms by (auto simp: hkdf_ok_def)

section \<open>Randomness\<close>

text \<open>
  The operating system's generator is an unbounded tape of bytes, an argument that each function
  that draws from it returns advanced. \<open>rng::fill\<close> takes the next bytes.
\<close>

type_synonym rng = "nat \<Rightarrow> byte"

definition rng_fill :: "nat \<Rightarrow> rng \<Rightarrow> bytes \<times> rng" where
  "rng_fill n r = (map r [0..<n], \<lambda>i. r (i + n))"

lemma rng_fill_length: "rng_fill n r = (bs, r') \<Longrightarrow> length bs = n"
  by (auto simp: rng_fill_def)

lemma length_fst_rng_fill [simp]: "length (fst (rng_fill n r)) = n"
  by (simp add: rng_fill_def)

definition generate_key :: "rng \<Rightarrow> bytes \<times> rng" where
  "generate_key r = rng_fill KEY_LEN r"

section \<open>Sealed blobs\<close>

text \<open>
  \<open>aead::encrypt\<close> draws a nonce and writes it before the ciphertext; \<open>aead::decrypt\<close> splits the
  blob there. The other two take the nonce as an argument.
\<close>

definition encrypt_with_nonce :: "prims \<Rightarrow> bytes \<Rightarrow> bytes \<Rightarrow> bytes \<Rightarrow> bytes \<Rightarrow> bytes crypto" where
  "encrypt_with_nonce P key nonce plaintext aad =
     (if length key \<noteq> KEY_LEN then Err Aead
      else ok_or Aead (cipher_encrypt P key nonce plaintext aad))"

definition decrypt_with_nonce :: "prims \<Rightarrow> bytes \<Rightarrow> bytes \<Rightarrow> bytes \<Rightarrow> bytes \<Rightarrow> bytes crypto" where
  "decrypt_with_nonce P key nonce ct_and_tag aad =
     (if length ct_and_tag < TAG_LEN then Err (Format ''aead ciphertext too short'')
      else if length key \<noteq> KEY_LEN then Err Aead
      else ok_or Aead (cipher_decrypt P key nonce ct_and_tag aad))"

definition aead_encrypt ::
  "prims \<Rightarrow> bytes \<Rightarrow> bytes \<Rightarrow> bytes \<Rightarrow> rng \<Rightarrow> (bytes \<times> rng) crypto" where
  "aead_encrypt P key plaintext aad r =
     (if length key \<noteq> KEY_LEN then Err Aead
      else let (nonce, r') = rng_fill NONCE_LEN r in
        and_then (ok_or Aead (cipher_encrypt P key nonce plaintext aad)) (\<lambda>ciphertext.
        Ok (nonce @ ciphertext, r')))"

definition aead_decrypt :: "prims \<Rightarrow> bytes \<Rightarrow> bytes \<Rightarrow> bytes \<Rightarrow> bytes crypto" where
  "aead_decrypt P key blob aad =
     (if length blob < NONCE_LEN + TAG_LEN then Err (Format ''aead blob too short'')
      else let nonce = take NONCE_LEN blob; ciphertext = drop NONCE_LEN blob in
        if length key \<noteq> KEY_LEN then Err Aead
        else ok_or Aead (cipher_decrypt P key nonce ciphertext aad))"

lemma aead_no_panic [no_panic_intros]:
  "no_panic (encrypt_with_nonce P key nonce pt aad)"
  "no_panic (decrypt_with_nonce P key nonce ct aad)"
  "no_panic (aead_decrypt P key blob aad)"
  "no_panic (aead_encrypt P key pt aad r)"
  by (auto simp: encrypt_with_nonce_def decrypt_with_nonce_def aead_decrypt_def aead_encrypt_def
      Let_def rng_fill_def intro!: no_panic_intros)

lemma encrypt_with_nonce_ok:
  assumes "cipher_ok P" "length key = 32" "length nonce = 24" "length m < 2 ^ 32"
  obtains ct where "encrypt_with_nonce P key nonce m aad = Ok ct" "length ct = length m + 16"
    "decrypt_with_nonce P key nonce ct aad = Ok m"
  using cipher_okD [OF assms] by (metis KEY_LEN_def TAG_LEN_def decrypt_with_nonce_def
      encrypt_with_nonce_def assms(2) not_add_less2 ok_or_simps(2))

lemma aead_encrypt_ok:
  assumes "cipher_ok P" "length key = 32" "length m < 2 ^ 32"
  obtains blob r' where "aead_encrypt P key m aad r = Ok (blob, r')"
    "r' = (\<lambda>i. r (i + 24))" "length blob = length m + 40" "aead_decrypt P key blob aad = Ok m"
proof -
  define nonce where "nonce = fst (rng_fill 24 r)"
  have n: "length nonce = 24" by (simp add: nonce_def)
  obtain c where c: "cipher_encrypt P key nonce m aad = Some c" "length c = length m + 16"
    "cipher_decrypt P key nonce c aad = Some m"
    using cipher_okD [OF assms(1,2) n assms(3)] .
  have "aead_encrypt P key m aad r = Ok (nonce @ c, \<lambda>i. r (i + 24))"
    using c assms(2) by (simp add: aead_encrypt_def rng_fill_def nonce_def)
  moreover have "aead_decrypt P key (nonce @ c) aad = Ok m"
    using c n assms(2) by (simp add: aead_decrypt_def)
  ultimately show ?thesis using that c(2) n by simp
qed

lemma encrypt_with_nonce_Ok:
  assumes "cipher_ok P" "length key = 32" "length nonce = 24" "length m < 2 ^ 32"
    and "encrypt_with_nonce P key nonce m aad = Ok ct"
  shows "length ct = length m + 16" "decrypt_with_nonce P key nonce ct aad = Ok m"
  using encrypt_with_nonce_ok [OF assms(1-4), of aad] assms(5) by (metis sum.inject(2))+

lemma aead_encrypt_Ok:
  assumes "cipher_ok P" "length key = 32" "length m < 2 ^ 32"
    and "aead_encrypt P key m aad r = Ok x"
  shows "length (fst x) = length m + 40" "aead_decrypt P key (fst x) aad = Ok m"
    "snd x = (\<lambda>i. r (i + 24))"
  using aead_encrypt_ok [OF assms(1-3), of aad r] assms(4) by (metis fst_conv snd_conv sum.inject(2))+

lemma decrypt_with_nonce_tidy:
  assumes "cipher_tidy P" "decrypt_with_nonce P key nonce ct aad = Ok m"
  shows "encrypt_with_nonce P key nonce m aad = Ok ct" "length ct = length m + 16"
  using assms cipher_tidyD by (auto simp: decrypt_with_nonce_def encrypt_with_nonce_def)

section \<open>Derived keys\<close>

definition derive_subkey_from_ikm :: "prims \<Rightarrow> bytes \<Rightarrow> bytes \<Rightarrow> bytes crypto" where
  "derive_subkey_from_ikm P ikm info = ok_or Hkdf (hkdf_expand P ikm info)"

definition derive_subkey :: "prims \<Rightarrow> bytes \<Rightarrow> bytes \<Rightarrow> bytes crypto" where
  "derive_subkey P root info = derive_subkey_from_ikm P root info"

lemma derive_subkey_ok:
  assumes "hkdf_ok P"
  obtains k where "derive_subkey P root info = Ok k" "length k = 32"
  using hkdf_okE [OF assms] by (metis derive_subkey_def derive_subkey_from_ikm_def ok_or_simps(2))

lemma derive_subkey_no_panic [no_panic_intros]:
  "no_panic (derive_subkey P root info)" "no_panic (derive_subkey_from_ikm P root info)"
  by (simp_all add: derive_subkey_def derive_subkey_from_ikm_def no_panic_ok_or)

section \<open>Concrete primitives for the witnesses\<close>

text \<open>Short, total and obviously insecure, but they have every property named above.\<close>

definition pad :: "nat \<Rightarrow> bytes \<Rightarrow> bytes" where
  "pad n xs = take n (xs @ replicate n 0)"

lemma length_pad [simp]: "length (pad n xs) = n"
  by (simp add: pad_def)

definition toy_encrypt :: "bytes \<Rightarrow> bytes \<Rightarrow> bytes \<Rightarrow> bytes \<Rightarrow> bytes option" where
  "toy_encrypt k n m a = Some (m @ pad 16 k)"

definition toy_decrypt :: "bytes \<Rightarrow> bytes \<Rightarrow> bytes \<Rightarrow> bytes \<Rightarrow> bytes option" where
  "toy_decrypt k n c a =
     (if 16 \<le> length c \<and> drop (length c - 16) c = pad 16 k then Some (take (length c - 16) c)
      else None)"

definition toy_prims :: prims where
  "toy_prims = \<lparr>
     cipher_encrypt = toy_encrypt,
     cipher_decrypt = toy_decrypt,
     hkdf_expand = (\<lambda>ikm info. Some (pad 32 ikm)),
     blake3_hash = pad 32,
     blake3_keyed_hash = (\<lambda>k x. pad 32 x),
     argon2_hash = (\<lambda>secret salt m t p. Some (pad 32 (secret @ salt))),
     bip39_seed = (\<lambda>phrase. Some (pad 64 phrase)),
     bip39_phrase = (\<lambda>entropy. Some entropy),
     nfc = (\<lambda>s. s),
     assigned = (\<lambda>c. True),
     hex_encode = (\<lambda>bs. bs),
     hex_decode = (\<lambda>s. Some s),
     x25519_public = pad 32,
     x25519_dh = (\<lambda>a b. map2 (+) (pad 32 a) (pad 32 b)),
     was_contributory = (\<lambda>s. True),
     mlkem_generate = (\<lambda>d z. (pad 2400 (d @ z), pad 1184 (pad 2400 (d @ z)))),
     mlkem_ek_of_dk = pad 1184,
     mlkem_encaps = (\<lambda>ek m. Some (pad 1088 m, pad 32 m)),
     mlkem_decaps = (\<lambda>dk ct. Some (take 32 (pad 1088 ct)))\<rparr>"

lemma pad_32 [simp]: "length xs = 32 \<Longrightarrow> pad 32 xs = xs"
  by (simp add: pad_def)

lemma toy_ok [simp]:
  "cipher_ok toy_prims" "cipher_tidy toy_prims" "hashes_ok toy_prims" "hkdf_ok toy_prims"
  "hex_ok toy_prims"
  by (auto simp: cipher_ok_def cipher_tidy_def hashes_ok_def hkdf_ok_def hex_ok_def toy_prims_def
      toy_encrypt_def toy_decrypt_def split: if_splits)
    (metis append_take_drop_id)

lemma toy_dh_ok [simp]: "dh_ok toy_prims"
proof -
  have "map2 (+) xs ys = map2 (+) ys (xs :: bytes)" for xs ys
    by (induction xs ys rule: list_induct2') (simp_all add: add.commute)
  then show ?thesis by (simp add: dh_ok_def toy_prims_def)
qed

lemma toy_mlkem_ok [simp]: "mlkem_ok toy_prims"
proof -
  have "take 32 (pad 1088 (pad 1088 m)) = pad 32 m" if "length m = 32" for m
    using that by (simp add: pad_def)
  then show ?thesis by (simp add: mlkem_ok_def toy_prims_def)
qed

end
