(* ===== verification/Paths.thy ===== *)
theory Paths
  imports Primitives Utf8
begin

text \<open>
  \<open>dctl-crypto/src/path.rs\<close>: the one form of a path, enforced where paths enter and where the
  core writes them. The Unicode data (normalisation form C and the table of assigned code points)
  are fields of \<open>prims\<close>.
\<close>

section \<open>Validation\<close>

definition path_err :: "string \<Rightarrow> crypto_error" where
  "path_err msg = Format (''invalid path: '' @ msg)"

abbreviation slash :: byte where "slash \<equiv> 0x2F"

definition is_banned_control :: "nat \<Rightarrow> bool" where
  "is_banned_control c \<longleftrightarrow> c \<le> 0x1F \<or> c = 0x7F \<or> 0x80 \<le> c \<and> c \<le> 0x9F"

definition is_noncharacter :: "nat \<Rightarrow> bool" where
  "is_noncharacter c \<longleftrightarrow> 0xFDD0 \<le> c \<and> c \<le> 0xFDEF \<or> c AND 0xFFFE = 0xFFFE"

definition is_assigned_15_1 :: "prims \<Rightarrow> nat \<Rightarrow> bool" where
  "is_assigned_15_1 P c = assigned P c"

text \<open>The loop over \<open>path.chars()\<close>: the first offending character decides the error.\<close>

fun check_chars :: "prims \<Rightarrow> nat list \<Rightarrow> unit crypto" where
  "check_chars P [] = Ok ()"
| "check_chars P (ch # chs) =
     (if is_banned_control ch then Err (path_err ''C0/DEL/C1 control code point'')
      else if ch = 0x5C then Err (path_err ''backslash not allowed'')
      else if is_noncharacter ch then Err (path_err ''noncharacter code point'')
      else if \<not> is_assigned_15_1 P ch
        then Err (path_err ''unassigned code point (outside the Unicode 15.1 repertoire)'')
      else check_chars P chs)"

definition is_ascii_alphabetic :: "byte \<Rightarrow> bool" where
  "is_ascii_alphabetic b \<longleftrightarrow> 0x41 \<le> b \<and> b \<le> 0x5A \<or> 0x61 \<le> b \<and> b \<le> 0x7A"

definition drive_prefix :: "str \<Rightarrow> bool" where
  "drive_prefix fb \<longleftrightarrow> 2 \<le> length fb \<and> is_ascii_alphabetic (fb ! 0) \<and> fb ! 1 = 0x3A"

text \<open>The loop over \<open>path.split('/')\<close>.\<close>

fun check_segments :: "str list \<Rightarrow> unit crypto" where
  "check_segments [] = Ok ()"
| "check_segments (s # ss) =
     (if s = [] then Err (path_err ''empty segment ('a//b')'')
      else if s = lit ''.'' \<or> s = lit ''..'' then Err (path_err (CHR 0x27 # ''.'/'..' segment''))
      else if MAX_PATH_SEGMENT_BYTES < length s then Err (path_err ''segment exceeds 255 bytes'')
      else check_segments ss)"

definition validate :: "prims \<Rightarrow> str \<Rightarrow> unit crypto" where
  "validate P path =
     (if path = [] then Err (path_err ''empty path'')
      else if MAX_PATH_BYTES < length path then Err (path_err ''path exceeds 4096 bytes'')
      else if hd path = slash \<or> last path = slash
        then Err (path_err (''leading/trailing '/'' @ [CHR 0x27]))
      else and_then (check_chars P (chars path)) (\<lambda>_.
        if drive_prefix (hd (split_on slash path)) then Err (path_err ''drive-letter prefix'')
        else check_segments (split_on slash path)))"

definition normalize :: "prims \<Rightarrow> str \<Rightarrow> str crypto" where
  "normalize P raw =
     (let c = nfc P raw in and_then (validate P c) (\<lambda>_. Ok c))"

section \<open>What a valid path is\<close>

text \<open>
  The rules without the order in which the code checks them: allowed characters, proper segments
  joined by single slashes, no drive letter, both length limits.
\<close>

definition allowed_char :: "prims \<Rightarrow> nat \<Rightarrow> bool" where
  "allowed_char P c \<longleftrightarrow>
     \<not> is_banned_control c \<and> c \<noteq> 0x5C \<and> \<not> is_noncharacter c \<and> assigned P c"

definition proper_segment :: "str \<Rightarrow> bool" where
  "proper_segment s \<longleftrightarrow> s \<noteq> [] \<and> s \<noteq> lit ''.'' \<and> s \<noteq> lit ''..'' \<and> length s \<le> 255"

definition valid_path :: "prims \<Rightarrow> str \<Rightarrow> bool" where
  "valid_path P path \<longleftrightarrow>
     length path \<le> 4096 \<and> (\<forall>c\<in>set (chars path). allowed_char P c) \<and>
     (\<forall>s\<in>set (split_on slash path). proper_segment s) \<and>
     \<not> drive_prefix (hd (split_on slash path))"

lemma check_chars_Ok_iff:
  "check_chars P chs = Ok () \<longleftrightarrow> (\<forall>c\<in>set chs. allowed_char P c)"
  by (induction chs) (auto simp: allowed_char_def is_assigned_15_1_def)

lemma check_segments_Ok_iff:
  "check_segments ss = Ok () \<longleftrightarrow> (\<forall>s\<in>set ss. proper_segment s)"
  by (induction ss) (simp_all add: proper_segment_def not_less del: lit_simps)

lemma validate_Ok_iff: "validate P path = Ok () \<longleftrightarrow> valid_path P path"
proof -
  have edges: "path \<noteq> [] \<and> hd path \<noteq> slash \<and> last path \<noteq> slash"
    if "\<forall>s\<in>set (split_on slash path). proper_segment s"
  proof -
    have "hd (split_on slash path) \<noteq> []" "last (split_on slash path) \<noteq> []"
      using that by (auto simp: proper_segment_def)
    then show ?thesis
      unfolding hd_split_on_Nil last_split_on_Nil by blast
  qed
  show ?thesis
    using edges
    by (auto simp: validate_def valid_path_def and_then_Ok_iff check_chars_Ok_iff
        check_segments_Ok_iff not_less)
qed

lemma no_panic_check [no_panic_intros]:
  "no_panic (check_chars P chs)" "no_panic (check_segments ss)"
  by (induction chs) (simp_all add: path_err_def, induction ss, simp_all add: path_err_def)

lemma no_panic_validate [no_panic_intros]: "no_panic (validate P path)"
  by (auto simp: validate_def path_err_def intro!: no_panic_intros)

lemma no_panic_normalize [no_panic_intros]: "no_panic (normalize P raw)"
  by (auto simp: normalize_def Let_def intro!: no_panic_intros)

lemma normalize_Ok_iff: "normalize P raw = Ok p \<longleftrightarrow> p = nfc P raw \<and> valid_path P p"
  by (auto simp: normalize_def Let_def and_then_Ok_iff simp flip: validate_Ok_iff)

section \<open>What a valid path can name\<close>

text \<open>
  A valid path is read by any file system as names below the root and nothing else: every step
  descends. \<open>walk\<close> is how a system resolves the steps, from the directory it has reached.
\<close>

fun walk :: "str list \<Rightarrow> str list \<Rightarrow> str list option" where
  "walk dir [] = Some dir"
| "walk dir (s # ss) =
     (if s = [] \<or> s = lit ''.'' then walk dir ss
      else if s = lit ''..'' then (if dir = [] then None else walk (butlast dir) ss)
      else walk (dir @ [s]) ss)"

lemma walk_proper: "\<forall>s\<in>set ss. proper_segment s \<Longrightarrow> walk dir ss = Some (dir @ ss)"
  by (induction ss arbitrary: dir) (auto simp: proper_segment_def)

lemma valid_path_walk:
  "valid_path P path \<Longrightarrow> walk dir (split_on slash path) = Some (dir @ split_on slash path)"
  by (simp add: valid_path_def walk_proper)

lemma valid_path_bytes:
  assumes "valid_path P path" and "utf8_valid path"
  shows "\<forall>b\<in>set path. 0x20 \<le> b \<and> b \<noteq> 0x5C \<and> b \<noteq> 0x7F"
proof
  fix b assume b: "b \<in> set path"
  obtain cs where cs: "utf8_chars path = Some cs"
    using assms(2) by (auto simp: utf8_valid_def)
  show "0x20 \<le> b \<and> b \<noteq> 0x5C \<and> b \<noteq> 0x7F"
  proof (cases "ascii b")
    case True
    with ascii_byte_in_chars [OF cs b] have "allowed_char P (unat b)"
      using assms(1) cs by (simp add: valid_path_def chars_def)
    then show ?thesis
      by (auto simp: allowed_char_def is_banned_control_def word_le_nat_alt)
  next
    case False
    then show ?thesis
      by (auto simp: ascii_def word_le_nat_alt)
  qed
qed

lemma valid_path_join:
  assumes "valid_path P path"
  shows "path = join_with slash (split_on slash path)" and "split_on slash path \<noteq> []"
    and "\<forall>s\<in>set (split_on slash path). s \<noteq> [] \<and> slash \<notin> set s"
  using assms split_on_no_sep
  by (auto simp: join_split_on valid_path_def proper_segment_def)

end
