(* ===== verification/Logical_Path.thy ===== *)
theory Logical_Path
  imports Paths "HOL-Library.Sublist"
begin

text \<open>
  \<open>dctl-cli/src/platform/path.rs\<close>: the logical paths of the command line, as a user types them and as
  a walk over a file system makes them. A name of the file system is the list of its bytes (the reading of
  \<open>OsStr\<close> on Unix). Normalisation form C is the field \<open>nfc\<close> of the primitives.
\<close>

section \<open>The operations\<close>

definition LOGICAL_PATH_SEPARATORS :: "byte list" where
  "LOGICAL_PATH_SEPARATORS = [0x2F, 0x5C]"

text \<open>\<open>str::split\<close> at any of the separators.\<close>

fun split_seps :: "str \<Rightarrow> str list" where
  "split_seps [] = [[]]"
| "split_seps (x # xs) =
     (if x \<in> set LOGICAL_PATH_SEPARATORS then [] # split_seps xs
      else case split_seps xs of s # ss \<Rightarrow> (x # s) # ss | [] \<Rightarrow> [[x]])"

datatype unrepresentable = NotUtf8 | Separator byte | ParentDir

definition normalize_unicode :: "prims \<Rightarrow> str \<Rightarrow> str" where
  "normalize_unicode P path = (if list_all ascii path then path else nfc P path)"

definition to_logical_component :: "prims \<Rightarrow> bytes \<Rightarrow> unrepresentable + str" where
  "to_logical_component P name =
     (if \<not> utf8_valid name then Err NotUtf8
      else case find (\<lambda>b. b \<in> set LOGICAL_PATH_SEPARATORS) name of
          Some found \<Rightarrow> Err (Separator found)
        | None \<Rightarrow> Ok (normalize_unicode P name))"

definition join_path :: "str \<Rightarrow> str \<Rightarrow> str" where
  "join_path base component = (if base = [] then component else base @ slash # component)"

text \<open>\<open>std::path::Component\<close>, and the loop of \<open>to_logical\<close> over the components of a path.\<close>

datatype path_component = PrefixComp bytes | RootDir | CurDir | ParentComp | Normal bytes

fun logical_parts :: "prims \<Rightarrow> path_component list \<Rightarrow> str list \<Rightarrow> unrepresentable + str list" where
  "logical_parts P [] parts = Ok parts"
| "logical_parts P (c # cs) parts =
     (case c of
        RootDir \<Rightarrow> logical_parts P cs parts
      | PrefixComp _ \<Rightarrow> logical_parts P cs parts
      | CurDir \<Rightarrow> logical_parts P cs parts
      | ParentComp \<Rightarrow> Err ParentDir
      | Normal part \<Rightarrow>
          and_then (to_logical_component P part) (\<lambda>name. logical_parts P cs (parts @ [name])))"

definition to_logical :: "prims \<Rightarrow> path_component list \<Rightarrow> unrepresentable + str" where
  "to_logical P path =
     and_then (logical_parts P path []) (\<lambda>parts. Ok (join_with slash parts))"

text \<open>A native path is the list of its names.\<close>

definition from_logical :: "str list \<Rightarrow> str \<Rightarrow> str list" where
  "from_logical root logical = root @ filter (\<lambda>p. p \<noteq> []) (split_on slash logical)"

fun clean_parts :: "str list \<Rightarrow> str list \<Rightarrow> str list option" where
  "clean_parts [] parts = Some parts"
| "clean_parts (part # rest) parts =
     (if part = [] \<or> part = lit ''.'' then clean_parts rest parts
      else if part = lit ''..'' then None
      else clean_parts rest (parts @ [part]))"

definition clean_logical :: "prims \<Rightarrow> str \<Rightarrow> str option" where
  "clean_logical P input =
     (case clean_parts (split_seps input) [] of
        None \<Rightarrow> None
      | Some parts \<Rightarrow> Some (normalize_unicode P (join_with slash parts)))"

datatype parent_dir_use = Inside str | Escapes

fun classify_parts :: "str list \<Rightarrow> str list \<Rightarrow> bool \<Rightarrow> (bool \<times> str list) option" where
  "classify_parts [] resolved saw_parent = Some (saw_parent, resolved)"
| "classify_parts (part # rest) resolved saw_parent =
     (if part = [] \<or> part = lit ''.'' then classify_parts rest resolved saw_parent
      else if part = lit ''..'' then
        (if resolved = [] then None else classify_parts rest (butlast resolved) True)
      else classify_parts rest (resolved @ [part]) saw_parent)"

definition classify_parent_dir :: "prims \<Rightarrow> str \<Rightarrow> parent_dir_use option" where
  "classify_parent_dir P input =
     (case classify_parts (split_seps input) [] False of
        None \<Rightarrow> Some Escapes
      | Some (saw_parent, resolved) \<Rightarrow>
          if saw_parent then Some (Inside (normalize_unicode P (join_with slash resolved))) else None)"

definition strip_path_prefix :: "str \<Rightarrow> str \<Rightarrow> str option" where
  "strip_path_prefix s p = (if take (length p) s = p then Some (drop (length p) s) else None)"

definition trim_end_slashes :: "str \<Rightarrow> str" where
  "trim_end_slashes s = rev (dropWhile (\<lambda>b. b = slash) (rev s))"

definition is_under :: "str \<Rightarrow> str \<Rightarrow> bool" where
  "is_under base child =
     (if base = [] then True
      else case strip_path_prefix child (trim_end_slashes base) of
          Some [] \<Rightarrow> True
        | Some (b # rest) \<Rightarrow> b = slash
        | None \<Rightarrow> False)"

definition file_name :: "str \<Rightarrow> str" where
  "file_name logical = last (split_on slash logical)"

definition parent :: "str \<Rightarrow> str" where
  "parent logical =
     (if slash \<in> set logical then rev (tl (dropWhile (\<lambda>b. b \<noteq> slash) (rev logical))) else [])"

definition looks_like_windows_drive :: "str \<Rightarrow> bool" where
  "looks_like_windows_drive spec =
     (case chars spec of
        letter # c # _ \<Rightarrow> c = 0x3A \<and> (0x41 \<le> letter \<and> letter \<le> 0x5A \<or> 0x61 \<le> letter \<and> letter \<le> 0x7A)
      | _ \<Rightarrow> False)"

definition looks_like_unc :: "str \<Rightarrow> bool" where
  "looks_like_unc spec \<longleftrightarrow> take 2 spec = [0x5C, 0x5C]"

definition is_drive_letter :: "str \<Rightarrow> bool" where
  "is_drive_letter name \<longleftrightarrow> length name = 1 \<and> is_ascii_alphabetic (hd name)"

section \<open>Parts and separators\<close>

lemma split_seps_neq_Nil [simp]: "split_seps xs \<noteq> []"
  by (induction xs) (auto split: list.splits)

text \<open>Where there is no backslash, the split is that of a logical path.\<close>

lemma split_seps_slash: "0x5C \<notin> set xs \<Longrightarrow> split_seps xs = split_on slash xs"
  by (induction xs) (auto simp: LOGICAL_PATH_SEPARATORS_def split: list.splits)

definition noise :: "str \<Rightarrow> bool" where
  "noise part \<longleftrightarrow> part = [] \<or> part = lit ''.''"

lemma clean_parts_eq:
  "clean_parts ps parts =
     (if lit ''..'' \<in> set ps then None else Some (parts @ filter (\<lambda>p. \<not> noise p) ps))"
  by (induction ps parts rule: clean_parts.induct) (auto simp: noise_def)

lemma clean_logical_eq:
  "clean_logical P input =
     (if lit ''..'' \<in> set (split_seps input) then None
      else Some (normalize_unicode P (join_with slash (filter (\<lambda>p. \<not> noise p) (split_seps input)))))"
  by (simp add: clean_logical_def clean_parts_eq)

text \<open>The classification is what a file system makes of the steps, from the root.\<close>

lemma classify_parts_walk:
  "classify_parts ps dir saw = map_option (\<lambda>d. (saw \<or> lit ''..'' \<in> set ps, d)) (walk dir ps)"
  by (induction ps dir saw rule: classify_parts.induct) auto

lemma classify_parent_dir_eq:
  "classify_parent_dir P input =
     (case walk [] (split_seps input) of
        None \<Rightarrow> Some Escapes
      | Some dir \<Rightarrow>
          if lit ''..'' \<in> set (split_seps input) then Some (Inside (normalize_unicode P (join_with slash dir))) else None)"
  by (auto simp: classify_parent_dir_def classify_parts_walk split: option.splits)

lemma walk_clean: "lit ''..'' \<notin> set ps \<Longrightarrow> walk dir ps = Some (dir @ filter (\<lambda>p. \<not> noise p) ps)"
  by (induction ps arbitrary: dir) (auto simp: noise_def)

text \<open>
  A typed path is either taken as it stands, or it holds a step up and then it is refused, with a
  classification that says where it leads.
\<close>

lemma clean_or_classified:
  "clean_logical P input = None \<longleftrightarrow> classify_parent_dir P input \<noteq> None"
proof (cases "lit ''..'' \<in> set (split_seps input)")
  case True
  then show ?thesis by (auto simp: clean_logical_eq classify_parent_dir_eq split: option.splits)
next
  case False
  then show ?thesis by (simp add: clean_logical_eq classify_parent_dir_eq walk_clean)
qed

section \<open>Containment by components\<close>

lemma prefix_split_on:
  "prefix (split_on c s) (split_on c t) \<longleftrightarrow> t = s \<or> prefix (s @ [c]) t"
proof (induction s arbitrary: t)
  case Nil
  show ?case
  proof (cases t)
    case (Cons x xs)
    then show ?thesis by (auto split: list.splits)
  qed auto
next
  case (Cons a s)
  obtain p ps where p: "split_on c s = p # ps" by (metis neq_Nil_conv split_on_neq_Nil)
  show ?case
  proof (cases t)
    case Nil
    with p show ?thesis by auto
  next
    case t: (Cons x xs)
    obtain q qs where q: "split_on c xs = q # qs" by (metis neq_Nil_conv split_on_neq_Nil)
    with Cons.IH [of xs] p t show ?thesis by (auto split: if_splits)
  qed
qed

lemma strip_path_prefix_Some: "strip_path_prefix s p = Some r \<longleftrightarrow> s = p @ r"
  by (auto simp: strip_path_prefix_def) (metis append_take_drop_id)

lemma strip_path_prefix_None: "strip_path_prefix s p = None \<longleftrightarrow> \<not> prefix p s"
  by (auto simp: prefix_def strip_path_prefix_def) (metis append_take_drop_id)

lemma is_under_iff:
  "is_under p child \<longleftrightarrow> p = [] \<or> prefix (split_on slash (trim_end_slashes p)) (split_on slash child)"
proof (cases "strip_path_prefix child (trim_end_slashes p)")
  case None
  with strip_path_prefix_None have "\<not> prefix (trim_end_slashes p) child" by blast
  with None show ?thesis
    by (auto simp: is_under_def prefix_split_on dest: append_prefixD)
next
  case (Some r)
  then have "child = trim_end_slashes p @ r" by (simp add: strip_path_prefix_Some)
  with Some show ?thesis
    by (cases r) (auto simp: is_under_def prefix_split_on)
qed

section \<open>Name and parent\<close>

lemma split_on_last: "c \<notin> set s \<Longrightarrow> split_on c (xs @ c # s) = split_on c xs @ [s]"
  by (induction xs) (auto simp: split_on_single split: list.splits)

lemma parent_file_name:
  "slash \<in> set p \<Longrightarrow> p = parent p @ slash # file_name p"
proof -
  assume "slash \<in> set p"
  then obtain xs ys where p: "p = xs @ slash # ys" "slash \<notin> set ys" by (metis split_list_last)
  then have "dropWhile (\<lambda>b. b \<noteq> slash) (rev p) = slash # rev xs"
    by (auto simp: dropWhile_append3)
  with p show ?thesis by (simp add: parent_def file_name_def split_on_last)
qed

lemma join_parent_file_name: "p = [] \<or> hd p \<noteq> slash \<Longrightarrow> join_path (parent p) (file_name p) = p"
proof (cases "slash \<in> set p")
  case True
  assume "p = [] \<or> hd p \<noteq> slash"
  with True parent_file_name [OF True] have "parent p \<noteq> []" by (metis append_Nil empty_iff empty_set list.sel(1))
  with parent_file_name [OF True] show ?thesis by (simp add: join_path_def)
next
  case False
  then show ?thesis by (simp add: join_path_def parent_def file_name_def split_on_single)
qed

lemma file_name_join: "slash \<notin> set n \<Longrightarrow> file_name (join_path d n) = n"
  by (simp add: file_name_def join_path_def split_on_last split_on_single)

lemma parent_join: "slash \<notin> set n \<Longrightarrow> parent (join_path d n) = d"
proof (cases "d = []")
  case False
  assume "slash \<notin> set n"
  with False have "dropWhile (\<lambda>b. b \<noteq> slash) (rev (join_path d n)) = slash # rev d"
    by (auto simp: join_path_def dropWhile_append3)
  with False show ?thesis by (simp add: parent_def join_path_def)
qed (simp add: parent_def join_path_def)

section \<open>One spelling for a name\<close>

text \<open>
  What is documented of normalisation form C: ASCII text is normalised, and the slash neither composes
  nor reorders, so that the parts of a path are normalised on their own.
\<close>

definition nfc_by_parts :: "prims \<Rightarrow> bool" where
  "nfc_by_parts P \<longleftrightarrow>
     (\<forall>s. list_all ascii s \<longrightarrow> nfc P s = s) \<and> (\<forall>s t. nfc P (s @ slash # t) = nfc P s @ slash # nfc P t)"

lemma normalize_unicode_nfc: "nfc_by_parts P \<Longrightarrow> normalize_unicode P = nfc P"
  by (rule ext) (simp add: nfc_by_parts_def normalize_unicode_def)

lemma nfc_join: "nfc_by_parts P \<Longrightarrow> nfc P (join_with slash ps) = join_with slash (map (nfc P) ps)"
  by (induction slash ps rule: join_with.induct) (auto simp: nfc_by_parts_def)

fun normal_names :: "path_component list \<Rightarrow> str list" where
  "normal_names [] = []"
| "normal_names (Normal n # cs) = n # normal_names cs"
| "normal_names (_ # cs) = normal_names cs"

lemma to_logical_component_Ok:
  "to_logical_component P n = Ok m \<longleftrightarrow>
     utf8_valid n \<and> set LOGICAL_PATH_SEPARATORS \<inter> set n = {} \<and> m = normalize_unicode P n"
  by (auto simp: to_logical_component_def find_None_iff split: option.splits) (auto simp: find_Some_iff)

lemma logical_parts_Ok:
  "logical_parts P cs parts = Ok out \<longleftrightarrow>
     ParentComp \<notin> set cs \<and> (\<forall>n \<in> set (normal_names cs). utf8_valid n \<and> set LOGICAL_PATH_SEPARATORS \<inter> set n = {}) \<and>
     out = parts @ map (normalize_unicode P) (normal_names cs)"
proof (induction cs arbitrary: parts)
  case (Cons c cs)
  then show ?case
    by (cases c) (auto simp: and_then_Ok_iff to_logical_component_Ok)
qed auto

lemma split_seps_join:
  "ns \<noteq> [] \<Longrightarrow> \<forall>n \<in> set ns. set LOGICAL_PATH_SEPARATORS \<inter> set n = {} \<Longrightarrow>
    split_seps (join_with slash ns) = ns"
proof -
  assume a: "ns \<noteq> []" "\<forall>n \<in> set ns. set LOGICAL_PATH_SEPARATORS \<inter> set n = {}"
  have "x \<in> set (join_with slash ns) \<Longrightarrow> x = slash \<or> (\<exists>n \<in> set ns. x \<in> set n)" for x
    by (induction slash ns rule: join_with.induct) auto
  with a(2) have "0x5C \<notin> set (join_with slash ns)" by (fastforce simp: LOGICAL_PATH_SEPARATORS_def)
  with a show ?thesis
    by (simp add: split_seps_slash split_on_join LOGICAL_PATH_SEPARATORS_def)
qed

text \<open>
  C40. What a walk stores a file under is what a user who types its name means: the names are those that the
  file system has, so none is empty or a step, and normalization works name by name.
\<close>

theorem walked_is_typed:
  assumes "nfc_by_parts P" "to_logical P path = Ok stored"
    and "\<forall>n \<in> set (normal_names path). \<not> noise n \<and> n \<noteq> lit ''..''"
  shows "clean_logical P (join_with slash (normal_names path)) = Some stored"
proof -
  let ?ns = "normal_names path"
  have s: "\<forall>n \<in> set ?ns. set LOGICAL_PATH_SEPARATORS \<inter> set n = {}"
    "stored = join_with slash (map (normalize_unicode P) ?ns)"
    using assms(2) by (auto simp: to_logical_def and_then_Ok_iff logical_parts_Ok)
  show ?thesis
  proof (cases "?ns = []")
    case True
    with s show ?thesis by (simp add: clean_logical_eq noise_def normalize_unicode_def)
  next
    case False
    then have "split_seps (join_with slash ?ns) = ?ns" using s(1) by (rule split_seps_join)
    moreover have "filter (\<lambda>p. \<not> noise p) ?ns = ?ns" "lit ''..'' \<notin> set ?ns" using assms(3) by auto
    ultimately show ?thesis
      using s(2) assms(1)
      by (simp add: clean_logical_eq normalize_unicode_nfc nfc_join map_idI del: lit_simps)
  qed
qed

lemma walked_is_typed_witness:
  "to_logical toy_prims [CurDir, Normal (lit ''d''), Normal (lit ''b'')] = Ok (lit ''d/b'') \<and>
    clean_logical toy_prims (lit ''d/b'') = Some (lit ''d/b'')"
proof -
  have toy: "nfc_by_parts toy_prims" by (simp add: nfc_by_parts_def toy_prims_def)
  have run: "to_logical toy_prims [CurDir, Normal (lit ''d''), Normal (lit ''b'')] = Ok (lit ''d/b'')"
    by code_simp
  have names: "\<forall>n \<in> set (normal_names [CurDir, Normal (lit ''d''), Normal (lit ''b'')]). \<not> noise n \<and> n \<noteq> lit ''..''"
    by code_simp
  from walked_is_typed [OF toy run names] run show ?thesis by simp
qed

end
