(* ===== verification/Path_Filter.thy ===== *)
theory Path_Filter
  imports Glob Logical_Path "HOL-Library.List_Lexorder"
begin

text \<open>
  \<open>dctl-cli/src/filter/\<close> above the pattern language: one rule (\<open>rule.rs\<close>), the bounds on size, age and
  depth, the rule files and path lists (\<open>parse.rs\<close>), and the engine that decides about a candidate and is
  built from the flags (\<open>mod.rs\<close>). A \<open>BTreeSet<String>\<close> is a sorted list without duplicates. The parsers
  of a size and of an age go through floating point and are parameters; so is the reading of a file.
\<close>

section \<open>A rule\<close>

datatype filter_action = Include | Exclude

definition action_admits :: "filter_action \<Rightarrow> bool" where
  "action_admits a \<longleftrightarrow> a = Include"

datatype anchor = AtRoot | AtName | AtSuffix

record rule =
  ru_action :: filter_action
  ru_glob :: "inst list"
  ru_anchor :: anchor
  ru_directories_only :: bool
  ru_source :: str

definition rule_compile :: "prims \<Rightarrow> filter_action \<Rightarrow> str \<Rightarrow> pattern_error + rule" where
  "rule_compile P action pattern =
     (let normalised = normalize_unicode P pattern;
          (body, directories_only) =
            (if normalised \<noteq> [] \<and> last normalised = slash then (butlast normalised, True) else (normalised, False));
          (anchor, body) =
            (case strip_path_prefix body [slash] of
               Some rest \<Rightarrow> (AtRoot, rest)
             | None \<Rightarrow> (if slash \<in> set body then AtSuffix else AtName, body)) in
      and_then (compile_glob body) (\<lambda>glob.
      Ok \<lparr>ru_action = action, ru_glob = glob, ru_anchor = anchor,
          ru_directories_only = directories_only, ru_source = pattern\<rparr>))"

record candidate =
  ca_path :: str
  ca_size :: "u64 option"
  ca_modified :: "int option"
  ca_is_dir :: bool

definition candidate_file :: "str \<Rightarrow> u64 \<Rightarrow> candidate" where
  "candidate_file path n = \<lparr>ca_path = path, ca_size = Some n, ca_modified = None, ca_is_dir = False\<rparr>"

definition candidate_at :: "candidate \<Rightarrow> int option \<Rightarrow> candidate" where
  "candidate_at c modified = c\<lparr>ca_modified := modified\<rparr>"

definition candidate_unmeasured :: "str \<Rightarrow> candidate" where
  "candidate_unmeasured path = \<lparr>ca_path = path, ca_size = None, ca_modified = None, ca_is_dir = False\<rparr>"

definition candidate_directory :: "str \<Rightarrow> candidate" where
  "candidate_directory path = \<lparr>ca_path = path, ca_size = None, ca_modified = None, ca_is_dir = True\<rparr>"

text \<open>The path itself and what follows each of its separators.\<close>

definition component_suffixes :: "str \<Rightarrow> str list" where
  "component_suffixes path =
     path # map (\<lambda>i. drop (i + 1) path) (filter (\<lambda>i. path ! i = slash) [0..<length path])"

definition rule_matches :: "rule \<Rightarrow> candidate \<Rightarrow> bool" where
  "rule_matches r c =
     (if ru_directories_only r \<and> \<not> ca_is_dir c then False
      else let path = ca_path c in
        case ru_anchor r of
          AtRoot \<Rightarrow> glob_matches (ru_glob r) path
        | AtName \<Rightarrow> glob_matches (ru_glob r) (file_name path)
        | AtSuffix \<Rightarrow> list_ex (\<lambda>suffix. glob_matches (ru_glob r) suffix) (component_suffixes path))"

section \<open>The bounds\<close>

datatype size_problem =
    SizeUnreadable string str
  | SizeUnitless string str
  | SizeCrossed u64 u64

record size_bounds =
  sb_min :: "u64 option"
  sb_max :: "u64 option"

definition size_open :: size_bounds where
  "size_open = \<lparr>sb_min = None, sb_max = None\<rparr>"

definition size_new :: "u64 option \<Rightarrow> u64 option \<Rightarrow> size_problem + size_bounds" where
  "size_new mn mx =
     (case (mn, mx) of
        (Some low, Some high) \<Rightarrow>
          if high < low then Err (SizeCrossed low high) else Ok \<lparr>sb_min = mn, sb_max = mx\<rparr>
      | _ \<Rightarrow> Ok \<lparr>sb_min = mn, sb_max = mx\<rparr>)"

definition size_limited :: "size_bounds \<Rightarrow> bool" where
  "size_limited b \<longleftrightarrow> sb_min b \<noteq> None \<or> sb_max b \<noteq> None"

datatype age_problem =
    AgeUnreadable string str
  | AgeCrossed int int

record age_bounds =
  ab_from :: "int option"
  ab_to :: "int option"

definition age_open :: age_bounds where
  "age_open = \<lparr>ab_from = None, ab_to = None\<rparr>"

text \<open>\<open>i64::saturating_sub\<close>.\<close>

definition saturating_sub64 :: "int \<Rightarrow> int \<Rightarrow> int" where
  "saturating_sub64 a b = max (- (2 ^ 63)) (min (2 ^ 63 - 1) (a - b))"

definition age_new :: "int option \<Rightarrow> int option \<Rightarrow> int \<Rightarrow> age_problem + age_bounds" where
  "age_new min_age max_age now =
     (let bounds = \<lparr>ab_from = map_option (saturating_sub64 now) max_age,
                    ab_to = map_option (saturating_sub64 now) min_age\<rparr> in
      case (min_age, max_age) of
        (Some mn, Some mx) \<Rightarrow> if mx < mn then Err (AgeCrossed mn mx) else Ok bounds
      | _ \<Rightarrow> Ok bounds)"

definition age_limited :: "age_bounds \<Rightarrow> bool" where
  "age_limited b \<longleftrightarrow> ab_from b \<noteq> None \<or> ab_to b \<noteq> None"

definition depth_of :: "str \<Rightarrow> nat" where
  "depth_of path = length (filter (\<lambda>part. part \<noteq> []) (split_on slash path))"

text \<open>\<open>DepthLimit::from_flag\<close>; the limit is \<open>None\<close> for no limit, and the problem is the number given.\<close>

definition MAX_DEPTH_UNLIMITED :: int where
  "MAX_DEPTH_UNLIMITED = - 1"

definition depth_from_flag :: "int \<Rightarrow> int + nat option" where
  "depth_from_flag given =
     (if given = MAX_DEPTH_UNLIMITED then Ok None
      else if 0 \<le> given then Ok (Some (nat given))
      else Err given)"

definition depth_may_descend :: "nat option \<Rightarrow> nat \<Rightarrow> bool" where
  "depth_may_descend limit depth = (case limit of None \<Rightarrow> True | Some limit \<Rightarrow> depth < limit)"

section \<open>The decision\<close>

datatype reason =
    Unfiltered
  | NotListed
  | PathTooDeep nat nat
  | TooSmall u64 u64
  | TooLarge u64 u64
  | TooOld int int
  | TooNew int int
  | Matched rule nat
  | Unmatched

record decision =
  de_action :: filter_action
  de_reason :: reason

definition decided :: "filter_action \<Rightarrow> reason \<Rightarrow> decision" where
  "decided action reason = \<lparr>de_action = action, de_reason = reason\<rparr>"

record filter_set =
  fs_rules :: "rule list"
  fs_default_action :: filter_action
  fs_sizes :: size_bounds
  fs_ages :: age_bounds
  fs_depth :: "nat option"
  fs_only :: "str list option"

definition everything :: filter_set where
  "everything = \<lparr>fs_rules = [], fs_default_action = Include, fs_sizes = size_open,
     fs_ages = age_open, fs_depth = None, fs_only = None\<rparr>"

definition is_restricting :: "filter_set \<Rightarrow> bool" where
  "is_restricting F \<longleftrightarrow> fs_rules F \<noteq> [] \<or> fs_only F \<noteq> None \<or> size_limited (fs_sizes F)
     \<or> age_limited (fs_ages F) \<or> fs_depth F \<noteq> None"

text \<open>\<open>paths.range(from..).next()\<close> of the sorted set.\<close>

definition range_first :: "str list \<Rightarrow> str \<Rightarrow> str option" where
  "range_first paths start = find (\<lambda>p. start \<le> p) paths"

definition is_under_any :: "str list \<Rightarrow> str \<Rightarrow> bool" where
  "is_under_any paths path =
     (if path = [] then paths \<noteq> []
      else if path \<in> set paths then True
      else let p = path @ [slash] in
        case range_first paths p of None \<Rightarrow> False | Some first \<Rightarrow> prefix p first)"

text \<open>The refusals of \<open>decide\<close> before the rules, in their order.\<close>

definition only_refusal :: "filter_set \<Rightarrow> candidate \<Rightarrow> reason option" where
  "only_refusal F c =
     (case fs_only F of
        None \<Rightarrow> None
      | Some only \<Rightarrow>
          let listed = (if ca_is_dir c then is_under_any only (ca_path c) else ca_path c \<in> set only) in
          if \<not> listed then Some NotListed else None)"

definition depth_refusal :: "filter_set \<Rightarrow> candidate \<Rightarrow> reason option" where
  "depth_refusal F c =
     (let depth = depth_of (ca_path c) in
      case fs_depth F of
        None \<Rightarrow> None
      | Some limit \<Rightarrow> if limit < depth then Some (PathTooDeep depth limit) else None)"

definition too_old :: "filter_set \<Rightarrow> candidate \<Rightarrow> reason option" where
  "too_old F c =
     (case (ca_modified c, ab_from (fs_ages F)) of
        (Some modified, Some floor) \<Rightarrow> if modified < floor then Some (TooOld modified floor) else None
      | _ \<Rightarrow> None)"

definition too_new :: "filter_set \<Rightarrow> candidate \<Rightarrow> reason option" where
  "too_new F c =
     (case (ca_modified c, ab_to (fs_ages F)) of
        (Some modified, Some ceiling) \<Rightarrow> if modified > ceiling then Some (TooNew modified ceiling) else None
      | _ \<Rightarrow> None)"

definition too_small :: "filter_set \<Rightarrow> candidate \<Rightarrow> reason option" where
  "too_small F c =
     (case (ca_size c, sb_min (fs_sizes F)) of
        (Some sz, Some limit) \<Rightarrow> if sz < limit then Some (TooSmall sz limit) else None
      | _ \<Rightarrow> None)"

definition too_large :: "filter_set \<Rightarrow> candidate \<Rightarrow> reason option" where
  "too_large F c =
     (case (ca_size c, sb_max (fs_sizes F)) of
        (Some sz, Some limit) \<Rightarrow> if sz > limit then Some (TooLarge sz limit) else None
      | _ \<Rightarrow> None)"

fun first_of :: "'a option list \<Rightarrow> 'a option" where
  "first_of [] = None"
| "first_of (None # xs) = first_of xs"
| "first_of (Some x # xs) = Some x"

definition refusal :: "filter_set \<Rightarrow> candidate \<Rightarrow> reason option" where
  "refusal F c = first_of [only_refusal F c, depth_refusal F c, too_old F c, too_new F c, too_small F c, too_large F c]"

text \<open>The loop over the rules, from a position on.\<close>

fun first_match :: "candidate \<Rightarrow> rule list \<Rightarrow> nat \<Rightarrow> (rule \<times> nat) option" where
  "first_match c [] position = None"
| "first_match c (r # rs) position =
     (if rule_matches r c then Some (r, position) else first_match c rs (position + 1))"

definition decide :: "filter_set \<Rightarrow> candidate \<Rightarrow> decision" where
  "decide F c =
     (if \<not> is_restricting F then decided Include Unfiltered
      else case refusal F c of
          Some r \<Rightarrow> decided Exclude r
        | None \<Rightarrow>
            (case first_match c (fs_rules F) 0 of
               Some (r, position) \<Rightarrow> decided (ru_action r) (Matched r position)
             | None \<Rightarrow> decided (fs_default_action F) Unmatched))"

definition admits :: "filter_set \<Rightarrow> candidate \<Rightarrow> bool" where
  "admits F c = action_admits (de_action (decide F c))"

definition may_descend :: "filter_set \<Rightarrow> str \<Rightarrow> bool" where
  "may_descend F path =
     (if \<not> depth_may_descend (fs_depth F) (depth_of path) then False
      else case fs_only F of
          Some only \<Rightarrow> is_under_any only path
        | None \<Rightarrow> \<not> list_ex (\<lambda>r. ru_action r = Exclude \<and> ru_directories_only r \<and>
            rule_matches r (candidate_directory path)) (fs_rules F))"

text \<open>The root and what precedes each separator.\<close>

definition path_ancestors :: "str \<Rightarrow> str list" where
  "path_ancestors path =
     [] # map (\<lambda>i. take i path) (filter (\<lambda>i. path ! i = slash) [0..<length path])"

definition admits_enumerated :: "filter_set \<Rightarrow> candidate \<Rightarrow> bool" where
  "admits_enumerated F c \<longleftrightarrow> admits F c \<and> list_all (may_descend F) (path_ancestors (ca_path c))"

definition with_depth_limit :: "filter_set \<Rightarrow> nat option \<Rightarrow> filter_set" where
  "with_depth_limit F limit = F\<lparr>fs_depth := limit\<rparr>"

section \<open>Rule files and path lists\<close>

text \<open>\<open>str::lines\<close>: lines end at a line feed or at a carriage return with one; the last end is optional.\<close>

definition strip_cr :: "str \<Rightarrow> str" where
  "strip_cr line = (if line \<noteq> [] \<and> last line = 0x0D then butlast line else line)"

definition str_lines :: "str \<Rightarrow> str list" where
  "str_lines text =
     (let parts = split_on 0x0A text in
      map strip_cr (butlast parts) @ (if last parts = [] then [] else [last parts]))"

text \<open>The characters of \<open>char::is_whitespace\<close>, in UTF-8; \<open>str::trim\<close>.\<close>

definition WHITESPACE :: "str list" where
  "WHITESPACE =
     [[0x09], [0x0A], [0x0B], [0x0C], [0x0D], [0x20], [0xC2, 0x85], [0xC2, 0xA0], [0xE1, 0x9A, 0x80]]
     @ map (\<lambda>c. [0xE2, 0x80, c]) [0x80, 0x81, 0x82, 0x83, 0x84, 0x85, 0x86, 0x87, 0x88, 0x89, 0x8A, 0xA8, 0xA9, 0xAF]
     @ [[0xE2, 0x81, 0x9F], [0xE3, 0x80, 0x80]]"

text \<open>Dropping the words of a list from the front; none of them is empty.\<close>

function drop_words :: "str list \<Rightarrow> str \<Rightarrow> str" where
  "drop_words ws s =
     (case find (\<lambda>w. w \<noteq> [] \<and> take (length w) s = w) ws of
        Some w \<Rightarrow> drop_words ws (drop (length w) s)
      | None \<Rightarrow> s)"
  by pat_completeness auto
termination
proof (relation "measure (\<lambda>(ws, s). length s)", goal_cases)
  case (2 ws s w)
  then have "w \<noteq> []" "take (length w) s = w" by (auto simp: find_Some_iff)
  then show ?case by (cases s) auto
qed simp

declare drop_words.simps [simp del]

definition str_trim :: "str \<Rightarrow> str" where
  "str_trim s = rev (drop_words (map rev WHITESPACE) (rev (drop_words WHITESPACE s)))"

definition starts_with_whitespace :: "str \<Rightarrow> bool" where
  "starts_with_whitespace s \<longleftrightarrow> list_ex (\<lambda>w. take (length w) s = w) WHITESPACE"

definition FILTER_RULE_INCLUDE :: byte where "FILTER_RULE_INCLUDE = 0x2B"
definition FILTER_RULE_EXCLUDE :: byte where "FILTER_RULE_EXCLUDE = 0x2D"
definition FILTER_RULE_CLEAR :: str where "FILTER_RULE_CLEAR = [0x21]"
definition FILTER_COMMENT_MARKERS :: "byte list" where "FILTER_COMMENT_MARKERS = [0x23, 0x3B]"

datatype line_problem = MissingMarker | MissingPattern | EscapesRoot

datatype file_problem =
    Unreadable str str
  | Malformed str nat str line_problem

datatype directive =
    RuleDirective filter_action str nat
  | ClearDirective nat

text \<open>The markers are ASCII, so the first character is one exactly when the first byte is.\<close>

definition first_char :: "str \<Rightarrow> byte option" where
  "first_char line = (case line of [] \<Rightarrow> None | b # _ \<Rightarrow> Some b)"

definition starts_a_comment :: "str \<Rightarrow> bool" where
  "starts_a_comment line = (case first_char line of None \<Rightarrow> False | Some c \<Rightarrow> c \<in> set FILTER_COMMENT_MARKERS)"

fun rules_in_lines :: "str \<Rightarrow> nat \<Rightarrow> str list \<Rightarrow> directive list \<Rightarrow> file_problem + directive list" where
  "rules_in_lines origin line [] directives = Ok directives"
| "rules_in_lines origin line (raw # rest_lines) directives =
     (let trimmed = str_trim raw;
          continue = rules_in_lines origin (line + 1) rest_lines in
      if trimmed = [] \<or> starts_a_comment trimmed then continue directives
      else if trimmed = FILTER_RULE_CLEAR then continue (directives @ [ClearDirective line])
      else case (if first_char trimmed = Some FILTER_RULE_INCLUDE then Some Include
                 else if first_char trimmed = Some FILTER_RULE_EXCLUDE then Some Exclude else None) of
          None \<Rightarrow> Err (Malformed origin line trimmed MissingMarker)
        | Some action \<Rightarrow>
            (let rest = drop 1 trimmed in
             if rest = [] then Err (Malformed origin line trimmed MissingPattern)
             else if \<not> starts_with_whitespace rest then Err (Malformed origin line trimmed MissingMarker)
             else let pattern = str_trim rest in
               if pattern = [] then Err (Malformed origin line trimmed MissingPattern)
               else continue (directives @ [RuleDirective action pattern line])))"

definition rules_in :: "str \<Rightarrow> str \<Rightarrow> file_problem + directive list" where
  "rules_in text origin = rules_in_lines origin 1 (str_lines text) []"

text \<open>\<open>BTreeSet::insert\<close>.\<close>

definition set_insert :: "str \<Rightarrow> str list \<Rightarrow> str list" where
  "set_insert x xs = (if x \<in> set xs then xs else insort x xs)"

fun paths_in_lines :: "prims \<Rightarrow> str \<Rightarrow> nat \<Rightarrow> str list \<Rightarrow> str list \<Rightarrow> file_problem + str list" where
  "paths_in_lines P origin line [] paths = Ok paths"
| "paths_in_lines P origin line (raw # rest_lines) paths =
     (let trimmed = str_trim raw in
      if trimmed = [] \<or> starts_a_comment trimmed then paths_in_lines P origin (line + 1) rest_lines paths
      else case clean_logical P trimmed of
          None \<Rightarrow> Err (Malformed origin line trimmed EscapesRoot)
        | Some cleaned \<Rightarrow> paths_in_lines P origin (line + 1) rest_lines
            (if cleaned \<noteq> [] then set_insert cleaned paths else paths))"

definition paths_in :: "prims \<Rightarrow> str \<Rightarrow> str \<Rightarrow> file_problem + str list" where
  "paths_in P text origin = paths_in_lines P origin 1 (str_lines text) []"

section \<open>Building a filter\<close>

text \<open>Where a pattern came from, as the message of its failure says, and the failures.\<close>

datatype origin = FromFlag string | FromFlagLine string str nat | FromLine str nat

datatype filter_error =
    BadPattern origin pattern_error
  | BadFile file_problem
  | BadSize size_problem
  | BadAge age_problem
  | BadDepth int

type_synonym file_reader = "str \<Rightarrow> str + str"

definition read_file :: "file_reader \<Rightarrow> str \<Rightarrow> file_problem + str" where
  "read_file files source =
     (case files source of Inl detail \<Rightarrow> Err (Unreadable source detail) | Inr text \<Rightarrow> Ok text)"

definition compile_rule :: "prims \<Rightarrow> filter_action \<Rightarrow> str \<Rightarrow> origin \<Rightarrow> filter_error + rule" where
  "compile_rule P action pattern origin =
     (case rule_compile P action pattern of Inl e \<Rightarrow> Err (BadPattern origin e) | Inr r \<Rightarrow> Ok r)"

definition file_result :: "file_problem + 'a \<Rightarrow> filter_error + 'a" where
  "file_result r = (case r of Inl p \<Rightarrow> Err (BadFile p) | Inr x \<Rightarrow> Ok x)"

record builder =
  bu_rules :: "rule list"
  bu_implicit_exclude :: bool
  bu_sizes :: size_bounds
  bu_ages :: age_bounds
  bu_depth :: "nat option"
  bu_only :: "str list option"

definition new_builder :: builder where
  "new_builder = \<lparr>bu_rules = [], bu_implicit_exclude = False, bu_sizes = size_open,
     bu_ages = age_open, bu_depth = None, bu_only = None\<rparr>"

definition push_rule :: "rule \<Rightarrow> builder \<Rightarrow> builder" where
  "push_rule r b = b\<lparr>bu_rules := bu_rules b @ [r]\<rparr>"

definition bu_include :: "prims \<Rightarrow> str \<Rightarrow> builder \<Rightarrow> filter_error + builder" where
  "bu_include P pattern b =
     and_then (compile_rule P Include pattern (FromFlag ''--include'')) (\<lambda>r.
     Ok ((push_rule r b)\<lparr>bu_implicit_exclude := True\<rparr>))"

definition bu_exclude :: "prims \<Rightarrow> str \<Rightarrow> builder \<Rightarrow> filter_error + builder" where
  "bu_exclude P pattern b =
     and_then (compile_rule P Exclude pattern (FromFlag ''--exclude'')) (\<lambda>r. Ok (push_rule r b))"

text \<open>The loops of \<open>filter_line\<close> and \<open>rules_from\<close> over directives, with the origin of each.\<close>

fun bu_directives :: "prims \<Rightarrow> (nat \<Rightarrow> origin) \<Rightarrow> directive list \<Rightarrow> builder \<Rightarrow> filter_error + builder" where
  "bu_directives P origin [] b = Ok b"
| "bu_directives P origin (ClearDirective line # ds) b = bu_directives P origin ds (b\<lparr>bu_rules := []\<rparr>)"
| "bu_directives P origin (RuleDirective action pattern line # ds) b =
     and_then (compile_rule P action pattern (origin line)) (\<lambda>r. bu_directives P origin ds (push_rule r b))"

definition bu_filter_line :: "prims \<Rightarrow> str \<Rightarrow> builder \<Rightarrow> filter_error + builder" where
  "bu_filter_line P line b =
     and_then (file_result (rules_in line (lit ''--filter''))) (\<lambda>ds.
     bu_directives P (\<lambda>_. FromFlag ''--filter'') ds b)"

fun bu_patterns ::
    "prims \<Rightarrow> string \<Rightarrow> str \<Rightarrow> filter_action \<Rightarrow> nat \<Rightarrow> str list \<Rightarrow> builder \<Rightarrow> filter_error + builder" where
  "bu_patterns P flag source action line [] b = Ok b"
| "bu_patterns P flag source action line (raw # rest) b =
     (let pattern = str_trim raw in
      if pattern = [] \<or> starts_a_comment pattern then bu_patterns P flag source action (line + 1) rest b
      else and_then (compile_rule P action pattern (FromFlagLine flag source line)) (\<lambda>r.
        bu_patterns P flag source action (line + 1) rest (push_rule r b)))"

definition bu_patterns_from ::
    "prims \<Rightarrow> file_reader \<Rightarrow> str \<Rightarrow> filter_action \<Rightarrow> builder \<Rightarrow> filter_error + builder" where
  "bu_patterns_from P files source action b =
     (let flag = (case action of Include \<Rightarrow> ''--include-from'' | Exclude \<Rightarrow> ''--exclude-from'') in
      and_then (file_result (read_file files source)) (\<lambda>text.
      and_then (bu_patterns P flag source action 1 (str_lines text) b) (\<lambda>b.
      Ok (if action = Include then b\<lparr>bu_implicit_exclude := True\<rparr> else b))))"

definition bu_rules_from :: "prims \<Rightarrow> file_reader \<Rightarrow> str \<Rightarrow> builder \<Rightarrow> filter_error + builder" where
  "bu_rules_from P files source b =
     and_then (file_result (read_file files source)) (\<lambda>text.
     and_then (file_result (rules_in text source)) (\<lambda>ds.
     bu_directives P (FromLine source) ds b))"

definition bu_only_from :: "prims \<Rightarrow> file_reader \<Rightarrow> str \<Rightarrow> builder \<Rightarrow> filter_error + builder" where
  "bu_only_from P files source b =
     and_then (file_result (read_file files source)) (\<lambda>text.
     and_then (file_result (paths_in P text source)) (\<lambda>paths.
     Ok (b\<lparr>bu_only := Some (fold set_insert paths (case bu_only b of None \<Rightarrow> [] | Some only \<Rightarrow> only))\<rparr>)))"

definition bu_build :: "prims \<Rightarrow> builder \<Rightarrow> filter_set" where
  "bu_build P b =
     (let (rules, default_action) =
        (if bu_implicit_exclude b
         then (case rule_compile P Exclude (lit ''**'') of
             Inr r \<Rightarrow> bu_rules b @ [r] | Inl _ \<Rightarrow> bu_rules b, Exclude)
         else (bu_rules b, Include)) in
      \<lparr>fs_rules = rules, fs_default_action = default_action, fs_sizes = bu_sizes b,
       fs_ages = bu_ages b, fs_depth = bu_depth b, fs_only = bu_only b\<rparr>)"

record global_args =
  ga_include :: "str list"
  ga_include_from :: "str list"
  ga_exclude :: "str list"
  ga_exclude_from :: "str list"
  ga_filter :: "str list"
  ga_filter_from :: "str list"
  ga_files_from :: "str list"
  ga_min_size :: "str option"
  ga_max_size :: "str option"
  ga_min_age :: "str option"
  ga_max_age :: "str option"
  ga_max_depth :: int

text \<open>The parsers of a size and an age: a message, or a limit that may be off.\<close>

type_synonym size_parser = "str \<Rightarrow> str + u64 option"
type_synonym age_parser = "str \<Rightarrow> str + int option"

definition is_unitless :: "str \<Rightarrow> bool" where
  "is_unitless text \<longleftrightarrow> str_trim text \<noteq> [] \<and> \<not> list_ex is_ascii_alphabetic (str_trim text)"

definition size_parse_one :: "size_parser \<Rightarrow> str option \<Rightarrow> string \<Rightarrow> size_problem + u64 option" where
  "size_parse_one parse_size given flag =
     (case given of
        None \<Rightarrow> Ok None
      | Some text \<Rightarrow>
          if is_unitless text then Err (SizeUnitless flag (str_trim text))
          else (case parse_size text of Inl detail \<Rightarrow> Err (SizeUnreadable flag detail) | Inr v \<Rightarrow> Ok v))"

definition size_parse :: "size_parser \<Rightarrow> str option \<Rightarrow> str option \<Rightarrow> size_problem + size_bounds" where
  "size_parse parse_size mn mx =
     and_then (size_parse_one parse_size mn ''--min-size'') (\<lambda>low.
     and_then (size_parse_one parse_size mx ''--max-size'') (\<lambda>high. size_new low high))"

definition age_parse_one :: "age_parser \<Rightarrow> str option \<Rightarrow> string \<Rightarrow> age_problem + int option" where
  "age_parse_one parse_age given flag =
     (case given of
        None \<Rightarrow> Ok None
      | Some text \<Rightarrow> (case parse_age text of Inl detail \<Rightarrow> Err (AgeUnreadable flag detail) | Inr v \<Rightarrow> Ok v))"

definition age_parse :: "age_parser \<Rightarrow> str option \<Rightarrow> str option \<Rightarrow> int \<Rightarrow> age_problem + age_bounds" where
  "age_parse parse_age mn mx now =
     and_then (age_parse_one parse_age mn ''--min-age'') (\<lambda>low.
     and_then (age_parse_one parse_age mx ''--max-age'') (\<lambda>high. age_new low high now))"

text \<open>A loop over the values of one flag.\<close>

fun each :: "('x \<Rightarrow> builder \<Rightarrow> filter_error + builder) \<Rightarrow> 'x list \<Rightarrow> builder \<Rightarrow> filter_error + builder" where
  "each f [] b = Ok b"
| "each f (x # xs) b = and_then (f x b) (each f xs)"

definition map_err :: "('e \<Rightarrow> 'f) \<Rightarrow> 'e + 'a \<Rightarrow> 'f + 'a" where
  "map_err f r = (case r of Inl e \<Rightarrow> Err (f e) | Inr x \<Rightarrow> Ok x)"

definition from_globals_at ::
    "prims \<Rightarrow> file_reader \<Rightarrow> size_parser \<Rightarrow> age_parser \<Rightarrow> global_args \<Rightarrow> int \<Rightarrow> filter_error + filter_set" where
  "from_globals_at P files parse_size parse_age g now =
     and_then (each (bu_include P) (ga_include g) new_builder) (\<lambda>b.
     and_then (each (\<lambda>s. bu_patterns_from P files s Include) (ga_include_from g) b) (\<lambda>b.
     and_then (each (bu_exclude P) (ga_exclude g) b) (\<lambda>b.
     and_then (each (\<lambda>s. bu_patterns_from P files s Exclude) (ga_exclude_from g) b) (\<lambda>b.
     and_then (each (bu_filter_line P) (ga_filter g) b) (\<lambda>b.
     and_then (each (bu_rules_from P files) (ga_filter_from g) b) (\<lambda>b.
     and_then (each (bu_only_from P files) (ga_files_from g) b) (\<lambda>b.
     and_then (map_err BadSize (size_parse parse_size (ga_min_size g) (ga_max_size g))) (\<lambda>sizes.
     and_then (map_err BadAge (age_parse parse_age (ga_min_age g) (ga_max_age g) now)) (\<lambda>ages.
     and_then (map_err BadDepth (depth_from_flag (ga_max_depth g))) (\<lambda>depth.
     Ok (bu_build P (b\<lparr>bu_sizes := sizes, bu_ages := ages, bu_depth := depth\<rparr>))))))))))))"

end
