(* ===== verification/Glob_Correct.thy ===== *)
theory Glob_Correct
  imports Glob
begin

text \<open>
  What a pattern means, and that the compiled program decides it: the language of the nodes, the words a
  program accepts from a state, the compiler that realises the one by the other, and the matcher that
  follows all states at once.
\<close>

section \<open>The language of a pattern\<close>

definition cat :: "nat list set \<Rightarrow> nat list set \<Rightarrow> nat list set" where
  "cat L M = {u @ v |u v. u \<in> L \<and> v \<in> M}"

lemma cat_simps [simp]:
  "cat {[]} M = M" "cat L {[]} = L" "cat {} M = {}"
  by (auto simp: cat_def)

lemma cat_assoc: "cat (cat L M) N = cat L (cat M N)"
proof
  show "cat (cat L M) N \<subseteq> cat L (cat M N)"
    unfolding cat_def by (clarsimp, metis append.assoc)
  show "cat L (cat M N) \<subseteq> cat (cat L M) N"
    unfolding cat_def by (clarsimp, metis append.assoc)
qed

lemma cat_union: "cat (\<Union>x \<in> A. L x) M = (\<Union>x \<in> A. cat (L x) M)" "cat (X \<union> Y) M = cat X M \<union> cat Y M"
  by (auto simp: cat_def)

lemma cat_char: "c # w \<in> cat {[c] |c. Q c} M \<longleftrightarrow> Q c \<and> w \<in> M" "[] \<notin> cat {[c] |c. Q c} M"
  by (auto simp: cat_def) (metis append_Cons append_Nil)

text \<open>Any number of characters that satisfy a condition.\<close>

lemma cat_many: "w \<in> cat {w. \<forall>c \<in> set w. Q c} M \<longleftrightarrow>
    w \<in> M \<or> (\<exists>c v. w = c # v \<and> Q c \<and> v \<in> cat {w. \<forall>c \<in> set w. Q c} M)"
proof
  assume "w \<in> cat {w. \<forall>c \<in> set w. Q c} M"
  then obtain u v where w: "w = u @ v" "\<forall>c \<in> set u. Q c" "v \<in> M" unfolding cat_def by blast
  show "w \<in> M \<or> (\<exists>c v. w = c # v \<and> Q c \<and> v \<in> cat {w. \<forall>c \<in> set w. Q c} M)"
  proof (cases u)
    case (Cons c us)
    with w have "us @ v \<in> cat {w. \<forall>c \<in> set w. Q c} M" unfolding cat_def by auto
    with w Cons show ?thesis by simp
  qed (use w in simp)
next
  have nil: "w \<in> cat {w. \<forall>c \<in> set w. Q c} M" if "w \<in> M" for w
    using that unfolding cat_def by (auto intro: exI [of _ "[]"])
  have one: "c # v \<in> cat {w. \<forall>c \<in> set w. Q c} M" if a: "Q c" "v \<in> cat {w. \<forall>c \<in> set w. Q c} M" for c v
  proof -
    obtain x y where "v = x @ y" "\<forall>c \<in> set x. Q c" "y \<in> M" using a(2) unfolding cat_def by blast
    with a(1) have "c # v = (c # x) @ y" "\<forall>c \<in> set (c # x). Q c" "y \<in> M" by simp_all
    then show ?thesis unfolding cat_def by blast
  qed
  assume "w \<in> M \<or> (\<exists>c v. w = c # v \<and> Q c \<and> v \<in> cat {w. \<forall>c \<in> set w. Q c} M)"
  with nil one show "w \<in> cat {w. \<forall>c \<in> set w. Q c} M" by blast
qed

fun node_words :: "node \<Rightarrow> nat list set" and seq_words :: "node list \<Rightarrow> nat list set" where
  "node_words (Literal c) = {[c]}"
| "node_words AnyChar = {[c] |c. c \<noteq> PATH_SEPARATOR}"
| "node_words Star = {w. PATH_SEPARATOR \<notin> set w}"
| "node_words Globstar = UNIV"
| "node_words (Class negated items) =
     {[c] |c. c \<noteq> PATH_SEPARATOR \<and> ((\<exists>item \<in> set items. item_contains item c) \<longleftrightarrow> \<not> negated)}"
| "node_words (Alternation bs) = (\<Union>b \<in> set bs. seq_words b)"
| "seq_words [] = {[]}"
| "seq_words (n # ns) = cat (node_words n) (seq_words ns)"

text \<open>The parser makes no alternation without branches.\<close>

fun node_ok :: "node \<Rightarrow> bool" where
  "node_ok (Alternation bs) \<longleftrightarrow> bs \<noteq> [] \<and> (\<forall>b \<in> set bs. \<forall>n \<in> set b. node_ok n)"
| "node_ok _ \<longleftrightarrow> True"

section \<open>The words of a program\<close>

inductive accepts :: "inst list \<Rightarrow> nat \<Rightarrow> nat list \<Rightarrow> bool" for program where
  accept_match: "inst_at program pc = Some Match \<Longrightarrow> accepts program pc []"
| accept_jump: "inst_at program pc = Some (Jump t) \<Longrightarrow> accepts program t w \<Longrightarrow> accepts program pc w"
| accept_one: "inst_at program pc = Some (Split a b) \<Longrightarrow> accepts program a w \<Longrightarrow> accepts program pc w"
| accept_two: "inst_at program pc = Some (Split a b) \<Longrightarrow> accepts program b w \<Longrightarrow> accepts program pc w"
| accept_char: "inst_at program pc = Some (Consume test) \<Longrightarrow> test_admits test c \<Longrightarrow>
    accepts program (pc + 1) w \<Longrightarrow> accepts program pc (c # w)"

inductive_cases accepts_elim: "accepts program pc w"

lemma accepts_at:
  "inst_at program pc = Some Match \<Longrightarrow> accepts program pc w \<longleftrightarrow> w = []"
  "inst_at program pc = Some (Jump t) \<Longrightarrow> accepts program pc w \<longleftrightarrow> accepts program t w"
  "inst_at program pc = Some (Split a b) \<Longrightarrow> accepts program pc w \<longleftrightarrow> accepts program a w \<or> accepts program b w"
  "inst_at program pc = Some (Consume test) \<Longrightarrow>
    accepts program pc w \<longleftrightarrow> (\<exists>c v. w = c # v \<and> test_admits test c \<and> accepts program (pc + 1) v)"
  "inst_at program pc = None \<Longrightarrow> \<not> accepts program pc w"
  by (auto elim: accepts_elim intro: accepts.intros)

section \<open>The compiler\<close>

text \<open>A program contains the instructions of another from a position on.\<close>

definition holds :: "inst list \<Rightarrow> nat \<Rightarrow> inst list \<Rightarrow> bool" where
  "holds program a p \<longleftrightarrow> length p \<le> length program \<and> (\<forall>i. a \<le> i \<longrightarrow> i < length p \<longrightarrow> program ! i = p ! i)"

definition extends :: "inst list \<Rightarrow> inst list \<Rightarrow> bool" where
  "extends p q \<longleftrightarrow> length p \<le> length q \<and> (\<forall>i < length p. q ! i = p ! i)"

lemma holds_at: "holds program a p \<Longrightarrow> a \<le> i \<Longrightarrow> i < length p \<Longrightarrow> inst_at program i = Some (p ! i)"
  by (simp add: holds_def inst_at_def)

lemma holds_extends: "holds program a q \<Longrightarrow> extends p q \<Longrightarrow> holds program a p"
  by (auto simp: holds_def extends_def)

lemma holds_mono: "holds program a q \<Longrightarrow> a \<le> b \<Longrightarrow> holds program b q"
  by (auto simp: holds_def)

lemma extends_trans: "extends p q \<Longrightarrow> extends q r \<Longrightarrow> extends p r"
  by (auto simp: extends_def)

lemma extends_append: "extends p (p @ q)"
  by (simp add: extends_def nth_append)

text \<open>The part between two positions realises a set of words: it leads from the one to the other over them.\<close>

definition language :: "inst list \<Rightarrow> nat \<Rightarrow> nat list set" where
  "language program pc = {w. accepts program pc w}"

definition realises :: "inst list \<Rightarrow> nat \<Rightarrow> nat \<Rightarrow> nat list set \<Rightarrow> bool" where
  "realises program a b L \<longleftrightarrow> language program a = cat L (language program b)"

lemma language_at:
  "inst_at program pc = Some Match \<Longrightarrow> language program pc = {[]}"
  "inst_at program pc = Some (Jump t) \<Longrightarrow> language program pc = language program t"
  "inst_at program pc = Some (Split a b) \<Longrightarrow> language program pc = language program a \<union> language program b"
  "inst_at program pc = None \<Longrightarrow> language program pc = {}"
  by (auto simp: language_def accepts_at)

lemma realises_consume:
  assumes "inst_at program a = Some (Consume test)"
  shows "realises program a (a + 1) {[c] |c. test_admits test c}"
  unfolding realises_def
proof (rule set_eqI)
  fix w
  show "w \<in> language program a \<longleftrightarrow> w \<in> cat {[c] |c. test_admits test c} (language program (a + 1))"
    using accepts_at(4) [OF assms, of w] by (cases w) (simp_all add: language_def cat_char)
qed

lemma realises_repeat:
  assumes "inst_at program a = Some (Split (a + 1) (a + 3))" "inst_at program (a + 1) = Some (Consume test)"
    "inst_at program (a + 2) = Some (Jump a)"
  shows "realises program a (a + 3) {w. \<forall>c \<in> set w. test_admits test c}"
  unfolding realises_def
proof (rule set_eqI)
  fix w
  have step: "w \<in> language program a \<longleftrightarrow>
      w \<in> language program (a + 3) \<or> (\<exists>c v. w = c # v \<and> test_admits test c \<and> v \<in> language program a)" for w
    using accepts_at(2) [OF assms(3)] accepts_at(3) [OF assms(1), of w] accepts_at(4) [OF assms(2), of w]
    by (auto simp: language_def numeral_2_eq_2)
  show "w \<in> language program a \<longleftrightarrow> w \<in> cat {w. \<forall>c \<in> set w. test_admits test c} (language program (a + 3))"
  proof (induction w)
    case Nil
    show ?case by (subst step, subst cat_many) simp
  next
    case (Cons c w)
    show ?case by (subst step, subst cat_many) (simp add: Cons.IH)
  qed
qed

lemma realises_seq: "realises program a b L \<Longrightarrow> realises program b c M \<Longrightarrow> realises program a c (cat L M)"
  by (simp add: realises_def cat_assoc)

lemma emit_repeat_eq:
  "emit_repeat test p = p @ [Split (length p + 1) (length p + 3), Consume test, Jump (length p)]"
  by (simp add: emit_repeat_def Let_def patch_def list_update_append numeral_3_eq_3)

lemma fold_patch:
  "length (fold (\<lambda>e p. patch p e x) es p) = length p"
  "i < length p \<Longrightarrow> fold (\<lambda>e p. patch p e x) es p ! i = (if i \<in> set es then x else p ! i)"
  by (induction es arbitrary: p) (auto simp: patch_def nth_list_update)

text \<open>What the compiler promises of a sequence, and of branches whose earlier ones escape from the positions given.\<close>

definition emits :: "node list \<Rightarrow> inst list \<Rightarrow> inst list \<Rightarrow> bool" where
  "emits ns p q \<longleftrightarrow> extends p q \<and>
     (\<forall>program. holds program (length p) q \<longrightarrow> realises program (length p) (length q) (seq_words ns))"

definition emits_branches :: "node list list \<Rightarrow> nat list \<Rightarrow> inst list \<Rightarrow> inst list \<Rightarrow> bool" where
  "emits_branches bs es p q \<longleftrightarrow> length p \<le> length q \<and> (\<forall>i < length p. i \<notin> set es \<longrightarrow> q ! i = p ! i) \<and>
     (\<forall>e \<in> set es. q ! e = Jump (length q)) \<and>
     (\<forall>program. holds program (length p) q \<longrightarrow> realises program (length p) (length q) (\<Union>b \<in> set bs. seq_words b))"

lemma emits_node:
  assumes "node_ok n" "\<And>bs. n = Alternation bs \<Longrightarrow> emits_branches bs [] p (emit_branches bs [] p)"
  shows "emits [n] p (case n of
     Literal c \<Rightarrow> p @ [Consume (Exact c)]
   | AnyChar \<Rightarrow> p @ [Consume WithinComponent]
   | Class negated items \<Rightarrow> p @ [Consume (ClassTest negated items)]
   | Star \<Rightarrow> emit_repeat WithinComponent p
   | Globstar \<Rightarrow> emit_repeat AcrossComponents p
   | Alternation bs \<Rightarrow> emit_branches bs [] p)"
proof -
  have one: "emits [n] p (p @ [Consume test])" if w: "node_words n = {[c] |c. test_admits test c}" for n test
    unfolding emits_def
  proof (intro conjI allI impI)
    fix program assume "holds program (length p) (p @ [Consume test])"
    from holds_at [OF this, of "length p"] show "realises program (length p) (length (p @ [Consume test])) (seq_words [n])"
      using realises_consume [of program "length p" test] w by simp
  qed (rule extends_append)
  have many: "emits [n] p (emit_repeat test p)" if w: "node_words n = {w. \<forall>c \<in> set w. test_admits test c}" for n test
    unfolding emits_def emit_repeat_eq
  proof (intro conjI allI impI)
    fix program assume h: "holds program (length p) (p @ [Split (length p + 1) (length p + 3), Consume test, Jump (length p)])"
    show "realises program (length p) (length (p @ [Split (length p + 1) (length p + 3), Consume test, Jump (length p)]))
        (seq_words [n])"
      using realises_repeat [of program "length p" test] holds_at [OF h, of "length p"] holds_at [OF h, of "length p + 1"]
        holds_at [OF h, of "length p + 2"] w
      by (simp add: nth_append eval_nat_numeral)
  qed (rule extends_append)
  show ?thesis
  proof (cases n)
    case (Alternation bs)
    with assms(2) [of bs] show ?thesis by (auto simp: emits_def emits_branches_def extends_def)
  qed (auto simp: list_ex_iff intro!: one many)
qed

lemma emits_Cons: "emits [n] p q \<Longrightarrow> emits ns q r \<Longrightarrow> emits (n # ns) p r"
  unfolding emits_def
  by (auto intro: extends_trans) (metis holds_extends holds_mono extends_def realises_seq)

lemma emits_last_branch:
  assumes q: "emits b p q" and es: "\<forall>e \<in> set es. e < length p"
  shows "emits_branches [b] es p (fold (\<lambda>e p. patch p e (Jump (length q))) es q)" (is "emits_branches _ _ _ ?q")
proof -
  have len: "length p \<le> length q" "\<And>i. i < length p \<Longrightarrow> q ! i = p ! i"
    using q by (simp_all add: emits_def extends_def)
  have same: "?q ! i = (if i \<in> set es then Jump (length q) else q ! i)" if "i < length q" for i
    using that by (rule fold_patch(2))
  have "holds program (length p) q" if "holds program (length p) ?q" for program
    using that es same by (auto simp: holds_def fold_patch(1))
  then show ?thesis
    using len es same q by (auto simp: emits_branches_def fold_patch(1) emits_def)
qed

lemma emits_first_branch:
  fixes p :: "inst list" and es :: "nat list"
  defines "s \<equiv> length p"
  assumes p1: "emits b (p @ [Jump 0]) p1" and es: "\<forall>e \<in> set es. e < length p"
    and q: "emits_branches bs (es @ [length p1]) (patch (p1 @ [Jump 0]) s (Split (s + 1) (length p1 + 1))) q"
  shows "emits_branches (b # bs) es p q"
proof -
  define p3 where "p3 = patch (p1 @ [Jump 0]) s (Split (s + 1) (length p1 + 1))"
  have len: "s + 1 \<le> length p1" "length p3 = length p1 + 1"
    using p1 by (simp_all add: emits_def extends_def p3_def patch_def s_def)
  have p3: "p3 ! s = Split (s + 1) (length p1 + 1)" "\<And>i. i < length p1 \<Longrightarrow> i \<noteq> s \<Longrightarrow> p3 ! i = p1 ! i"
    using len by (auto simp: p3_def patch_def nth_append)
  have q1: "length p3 \<le> length q" "\<And>i. i < length p3 \<Longrightarrow> i \<notin> set es \<Longrightarrow> i \<noteq> length p1 \<Longrightarrow> q ! i = p3 ! i"
    "\<And>e. e \<in> set es \<or> e = length p1 \<Longrightarrow> q ! e = Jump (length q)"
    "\<And>program. holds program (length p3) q \<Longrightarrow> realises program (length p3) (length q) (\<Union>b \<in> set bs. seq_words b)"
    using q unfolding p3_def [symmetric] emits_branches_def by auto
  have keep: "p1 ! i = p ! i" if "i < s" for i
    using p1 that by (simp add: emits_def extends_def s_def nth_append)
  have inner: "q ! i = p1 ! i" if "s < i" "i < length p1" for i
  proof -
    have "i \<notin> set es" using es that(1) by (auto simp: s_def)
    with that q1(2) [of i] p3(2) [of i] len show ?thesis by simp
  qed
  have "realises program s (length q) (\<Union>b \<in> set (b # bs). seq_words b)" if h: "holds program s q" for program
  proof -
    have at: "inst_at program s = Some (Split (s + 1) (length p3))" "inst_at program (length p1) = Some (Jump (length q))"
      using holds_at [OF h, of s] holds_at [OF h, of "length p1"] q1 len p3(1) es by (auto simp: s_def)
    have "holds program (s + 1) p1"
      using h inner q1(1) len by (auto simp: holds_def)
    then have "realises program (s + 1) (length p1) (seq_words b)"
      using p1 by (simp add: emits_def s_def)
    moreover have "realises program (length p3) (length q) (\<Union>b \<in> set bs. seq_words b)"
      by (rule q1(4)) (rule holds_mono [OF h], use len in simp)
    ultimately show ?thesis
      by (simp add: realises_def language_at(3) [OF at(1)] language_at(2) [OF at(2)] cat_union Un_commute)
  qed
  moreover have "q ! i = p ! i" if "i < s" "i \<notin> set es" for i
    using q1(2) [of i] p3(2) [of i] keep that len by simp
  ultimately show ?thesis
    using q1(1,3) len by (auto simp: emits_branches_def s_def)
qed

lemma emit_realises:
  "\<forall>n \<in> set ns. node_ok n \<Longrightarrow> emits ns p (emit ns p)"
  "\<lbrakk>bs \<noteq> []; \<forall>b \<in> set bs. \<forall>n \<in> set b. node_ok n; \<forall>e \<in> set es. e < length p'\<rbrakk> \<Longrightarrow>
    emits_branches bs es p' (emit_branches bs es p')"
proof (induction ns p and bs es p' rule: emit_emit_branches.induct)
  case (1 p)
  show ?case by (simp add: emits_def extends_def realises_def)
next
  case (2 n ns p)
  have "emits_branches bs [] p (emit_branches bs [] p)" if "n = Alternation bs" for bs
    using 2 that by simp
  with 2 have "emits [n] p (case n of
     Literal c \<Rightarrow> p @ [Consume (Exact c)]
   | AnyChar \<Rightarrow> p @ [Consume WithinComponent]
   | Class negated items \<Rightarrow> p @ [Consume (ClassTest negated items)]
   | Star \<Rightarrow> emit_repeat WithinComponent p
   | Globstar \<Rightarrow> emit_repeat AcrossComponents p
   | Alternation bs \<Rightarrow> emit_branches bs [] p)"
    by (intro emits_node) simp_all
  with 2 show ?case by (auto intro: emits_Cons)
next
  case (3 es p)
  then show ?case by simp
next
  case (4 b es p)
  then show ?case by (auto simp: Let_def intro!: emits_last_branch)
next
  case (5 b b' bs es p)
  let ?p1 = "emit b (p @ [Jump 0])"
  have p1: "emits b (p @ [Jump 0]) ?p1" using 5 by simp
  then have "length p < length ?p1" by (simp add: emits_def extends_def)
  then have es: "\<forall>e \<in> set (es @ [length ?p1]).
      e < length (patch (?p1 @ [Jump 0]) (length p) (Split (length p + 1) (length ?p1 + 1)))"
    using 5 by (auto simp: patch_def)
  have "emits_branches (b' # bs) (es @ [length ?p1]) (patch (?p1 @ [Jump 0]) (length p) (Split (length p + 1) (length ?p1 + 1)))
      (emit_branches (b' # bs) (es @ [length ?p1]) (patch (?p1 @ [Jump 0]) (length p) (Split (length p + 1) (length ?p1 + 1))))"
    using 5 es by (simp add: Let_def)
  from emits_first_branch [OF p1 _ this] 5 show ?case by (simp add: Let_def)
qed

section \<open>The matcher\<close>

definition marked :: "bool list \<Rightarrow> nat set" where
  "marked seen = {pc. pc < length seen \<and> seen ! pc}"

definition jumps :: "inst list \<Rightarrow> nat \<Rightarrow> nat set" where
  "jumps program pc = (case inst_at program pc of Some (Jump t) \<Rightarrow> {t} | Some (Split a b) \<Rightarrow> {a, b} | _ \<Rightarrow> {})"

definition stops :: "inst list \<Rightarrow> nat \<Rightarrow> bool" where
  "stops program pc \<longleftrightarrow> inst_at program pc = Some Match \<or> (\<exists>test. inst_at program pc = Some (Consume test))"

lemma marked_update: "pc < length seen \<Longrightarrow> marked (seen[pc := True]) = insert pc (marked seen)"
  by (auto simp: marked_def nth_list_update)

text \<open>
  Following the pending states marks them and what they jump to, finds the states among these at which
  something is consumed or matched, each once, and nothing that the pending states do not accept.
\<close>

definition spawned :: "inst list \<Rightarrow> nat list \<Rightarrow> nat list \<times> bool list \<Rightarrow> nat list \<times> bool list \<Rightarrow> bool" where
  "spawned program pending = (\<lambda>(found, seen) (found', seen').
     length seen' = length seen \<and> marked seen \<subseteq> marked seen' \<and>
     set pending \<inter> {..<length seen} \<subseteq> marked seen' \<and>
     set found' = set found \<union> {pc \<in> marked seen' - marked seen. stops program pc} \<and>
     (\<forall>pc \<in> marked seen' - marked seen. jumps program pc \<inter> {..<length seen} \<subseteq> marked seen' \<and>
       language program pc \<subseteq> (\<Union>s \<in> set pending. language program s)) \<and>
     (distinct found \<and> set found \<subseteq> marked seen \<longrightarrow> distinct found'))"

lemma spawned_skip:
  assumes "pc \<in> marked seen \<or> \<not> pc < length seen" "spawned program pending (found, seen) out"
  shows "spawned program (pc # pending) (found, seen) out"
  using assms unfolding spawned_def by (auto split: prod.splits)

lemma spawned_stop:
  assumes "pc < length seen" "pc \<notin> marked seen" "jumps program pc = {}"
    and "spawned program pending (found @ (if stops program pc then [pc] else []), seen[pc := True]) out"
  shows "spawned program (pc # pending) (found, seen) out"
  using assms unfolding spawned_def by (auto simp: marked_update split: prod.splits if_splits)

lemma spawned_jump:
  assumes "pc < length seen" "pc \<notin> marked seen" "jumps program pc = set ts" "\<not> stops program pc"
    and "language program pc = (\<Union>t \<in> set ts. language program t)"
    and "spawned program (ts @ pending) (found, seen[pc := True]) out"
  shows "spawned program (pc # pending) (found, seen) out"
proof -
  obtain found' seen' where out: "out = (found', seen')" by fastforce
  note s = assms(6) [unfolded out spawned_def prod.case marked_update [OF assms(1)]]
  have "jumps program q \<inter> {..<length seen} \<subseteq> marked seen' \<and>
      language program q \<subseteq> (\<Union>s \<in> set (pc # pending). language program s)" if q: "q \<in> marked seen' - marked seen" for q
  proof (cases "q = pc")
    case True
    with s assms(3) show ?thesis by auto
  next
    case False
    with s q assms(5) show ?thesis by auto
  qed
  moreover have "set found' = set found \<union> {pc \<in> marked seen' - marked seen. stops program pc}"
    using s assms(4) by auto
  ultimately show ?thesis
    using s assms(1) unfolding out spawned_def prod.case by auto
qed

lemma spawn_loop_spawned: "spawned program pending (found, seen) (spawn_loop program pending found seen)"
proof (induction program pending found seen rule: spawn_loop.induct)
  case (1 program found seen)
  show ?case by (auto simp: spawned_def)
next
  case (2 program pc pending found seen)
  show ?case
  proof (cases "pc < length seen \<and> \<not> seen ! pc")
    case False
    with 2 show ?thesis by (auto simp: marked_def intro: spawned_skip)
  next
    case True
    then have pc: "pc < length seen" "pc \<notin> marked seen" by (simp_all add: marked_def)
    show ?thesis
    proof (cases "inst_at program pc")
      case None
      with 2 True show ?thesis
        by (auto intro!: spawned_stop [OF pc] simp: jumps_def stops_def)
    next
      case (Some i)
      show ?thesis
      proof (cases i)
        case (Consume t)
        with 2 Some True show ?thesis by (auto intro!: spawned_stop [OF pc] simp: jumps_def stops_def)
      next
        case Match
        with 2 Some True show ?thesis by (auto intro!: spawned_stop [OF pc] simp: jumps_def stops_def)
      next
        case (Jump t)
        with 2 Some True show ?thesis
          by (auto intro!: spawned_jump [OF pc, where ts = "[t]"] simp: jumps_def stops_def language_at)
      next
        case (Split a b)
        with 2 Some True show ?thesis
          by (auto intro!: spawned_jump [OF pc, where ts = "[a, b]"] simp: jumps_def stops_def language_at)
      qed
    qed
  qed
qed

text \<open>A set of states, closed under jumps, with the states found in it.\<close>

definition closed :: "inst list \<Rightarrow> nat list \<times> bool list \<Rightarrow> bool" where
  "closed program = (\<lambda>(found, seen). length seen = length program \<and>
     set found = {pc \<in> marked seen. stops program pc} \<and> distinct found \<and>
     (\<forall>pc \<in> marked seen. jumps program pc \<inter> {..<length seen} \<subseteq> marked seen))"

definition words :: "inst list \<Rightarrow> nat list \<Rightarrow> nat list set" where
  "words program live = (\<Union>pc \<in> set live. language program pc)"

lemma closed_empty: "closed program ([], replicate (length program) False)"
proof -
  have "marked (replicate n False) = {}" for n by (auto simp: marked_def)
  then show ?thesis by (simp add: closed_def)
qed

lemma accepts_bound: "accepts program pc w \<Longrightarrow> pc < length program"
  using accepts_at(5) [of program pc w] by (cases "pc < length program") (simp_all add: inst_at_def)

lemma closed_jump:
  "closed program (found, seen) \<Longrightarrow> pc \<in> marked seen \<Longrightarrow> t \<in> jumps program pc \<Longrightarrow> accepts program t w \<Longrightarrow> t \<in> marked seen"
  using accepts_bound [of program t w] by (fastforce simp: closed_def)

lemma closed_language:
  assumes "closed program (found, seen)" "pc \<in> marked seen"
  shows "language program pc \<subseteq> words program found"
proof
  fix w assume "w \<in> language program pc"
  then have "accepts program pc w" by (simp add: language_def)
  then show "w \<in> words program found" using assms(2)
  proof induction
    case (accept_match pc)
    with assms(1) show ?case
      by (auto simp: closed_def words_def language_def stops_def intro!: bexI [of _ pc] accepts.accept_match)
  next
    case (accept_jump pc t w)
    then have "t \<in> marked seen" using closed_jump [OF assms(1), of pc t] by (simp add: jumps_def)
    then show ?case by (rule accept_jump.IH)
  next
    case (accept_one pc a b w)
    then have "a \<in> marked seen" using closed_jump [OF assms(1), of pc a] by (simp add: jumps_def)
    then show ?case by (rule accept_one.IH)
  next
    case (accept_two pc a b w)
    then have "b \<in> marked seen" using closed_jump [OF assms(1), of pc b] by (simp add: jumps_def)
    then show ?case by (rule accept_two.IH)
  next
    case (accept_char pc test c w)
    then have "c # w \<in> language program pc" by (auto simp: language_def intro: accepts.accept_char)
    moreover have "pc \<in> set found" using accept_char assms(1) by (auto simp: closed_def stops_def)
    ultimately show ?case by (auto simp: words_def)
  qed
qed

lemma spawn_closed:
  assumes "closed program acc"
  shows "closed program (spawn program start acc)"
    "words program (fst (spawn program start acc)) = words program (fst acc) \<union> language program start"
proof -
  obtain found seen where acc: "acc = (found, seen)" by fastforce
  obtain found' seen' where run: "spawn_loop program [start] found seen = (found', seen')" by fastforce
  have c: "length seen = length program" "set found = {pc \<in> marked seen. stops program pc}" "distinct found"
    "\<forall>pc \<in> marked seen. jumps program pc \<inter> {..<length seen} \<subseteq> marked seen"
    using assms unfolding acc closed_def prod.case by blast+
  note s = spawn_loop_spawned [of program "[start]" found seen, unfolded run spawned_def prod.case]
  have c': "closed program (found', seen')"
    unfolding closed_def prod.case
  proof (intro conjI ballI)
    fix pc assume "pc \<in> marked seen'"
    with s c show "jumps program pc \<inter> {..<length seen'} \<subseteq> marked seen'" by (cases "pc \<in> marked seen") auto
  qed (use s c in auto)
  show "closed program (spawn program start acc)"
    using c' by (simp only: spawn_def acc prod.case run)
  have "language program start \<subseteq> words program found'"
  proof (cases "start < length program")
    case True
    with s c have "start \<in> marked seen'" by auto
    then show ?thesis by (rule closed_language [OF c'])
  next
    case False
    then show ?thesis by (simp add: language_at(4) inst_at_def)
  qed
  moreover have "language program pc \<subseteq> words program found \<union> language program start" if "pc \<in> set found'" for pc
  proof (cases "pc \<in> set found")
    case True
    then show ?thesis by (auto simp: words_def)
  next
    case False
    with that s have "pc \<in> marked seen' - marked seen" by auto
    with s show ?thesis by auto
  qed
  moreover have "words program found \<subseteq> words program found'" using s by (auto simp: words_def)
  ultimately have "words program found' = words program found \<union> language program start"
    unfolding words_def by blast
  then show "words program (fst (spawn program start acc)) = words program (fst acc) \<union> language program start"
    by (simp only: spawn_def acc prod.case run fst_conv)
qed

lemma advance_closed:
  assumes "closed program acc" "\<forall>pc \<in> set live. stops program pc"
  shows "closed program (advance program c live acc)"
    "words program (fst (advance program c live acc)) = words program (fst acc) \<union> {w. c # w \<in> words program live}"
proof -
  have "closed program (advance program c live acc) \<and>
    words program (fst (advance program c live acc)) = words program (fst acc) \<union> {w. c # w \<in> words program live}"
    using assms
  proof (induction live arbitrary: acc)
    case Nil
    then show ?case by (simp add: words_def)
  next
    case (Cons pc live)
    define acc' where "acc' = (case inst_at program pc of
        Some (Consume test) \<Rightarrow> if test_admits test c then spawn program (pc + 1) acc else acc | _ \<Rightarrow> acc)"
    have "closed program acc' \<and> words program (fst acc') = words program (fst acc) \<union> {w. c # w \<in> language program pc}"
    proof (cases "inst_at program pc = Some Match")
      case True
      with Cons.prems show ?thesis by (auto simp: acc'_def language_at)
    next
      case False
      with Cons.prems obtain test where "inst_at program pc = Some (Consume test)" by (auto simp: stops_def)
      with spawn_closed [OF Cons.prems(1), of "pc + 1"] Cons.prems(1) show ?thesis
        by (auto simp: acc'_def language_def accepts_at)
    qed
    with Cons.IH [of acc'] Cons.prems(2) show ?case
      by (auto simp: acc'_def words_def)
  qed
  then show "closed program (advance program c live acc)"
    "words program (fst (advance program c live acc)) = words program (fst acc) \<union> {w. c # w \<in> words program live}"
    by simp_all
qed

text \<open>The matcher decides the language of the program, with no more live states than instructions.\<close>

lemma run_program_words:
  "\<forall>pc \<in> set live. stops program pc \<Longrightarrow> run_program program live w \<longleftrightarrow> w \<in> words program live"
proof (induction w arbitrary: live)
  case Nil
  have "inst_at program pc = Some Match \<longleftrightarrow> [] \<in> language program pc" if "pc \<in> set live" for pc
    using Nil that by (auto simp: stops_def language_at language_def accepts_at)
  then show ?case by (auto simp: list_ex_iff words_def)
next
  case (Cons c w)
  let ?next = "advance program c live ([], replicate (length program) False)"
  note a = advance_closed [OF closed_empty Cons.prems, of c]
  have "\<forall>pc \<in> set (fst ?next). stops program pc" using a(1) by (auto simp: closed_def split: prod.splits)
  then have "run_program program (fst ?next) w \<longleftrightarrow> w \<in> words program (fst ?next)" by (rule Cons.IH)
  with a(2) show ?case by (auto simp: words_def)
qed

lemma glob_matches_language: "glob_matches program text \<longleftrightarrow> chars text \<in> language program 0"
proof -
  let ?start = "spawn program 0 ([], replicate (length program) False)"
  note s = spawn_closed [OF closed_empty, of program 0]
  have "\<forall>pc \<in> set (fst ?start). stops program pc" using s(1) by (auto simp: closed_def split: prod.splits)
  then show ?thesis using s(2) by (simp add: glob_matches_def run_program_words words_def)
qed

lemma closed_few: "closed program (found, seen) \<Longrightarrow> length found \<le> length program"
proof -
  assume "closed program (found, seen)"
  then have "distinct found" "set found \<subseteq> {..<length program}" by (auto simp: closed_def marked_def)
  then show ?thesis using card_mono [of "{..<length program}" "set found"] by (simp add: distinct_card)
qed

section \<open>The parser\<close>

text \<open>How many instructions a pattern costs.\<close>

fun node_size :: "node \<Rightarrow> nat" and seq_size :: "node list \<Rightarrow> nat" and branches_size :: "node list list \<Rightarrow> nat" where
  "node_size Star = 3"
| "node_size Globstar = 3"
| "node_size (Alternation bs) = branches_size bs"
| "node_size (Literal c) = 1"
| "node_size AnyChar = 1"
| "node_size (Class negated items) = 1"
| "seq_size [] = 0"
| "seq_size (n # ns) = node_size n + seq_size ns"
| "branches_size [] = 0"
| "branches_size [b] = seq_size b"
| "branches_size (b # b' # bs) = seq_size b + 2 + branches_size (b' # bs)"

lemma seq_size_append: "seq_size (xs @ ys) = seq_size xs + seq_size ys"
  by (induction xs) auto

lemma branches_size_le: "branches_size bs \<le> sum_list (map (\<lambda>b. seq_size b + 2) bs)"
  by (induction bs rule: induct_list012) auto

lemma patch_length: "length (patch p at i) = length p"
  by (simp add: patch_def)

lemma length_emit:
  "length (emit ns p) = length p + seq_size ns"
  "length (emit_branches bs es p') = length p' + branches_size bs"
  by (induction ns p and bs es p' rule: emit_emit_branches.induct)
    (auto simp: emit_repeat_eq patch_length fold_patch(1) Let_def split: node.split)

text \<open>
  What is parsed has branches in every alternation, ends within the pattern, and costs at most three
  instructions for each of its characters.
\<close>

definition seq_parsed :: "node list \<Rightarrow> nat \<Rightarrow> nat \<Rightarrow> bool" where
  "seq_parsed ns i j \<longleftrightarrow> (\<forall>n \<in> set ns. node_ok n) \<and> seq_size ns + 3 * i \<le> 3 * j"

definition branches_parsed :: "node list list \<Rightarrow> nat \<Rightarrow> nat \<Rightarrow> bool" where
  "branches_parsed bs i j \<longleftrightarrow> bs \<noteq> [] \<and> (\<forall>b \<in> set bs. \<forall>n \<in> set b. node_ok n) \<and>
     sum_list (map (\<lambda>b. seq_size b + 2) bs) + 3 * i \<le> 3 * j"

lemma seq_parsed_Cons:
  "node_ok n \<Longrightarrow> node_size n + 3 * i \<le> 3 * k \<Longrightarrow> seq_parsed ns k j \<Longrightarrow> seq_parsed (n # ns) i j"
  by (simp add: seq_parsed_def)

lemma branches_parsed_node:
  "branches_parsed bs i j \<Longrightarrow> node_ok (Alternation bs) \<and> node_size (Alternation bs) + 3 * i \<le> 3 * j"
  using branches_size_le [of bs] by (simp add: branches_parsed_def)

lemma branches_parsed_Cons:
  "seq_parsed b i k \<Longrightarrow> branches_parsed bs (k + 1) j \<Longrightarrow> branches_parsed (b # bs) i j"
  "seq_parsed b i k \<Longrightarrow> branches_parsed [b] i (k + 1)"
  by (auto simp: branches_parsed_def seq_parsed_def)

lemma class_items_parsed:
  "class_items ps start negated i first items = Ok (n, j) \<Longrightarrow> (\<exists>is. n = Class negated is) \<and> j \<le> length (ps_chars ps)"
proof (induction ps start negated i first items rule: class_items.induct)
  case (1 ps start negated i first items)
  note run = 1(3) [unfolded class_items.simps [of ps start negated i]]
  show ?case
  proof (cases "char_at ps i")
    case None
    with run show ?thesis by (simp add: fail_def)
  next
    case c: (Some c)
    show ?thesis
    proof (cases "(c = GLOB_CLASS_CLOSE \<and> \<not> first) \<or> named_class_at ps i \<noteq> None")
      case True
      with run c char_at_bound [OF c] show ?thesis by (auto simp: fail_def split: if_splits)
    next
      case False
      then have named: "named_class_at ps i = None" and opens: "\<not> (c = GLOB_CLASS_CLOSE \<and> \<not> first)" by auto
      with run c obtain low l where low: "class_low ps i c = Ok (low, l)"
        by (cases "class_low ps i c") auto
      show ?thesis
      proof (cases "range_high ps l")
        case None
        with run c named opens low 1(1) [OF c opens named low refl None] show ?thesis by auto
      next
        case (Some high)
        with run c named opens low 1(2) [OF c opens named low refl Some] show ?thesis
          by (auto simp: fail_def split: if_splits)
      qed
    qed
  qed
qed

lemma class_node_parsed:
  assumes "class_node ps i = Ok (n, j)"
  shows "node_ok n" "node_size n = 1" "j \<le> length (ps_chars ps)" "i < j"
  using assms class_node_index [OF assms] by (auto simp: class_node_def Let_def dest!: class_items_parsed)

definition parses :: "parser \<Rightarrow> node list \<Rightarrow> nat \<Rightarrow> node list \<Rightarrow> nat \<Rightarrow> bool" where
  "parses ps nodes i ns j \<longleftrightarrow> (\<exists>ms. ns = nodes @ ms \<and> seq_parsed ms i j) \<and>
     (i \<le> length (ps_chars ps) \<longrightarrow> j \<le> length (ps_chars ps))"

lemma parses_step:
  "parses ps (nodes @ [n]) k ns j \<Longrightarrow> node_ok n \<Longrightarrow> node_size n + 3 * i \<le> 3 * k \<Longrightarrow> k \<le> length (ps_chars ps) \<Longrightarrow>
    parses ps nodes i ns j"
  unfolding parses_def by (auto intro: seq_parsed_Cons)

lemma sequence_parses:
  "sequence ps depth inside i nodes = Ok (ns, j) \<Longrightarrow> parses ps nodes i ns j"
  "branches ps depth' start i' bs = Ok (bs', j') \<Longrightarrow>
    (\<exists>cs. bs' = bs @ cs \<and> branches_parsed cs i' j') \<and> j' \<le> length (ps_chars ps)"
proof (induction ps depth inside i nodes and ps depth' start i' bs arbitrary: ns j and bs' j'
    rule: sequence_branches.induct)
  case (1 ps depth inside i nodes)
  note run = "1.prems" [unfolded sequence.simps [of ps depth inside i]]
  show ?case
  proof (cases "char_at ps i")
    case None
    with run show ?thesis by (simp add: parses_def seq_parsed_def)
  next
    case c: (Some c)
    note bound = char_at_bound [OF c]
    consider (stop) "inside \<and> (c = GLOB_ALTERNATION_SEPARATOR \<or> c = GLOB_ALTERNATION_CLOSE)"
      | (goes) "\<not> (inside \<and> (c = GLOB_ALTERNATION_SEPARATOR \<or> c = GLOB_ALTERNATION_CLOSE))" by blast
    then show ?thesis
    proof cases
      case stop
      with run c show ?thesis by (simp add: parses_def seq_parsed_def)
    next
      case goes
      note run = run [unfolded c option.case if_not_P [OF goes]]
      consider "c = GLOB_ESCAPE" | "c = GLOB_ANY_SEQUENCE" | "c = GLOB_ANY_CHAR" | "c = GLOB_CLASS_OPEN"
        | (alt) "c = GLOB_ALTERNATION_OPEN" | (other) "c \<noteq> GLOB_ESCAPE" "c \<noteq> GLOB_ANY_SEQUENCE" "c \<noteq> GLOB_ANY_CHAR"
          "c \<noteq> GLOB_CLASS_OPEN" "c \<noteq> GLOB_ALTERNATION_OPEN" by blast
      then show ?thesis
      proof cases
        case 1
        with run obtain e where e: "char_at ps (i + 1) = Some e" "sequence ps depth inside (i + 2) (nodes @ [Literal e]) = Ok (ns, j)"
          by (auto simp: fail_def split: option.splits)
        from "1.IH"(1) [OF c goes 1 e] char_at_bound [OF e(1)] show ?thesis by (auto elim!: parses_step)
      next
        case any: 2
        show ?thesis
        proof (cases "char_at ps (i + 1) = Some GLOB_ANY_SEQUENCE")
          case True
          with run any have "parses ps (nodes @ [Globstar]) (i + 2) ns j"
            by (intro "1.IH"(2) [OF c goes]) simp_all
          then show ?thesis using char_at_bound [OF True] by (auto elim!: parses_step)
        next
          case False
          with run any have "parses ps (nodes @ [Star]) (i + 1) ns j"
            by (intro "1.IH"(3) [OF c goes]) simp_all
          then show ?thesis using bound by (auto elim!: parses_step)
        qed
      next
        case 3
        with run have "parses ps (nodes @ [AnyChar]) (i + 1) ns j" by (intro "1.IH"(4) [OF c goes]) simp_all
        then show ?thesis using bound by (auto elim!: parses_step)
      next
        case 4
        with run obtain n l where n: "class_node ps i = Ok (n, l)" "sequence ps depth inside l (nodes @ [n]) = Ok (ns, j)"
          by (auto simp: and_then_Ok_iff)
        with 4 have "parses ps (nodes @ [n]) l ns j" by (intro "1.IH"(5) [OF c goes _ _ _ 4 n(1) refl n(2)]) simp_all
        then show ?thesis using class_node_parsed [OF n(1)] by (auto elim!: parses_step)
      next
        case alt
        with run obtain b l where n: "\<not> GLOB_MAX_NESTING_DEPTH < depth + 1" "branches ps (depth + 1) i (i + 1) [] = Ok (b, l)"
          "sequence ps depth inside l (nodes @ [Alternation b]) = Ok (ns, j)"
          by (auto simp: and_then_Ok_iff fail_def split: if_splits)
        from alt have b: "branches_parsed b (i + 1) l" "l \<le> length (ps_chars ps)"
          using "1.IH"(6) [OF c goes _ _ _ _ alt n(1,2)] by simp_all
        from alt have "parses ps (nodes @ [Alternation b]) l ns j"
          by (intro "1.IH"(7) [OF c goes _ _ _ _ alt n(1,2) refl n(3)]) simp_all
        then show ?thesis using branches_parsed_node [OF b(1)] b(2) by (auto elim!: parses_step)
      next
        case other
        with run have "parses ps (nodes @ [Literal c]) (i + 1) ns j" by (intro "1.IH"(8) [OF c goes]) simp_all
        then show ?thesis using bound by (auto elim!: parses_step)
      qed
    qed
  qed
next
  case (2 ps depth start i bs)
  from "2.prems" [unfolded branches.simps [of ps depth start i]] obtain b j where b: "sequence ps depth True i [] = Ok (b, j)"
    "(if char_at ps j = Some GLOB_ALTERNATION_SEPARATOR then branches ps depth start (j + 1) (bs @ [b])
      else if char_at ps j = Some GLOB_ALTERNATION_CLOSE then Ok (bs @ [b], j + 1)
      else fail ps start UnclosedAlternation) = Ok (bs', j')"
    by (auto simp: and_then_Ok_iff)
  have p: "seq_parsed b i j" using "2.IH"(1) [OF b(1)] by (simp add: parses_def)
  consider (more) "char_at ps j = Some GLOB_ALTERNATION_SEPARATOR" "branches ps depth start (j + 1) (bs @ [b]) = Ok (bs', j')"
    | (close) "char_at ps j = Some GLOB_ALTERNATION_CLOSE" "bs' = bs @ [b]" "j' = j + 1"
    using b(2) by (auto simp: fail_def split: if_splits)
  then show ?case
  proof cases
    case more
    from "2.IH"(2) [OF b(1) refl more] branches_parsed_Cons(1) [OF p] show ?thesis by auto
  next
    case close
    with branches_parsed_Cons(2) [OF p] char_at_bound [OF close(1)] show ?thesis by auto
  qed
qed

text \<open>A failure names the pattern and a position in it, and is never that the program is too complex.\<close>

definition sound_error :: "parser \<Rightarrow> pattern_error \<Rightarrow> bool" where
  "sound_error ps e \<longleftrightarrow> pe_pattern e = ps_pattern ps \<and> pe_position e \<le> length (ps_chars ps) \<and>
     (\<forall>n. pe_problem e \<noteq> TooComplex n)"

lemma fail_sound:
  "fail ps i problem = Err e \<Longrightarrow> i \<le> length (ps_chars ps) \<Longrightarrow> (\<And>n. problem \<noteq> TooComplex n) \<Longrightarrow> sound_error ps e"
  by (auto simp: fail_def sound_error_def)

lemma class_low_sound: "class_low ps i c = Err e \<Longrightarrow> i \<le> length (ps_chars ps) \<Longrightarrow> sound_error ps e"
  by (auto simp: class_low_def intro: fail_sound split: if_splits option.splits)

lemma range_high_bound: "range_high ps j = Some high \<Longrightarrow> j < length (ps_chars ps)"
  by (auto simp: range_high_def dest!: char_at_bound split: if_splits)

lemma class_items_sound:
  "class_items ps start negated i first items = Err e \<Longrightarrow> start \<le> length (ps_chars ps) \<Longrightarrow> sound_error ps e"
proof (induction ps start negated i first items rule: class_items.induct)
  case (1 ps start negated i first items)
  note run = 1(3) [unfolded class_items.simps [of ps start negated i]]
  show ?case
  proof (cases "char_at ps i")
    case None
    with run 1(4) show ?thesis by (auto intro: fail_sound)
  next
    case c: (Some c)
    then have i: "i \<le> length (ps_chars ps)" by (auto dest: char_at_bound)
    show ?thesis
    proof (cases "(c = GLOB_CLASS_CLOSE \<and> \<not> first) \<or> named_class_at ps i \<noteq> None")
      case True
      with run c i show ?thesis by (auto intro: fail_sound split: if_splits)
    next
      case False
      then have named: "named_class_at ps i = None" and opens: "\<not> (c = GLOB_CLASS_CLOSE \<and> \<not> first)" by auto
      show ?thesis
      proof (cases "class_low ps i c")
        case (Inl e')
        with run c named opens i show ?thesis by (auto intro: class_low_sound)
      next
        case (Inr r)
        then obtain low l where low: "class_low ps i c = Ok (low, l)" by (cases r) simp
        show ?thesis
        proof (cases "range_high ps l")
          case None
          with run c named opens low 1(1) [OF c opens named low refl None] 1(4) show ?thesis by auto
        next
          case (Some high)
          with run c named opens low 1(2) [OF c opens named low refl Some] 1(4) range_high_bound [OF Some] show ?thesis
            by (auto intro: fail_sound split: if_splits)
        qed
      qed
    qed
  qed
qed

lemma class_node_sound: "class_node ps i = Err e \<Longrightarrow> i \<le> length (ps_chars ps) \<Longrightarrow> sound_error ps e"
  by (auto simp: class_node_def Let_def dest!: class_items_sound)

lemma sequence_sound:
  "sequence ps depth inside i nodes = Err e \<Longrightarrow> sound_error ps e"
  "branches ps depth' start i' bs = Err e' \<Longrightarrow> start \<le> length (ps_chars ps) \<Longrightarrow> sound_error ps e'"
proof (induction ps depth inside i nodes and ps depth' start i' bs arbitrary: e and e'
    rule: sequence_branches.induct)
  case (1 ps depth inside i nodes)
  note run = "1.prems" [unfolded sequence.simps [of ps depth inside i]]
  show ?case
  proof (cases "char_at ps i")
    case None
    with run show ?thesis by simp
  next
    case c: (Some c)
    then have i: "i \<le> length (ps_chars ps)" by (auto dest: char_at_bound)
    consider (stop) "inside \<and> (c = GLOB_ALTERNATION_SEPARATOR \<or> c = GLOB_ALTERNATION_CLOSE)"
      | (goes) "\<not> (inside \<and> (c = GLOB_ALTERNATION_SEPARATOR \<or> c = GLOB_ALTERNATION_CLOSE))" by blast
    then show ?thesis
    proof cases
      case stop
      with run c show ?thesis by simp
    next
      case goes
      note run = run [unfolded c option.case if_not_P [OF goes]]
      consider "c = GLOB_ESCAPE" | "c = GLOB_ANY_SEQUENCE" | "c = GLOB_ANY_CHAR" | "c = GLOB_CLASS_OPEN"
        | (alt) "c = GLOB_ALTERNATION_OPEN" | (other) "c \<noteq> GLOB_ESCAPE" "c \<noteq> GLOB_ANY_SEQUENCE" "c \<noteq> GLOB_ANY_CHAR"
          "c \<noteq> GLOB_CLASS_OPEN" "c \<noteq> GLOB_ALTERNATION_OPEN" by blast
      then show ?thesis
      proof cases
        case 1
        with run "1.IH"(1) [OF c goes 1] i show ?thesis by (auto intro: fail_sound split: option.splits)
      next
        case 2
        with run "1.IH"(2,3) [OF c goes] show ?thesis by (auto split: if_splits)
      next
        case 3
        with run "1.IH"(4) [OF c goes] show ?thesis by auto
      next
        case 4
        show ?thesis
        proof (cases "class_node ps i")
          case (Inl e')
          with run 4 i show ?thesis by (auto intro: class_node_sound)
        next
          case (Inr r)
          then obtain n l where n: "class_node ps i = Ok (n, l)" by (cases r) simp
          with run 4 have "sequence ps depth inside l (nodes @ [n]) = Err e" by simp
          from "1.IH"(5) [OF c goes _ _ _ 4 n refl this] show ?thesis by (simp add: 4)
        qed
      next
        case alt
        show ?thesis
        proof (cases "GLOB_MAX_NESTING_DEPTH < depth + 1")
          case True
          with run alt i show ?thesis by (auto intro: fail_sound)
        next
          case shallow: False
          show ?thesis
          proof (cases "branches ps (depth + 1) i (i + 1) []")
            case (Inl e')
            with run alt shallow have "branches ps (depth + 1) i (i + 1) [] = Err e" by simp
            from "1.IH"(6) [OF c goes _ _ _ _ alt shallow this i] show ?thesis by (simp add: alt)
          next
            case (Inr r)
            then obtain b l where b: "branches ps (depth + 1) i (i + 1) [] = Ok (b, l)" by (cases r) simp
            with run alt shallow have "sequence ps depth inside l (nodes @ [Alternation b]) = Err e" by simp
            from "1.IH"(7) [OF c goes _ _ _ _ alt shallow b refl this] show ?thesis by (simp add: alt)
          qed
        qed
      next
        case other
        with run "1.IH"(8) [OF c goes] show ?thesis by auto
      qed
    qed
  qed
next
  case (2 ps depth start i bs)
  note run = "2.prems"(1) [unfolded branches.simps [of ps depth start i]]
  show ?case
  proof (cases "sequence ps depth True i []")
    case (Inl x)
    with run "2.IH"(1) [of x] show ?thesis by simp
  next
    case (Inr r)
    then obtain b j where b: "sequence ps depth True i [] = Ok (b, j)" by (cases r) simp
    with run "2.IH"(2) [OF b refl] "2.prems"(2) show ?thesis
      by (auto intro: fail_sound split: if_splits)
  qed
qed

section \<open>Compiling and matching\<close>

lemma compile_glob_nodes:
  assumes "compile_glob pattern = Ok program"
  obtains nodes where "sequence \<lparr>ps_pattern = pattern, ps_chars = chars pattern\<rparr> 0 False 0 [] = Ok (nodes, length (chars pattern))"
    "program = emit nodes [] @ [Match]" "\<forall>n \<in> set nodes. node_ok n" "seq_size nodes \<le> 3 * length (chars pattern)"
proof -
  define ps where "ps = \<lparr>ps_pattern = pattern, ps_chars = chars pattern\<rparr>"
  obtain nodes i where n: "sequence ps 0 False 0 [] = Ok (nodes, i)" "\<not> i < length (chars pattern)"
      "program = emit nodes [] @ [Match]"
    using assms by (auto simp: compile_glob_def new_parser_def and_then_Ok_iff fail_def Let_def ps_def split: if_splits)
  from sequence_parses(1) [OF n(1)] have "seq_parsed nodes 0 i" "i \<le> length (chars pattern)"
    by (simp_all add: parses_def ps_def)
  with n that show ?thesis by (simp add: seq_parsed_def ps_def)
qed

lemma glob_words:
  assumes "\<forall>n \<in> set nodes. node_ok n"
  shows "glob_matches (emit nodes [] @ [Match]) text \<longleftrightarrow> chars text \<in> seq_words nodes"
proof -
  let ?p = "emit nodes []"
  have "holds (?p @ [Match]) 0 ?p" by (simp add: holds_def nth_append)
  with emit_realises(1) [OF assms, of "[]"] have "language (?p @ [Match]) 0 = cat (seq_words nodes) (language (?p @ [Match]) (length ?p))"
    by (simp add: emits_def realises_def)
  moreover have "language (?p @ [Match]) (length ?p) = {[]}" by (rule language_at(1)) (simp add: inst_at_def)
  ultimately show ?thesis by (simp add: glob_matches_language)
qed

lemma new_parser_sound:
  "new_parser pattern = Err e \<Longrightarrow> sound_error \<lparr>ps_pattern = pattern, ps_chars = chars pattern\<rparr> e"
  by (auto simp: new_parser_def Let_def split: if_splits intro: fail_sound)

lemma compile_glob_sound:
  assumes "compile_glob pattern = Err e"
  shows "sound_error \<lparr>ps_pattern = pattern, ps_chars = chars pattern\<rparr> e"
proof (cases "new_parser pattern")
  case (Inl x)
  with assms show ?thesis by (auto simp: compile_glob_def intro: new_parser_sound)
next
  case (Inr ps)
  then have ps: "ps = \<lparr>ps_pattern = pattern, ps_chars = chars pattern\<rparr>" "length (chars pattern) \<le> GLOB_MAX_PATTERN_CHARS"
    by (auto simp: new_parser_def Let_def fail_def split: if_splits)
  show ?thesis
  proof (cases "sequence ps 0 False 0 []")
    case (Inl x)
    with assms Inr sequence_sound(1) [OF Inl] show ?thesis by (simp add: compile_glob_def ps)
  next
    case r: (Inr r)
    then obtain nodes i where n: "sequence ps 0 False 0 [] = Ok (nodes, i)" by (cases r) simp
    from sequence_parses(1) [OF n] have b: "seq_parsed nodes 0 i" "i \<le> length (chars pattern)"
      by (simp_all add: parses_def ps)
    then have "\<not> GLOB_MAX_INSTRUCTIONS < length (emit nodes [] @ [Match])"
      using ps(2) by (simp add: length_emit seq_parsed_def)
    with assms Inr n b(2) show ?thesis
      by (auto simp: compile_glob_def ps Let_def intro: fail_sound split: if_splits)
  qed
qed

text \<open>
  C39. A pattern that compiles decides the language of the nodes that are parsed from it, with at most three
  instructions for a character; one that does not names a position in the pattern, and is never refused
  as too complex.
\<close>

theorem compile_glob_decides:
  "case compile_glob pattern of
     Inl e \<Rightarrow> pe_pattern e = pattern \<and> pe_position e \<le> length (chars pattern) \<and> (\<forall>n. pe_problem e \<noteq> TooComplex n)
   | Inr program \<Rightarrow>
       length program \<le> 3 * length (chars pattern) + 1 \<and>
       (\<exists>nodes. sequence \<lparr>ps_pattern = pattern, ps_chars = chars pattern\<rparr> 0 False 0 [] = Ok (nodes, length (chars pattern)) \<and>
          (\<forall>text. glob_matches program text \<longleftrightarrow> chars text \<in> seq_words nodes))"
proof (cases "compile_glob pattern")
  case (Inl e)
  with compile_glob_sound [OF Inl] show ?thesis by (simp add: sound_error_def)
next
  case (Inr program)
  then obtain nodes where "sequence \<lparr>ps_pattern = pattern, ps_chars = chars pattern\<rparr> 0 False 0 [] = Ok (nodes, length (chars pattern))"
    "program = emit nodes [] @ [Match]" "\<forall>n \<in> set nodes. node_ok n" "seq_size nodes \<le> 3 * length (chars pattern)"
    by (rule compile_glob_nodes)
  with Inr show ?thesis by (auto simp: glob_words length_emit)
qed

end
