(* ===== verification/Path_Filter_Correct.thy ===== *)
theory Path_Filter_Correct
  imports Path_Filter Glob_Correct
begin

text \<open>
  What the filter decides: the first rule that matches, after the dials; the range query over a path list is
  containment by components; and what is built from the flags has its rules in the order of the flags.
\<close>

section \<open>The first match\<close>

lemma first_match_iff:
  "first_match c rs k = Some (r, p) \<longleftrightarrow>
     k \<le> p \<and> p - k < length rs \<and> r = rs ! (p - k) \<and> rule_matches r c \<and> (\<forall>q < p - k. \<not> rule_matches (rs ! q) c)"
proof (induction rs arbitrary: k)
  case (Cons x xs)
  show ?case
  proof (cases "rule_matches x c")
    case True
    then show ?thesis by (auto simp: nth_Cons split: nat.splits)
  next
    case False
    have "p - k = Suc (p - (k + 1))" if "k + 1 \<le> p" using that by simp
    with False Cons.IH [of "k + 1"] show ?thesis
      by (cases "k + 1 \<le> p") (auto simp: nth_Cons All_less_Suc2 not_less_eq_eq dest: le_antisym)
  qed
qed simp

lemma first_match_None: "first_match c rs k = None \<longleftrightarrow> (\<forall>r \<in> set rs. \<not> rule_matches r c)"
  by (induction rs arbitrary: k) auto

text \<open>What the dials admit, without the order in which they are asked.\<close>

definition dials_admit :: "filter_set \<Rightarrow> candidate \<Rightarrow> bool" where
  "dials_admit F c \<longleftrightarrow>
     (\<forall>only. fs_only F = Some only \<longrightarrow> (if ca_is_dir c then is_under_any only (ca_path c) else ca_path c \<in> set only)) \<and>
     (\<forall>limit. fs_depth F = Some limit \<longrightarrow> depth_of (ca_path c) \<le> limit) \<and>
     (\<forall>m. ca_modified c = Some m \<longrightarrow>
        (\<forall>floor. ab_from (fs_ages F) = Some floor \<longrightarrow> floor \<le> m) \<and>
        (\<forall>ceiling. ab_to (fs_ages F) = Some ceiling \<longrightarrow> m \<le> ceiling)) \<and>
     (\<forall>n. ca_size c = Some n \<longrightarrow>
        (\<forall>limit. sb_min (fs_sizes F) = Some limit \<longrightarrow> limit \<le> n) \<and>
        (\<forall>limit. sb_max (fs_sizes F) = Some limit \<longrightarrow> n \<le> limit))"

lemma first_of_None: "first_of xs = None \<longleftrightarrow> (\<forall>x \<in> set xs. x = None)"
  by (induction xs rule: first_of.induct) auto

lemma refusal_None: "refusal F c = None \<longleftrightarrow> dials_admit F c"
  unfolding refusal_def first_of_None dials_admit_def
  by (auto simp: only_refusal_def depth_refusal_def too_old_def too_new_def too_small_def too_large_def Let_def not_less
      split: option.splits if_splits)

text \<open>The decision: what the first matching rule says, or the default.\<close>

definition first_rule :: "filter_set \<Rightarrow> candidate \<Rightarrow> filter_action" where
  "first_rule F c = (case find (\<lambda>r. rule_matches r c) (fs_rules F) of
     Some r \<Rightarrow> ru_action r | None \<Rightarrow> fs_default_action F)"

lemma first_match_find:
  "map_option fst (first_match c rs k) = find (\<lambda>r. rule_matches r c) rs"
  by (induction rs arbitrary: k) auto

lemma decide_action:
  assumes "is_restricting F"
  shows "de_action (decide F c) = (if dials_admit F c then first_rule F c else Exclude)"
proof (cases "refusal F c")
  case None
  then have d: "dials_admit F c" by (simp add: refusal_None)
  show ?thesis
  proof (cases "first_match c (fs_rules F) 0")
    case n: None
    with first_match_find [of c "fs_rules F" 0] None d assms show ?thesis
      by (simp add: decide_def decided_def first_rule_def)
  next
    case (Some rp)
    then obtain r p where "first_match c (fs_rules F) 0 = Some (r, p)" by (cases rp) auto
    with first_match_find [of c "fs_rules F" 0] None d assms show ?thesis
      by (simp add: decide_def decided_def first_rule_def flip: first_match_find [of c "fs_rules F" 0])
  qed
next
  case (Some r)
  with assms refusal_None [of F c] show ?thesis by (simp add: decide_def decided_def)
qed

lemma unrestricted_admits: "\<not> is_restricting F \<Longrightarrow> admits F c"
  by (simp add: admits_def decide_def decided_def action_admits_def)

section \<open>The range query\<close>

lemma le_append: "(p :: str) \<le> p @ r"
  by (induction p) auto

lemma prefix_between:
  fixes p x r :: str
  assumes "p \<le> x" "x \<le> p @ r"
  shows "prefix p x"
  using assms
proof (induction p arbitrary: x)
  case (Cons a p)
  then obtain b y where x: "x = b # y" by (cases x) auto
  with Cons.prems have "a = b" "p \<le> y" "y \<le> p @ r" by auto
  with Cons.IH x show ?case by auto
qed simp

lemma find_sorted:
  assumes "sorted xs" "find (\<lambda>p. start \<le> p) xs = Some first" "y \<in> set xs" "start \<le> y"
  shows "first \<le> y"
  using assms by (induction xs) (auto split: if_splits)

lemma range_prefix:
  fixes paths :: "str list"
  assumes "sorted paths"
  shows "(case range_first paths p of None \<Rightarrow> False | Some first \<Rightarrow> prefix p first) \<longleftrightarrow> (\<exists>x \<in> set paths. prefix p x)"
proof (cases "range_first paths p")
  case None
  then have "\<not> p \<le> x" if "x \<in> set paths" for x using that by (simp add: range_first_def find_None_iff)
  then have "\<not> prefix p x" if "x \<in> set paths" for x using that le_append by (auto simp: prefix_def)
  with None show ?thesis by auto
next
  case (Some first)
  then have first: "first \<in> set paths" "p \<le> first" by (auto simp: range_first_def find_Some_iff)
  show ?thesis
  proof
    assume "\<exists>x \<in> set paths. prefix p x"
    then obtain x r where x: "x \<in> set paths" "x = p @ r" by (auto simp: prefix_def)
    with Some assms have "first \<le> x" using find_sorted [of paths p first x] le_append [of p r] by (simp add: range_first_def)
    with first(2) x(2) have "prefix p first" using prefix_between by blast
    with Some show "case range_first paths p of None \<Rightarrow> False | Some first \<Rightarrow> prefix p first" by simp
  next
    assume "case range_first paths p of None \<Rightarrow> False | Some first \<Rightarrow> prefix p first"
    with Some first show "\<exists>x \<in> set paths. prefix p x" by auto
  qed
qed

text \<open>A path is above the list if it is the root of one that is not empty, or if its components begin those of a listed path.\<close>

lemma is_under_any_iff:
  assumes "sorted paths"
  shows "is_under_any paths path \<longleftrightarrow>
    (\<exists>x \<in> set paths. path = [] \<or> prefix (split_on slash path) (split_on slash x))"
proof (cases "path = []")
  case True
  then show ?thesis by (cases paths) (auto simp: is_under_any_def)
next
  case False
  with range_prefix [OF assms, of "path @ [slash]"] show ?thesis
    by (auto simp: is_under_any_def prefix_split_on Let_def)
qed

lemma set_insert_sorted:
  "sorted xs \<Longrightarrow> sorted (set_insert x xs)" "set (set_insert x xs) = insert x (set xs)"
  "distinct xs \<Longrightarrow> distinct (set_insert x xs)"
  by (auto simp: set_insert_def sorted_insort set_insort_key distinct_insort)

lemma fold_set_insert:
  "sorted xs \<Longrightarrow> sorted (fold set_insert ys xs)" "set (fold set_insert ys xs) = set ys \<union> set xs"
  "distinct xs \<Longrightarrow> distinct (fold set_insert ys xs)"
  by (induction ys arbitrary: xs) (auto simp: set_insert_sorted)

section \<open>What a walk reaches\<close>









section \<open>What the flags select\<close>

text \<open>Whether the rule of a pattern matches a candidate; the action does not matter.\<close>

definition pattern_matches :: "prims \<Rightarrow> str \<Rightarrow> candidate \<Rightarrow> bool" where
  "pattern_matches P pattern c \<longleftrightarrow> (\<exists>r. rule_compile P Include pattern = Ok r \<and> rule_matches r c)"

lemma rule_compile_action:
  "rule_compile P action pattern = map_sum id (\<lambda>r. r\<lparr>ru_action := action\<rparr>) (rule_compile P Include pattern)"
  unfolding rule_compile_def Let_def by (cases "compile_glob (
    let body = (if normalize_unicode P pattern \<noteq> [] \<and> last (normalize_unicode P pattern) = slash
      then butlast (normalize_unicode P pattern) else normalize_unicode P pattern)
    in case strip_path_prefix body [slash] of Some rest \<Rightarrow> rest | None \<Rightarrow> body)")
    (auto simp: Let_def split: prod.splits option.splits if_splits)

lemma rule_compile_Ok: "rule_compile P action pattern = Ok r \<Longrightarrow> ru_action r = action"
  unfolding rule_compile_action [of P action] by (cases "rule_compile P Include pattern") auto

lemma rule_matches_action: "rule_matches (r\<lparr>ru_action := a\<rparr>) c = rule_matches r c"
  by (cases "ru_anchor r") (simp_all add: rule_matches_def Let_def)

lemma compile_rule_Ok:
  "compile_rule P action pattern origin = Ok r \<Longrightarrow>
    ru_action r = action \<and> (rule_matches r c \<longleftrightarrow> pattern_matches P pattern c)"
  unfolding compile_rule_def pattern_matches_def rule_compile_action [of P action]
  by (cases "rule_compile P Include pattern") (auto simp: rule_matches_action)

text \<open>The rules that one flag appends, each of its action and with the meaning of its pattern.\<close>

definition rules_of :: "prims \<Rightarrow> filter_action \<Rightarrow> str list \<Rightarrow> rule list \<Rightarrow> bool" where
  "rules_of P action ps rs \<longleftrightarrow>
     list_all2 (\<lambda>p r. ru_action r = action \<and> (\<forall>c. rule_matches r c \<longleftrightarrow> pattern_matches P p c)) ps rs"

lemma each_include:
  "each (bu_include P) ps b = Ok b' \<Longrightarrow>
    \<exists>rs. rules_of P Include ps rs \<and>
      b' = b\<lparr>bu_rules := bu_rules b @ rs, bu_implicit_exclude := bu_implicit_exclude b \<or> ps \<noteq> []\<rparr>"
proof (induction ps arbitrary: b)
  case (Cons p ps)
  then obtain b1 where b1: "bu_include P p b = Ok b1" "each (bu_include P) ps b1 = Ok b'"
    by (auto simp: and_then_Ok_iff)
  then obtain r where r: "compile_rule P Include p (FromFlag ''--include'') = Ok r"
      "each (bu_include P) ps ((push_rule r b)\<lparr>bu_implicit_exclude := True\<rparr>) = Ok b'"
    by (auto simp: bu_include_def [of P p b] and_then_Ok_iff)
  from Cons.IH [OF r(2)] obtain rs where rs: "rules_of P Include ps rs"
      "b' = b\<lparr>bu_rules := bu_rules b @ r # rs, bu_implicit_exclude := True\<rparr>"
    by (auto simp: push_rule_def)
  moreover have "rules_of P Include (p # ps) (r # rs)"
    using rs(1) compile_rule_Ok [OF r(1)] by (simp add: rules_of_def)
  ultimately show ?case by (intro exI [of _ "r # rs"]) simp
qed (auto simp: rules_of_def)

lemma each_exclude:
  "each (bu_exclude P) ps b = Ok b' \<Longrightarrow>
    \<exists>rs. rules_of P Exclude ps rs \<and> b' = b\<lparr>bu_rules := bu_rules b @ rs\<rparr>"
proof (induction ps arbitrary: b)
  case (Cons p ps)
  then obtain b1 where b1: "bu_exclude P p b = Ok b1" "each (bu_exclude P) ps b1 = Ok b'"
    by (auto simp: and_then_Ok_iff)
  then obtain r where r: "compile_rule P Exclude p (FromFlag ''--exclude'') = Ok r"
      "each (bu_exclude P) ps (push_rule r b) = Ok b'"
    by (auto simp: bu_exclude_def [of P p b] and_then_Ok_iff)
  from Cons.IH [OF r(2)] obtain rs where rs: "rules_of P Exclude ps rs" "b' = b\<lparr>bu_rules := bu_rules b @ r # rs\<rparr>"
    by (auto simp: push_rule_def)
  moreover have "rules_of P Exclude (p # ps) (r # rs)"
    using rs(1) compile_rule_Ok [OF r(1)] by (simp add: rules_of_def)
  ultimately show ?case by (intro exI [of _ "r # rs"]) simp
qed (auto simp: rules_of_def)

lemma each_only:
  "each (bu_only_from P files) ss b = Ok b' \<Longrightarrow> \<exists>only. b' = b\<lparr>bu_only := only\<rparr>"
proof (induction ss arbitrary: b)
  case Nil
  then show ?case by (intro exI [of _ "bu_only b"]) simp
next
  case (Cons s ss)
  then obtain b1 where b1: "bu_only_from P files s b = Ok b1" "each (bu_only_from P files) ss b1 = Ok b'"
    by (auto simp: and_then_Ok_iff)
  then obtain only where "b1 = b\<lparr>bu_only := only\<rparr>" by (auto simp: bu_only_from_def and_then_Ok_iff)
  with Cons.IH [OF b1(2)] show ?case by auto
qed

lemma find_rules:
  assumes "rules_of P action ps rs"
  shows "(case find (\<lambda>r. rule_matches r c) (rs @ later) of Some r \<Rightarrow> ru_action r | None \<Rightarrow> d) =
    (if \<exists>p \<in> set ps. pattern_matches P p c then action
     else case find (\<lambda>r. rule_matches r c) later of Some r \<Rightarrow> ru_action r | None \<Rightarrow> d)"
  using assms unfolding rules_of_def by (induction rule: list_all2_induct) auto

lemma rules_of_Nil: "rules_of P action ps rs \<Longrightarrow> rs = [] \<longleftrightarrow> ps = []"
  by (auto simp: rules_of_def)

text \<open>The rule that \<open>build\<close> adds after an inclusion.\<close>

definition implicit_rule :: "prims \<Rightarrow> rule list" where
  "implicit_rule P = (case rule_compile P Exclude (lit ''**'') of Inr r \<Rightarrow> [r] | Inl _ \<Rightarrow> [])"

lemma implicit_rule_action: "r \<in> set (implicit_rule P) \<Longrightarrow> ru_action r = Exclude"
  by (cases "rule_compile P Exclude (lit ''**'')")
    (simp_all add: implicit_rule_def rule_compile_Ok del: lit_simps)

lemma bu_build_eq:
  "bu_build P b = \<lparr>fs_rules = bu_rules b @ (if bu_implicit_exclude b then implicit_rule P else []),
     fs_default_action = (if bu_implicit_exclude b then Exclude else Include), fs_sizes = bu_sizes b,
     fs_ages = bu_ages b, fs_depth = bu_depth b, fs_only = bu_only b\<rparr>"
  by (cases "rule_compile P Exclude (lit ''**'')")
    (simp_all add: bu_build_def implicit_rule_def del: lit_simps)

text \<open>
  C37. With the include and exclude flags alone, the filter built from the flags admits what the sizes, ages,
  depth and path lists allow, and of that: as soon as one pattern is to be included exactly what an included
  pattern matches, and without any all that no excluded pattern matches.
\<close>

theorem flags_select:
  assumes "from_globals_at P files parse_size parse_age g now = Ok F"
    and "ga_include_from g = []" "ga_exclude_from g = []" "ga_filter g = []" "ga_filter_from g = []"
  shows "admits F c \<longleftrightarrow> dials_admit F c \<and>
    (if ga_include g \<noteq> [] then \<exists>p \<in> set (ga_include g). pattern_matches P p c
     else \<forall>p \<in> set (ga_exclude g). \<not> pattern_matches P p c)"
proof -
  from assms obtain b1 b2 b3 sizes ages depth where run:
    "each (bu_include P) (ga_include g) new_builder = Ok b1" "each (bu_exclude P) (ga_exclude g) b1 = Ok b2"
    "each (bu_only_from P files) (ga_files_from g) b2 = Ok b3"
    "F = bu_build P (b3\<lparr>bu_sizes := sizes, bu_ages := ages, bu_depth := depth\<rparr>)"
    by (auto simp: from_globals_at_def and_then_Ok_iff)
  obtain ins es only where b:
    "rules_of P Include (ga_include g) ins" "rules_of P Exclude (ga_exclude g) es"
    "bu_rules b3 = ins @ es" "bu_implicit_exclude b3 \<longleftrightarrow> ga_include g \<noteq> []"
    using each_include [OF run(1)] each_exclude [OF run(2)] each_only [OF run(3)] by (auto simp: new_builder_def)
  define last_rule where "last_rule = (if ga_include g \<noteq> [] then implicit_rule P else [])"
  have last_rule: "ru_action r = Exclude" if "r \<in> set last_rule" for r
    using that unfolding last_rule_def by (cases "ga_include g = []") (simp_all add: implicit_rule_action)
  have F: "fs_rules F = ins @ es @ last_rule" "fs_default_action F = (if ga_include g \<noteq> [] then Exclude else Include)"
    using b(3,4) by (simp_all add: run(4) bu_build_eq last_rule_def)
  have tail: "(case find (\<lambda>r. rule_matches r c) last_rule of Some r \<Rightarrow> ru_action r | None \<Rightarrow> fs_default_action F) =
      (if ga_include g \<noteq> [] then Exclude else Include)"
  proof (cases "find (\<lambda>r. rule_matches r c) last_rule")
    case None
    then show ?thesis by (simp add: F)
  next
    case (Some r)
    then have "r \<in> set last_rule" by (auto simp: find_Some_iff)
    moreover from this have "ga_include g \<noteq> []" by (auto simp: last_rule_def split: if_splits)
    ultimately show ?thesis using Some last_rule by simp
  qed
  have rule: "first_rule F c =
      (if \<exists>p \<in> set (ga_include g). pattern_matches P p c then Include
       else if \<exists>p \<in> set (ga_exclude g). pattern_matches P p c then Exclude
       else if ga_include g \<noteq> [] then Exclude else Include)"
    unfolding first_rule_def F(1) find_rules [OF b(1)] find_rules [OF b(2)] tail ..
  show ?thesis
  proof (cases "is_restricting F")
    case True
    with decide_action [OF True, of c] rule show ?thesis
      by (auto simp: admits_def action_admits_def split: if_splits)
  next
    case False
    then have "ga_include g = []" "ga_exclude g = []"
      using rules_of_Nil [OF b(1)] rules_of_Nil [OF b(2)] F(1) by (auto simp: is_restricting_def)
    moreover have "dials_admit F c" using False
      by (auto simp: dials_admit_def is_restricting_def size_limited_def age_limited_def)
    ultimately show ?thesis using unrestricted_admits [OF False] by simp
  qed
qed

lemma flags_select_witness:
  "\<exists>F. from_globals_at toy_prims (\<lambda>_. Err []) (\<lambda>_. Err []) (\<lambda>_. Err [])
      \<lparr>ga_include = [lit ''a*''], ga_include_from = [], ga_exclude = [lit ''ab''], ga_exclude_from = [], ga_filter = [],
       ga_filter_from = [], ga_files_from = [], ga_min_size = None, ga_max_size = None, ga_min_age = None,
       ga_max_age = None, ga_max_depth = - 1\<rparr> 0 = Ok F \<and>
    (admits F (candidate_file (lit ''ab'') 1) \<longleftrightarrow> dials_admit F (candidate_file (lit ''ab'') 1) \<and>
      pattern_matches toy_prims (lit ''a*'') (candidate_file (lit ''ab'') 1))"
proof -
  let ?g = "\<lparr>ga_include = [lit ''a*''], ga_include_from = [], ga_exclude = [lit ''ab''], ga_exclude_from = [], ga_filter = [],
       ga_filter_from = [], ga_files_from = [], ga_min_size = None, ga_max_size = None, ga_min_age = None,
       ga_max_age = None, ga_max_depth = - 1\<rparr>"
  have "(case from_globals_at toy_prims (\<lambda>_. Err []) (\<lambda>_. Err []) (\<lambda>_. Err []) ?g 0 of Inl _ \<Rightarrow> False | Inr _ \<Rightarrow> True)"
    by code_simp
  then obtain F where F: "from_globals_at toy_prims (\<lambda>_. Err []) (\<lambda>_. Err []) (\<lambda>_. Err []) ?g 0 = Ok F"
    by (auto split: sum.splits)
  from F flags_select [OF F, of "candidate_file (lit ''ab'') 1"] show ?thesis by (auto simp del: lit_simps)
qed


end
