(* ===== verification/Transfer_Plan.thy ===== *)
theory Transfer_Plan
  imports Prelude
begin

text \<open>
  \<open>dctl-cli/src/commands/transfer/\<close>, the part that decides before anything happens: the entries of the
  two sides (\<open>entry.rs\<close>), the comparison of one pair (\<open>compare.rs\<close>), the plan (\<open>plan.rs\<close>), the check of
  \<open>--immutable\<close> (\<open>immutable.rs\<close>) and the guard of an empty source (\<open>sync/plan.rs\<close>). A \<open>SystemTime\<close> is an
  integer number of nanoseconds, and a window a natural one.
\<close>

section \<open>Entries\<close>

datatype entry_kind = FileKind | EmptyDirKind

record entry =
  en_path :: str
  en_size :: "u64 option"
  en_modified :: "int option"
  en_hash :: "str option"
  en_kind :: entry_kind
  en_object_missing :: bool

definition entry_file :: "str \<Rightarrow> u64 \<Rightarrow> entry" where
  "entry_file path n = \<lparr>en_path = path, en_size = Some n, en_modified = None, en_hash = None,
     en_kind = FileKind, en_object_missing = False\<rparr>"

definition entry_unmeasured :: "str \<Rightarrow> entry" where
  "entry_unmeasured path = \<lparr>en_path = path, en_size = None, en_modified = None, en_hash = None,
     en_kind = FileKind, en_object_missing = False\<rparr>"

definition entry_empty_dir :: "str \<Rightarrow> entry" where
  "entry_empty_dir path = \<lparr>en_path = path, en_size = Some 0, en_modified = None, en_hash = None,
     en_kind = EmptyDirKind, en_object_missing = False\<rparr>"

definition with_modified :: "entry \<Rightarrow> int \<Rightarrow> entry" where
  "with_modified e t = e\<lparr>en_modified := Some t\<rparr>"

definition is_file :: "entry \<Rightarrow> bool" where
  "is_file e \<longleftrightarrow> en_kind e = FileKind"

text \<open>\<open>duration_since\<close> is an error when the other time is later.\<close>

definition duration_since :: "int \<Rightarrow> int \<Rightarrow> nat option" where
  "duration_since mine theirs = (if theirs \<le> mine then Some (nat (mine - theirs)) else None)"

definition is_newer_than :: "entry \<Rightarrow> entry \<Rightarrow> nat \<Rightarrow> bool" where
  "is_newer_than self other window =
     (case (en_modified self, en_modified other) of
        (Some mine, Some theirs) \<Rightarrow>
          (case duration_since mine theirs of None \<Rightarrow> False | Some delta \<Rightarrow> window < delta)
      | _ \<Rightarrow> False)"

definition modified_matches :: "entry \<Rightarrow> entry \<Rightarrow> nat \<Rightarrow> bool" where
  "modified_matches self other window =
     (case (en_modified self, en_modified other) of
        (Some mine, Some theirs) \<Rightarrow>
          (case (case duration_since mine theirs of
              Some delta \<Rightarrow> Some delta | None \<Rightarrow> duration_since theirs mine) of
             None \<Rightarrow> False | Some delta \<Rightarrow> delta \<le> window)
      | _ \<Rightarrow> False)"

section \<open>The comparison\<close>

text \<open>The reasons, which the source has as strings.\<close>

datatype plan_reason =
    REASON_MISSING | REASON_SIZE | REASON_MODIFIED | REASON_CHECKSUM | REASON_IDENTICAL | REASON_EXISTS
  | REASON_DESTINATION_NEWER | REASON_EXTRA | REASON_DESTINATION_LOST | REASON_EMPTY_SOURCE_DIR
  | REASON_UNTRAVERSED | REASON_SIZE_UNRECORDED

datatype compare_action = Copy plan_reason | Update plan_reason | Skip plan_reason

fun action_reason :: "compare_action \<Rightarrow> plan_reason" where
  "action_reason (Copy r) = r"
| "action_reason (Update r) = r"
| "action_reason (Skip r) = r"

record compare_policy =
  cp_checksum :: bool
  cp_size_only :: bool
  cp_ignore_existing :: bool
  cp_update :: bool
  cp_modify_window :: nat

text \<open>The failure of a comparison: no content hash for a path.\<close>

datatype plan_error = NoContentHash str

definition decide_entry :: "entry \<Rightarrow> entry option \<Rightarrow> compare_policy \<Rightarrow> plan_error + compare_action" where
  "decide_entry source dest policy =
     (case dest of
        None \<Rightarrow> Ok (Copy REASON_MISSING)
      | Some dest \<Rightarrow>
          if en_object_missing dest then Ok (Copy REASON_DESTINATION_LOST)
          else if cp_ignore_existing policy then Ok (Skip REASON_EXISTS)
          else if cp_update policy \<and> is_newer_than dest source (cp_modify_window policy)
            then Ok (Skip REASON_DESTINATION_NEWER)
          else if cp_checksum policy then
            (case (en_hash source, en_hash dest) of
               (Some ours, Some theirs) \<Rightarrow>
                 Ok (if ours = theirs then Skip REASON_IDENTICAL else Update REASON_CHECKSUM)
             | _ \<Rightarrow> Err (NoContentHash (en_path source)))
          else (case (en_size source, en_size dest) of
               (Some ours, Some theirs) \<Rightarrow>
                 if ours \<noteq> theirs then Ok (Update REASON_SIZE)
                 else if cp_size_only policy then Ok (Skip REASON_IDENTICAL)
                 else if modified_matches source dest (cp_modify_window policy) then Ok (Skip REASON_IDENTICAL)
                 else Ok (Update REASON_MODIFIED)
             | _ \<Rightarrow> Ok (Update REASON_SIZE_UNRECORDED)))"

section \<open>The plan\<close>

datatype plan_op = OpCopy | OpUpdate | OpDelete | OpSkip | OpCreateDir

definition op_transfers :: "plan_op \<Rightarrow> bool" where
  "op_transfers p \<longleftrightarrow> p = OpCopy \<or> p = OpUpdate"

definition op_destroys :: "plan_op \<Rightarrow> bool" where
  "op_destroys p \<longleftrightarrow> p = OpDelete"

definition op_replaces_existing :: "plan_op \<Rightarrow> bool" where
  "op_replaces_existing p \<longleftrightarrow> p = OpUpdate \<or> p = OpDelete"

definition op_is_action :: "plan_op \<Rightarrow> bool" where
  "op_is_action p \<longleftrightarrow> p \<noteq> OpSkip"

record plan_entry =
  pl_action :: plan_op
  pl_source :: str
  pl_dest :: str
  pl_size :: "u64 option"
  pl_reason :: plan_reason
  pl_modified :: "int option"

record policy =
  po_compare :: compare_policy
  po_delete_extras :: bool
  po_create_empty_src_dirs :: bool
  po_traversed :: bool

definition policy_copying :: "compare_policy \<Rightarrow> policy" where
  "policy_copying c = \<lparr>po_compare = c, po_delete_extras = False, po_create_empty_src_dirs = False, po_traversed = True\<rparr>"

definition policy_syncing :: "compare_policy \<Rightarrow> policy" where
  "policy_syncing c = \<lparr>po_compare = c, po_delete_extras = True, po_create_empty_src_dirs = False, po_traversed = True\<rparr>"

fun action_op :: "compare_action \<Rightarrow> plan_op" where
  "action_op (Copy _) = OpCopy"
| "action_op (Update _) = OpUpdate"
| "action_op (Skip _) = OpSkip"

definition empty_dir_entry :: "entry \<Rightarrow> bool \<Rightarrow> policy \<Rightarrow> plan_entry" where
  "empty_dir_entry item exists_at_dest policy =
     (let create = po_create_empty_src_dirs policy \<and> \<not> exists_at_dest in
      \<lparr>pl_action = (if create then OpCreateDir else OpSkip), pl_source = en_path item, pl_dest = en_path item,
       pl_size = Some 0,
       pl_reason = (if create then REASON_EMPTY_SOURCE_DIR else if exists_at_dest then REASON_IDENTICAL
                    else REASON_MISSING),
       pl_modified = None\<rparr>)"

text \<open>The map of the destination by path: the last of several entries with one path wins.\<close>

definition position_of :: "entry list \<Rightarrow> str \<Rightarrow> nat option" where
  "position_of dest path =
     (case rev (filter (\<lambda>i. en_path (dest ! i) = path) [0..<length dest]) of
        [] \<Rightarrow> None | i # _ \<Rightarrow> Some i)"

definition file_entry :: "entry \<Rightarrow> str \<Rightarrow> compare_action \<Rightarrow> plan_entry" where
  "file_entry item dest_name action =
     \<lparr>pl_action = action_op action, pl_source = en_path item, pl_dest = dest_name,
      pl_size = en_size item, pl_reason = action_reason action, pl_modified = en_modified item\<rparr>"

text \<open>The loop over the source, with the destination entries it has matched.\<close>

fun plan_sources ::
    "policy \<Rightarrow> entry list \<Rightarrow> entry list \<Rightarrow> bool list \<Rightarrow> plan_entry list \<Rightarrow>
     plan_error + plan_entry list \<times> bool list" where
  "plan_sources policy dest [] matched entries = Ok (entries, matched)"
| "plan_sources policy dest (item # items) matched entries =
     (let position = position_of dest (en_path item);
          matched = (case position of None \<Rightarrow> matched | Some i \<Rightarrow> matched[i := True]);
          counterpart = map_option ((!) dest) position in
      if \<not> is_file item
      then plan_sources policy dest items matched (entries @ [empty_dir_entry item (counterpart \<noteq> None) policy])
      else and_then (if po_traversed policy then decide_entry item counterpart (po_compare policy)
                     else Ok (Copy REASON_UNTRAVERSED)) (\<lambda>action.
        plan_sources policy dest items matched (entries @ [file_entry item (en_path item) action])))"

text \<open>The loop over the destination.\<close>

fun plan_deletes :: "entry list \<Rightarrow> bool list \<Rightarrow> plan_entry list \<Rightarrow> plan_entry list" where
  "plan_deletes [] matched entries = entries"
| "plan_deletes (item # items) matched entries =
     plan_deletes items (tl matched)
       (if (matched \<noteq> [] \<and> hd matched) \<or> \<not> is_file item then entries
        else entries @ [\<lparr>pl_action = OpDelete, pl_source = [], pl_dest = en_path item, pl_size = en_size item,
          pl_reason = REASON_EXTRA, pl_modified = None\<rparr>])"

definition compute :: "entry list \<Rightarrow> entry list \<Rightarrow> policy \<Rightarrow> plan_error + plan_entry list" where
  "compute source dest policy =
     and_then (plan_sources policy dest source (replicate (length dest) False) []) (\<lambda>(entries, matched).
     Ok (if po_delete_extras policy then plan_deletes dest matched entries else entries))"

definition compute_exact :: "entry \<Rightarrow> entry option \<Rightarrow> str \<Rightarrow> policy \<Rightarrow> plan_error + plan_entry list" where
  "compute_exact source dest dest_name policy =
     and_then (if po_traversed policy then decide_entry source dest (po_compare policy)
               else Ok (Copy REASON_UNTRAVERSED)) (\<lambda>action.
     Ok [file_entry source dest_name action])"

section \<open>Questions to a plan\<close>

definition with_op :: "plan_op \<Rightarrow> plan_entry list \<Rightarrow> plan_entry list" where
  "with_op p plan = filter (\<lambda>e. pl_action e = p) plan"

definition actions :: "plan_entry list \<Rightarrow> plan_entry list" where
  "actions plan = filter (\<lambda>e. op_is_action (pl_action e)) plan"

definition transfers :: "plan_entry list \<Rightarrow> plan_entry list" where
  "transfers plan = filter (\<lambda>e. op_transfers (pl_action e)) plan"

definition deletions :: "plan_entry list \<Rightarrow> plan_entry list" where
  "deletions plan = filter (\<lambda>e. op_destroys (pl_action e)) plan"

definition saturating_add64 :: "u64 \<Rightarrow> u64 \<Rightarrow> u64" where
  "saturating_add64 a b = (if unat a + unat b < 2 ^ 64 then a + b else - 1)"

fun sum_sizes :: "u64 \<Rightarrow> plan_entry list \<Rightarrow> u64 option" where
  "sum_sizes acc [] = Some acc"
| "sum_sizes acc (e # es) =
     (case pl_size e of None \<Rightarrow> None | Some n \<Rightarrow> sum_sizes (saturating_add64 acc n) es)"

definition bytes_to_transfer :: "plan_entry list \<Rightarrow> u64 option" where
  "bytes_to_transfer plan = sum_sizes 0 (transfers plan)"

definition destroys_anything :: "plan_entry list \<Rightarrow> bool" where
  "destroys_anything plan \<longleftrightarrow> deletions plan \<noteq> []"

definition is_noop :: "plan_entry list \<Rightarrow> bool" where
  "is_noop plan \<longleftrightarrow> actions plan = []"

record summary =
  su_copy :: nat
  su_update :: nat
  su_delete :: nat
  su_skip :: nat
  su_mkdir :: nat
  su_bytes :: "u64 option"

definition plan_summary :: "plan_entry list \<Rightarrow> summary" where
  "plan_summary plan = \<lparr>su_copy = length (with_op OpCopy plan), su_update = length (with_op OpUpdate plan),
     su_delete = length (with_op OpDelete plan), su_skip = length (with_op OpSkip plan),
     su_mkdir = length (with_op OpCreateDir plan), su_bytes = bytes_to_transfer plan\<rparr>"

text \<open>
  \<open>--immutable\<close>: the entries refused, if any. And with \<open>--no-traverse\<close> it could not be enforced, which is
  refused as well.
\<close>

definition ensure_nothing_is_replaced :: "bool \<Rightarrow> plan_entry list \<Rightarrow> plan_entry list + unit" where
  "ensure_nothing_is_replaced immutable plan =
     (if \<not> immutable then Ok ()
      else let refused = filter (\<lambda>e. op_replaces_existing (pl_action e)) plan in
        if refused = [] then Ok () else Err refused)"

definition ensure_traversal_can_enforce_it :: "bool \<Rightarrow> bool \<Rightarrow> string + unit" where
  "ensure_traversal_can_enforce_it immutable no_traverse =
     (if immutable \<and> no_traverse then Err ''IMMUTABLE_NO_TRAVERSE_CONFLICT'' else Ok ())"

text \<open>The guard of \<open>sync\<close>; its error is the number of files it would delete.\<close>

definition guard_empty_source :: "bool \<Rightarrow> plan_entry list \<Rightarrow> nat + unit" where
  "guard_empty_source force plan =
     (let source_is_empty = (transfers plan = [] \<and> with_op OpSkip plan = []) in
      if \<not> source_is_empty \<or> \<not> destroys_anything plan \<or> force then Ok ()
      else Err (length (deletions plan)))"

end
