(* ===== verification/Transfer_Run.thy ===== *)
theory Transfer_Run
  imports Transfer_Plan
begin

text \<open>
  \<open>dctl-cli/src/commands/transfer/\<close>, the part that acts on a plan: the budget of \<open>--max-transfer\<close>
  (\<open>limits/budget.rs\<close>), the stages of one file with their retries and its audit record (\<open>pipeline.rs\<close>,
  \<open>retry.rs\<close>), and the execution of a plan (\<open>execute.rs\<close>, \<open>sync/execute.rs\<close>). A failure is its exit code
  (\<open>exit.rs\<close>). The driver, the reaper, the clock and the audit log act on a world that is a parameter; the
  budget and the counters are the state kept beside it. Files run one after the other, as with one lane.
\<close>

section \<open>Exit codes\<close>

datatype exit_code =
    Success | Usage | Uncategorised | DirNotFound | FileNotFound | TemporaryError | PartialFailure | FatalError
  | TransferLimitExceeded | NoFilesTransferred | DurationLimitExceeded | ChecksumMismatch | IntegrityFailure
  | VaultLocked | IndexError | AuditChainBroken | Cancelled | AuditHeadMismatch | VerificationNotPossible
  | LinkSilent

fun as_i32 :: "exit_code \<Rightarrow> int" where
  "as_i32 Success = 0"
| "as_i32 Usage = 1"
| "as_i32 Uncategorised = 2"
| "as_i32 DirNotFound = 3"
| "as_i32 FileNotFound = 4"
| "as_i32 TemporaryError = 5"
| "as_i32 PartialFailure = 6"
| "as_i32 FatalError = 7"
| "as_i32 TransferLimitExceeded = 8"
| "as_i32 NoFilesTransferred = 9"
| "as_i32 DurationLimitExceeded = 10"
| "as_i32 ChecksumMismatch = 20"
| "as_i32 IntegrityFailure = 21"
| "as_i32 VaultLocked = 22"
| "as_i32 IndexError = 23"
| "as_i32 AuditChainBroken = 24"
| "as_i32 Cancelled = 25"
| "as_i32 AuditHeadMismatch = 26"
| "as_i32 VerificationNotPossible = 27"
| "as_i32 LinkSilent = 28"

definition is_fatal :: "exit_code \<Rightarrow> bool" where
  "is_fatal e \<longleftrightarrow> e \<in> {FatalError, Cancelled, VaultLocked, IndexError, Usage, AuditChainBroken,
     TransferLimitExceeded, DurationLimitExceeded, LinkSilent}"

definition is_worth_repeating :: "exit_code \<Rightarrow> bool" where
  "is_worth_repeating e \<longleftrightarrow> e = TemporaryError \<or> e = ChecksumMismatch"

section \<open>The budget\<close>

definition saturating_sub64u :: "u64 \<Rightarrow> u64 \<Rightarrow> u64" where
  "saturating_sub64u a b = (if b \<le> a then a - b else 0)"

text \<open>What is spent after a claim, or the refusal.\<close>

definition budget_afford :: "u64 option \<Rightarrow> u64 \<Rightarrow> u64 \<Rightarrow> exit_code + u64" where
  "budget_afford limit spent bytes =
     (case limit of
        None \<Rightarrow> Ok spent
      | Some l \<Rightarrow>
          if bytes = 0 then Ok spent
          else let after = saturating_add64 spent bytes in
            if after \<le> l then Ok after else Err TransferLimitExceeded)"

definition budget_settle :: "u64 option \<Rightarrow> u64 \<Rightarrow> u64 \<Rightarrow> u64 \<Rightarrow> u64" where
  "budget_settle limit spent reserved actual =
     (let held = (if limit \<noteq> None then reserved else 0) in
      saturating_add64 (saturating_sub64u spent held) actual)"

section \<open>The state of a run\<close>

record run_stats =
  st_files_done :: nat
  st_verified_bytes :: nat
  st_errors :: nat
  st_mismatches :: nat
  st_deleted :: nat
  st_retries :: nat
  st_skipped :: nat
  st_checks_done :: nat
  st_checks_total :: nat

record 'w run_state =
  rs_world :: 'w
  rs_spent :: u64
  rs_stats :: run_stats

type_synonym ('w, 'a) run_io = "('w run_state, exit_code, 'a) io"

text \<open>An audit record, without the remote and the direction, which are constants of a driver.\<close>

record audit_entry =
  ae_op :: string
  ae_outcome :: "exit_code option"
  ae_path :: str
  ae_size :: u64
  ae_moved :: u64
  ae_objects :: nat
  ae_plaintext_hash :: str

record 'w driver =
  dr_read :: "plan_entry \<Rightarrow> ('w, exit_code, unit) io"
  dr_encrypt :: "plan_entry \<Rightarrow> ('w, exit_code, unit) io"
  dr_upload :: "plan_entry \<Rightarrow> ('w, exit_code, u64) io"
  dr_verify :: "plan_entry \<Rightarrow> ('w, exit_code, unit) io"
  dr_commit :: "plan_entry \<Rightarrow> ('w, exit_code, unit) io"
  dr_create_dir :: "plan_entry \<Rightarrow> ('w, exit_code, unit) io"
  dr_take_hash :: "plan_entry \<Rightarrow> 'w \<Rightarrow> str \<times> 'w"

type_synonym 'w reaper = "str \<Rightarrow> ('w, exit_code, unit) io"

text \<open>What a run asks besides: the limits, the retries, whether the deadline has passed, and the audit log.\<close>

record 'w run_context =
  cx_limit :: "u64 option"
  cx_retries :: u32
  cx_exceeded :: "'w \<Rightarrow> bool \<times> 'w"
  cx_audit :: "audit_entry \<Rightarrow> ('w, exit_code, unit) io"

definition in_world :: "('w, exit_code, 'a) io \<Rightarrow> ('w, 'a) run_io" where
  "in_world m = (\<lambda>s. let (r, w) = m (rs_world s) in (r, s\<lparr>rs_world := w\<rparr>))"

definition count_stat :: "(run_stats \<Rightarrow> run_stats) \<Rightarrow> ('w, unit) run_io" where
  "count_stat f = (\<lambda>s. (Ok (), s\<lparr>rs_stats := f (rs_stats s)\<rparr>))"

definition afford :: "'w run_context \<Rightarrow> plan_entry \<Rightarrow> ('w, unit) run_io" where
  "afford cx e = (\<lambda>s.
     case budget_afford (cx_limit cx) (rs_spent s) (case pl_size e of None \<Rightarrow> 0 | Some n \<Rightarrow> n) of
       Inl c \<Rightarrow> (Err c, s)
     | Inr spent \<Rightarrow> (Ok (), s\<lparr>rs_spent := spent\<rparr>))"

definition settle_budget :: "'w run_context \<Rightarrow> plan_entry \<Rightarrow> u64 \<Rightarrow> ('w, unit) run_io" where
  "settle_budget cx e moved = (\<lambda>s.
     (Ok (), s\<lparr>rs_spent := budget_settle (cx_limit cx) (rs_spent s) (case pl_size e of None \<Rightarrow> 0 | Some n \<Rightarrow> n) moved\<rparr>))"

definition within_deadline :: "'w run_context \<Rightarrow> ('w, unit) run_io" where
  "within_deadline cx = (\<lambda>s.
     let (over, w) = cx_exceeded cx (rs_world s) in
     (if over then Err DurationLimitExceeded else Ok (), s\<lparr>rs_world := w\<rparr>))"

section \<open>One file\<close>

definition run_stages :: "'w run_context \<Rightarrow> 'w driver \<Rightarrow> plan_entry \<Rightarrow> ('w, u64) run_io" where
  "run_stages cx d e =
     io_bind (in_world (dr_read d e)) (\<lambda>_.
     io_bind (in_world (dr_encrypt d e)) (\<lambda>_.
     io_bind (in_world (dr_upload d e)) (\<lambda>moved.
     io_bind (settle_budget cx e moved) (\<lambda>_.
     io_bind (in_world (dr_verify d e)) (\<lambda>_.
     io_bind (count_stat (\<lambda>st. st\<lparr>st_verified_bytes := st_verified_bytes st +
       (case pl_size e of None \<Rightarrow> 0 | Some n \<Rightarrow> unat n)\<rparr>)) (\<lambda>_.
     io_bind (in_world (dr_commit d e)) (\<lambda>_.
     io_bind (count_stat (\<lambda>st. st\<lparr>st_files_done := st_files_done st + 1\<rparr>)) (\<lambda>_.
     io_return moved))))))))"

text \<open>\<open>retry::attempts\<close> saturates; the attempts after the first.\<close>

definition attempts :: "'w run_context \<Rightarrow> nat" where
  "attempts cx = (if cx_retries cx = - 1 then unat (cx_retries cx) else unat (cx_retries cx) + 1)"

definition note_retry :: "run_stats \<Rightarrow> run_stats" where
  "note_retry st = st\<lparr>st_retries := st_retries st + 1\<rparr>"

fun walk_again :: "'w run_context \<Rightarrow> 'w driver \<Rightarrow> plan_entry \<Rightarrow> nat \<Rightarrow> exit_code + u64 \<Rightarrow> ('w, u64) run_io" where
  "walk_again cx d e 0 outcome = (\<lambda>s. (outcome, s))"
| "walk_again cx d e (Suc n) outcome = (\<lambda>s.
     case outcome of
       Inr moved \<Rightarrow> (outcome, s)
     | Inl c \<Rightarrow>
         if \<not> is_worth_repeating c then (outcome, s)
         else let s = s\<lparr>rs_stats := note_retry (rs_stats s)\<rparr>;
                  (outcome, s) = run_stages cx d e s in
           walk_again cx d e n outcome s)"

definition walk_file :: "'w run_context \<Rightarrow> 'w driver \<Rightarrow> plan_entry \<Rightarrow> ('w, u64) run_io" where
  "walk_file cx d e = (\<lambda>s.
     let (outcome, s) = run_stages cx d e s in walk_again cx d e (attempts cx - 1) outcome s)"

definition outcome_code :: "exit_code + unit \<Rightarrow> exit_code option" where
  "outcome_code r = (case r of Inl c \<Rightarrow> Some c | Inr _ \<Rightarrow> None)"

definition record_file ::
    "'w run_context \<Rightarrow> string \<Rightarrow> 'w driver \<Rightarrow> plan_entry \<Rightarrow> u64 \<Rightarrow> exit_code + unit \<Rightarrow> ('w, unit) run_io" where
  "record_file cx op d e moved outcome = (\<lambda>s.
     let (hash, w) = dr_take_hash d e (rs_world s) in
     io_bind (in_world (cx_audit cx \<lparr>ae_op = op, ae_outcome = outcome_code outcome, ae_path = pl_dest e,
         ae_size = (case pl_size e of None \<Rightarrow> 0 | Some n \<Rightarrow> n), ae_moved = moved, ae_objects = 1,
         ae_plaintext_hash = hash\<rparr>)) (\<lambda>_. io_lift outcome) (s\<lparr>rs_world := w\<rparr>))"

definition transfer_file :: "'w run_context \<Rightarrow> string \<Rightarrow> 'w driver \<Rightarrow> plan_entry \<Rightarrow> ('w, unit) run_io" where
  "transfer_file cx op d e =
     io_bind (within_deadline cx) (\<lambda>_.
     io_bind (afford cx e) (\<lambda>_ s.
       let (walked, s) = walk_file cx d e s in
       record_file cx op d e (case walked of Inl _ \<Rightarrow> 0 | Inr moved \<Rightarrow> moved)
         (case walked of Inl c \<Rightarrow> Err c | Inr _ \<Rightarrow> Ok ()) s))"

definition move_file :: "'w run_context \<Rightarrow> string \<Rightarrow> 'w driver \<Rightarrow> 'w reaper \<Rightarrow> plan_entry \<Rightarrow> ('w, unit) run_io" where
  "move_file cx op d source_reaper e =
     io_bind (afford cx e) (\<lambda>_ s.
       let (walked, s) = walk_file cx d e s in
       case walked of
         Inr moved \<Rightarrow>
           let (outcome, s) = in_world (source_reaper (pl_source e)) s in
           record_file cx op d e moved outcome s
       | Inl c \<Rightarrow> record_file cx op d e 0 (Err c) s)"

definition record_failure :: "exit_code \<Rightarrow> run_stats \<Rightarrow> run_stats" where
  "record_failure c st =
     (if c = ChecksumMismatch then st\<lparr>st_mismatches := st_mismatches st + 1\<rparr>
      else st\<lparr>st_errors := st_errors st + 1\<rparr>)"

section \<open>A plan\<close>

text \<open>\<open>perform\<close>: what becomes of the outcome of one entry.\<close>

definition perform :: "exit_code + unit \<Rightarrow> ('w, unit) run_io" where
  "perform outcome =
     (case outcome of
        Inr _ \<Rightarrow> io_return ()
      | Inl c \<Rightarrow> if is_fatal c then io_fail c else count_stat (record_failure c))"

text \<open>A loop over entries that performs each, and stops at a fatal failure.\<close>

fun each_entry :: "(plan_entry \<Rightarrow> ('w, unit) run_io) \<Rightarrow> plan_entry list \<Rightarrow> ('w, unit) run_io" where
  "each_entry f [] = io_return ()"
| "each_entry f (e # es) = (\<lambda>s.
     let (outcome, s) = f e s in
     io_bind (perform outcome) (\<lambda>_. each_entry f es) s)"

definition run_transfers :: "'w run_context \<Rightarrow> string \<Rightarrow> 'w driver \<Rightarrow> plan_entry list \<Rightarrow> ('w, unit) run_io" where
  "run_transfers cx op d plan =
     io_bind (each_entry (\<lambda>e. in_world (dr_create_dir d e)) (filter (\<lambda>e. pl_action e = OpCreateDir) plan)) (\<lambda>_.
     each_entry (transfer_file cx op d) (filter (\<lambda>e. pl_action e = OpCopy \<or> pl_action e = OpUpdate) plan))"

definition run_moves ::
    "'w run_context \<Rightarrow> string \<Rightarrow> 'w driver \<Rightarrow> 'w reaper \<Rightarrow> plan_entry list \<Rightarrow> ('w, unit) run_io" where
  "run_moves cx op d source_reaper plan =
     io_bind (each_entry (\<lambda>e. in_world (dr_create_dir d e)) (filter (\<lambda>e. pl_action e = OpCreateDir) plan)) (\<lambda>_.
     each_entry (move_file cx op d source_reaper) (filter (\<lambda>e. pl_action e = OpCopy \<or> pl_action e = OpUpdate) plan))"

definition removal_record :: "string \<Rightarrow> str \<Rightarrow> exit_code + unit \<Rightarrow> audit_entry" where
  "removal_record op path outcome = \<lparr>ae_op = op, ae_outcome = outcome_code outcome, ae_path = path,
     ae_size = 0, ae_moved = 0, ae_objects = 1, ae_plaintext_hash = []\<rparr>"

text \<open>One removal: it is audited whatever came of it, and counted when it succeeded.\<close>

definition remove_one :: "'w run_context \<Rightarrow> string \<Rightarrow> 'w reaper \<Rightarrow> plan_entry \<Rightarrow> ('w, unit) run_io" where
  "remove_one cx op rp e = (\<lambda>s.
     let (outcome, s) = in_world (rp (pl_dest e)) s in
     io_bind (in_world (cx_audit cx (removal_record op (pl_dest e) outcome))) (\<lambda>_.
     io_bind (perform outcome) (\<lambda>_.
     if outcome = Ok () then count_stat (\<lambda>st. st\<lparr>st_deleted := st_deleted st + 1\<rparr>) else io_return ())) s)"

fun run_deletions :: "'w run_context \<Rightarrow> string \<Rightarrow> 'w reaper \<Rightarrow> plan_entry list \<Rightarrow> ('w, unit) run_io" where
  "run_deletions cx op rp [] = io_return ()"
| "run_deletions cx op rp (e # es) =
     io_bind (remove_one cx op rp e) (\<lambda>_. run_deletions cx op rp es)"

definition account_for_skips :: "plan_entry list \<Rightarrow> run_stats \<Rightarrow> run_stats" where
  "account_for_skips plan st =
     (let skips = length (with_op OpSkip plan); acts = length (actions plan) in
      st\<lparr>st_checks_total := skips + acts, st_skipped := st_skipped st + skips,
         st_checks_done := st_checks_done st + skips + acts\<rparr>)"

datatype delete_mode = Before | During | After

fun interleaved ::
    "'w run_context \<Rightarrow> 'w driver \<Rightarrow> 'w reaper \<Rightarrow> plan_entry list \<Rightarrow> ('w, unit) run_io" where
  "interleaved cx d rp [] = io_return ()"
| "interleaved cx d rp (e # es) =
     io_bind
       (case pl_action e of
          OpCopy \<Rightarrow> (\<lambda>s. let (outcome, s) = transfer_file cx ''sync'' d e s in perform outcome s)
        | OpUpdate \<Rightarrow> (\<lambda>s. let (outcome, s) = transfer_file cx ''sync'' d e s in perform outcome s)
        | OpCreateDir \<Rightarrow> (\<lambda>s. let (outcome, s) = in_world (dr_create_dir d e) s in perform outcome s)
        | OpDelete \<Rightarrow> remove_one cx ''sync'' rp e
        | OpSkip \<Rightarrow> io_return ())
       (\<lambda>_. interleaved cx d rp es)"

definition sync_run ::
    "'w run_context \<Rightarrow> 'w driver \<Rightarrow> 'w reaper \<Rightarrow> plan_entry list \<Rightarrow> delete_mode \<Rightarrow> ('w, unit) run_io" where
  "sync_run cx d rp plan mode =
     (case mode of
        Before \<Rightarrow> io_bind (run_deletions cx ''sync'' rp (deletions plan)) (\<lambda>_. run_transfers cx ''sync'' d plan)
      | After \<Rightarrow> io_bind (run_transfers cx ''sync'' d plan) (\<lambda>_. run_deletions cx ''sync'' rp (deletions plan))
      | During \<Rightarrow> interleaved cx d rp (actions plan))"

end
