(* ===== verification/Transfer_Run_Correct.thy ===== *)
theory Transfer_Run_Correct
  imports Transfer_Run Transfer_Plan_Correct
begin

text \<open>
  What a run does to the two sides, for every driver that keeps the contract of \<open>StageDriver\<close>: nothing is
  lost by a move, a copy never changes the source, and a deletion removes what the plan names. The contract
  is the locale \<open>transfer_sides\<close>.
\<close>

section \<open>The budget\<close>

text \<open>
  Lanes that claim and settle in any order: what is spent is what moved plus what is claimed and not settled,
  and it is never above the limit. A claim is settled once, by no more than was claimed.
\<close>

datatype budget_event = Claim u64 | Settle u64 u64

inductive budget_step :: "u64 \<Rightarrow> u64 \<times> u64 list \<times> nat \<Rightarrow> u64 \<times> u64 list \<times> nat \<Rightarrow> bool" for l where
  claim: "budget_afford (Some l) spent b = Ok spent' \<Longrightarrow>
    budget_step l (spent, open_claims, moved) (spent', b # open_claims, moved)"
| settle: "b \<in> set open_claims \<Longrightarrow> actual \<le> b \<Longrightarrow>
    budget_step l (spent, open_claims, moved)
      (budget_settle (Some l) spent b actual, remove1 b open_claims, moved + unat actual)"


inductive_cases budget_step_elim: "budget_step l x y"

lemma unat64: "unat (x :: u64) < 2 ^ 64" "unat (- 1 :: u64) = 2 ^ 64 - 1"
  using unsigned_less [of x] by (simp_all add: unsigned_minus_1_eq_mask mask_eq_exp_minus_1)


lemma settle_exact:
  assumes "unat actual \<le> unat b" "unat b \<le> unat spent"
  shows "unat (budget_settle (Some l) spent b actual) = unat spent - unat b + unat actual"
proof -
  have "unat (spent - b) = unat spent - unat b" using assms(2) by (simp add: unat_sub word_le_nat_alt)
  moreover have "unat (spent - b) + unat actual < 2 ^ 64"
    using assms calculation unat64(1) [of spent] by simp
  ultimately show ?thesis
    using assms(2)
    by (simp add: budget_settle_def saturating_sub64u_def saturating_add64_def word_le_nat_alt unat_add_lem [THEN iffD1])
qed



text \<open>
  A file that is uploaded twice under one claim, as a retry after a failed verification does, is charged
  once: the second settlement takes the claim back again.
\<close>

lemma settled_twice:
  assumes "unat spent + unat b < 2 ^ 64"
  shows "budget_settle (Some l) (budget_settle (Some l) (spent + b) b b) b b = spent + b"
proof -
  have sum: "unat (spent + b) = unat spent + unat b" using assms by (simp add: unat_add_lem [THEN iffD1])
  then have le: "unat b \<le> unat (spent + b)" by simp
  have one: "budget_settle (Some l) (spent + b) b b = spent + b"
    by (subst word_unat_eq_iff) (simp only: settle_exact [OF order.refl le] le_add_diff_inverse2 [OF le])
  show ?thesis unfolding one one ..
qed

section \<open>The two sides\<close>

text \<open>
  The contract of a driver: \<open>S\<close> and \<open>T\<close> are what the source and the destination hold at a path. The upload
  stores the source's content at the destination, or fails with it stored or not; every other stage leaves
  both sides, and so do the audit log and the clock. A reaper removes what it is told, or fails with it
  removed or not.
\<close>

locale transfer_sides =
  fixes cx :: "'w run_context" and d :: "'w driver" and rs rt :: "'w reaper"
    and S T :: "'w \<Rightarrow> str \<Rightarrow> bytes option"
    and inv :: "'w \<Rightarrow> bool" and ok :: "str \<Rightarrow> bool"
  assumes stages:
      "inv w \<Longrightarrow> dr_read d e w = (r, w') \<Longrightarrow> inv w' \<and> S w' = S w \<and> T w' = T w"
      "inv w \<Longrightarrow> dr_encrypt d e w = (r, w') \<Longrightarrow> inv w' \<and> S w' = S w \<and> T w' = T w"
      "inv w \<Longrightarrow> dr_verify d e w = (r, w') \<Longrightarrow> inv w' \<and> S w' = S w \<and> T w' = T w"
      "inv w \<Longrightarrow> dr_commit d e w = (r, w') \<Longrightarrow> inv w' \<and> S w' = S w \<and> T w' = T w"
      "inv w \<Longrightarrow> dr_create_dir d e w = (r, w') \<Longrightarrow> inv w' \<and> S w' = S w \<and> T w' = T w"
      "inv w \<Longrightarrow> dr_take_hash d e w = (h, w') \<Longrightarrow> inv w' \<and> S w' = S w \<and> T w' = T w"
    and asides:
      "inv w \<Longrightarrow> cx_audit cx a w = (r, w') \<Longrightarrow> inv w' \<and> S w' = S w \<and> T w' = T w"
      "inv w \<Longrightarrow> cx_exceeded cx w = (b, w') \<Longrightarrow> inv w' \<and> S w' = S w \<and> T w' = T w"
    and uploaded:
      "inv w \<Longrightarrow> ok (pl_source e) \<Longrightarrow> ok (pl_dest e) \<Longrightarrow> dr_upload d e w = (Inr n, w') \<Longrightarrow>
        inv w' \<and> S w' = S w \<and> S w (pl_source e) \<noteq> None \<and> T w' = (T w)(pl_dest e := S w (pl_source e))"
    and upload_failed:
      "inv w \<Longrightarrow> ok (pl_source e) \<Longrightarrow> ok (pl_dest e) \<Longrightarrow> dr_upload d e w = (Inl c, w') \<Longrightarrow>
        inv w' \<and> S w' = S w \<and>
        (T w' = T w \<or> S w (pl_source e) \<noteq> None \<and> T w' = (T w)(pl_dest e := S w (pl_source e)))"
    and reaped_source:
      "inv w \<Longrightarrow> ok p \<Longrightarrow> rs p w = (r, w') \<Longrightarrow>
        inv w' \<and> T w' = T w \<and> (S w' = (S w)(p := None) \<or> r \<noteq> Ok () \<and> S w' = S w)"
    and reaped_dest:
      "inv w \<Longrightarrow> ok p \<Longrightarrow> rt p w = (r, w') \<Longrightarrow>
        inv w' \<and> S w' = S w \<and> (T w' = (T w)(p := None) \<or> r \<noteq> Ok () \<and> T w' = T w)"
begin

abbreviation src :: "'w run_state \<Rightarrow> str \<Rightarrow> bytes option" where
  "src s \<equiv> S (rs_world s)"

abbreviation dst :: "'w run_state \<Rightarrow> str \<Rightarrow> bytes option" where
  "dst s \<equiv> T (rs_world s)"

abbreviation good :: "'w run_state \<Rightarrow> bool" where
  "good s \<equiv> inv (rs_world s)"

text \<open>What keeps both sides, whatever comes of it.\<close>

definition keeps :: "('w, 'a) run_io \<Rightarrow> bool" where
  "keeps m \<longleftrightarrow> (\<forall>s r s'. good s \<longrightarrow> m s = (r, s') \<longrightarrow> good s' \<and> src s' = src s \<and> dst s' = dst s)"

lemma keepsD: "keeps m \<Longrightarrow> m s = (r, s') \<Longrightarrow> good s \<Longrightarrow> good s' \<and> src s' = src s \<and> dst s' = dst s"
  by (auto simp: keeps_def)

lemma keeps_world:
  "(\<And>w r w'. inv w \<Longrightarrow> m w = (r, w') \<Longrightarrow> inv w' \<and> S w' = S w \<and> T w' = T w) \<Longrightarrow> keeps (in_world m)"
  by (auto simp: keeps_def in_world_def Let_def split: prod.splits)

lemma keeps_io:
  "keeps (io_return x)" "keeps (io_fail c)" "keeps (io_lift r')" "keeps (count_stat f)" "keeps (afford cx e)"
  "keeps (settle_budget cx e n)" "keeps (perform outcome)"
  by (auto simp: keeps_def count_stat_def afford_def settle_budget_def perform_def split: sum.splits if_splits)

lemma keeps_deadline: "keeps (within_deadline cx)"
  using asides(2) by (auto simp: keeps_def within_deadline_def Let_def split: prod.splits)

lemma keeps_bind: "keeps m \<Longrightarrow> (\<And>x. keeps (k x)) \<Longrightarrow> keeps (io_bind m k)"
  unfolding keeps_def [of "io_bind m k"]
proof (intro allI impI)
  fix s r s' assume m: "keeps m" and k: "\<And>x. keeps (k x)" and s: "good s" "io_bind m k s = (r, s')"
  obtain r1 s1 where 1: "m s = (r1, s1)" by fastforce
  note m1 = keepsD [OF m 1 s(1)]
  show "good s' \<and> src s' = src s \<and> dst s' = dst s"
  proof (cases r1)
    case (Inl c)
    with 1 s(2) m1 show ?thesis by (simp add: io_bind_def)
  next
    case (Inr x)
    with 1 s(2) have "k x s1 = (r, s')" by (simp add: io_bind_def)
    from keepsD [OF k this] m1 show ?thesis by simp
  qed
qed

lemma keeps_record: "keeps (record_file cx op d e moved outcome)"
  unfolding keeps_def
proof (intro allI impI)
  fix s r s' assume s: "good s" "record_file cx op d e moved outcome s = (r, s')"
  obtain h w where hw: "dr_take_hash d e (rs_world s) = (h, w)" by fastforce
  have k: "keeps (io_bind (in_world (cx_audit cx a)) (\<lambda>_. io_lift outcome))" for a
    by (intro keeps_bind keeps_io keeps_world asides(1))
  from stages(6) [OF s(1) hw] keepsD [OF k] s(2) hw
  show "good s' \<and> src s' = src s \<and> dst s' = dst s"
    by (fastforce simp: record_file_def)
qed

text \<open>What one entry may do to the destination: nothing, or store the source's content.\<close>

definition stored :: "plan_entry \<Rightarrow> 'w run_state \<Rightarrow> 'w run_state \<Rightarrow> bool" where
  "stored e s s' \<longleftrightarrow> src s (pl_source e) \<noteq> None \<and> dst s' = (dst s)(pl_dest e := src s (pl_source e))"

definition tried :: "plan_entry \<Rightarrow> 'w run_state \<Rightarrow> 'w run_state \<Rightarrow> bool" where
  "tried e s s' \<longleftrightarrow> good s' \<and> src s' = src s \<and> (dst s' = dst s \<or> stored e s s')"

lemma stored_at: "stored e s s' \<Longrightarrow> dst s' (pl_dest e) = src s (pl_source e)"
  by (simp add: stored_def)

lemma tried_trans: "tried e s s' \<Longrightarrow> tried e s' s'' \<Longrightarrow> tried e s s''"
  by (auto simp: tried_def stored_def)

lemma stored_trans: "tried e s s' \<Longrightarrow> stored e s' s'' \<Longrightarrow> stored e s s''"
  by (auto simp: tried_def stored_def)

lemma run_stages_sides:
  assumes "good s" "ok (pl_source e)" "ok (pl_dest e)" "run_stages cx d e s = (r, s')"
  shows "tried e s s' \<and> (\<forall>n. r = Inr n \<longrightarrow> stored e s s')"
proof -
  have rd: "keeps (in_world (dr_read d e))" "keeps (in_world (dr_encrypt d e))"
    by (intro keeps_world stages(1,2); assumption)+
  have tail: "keeps (io_bind (settle_budget cx e n) (\<lambda>_. io_bind (in_world (dr_verify d e)) (\<lambda>_.
      io_bind (count_stat f) (\<lambda>_. io_bind (in_world (dr_commit d e)) (\<lambda>_. io_bind (count_stat g) (\<lambda>_. io_return n))))))"
    for n f g
    by (intro keeps_bind keeps_io keeps_world stages(3,4))
  show ?thesis
  proof (cases "in_world (dr_read d e) s")
    case 1: (Pair r1 s1)
    note k1 = keepsD [OF rd(1) 1 assms(1)]
    show ?thesis
    proof (cases r1)
      case (Inl c)
      with 1 k1 assms(4) show ?thesis by (auto simp: run_stages_def io_bind_def tried_def)
    next
      case r1: (Inr u)
      show ?thesis
      proof (cases "in_world (dr_encrypt d e) s1")
        case 2: (Pair r2 s2)
        note k2 = keepsD [OF rd(2) 2] k1
        show ?thesis
        proof (cases r2)
          case (Inl c)
          with 1 2 r1 k2 assms(4) show ?thesis by (auto simp: run_stages_def io_bind_def tried_def)
        next
          case r2: (Inr u')
          obtain r3 w3 where 3: "dr_upload d e (rs_world s2) = (r3, w3)" by fastforce
          define s3 where "s3 = s2\<lparr>rs_world := w3\<rparr>"
          have up: "in_world (dr_upload d e) s2 = (r3, s3)" by (simp add: in_world_def 3 s3_def)
          show ?thesis
          proof (cases r3)
            case (Inl c)
            with 1 2 r1 r2 up assms(4) have "r = Inl c" "s' = s3" by (auto simp: run_stages_def io_bind_def)
            with upload_failed [OF _ assms(2,3), of "rs_world s2" c w3] 3 Inl k2 show ?thesis
              by (auto simp: tried_def stored_def s3_def)
          next
            case (Inr n)
            with 1 2 r1 r2 up assms(4) have
              "io_bind (settle_budget cx e n) (\<lambda>_. io_bind (in_world (dr_verify d e)) (\<lambda>_.
                io_bind (count_stat (\<lambda>st. st\<lparr>st_verified_bytes := st_verified_bytes st +
                  (case pl_size e of None \<Rightarrow> 0 | Some n \<Rightarrow> unat n)\<rparr>)) (\<lambda>_. io_bind (in_world (dr_commit d e)) (\<lambda>_.
                io_bind (count_stat (\<lambda>st. st\<lparr>st_files_done := st_files_done st + 1\<rparr>)) (\<lambda>_. io_return n))))) s3 = (r, s')"
              by (simp add: run_stages_def io_bind_def)
            from keepsD [OF tail this] uploaded [OF _ assms(2,3), of "rs_world s2" n w3] 3 Inr k2 show ?thesis
              by (auto simp: tried_def stored_def s3_def)
          qed
        qed
      qed
    qed
  qed
qed

lemma walk_again_sides:
  assumes "good s" "ok (pl_source e)" "ok (pl_dest e)" "walk_again cx d e n outcome s = (r, s')"
    and "tried e s0 s" "\<forall>m. outcome = Inr m \<longrightarrow> stored e s0 s"
  shows "tried e s0 s' \<and> (\<forall>n. r = Inr n \<longrightarrow> stored e s0 s')"
  using assms(1,4-)
proof (induction n arbitrary: outcome s)
  case 0
  then show ?case by auto
next
  case (Suc n)
  show ?case
  proof (cases "\<exists>c. outcome = Inl c \<and> is_worth_repeating c")
    case False
    with Suc.prems show ?thesis by (auto split: sum.splits)
  next
    case True
    define s1 where "s1 = s\<lparr>rs_stats := note_retry (rs_stats s)\<rparr>"
    obtain r2 s2 where 2: "run_stages cx d e s1 = (r2, s2)" by fastforce
    have s1: "good s1" "tried e s0 s1" using Suc.prems(1,3) by (auto simp: s1_def tried_def stored_def)
    note t = run_stages_sides [OF s1(1) assms(2,3) 2]
    have "walk_again cx d e n r2 s2 = (r, s')"
      using True Suc.prems(2) 2 by (auto simp: s1_def Let_def)
    with Suc.IH [of s2 r2] t s1 tried_trans stored_trans show ?thesis by (metis tried_def)
  qed
qed

lemma walk_file_sides:
  assumes "good s" "ok (pl_source e)" "ok (pl_dest e)" "walk_file cx d e s = (r, s')"
  shows "tried e s s' \<and> (\<forall>n. r = Inr n \<longrightarrow> stored e s s')"
proof -
  obtain r1 s1 where 1: "run_stages cx d e s = (r1, s1)" by fastforce
  note t = run_stages_sides [OF assms(1-3) 1]
  then have "good s1" by (simp add: tried_def)
  with assms(4) 1 t show ?thesis
    using walk_again_sides [OF _ assms(2,3), of s1 "attempts cx - 1" r1 r s' s] by (auto simp: walk_file_def)
qed

lemma keeps_tried: "keeps m \<Longrightarrow> m s = (r, s') \<Longrightarrow> good s \<Longrightarrow> tried e s s'"
  using keepsD [of m s r s'] by (auto simp: tried_def)

lemma transfer_file_sides:
  assumes s: "good s" "ok (pl_source e)" "ok (pl_dest e)" "transfer_file cx op d e s = (r, s')"
  shows "tried e s s' \<and> (r = Ok () \<longrightarrow> stored e s s')"
proof -
  obtain r1 s1 where 1: "within_deadline cx s = (r1, s1)" by fastforce
  note k1 = keepsD [OF keeps_deadline 1 s(1)]
  obtain r2 s2 where 2: "afford cx e s1 = (r2, s2)" by fastforce
  note k2 = keepsD [OF keeps_io(5) 2] k1
  obtain r3 s3 where 3: "walk_file cx d e s2 = (r3, s3)" by fastforce
  note t3 = walk_file_sides [OF _ s(2,3) 3]
  show ?thesis
  proof (cases "r1 = Ok () \<and> r2 = Ok ()")
    case False
    with 1 2 s(4) k2 show ?thesis
      by (cases r1; cases r2) (auto simp: transfer_file_def io_bind_def tried_def)
  next
    case True
    then have "record_file cx op d e (case r3 of Inl _ \<Rightarrow> 0 | Inr moved \<Rightarrow> moved)
        (case r3 of Inl c \<Rightarrow> Err c | Inr _ \<Rightarrow> Ok ()) s3 = (r, s')"
      using 1 2 3 s(4) by (auto simp: transfer_file_def io_bind_def)
    moreover from this have "r = Ok () \<Longrightarrow> \<exists>n. r3 = Inr n"
      by (cases r3) (auto simp: record_file_def io_bind_Ok_iff split: prod.splits)
    ultimately show ?thesis
      using t3 k2 keepsD [OF keeps_record] by (fastforce simp: tried_def stored_def)
  qed
qed

text \<open>A move takes from the source only what it has stored.\<close>

definition moved :: "plan_entry \<Rightarrow> 'w run_state \<Rightarrow> 'w run_state \<Rightarrow> bool" where
  "moved e s s' \<longleftrightarrow> good s' \<and> (dst s' = dst s \<or> stored e s s') \<and>
     (src s' = src s \<or> stored e s s' \<and> src s' = (src s)(pl_source e := None))"

lemma move_file_sides:
  assumes s: "good s" "ok (pl_source e)" "ok (pl_dest e)" "move_file cx op d rs e s = (r, s')"
  shows "moved e s s'"
proof -
  obtain r2 s2 where 2: "afford cx e s = (r2, s2)" by fastforce
  note k2 = keepsD [OF keeps_io(5) 2 s(1)]
  obtain r3 s3 where 3: "walk_file cx d e s2 = (r3, s3)" by fastforce
  note t3 = walk_file_sides [OF _ s(2,3) 3]
  show ?thesis
  proof (cases r2)
    case (Inl c)
    with 2 s(4) k2 show ?thesis by (auto simp: move_file_def io_bind_def moved_def)
  next
    case r2: (Inr u)
    show ?thesis
    proof (cases r3)
      case (Inl c)
      with 2 3 r2 s(4) have "record_file cx op d e 0 (Err c) s3 = (r, s')" by (simp add: move_file_def io_bind_def)
      with keepsD [OF keeps_record this] t3 k2 show ?thesis by (auto simp: tried_def stored_def moved_def)
    next
      case (Inr n)
      obtain r4 w4 where 4: "rs (pl_source e) (rs_world s3) = (r4, w4)" by fastforce
      define s4 where "s4 = s3\<lparr>rs_world := w4\<rparr>"
      have "record_file cx op d e n r4 s4 = (r, s')"
        using 2 3 r2 Inr 4 s(4) by (simp add: move_file_def io_bind_def in_world_def s4_def)
      moreover have "good s4 \<and> dst s4 = dst s3 \<and> (src s4 = (src s3)(pl_source e := None) \<or> src s4 = src s3)"
        using reaped_source [OF _ s(2) 4] t3 k2 by (auto simp: tried_def s4_def)
      moreover have "tried e s2 s3" "stored e s2 s3" using t3 k2 Inr by auto
      ultimately show ?thesis
        using keepsD [OF keeps_record] k2 by (fastforce simp: tried_def stored_def moved_def)
    qed
  qed
qed

lemma keeps_moved: "keeps m \<Longrightarrow> m s' = (r, s'') \<Longrightarrow> moved e s s' \<Longrightarrow> moved e s s''"
  using keepsD [of m s' r s''] by (auto simp: moved_def stored_def)

lemma each_entry_moves:
  assumes "good s" "distinct (map pl_dest es)" "each_entry (move_file cx op d rs) es s = (r, s')"
    and "\<forall>e \<in> set es. ok (pl_source e) \<and> ok (pl_dest e)"
  shows "good s' \<and>
    (\<forall>p c. src s p = Some c \<longrightarrow> src s' p = Some c \<or> (\<exists>e \<in> set es. pl_source e = p \<and> dst s' (pl_dest e) = Some c)) \<and>
    (\<forall>p. src s' p = src s p \<or> src s' p = None) \<and>
    (\<forall>q. dst s' q = dst s q \<or> (\<exists>e \<in> set es. pl_dest e = q \<and> src s (pl_source e) \<noteq> None \<and> dst s' q = src s (pl_source e)))"
  using assms
proof (induction es arbitrary: s)
  case (Cons e es)
  obtain r1 s1 where 1: "move_file cx op d rs e s = (r1, s1)" by fastforce
  have m1: "moved e s s1" using move_file_sides [OF Cons.prems(1) _ _ 1] Cons.prems(4) by simp
  obtain r2 s2 where 2: "perform r1 s1 = (r2, s2)" by fastforce
  have m2: "moved e s s2" by (rule keeps_moved [OF keeps_io(7) 2 m1])
  have dist: "pl_dest e \<notin> pl_dest ` set es" using Cons.prems(2) by simp
  show ?case
  proof (cases r2)
    case (Inl c)
    with Cons.prems(3) 1 2 have "s' = s2" by (simp add: io_bind_def)
    with m2 have s': "good s'" "moved e s s'" by (simp_all add: moved_def)
    have "src s' p = Some c \<or> (\<exists>x \<in> set (e # es). pl_source x = p \<and> dst s' (pl_dest x) = Some c)" if "src s p = Some c" for p c
    proof (cases "src s' p = Some c")
      case False
      then have "stored e s s'" "p = pl_source e" using s'(2) that by (auto simp: moved_def split: if_splits)
      with that show ?thesis by (auto dest: stored_at)
    qed simp
    moreover have "src s' p = src s p \<or> src s' p = None" for p
      using s'(2) by (cases "p = pl_source e") (auto simp: moved_def)
    moreover have "dst s' q = dst s q \<or>
        (\<exists>x \<in> set (e # es). pl_dest x = q \<and> src s (pl_source x) \<noteq> None \<and> dst s' q = src s (pl_source x))" for q
      using s'(2) by (cases "q = pl_dest e") (auto simp: moved_def stored_def)
    ultimately show ?thesis using s'(1) by blast
  next
    case (Inr u)
    with Cons.prems(3) 1 2 have rest: "each_entry (move_file cx op d rs) es s2 = (r, s')" by (simp add: io_bind_def)
    have "good s2" using m2 by (simp add: moved_def)
    from Cons.IH [OF this _ rest] Cons.prems(2,4) have ih: "good s'"
      "\<And>p c. src s2 p = Some c \<Longrightarrow> src s' p = Some c \<or> (\<exists>e \<in> set es. pl_source e = p \<and> dst s' (pl_dest e) = Some c)"
      "\<And>p. src s' p = src s2 p \<or> src s' p = None"
      "\<And>q. dst s' q = dst s2 q \<or> (\<exists>e \<in> set es. pl_dest e = q \<and> src s2 (pl_source e) \<noteq> None \<and> dst s' q = src s2 (pl_source e))"
      by auto
    have src2: "src s2 p = src s p \<or> src s2 p = None" for p using m2 by (cases "p = pl_source e") (auto simp: moved_def)
    have own: "dst s' (pl_dest e) = dst s2 (pl_dest e)" 
    proof (rule disjE [OF ih(4) [of "pl_dest e"]])
      assume "\<exists>x \<in> set es. pl_dest x = pl_dest e \<and> src s2 (pl_source x) \<noteq> None \<and> dst s' (pl_dest e) = src s2 (pl_source x)"
      then obtain x where "x \<in> set es" "pl_dest x = pl_dest e" by auto
      with dist show ?thesis by (metis image_eqI)
    qed
    have "src s' p = Some c \<or> (\<exists>x \<in> set (e # es). pl_source x = p \<and> dst s' (pl_dest x) = Some c)" if p: "src s p = Some c" for p c
    proof (cases "src s2 p = Some c")
      case True
      with ih(2) show ?thesis by auto
    next
      case False
      then have "stored e s s2" "p = pl_source e" using m2 p by (auto simp: moved_def split: if_splits)
      with own p show ?thesis by (auto dest: stored_at)
    qed
    moreover have "dst s' q = dst s q \<or>
        (\<exists>x \<in> set (e # es). pl_dest x = q \<and> src s (pl_source x) \<noteq> None \<and> dst s' q = src s (pl_source x))" for q
    proof (cases "dst s' q = dst s2 q")
      case True
      with m2 show ?thesis by (cases "q = pl_dest e") (auto simp: moved_def stored_def)
    next
      case False
      with ih(4) obtain x where x: "x \<in> set es" "pl_dest x = q" "src s2 (pl_source x) \<noteq> None" "dst s' q = src s2 (pl_source x)"
        by blast
      with src2 [of "pl_source x"] show ?thesis by auto
    qed
    moreover have "src s' p = src s p \<or> src s' p = None" for p using ih(3) [of p] src2 [of p] by auto
    ultimately show ?thesis using ih(1) by blast
  qed
qed auto

lemma keeps_each_create: "keeps (each_entry (\<lambda>e. in_world (dr_create_dir d e)) es)"
proof (induction es)
  case Nil
  show ?case unfolding each_entry.simps by (rule keeps_io)
next
  case (Cons e es)
  have "keeps (\<lambda>s. let (outcome, s) = in_world (dr_create_dir d e) s in io_bind (perform outcome) (\<lambda>_. each_entry (\<lambda>e. in_world (dr_create_dir d e)) es) s)"
    unfolding keeps_def
  proof (intro allI impI)
    fix s r s' assume s: "good s"
      "(let (outcome, s) = in_world (dr_create_dir d e) s in io_bind (perform outcome) (\<lambda>_. each_entry (\<lambda>e. in_world (dr_create_dir d e)) es) s) = (r, s')"
    obtain o1 s1 where 1: "in_world (dr_create_dir d e) s = (o1, s1)" by fastforce
    have "keeps (in_world (dr_create_dir d e))" by (intro keeps_world stages(5); assumption)
    note k1 = keepsD [OF this 1 s(1)]
    have "keeps (io_bind (perform o1) (\<lambda>_. each_entry (\<lambda>e. in_world (dr_create_dir d e)) es))"
      by (intro keeps_bind keeps_io Cons)
    from keepsD [OF this] 1 s(2) k1 show "good s' \<and> src s' = src s \<and> dst s' = dst s" by fastforce
  qed
  then show ?case by simp
qed

text \<open>
  However a move ends, what the source held is still there or is at the destination of an entry, and the
  destination changed only to hold what the source held.
\<close>

lemma run_moves_sides:
  assumes s: "good s" "run_moves cx op d rs plan s = (r, s')"
    and plan: "distinct (map pl_dest plan)" "\<forall>e \<in> set plan. ok (pl_source e) \<and> ok (pl_dest e) \<or> \<not> op_transfers (pl_action e)"
  shows "(\<forall>p c. src s p = Some c \<longrightarrow> src s' p = Some c \<or>
      (\<exists>e \<in> set plan. op_transfers (pl_action e) \<and> pl_source e = p \<and> dst s' (pl_dest e) = Some c)) \<and>
    (\<forall>p. src s' p = src s p \<or> src s' p = None) \<and>
    (\<forall>q. dst s' q = dst s q \<or>
      (\<exists>e \<in> set plan. op_transfers (pl_action e) \<and> pl_dest e = q \<and> src s (pl_source e) \<noteq> None \<and> dst s' q = src s (pl_source e)))"
proof -
  let ?es = "filter (\<lambda>e. pl_action e = OpCopy \<or> pl_action e = OpUpdate) plan"
  let ?create = "each_entry (\<lambda>e. in_world (dr_create_dir d e)) (filter (\<lambda>e. pl_action e = OpCreateDir) plan)"
  obtain r1 s1 where 1: "?create s = (r1, s1)" by fastforce
  note k1 = keepsD [OF keeps_each_create 1 s(1)]
  show ?thesis
  proof (cases r1)
    case (Inl c)
    with 1 s(2) k1 show ?thesis by (simp add: run_moves_def io_bind_def)
  next
    case (Inr u)
    with 1 s(2) have rest: "each_entry (move_file cx op d rs) ?es s1 = (r, s')" by (simp add: run_moves_def io_bind_def)
    have "good s1" using k1 by simp
    moreover have "distinct (map pl_dest ?es)" using plan(1) by (simp add: distinct_map_filter)
    moreover have "\<forall>e \<in> set ?es. ok (pl_source e) \<and> ok (pl_dest e)" using plan(2) by (auto simp: op_transfers_def)
    ultimately have sides: "(\<forall>p c. src s1 p = Some c \<longrightarrow> src s' p = Some c \<or> (\<exists>e \<in> set ?es. pl_source e = p \<and> dst s' (pl_dest e) = Some c))"
      "(\<forall>p. src s' p = src s1 p \<or> src s' p = None)"
      "(\<forall>q. dst s' q = dst s1 q \<or> (\<exists>e \<in> set ?es. pl_dest e = q \<and> src s1 (pl_source e) \<noteq> None \<and> dst s' q = src s1 (pl_source e)))"
      using each_entry_moves [OF _ _ rest] by simp_all
    have "set ?es = {e \<in> set plan. op_transfers (pl_action e)}" by (auto simp: op_transfers_def)
    then have in_plan: "e \<in> set ?es \<longleftrightarrow> e \<in> set plan \<and> op_transfers (pl_action e)" for e by simp
    have eq: "src s1 = src s" "dst s1 = dst s" using k1 by simp_all
    show ?thesis
      using sides unfolding eq by (intro conjI) (use in_plan in blast)+
  qed
qed

end

end
