(* ===== verification/Transfer_Sync.thy ===== *)
theory Transfer_Sync
  imports Transfer_Run_Correct
begin

text \<open>
  What \<open>sync\<close> does: its three orders of deletion are one walk over reordered entries, and that walk touches
  only what the plan names, as the plan names it. When it returns without having counted a failure, it has
  done everything that the plan says.
\<close>

section \<open>One order for three modes\<close>

definition sync_entry :: "'w run_context \<Rightarrow> 'w driver \<Rightarrow> 'w reaper \<Rightarrow> plan_entry \<Rightarrow> ('w, unit) run_io" where
  "sync_entry cx d rp e =
     (if op_transfers (pl_action e) then (\<lambda>s. let (outcome, s) = transfer_file cx ''sync'' d e s in perform outcome s)
      else if pl_action e = OpCreateDir then (\<lambda>s. let (outcome, s) = in_world (dr_create_dir d e) s in perform outcome s)
      else if op_destroys (pl_action e) then remove_one cx ''sync'' rp e
      else io_return ())"

fun sync_entries :: "'w run_context \<Rightarrow> 'w driver \<Rightarrow> 'w reaper \<Rightarrow> plan_entry list \<Rightarrow> ('w, unit) run_io" where
  "sync_entries cx d rp [] = io_return ()"
| "sync_entries cx d rp (e # es) = io_bind (sync_entry cx d rp e) (\<lambda>_. sync_entries cx d rp es)"

definition sync_order :: "delete_mode \<Rightarrow> plan_entry list \<Rightarrow> plan_entry list" where
  "sync_order mode plan =
     (let made = filter (\<lambda>e. pl_action e = OpCreateDir) plan @ transfers plan in
      case mode of Before \<Rightarrow> deletions plan @ made | After \<Rightarrow> made @ deletions plan | During \<Rightarrow> actions plan)"

lemma sync_entries_append:
  "sync_entries cx d rp (xs @ ys) = io_bind (sync_entries cx d rp xs) (\<lambda>_. sync_entries cx d rp ys)"
  by (induction xs) (simp_all only: sync_entries.simps append_Nil append_Cons io_bind_unit io_bind_assoc)

lemma interleaved_entries: "interleaved cx d rp es = sync_entries cx d rp es"
proof (induction es)
  case (Cons e es)
  then show ?case
    by (cases "pl_action e") (simp_all add: sync_entry_def op_transfers_def op_destroys_def)
qed simp

lemma each_entry_bind:
  "each_entry f (e # es) = io_bind (\<lambda>s. let (outcome, s) = f e s in perform outcome s) (\<lambda>_. each_entry f es)"
  by (auto simp: io_bind_def split: prod.splits intro!: ext)

lemma creates_entries:
  "\<forall>e \<in> set es. pl_action e = OpCreateDir \<Longrightarrow>
    each_entry (\<lambda>e. in_world (dr_create_dir d e)) es = sync_entries cx d rp es"
proof (induction es)
  case (Cons e es)
  then show ?case unfolding each_entry_bind by (simp add: sync_entry_def op_transfers_def)
qed simp

lemma transfers_entries:
  "\<forall>e \<in> set es. op_transfers (pl_action e) \<Longrightarrow> each_entry (transfer_file cx ''sync'' d) es = sync_entries cx d rp es"
proof (induction es)
  case (Cons e es)
  then show ?case unfolding each_entry_bind by (simp add: sync_entry_def)
qed simp

lemma deletions_entries:
  "\<forall>e \<in> set es. op_destroys (pl_action e) \<Longrightarrow> run_deletions cx ''sync'' rp es = sync_entries cx d rp es"
  by (induction es) (simp_all add: sync_entry_def op_transfers_def op_destroys_def)

lemma run_transfers_entries:
  "run_transfers cx ''sync'' d plan = sync_entries cx d rp (filter (\<lambda>e. pl_action e = OpCreateDir) plan @ transfers plan)"
proof -
  have "filter (\<lambda>e. pl_action e = OpCopy \<or> pl_action e = OpUpdate) plan = transfers plan"
    by (simp add: transfers_def op_transfers_def)
  moreover have "\<forall>e \<in> set (transfers plan). op_transfers (pl_action e)" by (simp add: transfers_def)
  moreover note transfers_entries [OF this, of cx d rp]
    creates_entries [of "filter (\<lambda>e. pl_action e = OpCreateDir) plan" d cx rp]
  ultimately show ?thesis by (simp add: run_transfers_def sync_entries_append)
qed

lemma sync_run_order: "sync_run cx d rp plan mode = sync_entries cx d rp (sync_order mode plan)"
proof -
  have "run_deletions cx ''sync'' rp (deletions plan) = sync_entries cx d rp (deletions plan)"
    by (rule deletions_entries) (simp add: deletions_def)
  then show ?thesis
    by (cases mode)
      (simp_all add: sync_run_def sync_order_def Let_def interleaved_entries sync_entries_append
        run_transfers_entries [of cx d plan rp] io_bind_assoc)
qed

lemma sync_order_set: "set (sync_order mode plan) = set (actions plan)"
proof -
  have "op_is_action p \<longleftrightarrow> p = OpCreateDir \<or> op_transfers p \<or> op_destroys p" for p
    by (cases p) (simp_all add: op_is_action_def op_transfers_def op_destroys_def)
  then show ?thesis
    by (cases mode) (auto simp: sync_order_def Let_def transfers_def deletions_def actions_def)
qed

lemma sync_order_distinct: "distinct (map pl_dest plan) \<Longrightarrow> distinct (map pl_dest (sync_order mode plan))"
proof -
  assume "distinct (map pl_dest plan)"
  then have inj: "inj_on pl_dest (set plan)" and "distinct plan" by (auto simp: distinct_map)
  have "distinct (sync_order mode plan)"
    using \<open>distinct plan\<close>
    by (cases mode)
      (auto simp: sync_order_def Let_def transfers_def deletions_def actions_def op_transfers_def op_destroys_def)
  moreover have "set (sync_order mode plan) \<subseteq> set plan" by (auto simp: sync_order_set actions_def)
  ultimately show ?thesis using inj by (auto simp: distinct_map intro: inj_on_subset)
qed

section \<open>Failures that are counted\<close>

definition trouble :: "'w run_state \<Rightarrow> nat" where
  "trouble s = st_errors (rs_stats s) + st_mismatches (rs_stats s)"

definition calm :: "('w, 'a) run_io \<Rightarrow> bool" where
  "calm m \<longleftrightarrow> (\<forall>s r s'. m s = (r, s') \<longrightarrow> trouble s' = trouble s)"

lemma calmD: "calm m \<Longrightarrow> m s = (r, s') \<Longrightarrow> trouble s' = trouble s"
  by (auto simp: calm_def)

lemma calm_io:
  "calm (in_world m)" "calm (io_return x)" "calm (io_fail c)" "calm (io_lift r')" "calm (afford cx e)"
  "calm (settle_budget cx e n)" "calm (within_deadline cx)"
  by (auto simp: calm_def trouble_def in_world_def afford_def settle_budget_def within_deadline_def Let_def
      split: sum.splits prod.splits if_splits)

lemma calm_count:
  "(\<And>st. st_errors (f st) + st_mismatches (f st) = st_errors st + st_mismatches st) \<Longrightarrow> calm (count_stat f)"
  by (auto simp: calm_def trouble_def count_stat_def)

lemma calm_bind: "calm m \<Longrightarrow> (\<And>x. calm (k x)) \<Longrightarrow> calm (io_bind m k)"
  unfolding calm_def [of "io_bind m k"]
proof (intro allI impI)
  fix s r s' assume m: "calm m" and k: "\<And>x. calm (k x)" and run: "io_bind m k s = (r, s')"
  obtain r1 s1 where 1: "m s = (r1, s1)" by fastforce
  show "trouble s' = trouble s"
  proof (cases r1)
    case (Inl c)
    with 1 run calmD [OF m 1] show ?thesis by (simp add: io_bind_def)
  next
    case (Inr x)
    with 1 run have "k x s1 = (r, s')" by (simp add: io_bind_def)
    from calmD [OF k this] calmD [OF m 1] show ?thesis by simp
  qed
qed

lemma calm_stages: "calm (run_stages cx d e)"
  unfolding run_stages_def by (intro calm_bind calm_io calm_count) simp_all

lemma calm_again: "calm (walk_again cx d e n outcome)"
proof (induction n arbitrary: outcome)
  case 0
  show ?case by (simp add: calm_def)
next
  case (Suc n)
  show ?case
    unfolding calm_def
  proof (intro allI impI)
    fix s r s' assume run: "walk_again cx d e (Suc n) outcome s = (r, s')"
    show "trouble s' = trouble s"
    proof (cases "\<exists>c. outcome = Inl c \<and> is_worth_repeating c")
      case False
      with run show ?thesis by (auto split: sum.splits)
    next
      case True
      define s1 where "s1 = s\<lparr>rs_stats := note_retry (rs_stats s)\<rparr>"
      obtain r2 s2 where 2: "run_stages cx d e s1 = (r2, s2)" by fastforce
      have "walk_again cx d e n r2 s2 = (r, s')" using True run 2 by (auto simp: s1_def Let_def)
      from calmD [OF Suc this] calmD [OF calm_stages 2] show ?thesis by (simp add: s1_def trouble_def note_retry_def)
    qed
  qed
qed

lemma calm_record: "calm (record_file cx op d e moved outcome)"
proof -
  have noted: "calm (io_bind (in_world (cx_audit cx a)) (\<lambda>_. io_lift outcome))" for a
    by (intro calm_bind calm_io)
  have "trouble s' = trouble s" if "io_bind (in_world (cx_audit cx a)) (\<lambda>_. io_lift outcome) (s\<lparr>rs_world := w\<rparr>) = (r, s')"
    for a s w r s'
    using calmD [OF noted that] by (simp add: trouble_def)
  then show ?thesis
    unfolding calm_def record_file_def Let_def by (auto split: prod.splits)
qed

lemma calm_transfer: "calm (transfer_file cx op d e)"
proof -
  have "calm (\<lambda>s. let (walked, s) = walk_file cx d e s in
      record_file cx op d e (case walked of Inl _ \<Rightarrow> 0 | Inr moved \<Rightarrow> moved)
        (case walked of Inl c \<Rightarrow> Err c | Inr _ \<Rightarrow> Ok ()) s)"
    using calmD [OF calm_stages] calmD [OF calm_again] calmD [OF calm_record]
    unfolding calm_def walk_file_def Let_def by (fastforce split: prod.splits)
  then show ?thesis unfolding transfer_file_def by (intro calm_bind calm_io)
qed

lemma perform_trouble:
  assumes "perform outcome s = (r, s')"
  shows "trouble s \<le> trouble s'" "r = Ok () \<Longrightarrow> trouble s' = trouble s \<Longrightarrow> outcome = Ok ()"
  using assms
  by (cases outcome; auto simp: perform_def trouble_def count_stat_def record_failure_def split: if_splits)+

section \<open>The walk over both sides\<close>

text \<open>What the entry asks to be at its destination, given what the source holds.\<close>

definition acted :: "plan_entry \<Rightarrow> (str \<Rightarrow> bytes option) \<Rightarrow> bytes option \<Rightarrow> bool" where
  "acted e held c \<longleftrightarrow> op_transfers (pl_action e) \<and> c = held (pl_source e) \<and> c \<noteq> None \<or>
     op_destroys (pl_action e) \<and> c = None"

context transfer_sides
begin

lemma perform_keeps:
  assumes "perform outcome s = (r, s')" "good s"
  shows "good s'" "src s' = src s" "dst s' = dst s"
  using keepsD [OF keeps_io(7) assms] by simp_all

lemma remove_one_sides:
  assumes s: "good s" "ok (pl_dest e)" "remove_one cx op rt e s = (r, s')"
  shows "good s' \<and> src s' = src s \<and> (dst s' = dst s \<or> dst s' = (dst s)(pl_dest e := None)) \<and> trouble s \<le> trouble s' \<and>
    (r = Ok () \<longrightarrow> trouble s' = trouble s \<longrightarrow> dst s' = (dst s)(pl_dest e := None))"
proof -
  obtain o1 w1 where 1: "rt (pl_dest e) (rs_world s) = (o1, w1)" by fastforce
  define s1 where "s1 = s\<lparr>rs_world := w1\<rparr>"
  note t1 = reaped_dest [OF s(1,2) 1]
  then have g1: "good s1" "src s1 = src s" "trouble s1 = trouble s"
    "dst s1 = (dst s)(pl_dest e := None) \<or> o1 \<noteq> Ok () \<and> dst s1 = dst s"
    by (simp_all add: s1_def trouble_def)
  obtain r2 s2 where 2: "in_world (cx_audit cx (removal_record op (pl_dest e) o1)) s1 = (r2, s2)" by fastforce
  have k2: "keeps (in_world (cx_audit cx (removal_record op (pl_dest e) o1)))" by (intro keeps_world asides(1); assumption)
  note t2 = keepsD [OF k2 2 g1(1)] calmD [OF calm_io(1) 2]
  show ?thesis
  proof (cases r2)
    case (Inl c)
    with s(3) 1 2 have "r = Inl c" "s' = s2" by (simp_all add: remove_one_def in_world_def s1_def io_bind_def)
    with t2 g1 show ?thesis by auto
  next
    case (Inr u)
    obtain r3 s3 where 3: "perform o1 s2 = (r3, s3)" by fastforce
    note t3 = perform_keeps [OF 3] perform_trouble [OF 3]
    define last_step :: "('w, unit) run_io" where
      "last_step = (if o1 = Ok () then count_stat (\<lambda>st. st\<lparr>st_deleted := st_deleted st + 1\<rparr>) else io_return ())"
    have rest: "io_bind (perform o1) (\<lambda>_. last_step) s2 = (r, s')"
      using s(3) 1 2 Inr by (simp add: remove_one_def in_world_def s1_def io_bind_def last_step_def)
    have k4: "keeps last_step" "calm last_step"
      unfolding last_step_def by (auto intro: keeps_io calm_io calm_count)
    show ?thesis
    proof (cases r3)
      case (Inl c)
      with rest 3 have "r = Inl c" "s' = s3" by (simp_all add: io_bind_def)
      with t3 t2 g1 show ?thesis by auto
    next
      case (Inr u)
      with rest 3 have 4: "last_step s3 = (r, s')" by (simp add: io_bind_def)
      from keepsD [OF k4(1) 4] calmD [OF k4(2) 4] t3 t2 g1 Inr show ?thesis by auto
    qed
  qed
qed

text \<open>One entry: the source stays, and the destination is as it was or as the entry asks.\<close>

lemma sync_entry_sides:
  assumes s: "good s" "sync_entry cx d rt e s = (r, s')"
    and e: "op_transfers (pl_action e) \<Longrightarrow> ok (pl_source e)" "op_is_action (pl_action e) \<Longrightarrow> ok (pl_dest e)"
  shows "good s' \<and> src s' = src s \<and> trouble s \<le> trouble s' \<and>
    (dst s' = dst s \<or> (\<exists>c. acted e (src s) c \<and> dst s' = (dst s)(pl_dest e := c))) \<and>
    (r = Ok () \<longrightarrow> trouble s' = trouble s \<longrightarrow> op_transfers (pl_action e) \<or> op_destroys (pl_action e) \<longrightarrow>
      (\<exists>c. acted e (src s) c \<and> dst s' = (dst s)(pl_dest e := c)))"
proof -
  consider (transfer) "op_transfers (pl_action e)" | (create) "pl_action e = OpCreateDir"
    | (delete) "op_destroys (pl_action e)" | (skip) "pl_action e = OpSkip"
    by (cases "pl_action e") (simp_all add: op_transfers_def op_destroys_def)
  then show ?thesis
  proof cases
    case transfer
    then have okd: "ok (pl_dest e)" using e(2) by (auto simp: op_transfers_def op_is_action_def)
    obtain o1 s1 where 1: "transfer_file cx ''sync'' d e s = (o1, s1)" by fastforce
    then have 2: "perform o1 s1 = (r, s')" using s(2) transfer by (simp add: sync_entry_def)
    note t1 = transfer_file_sides [OF s(1) e(1) [OF transfer] okd 1] calmD [OF calm_transfer 1]
    then have "good s1" by (simp add: tried_def)
    note t2 = perform_keeps [OF 2 this] perform_trouble [OF 2]
    have "stored e s s1 \<Longrightarrow> acted e (src s) (src s (pl_source e)) \<and> dst s1 = (dst s)(pl_dest e := src s (pl_source e))"
      using transfer by (simp add: stored_def acted_def)
    with t1 t2 show ?thesis by (auto simp: tried_def)
  next
    case create
    obtain o1 s1 where 1: "in_world (dr_create_dir d e) s = (o1, s1)" by fastforce
    then have 2: "perform o1 s1 = (r, s')" using s(2) create by (simp add: sync_entry_def op_transfers_def)
    have "keeps (in_world (dr_create_dir d e))" by (intro keeps_world stages(5); assumption)
    note t1 = keepsD [OF this 1 s(1)] calmD [OF calm_io(1) 1]
    note t2 = perform_keeps [OF 2] perform_trouble [OF 2]
    from t1 t2 create show ?thesis by (auto simp: op_transfers_def op_destroys_def)
  next
    case delete
    then have "remove_one cx ''sync'' rt e s = (r, s')" "ok (pl_dest e)"
      using s(2) e(2) by (auto simp: sync_entry_def op_transfers_def op_destroys_def op_is_action_def)
    note t = remove_one_sides [OF s(1) this(2,1)]
    moreover have "acted e (src s) None" using delete by (simp add: acted_def)
    ultimately show ?thesis by auto
  next
    case skip
    with s show ?thesis by (auto simp: sync_entry_def op_transfers_def op_destroys_def)
  qed
qed

lemma sync_entries_sides:
  assumes "good s" "sync_entries cx d rt es s = (r, s')" "distinct (map pl_dest es)"
    and "\<forall>e \<in> set es. (op_transfers (pl_action e) \<longrightarrow> ok (pl_source e)) \<and> (op_is_action (pl_action e) \<longrightarrow> ok (pl_dest e))"
  shows "good s' \<and> src s' = src s \<and> trouble s \<le> trouble s' \<and>
    (\<forall>q. dst s' q = dst s q \<or> (\<exists>e \<in> set es. pl_dest e = q \<and> acted e (src s) (dst s' q))) \<and>
    (r = Ok () \<longrightarrow> trouble s' = trouble s \<longrightarrow>
      (\<forall>e \<in> set es. op_transfers (pl_action e) \<or> op_destroys (pl_action e) \<longrightarrow> acted e (src s) (dst s' (pl_dest e))))"
  using assms
proof (induction es arbitrary: s)
  case (Cons e es)
  obtain r1 s1 where 1: "sync_entry cx d rt e s = (r1, s1)" by fastforce
  have e: "op_transfers (pl_action e) \<Longrightarrow> ok (pl_source e)" "op_is_action (pl_action e) \<Longrightarrow> ok (pl_dest e)"
    using Cons.prems(4) by auto
  note t1 = sync_entry_sides [OF Cons.prems(1) 1 e]
  have own: "dst s1 q = dst s q \<or> pl_dest e = q \<and> acted e (src s) (dst s1 q)" for q
    using t1 by (cases "q = pl_dest e") auto
  show ?case
  proof (cases r1)
    case (Inl c)
    with Cons.prems(2) 1 have "r = Inl c" "s' = s1" by (simp_all add: io_bind_def)
    with t1 own show ?thesis by auto
  next
    case (Inr u)
    with Cons.prems(2) 1 have rest: "sync_entries cx d rt es s1 = (r, s')" by (simp add: io_bind_def)
    have g1: "good s1" "src s1 = src s" "trouble s \<le> trouble s1" using t1 by auto
    have ih: "good s'" "src s' = src s1" "trouble s1 \<le> trouble s'"
      "\<And>q. dst s' q = dst s1 q \<or> (\<exists>x \<in> set es. pl_dest x = q \<and> acted x (src s1) (dst s' q))"
      "r = Ok () \<Longrightarrow> trouble s' = trouble s1 \<Longrightarrow> x \<in> set es \<Longrightarrow> op_transfers (pl_action x) \<or> op_destroys (pl_action x) \<Longrightarrow>
        acted x (src s1) (dst s' (pl_dest x))" for x
      using Cons.IH [OF g1(1) rest] Cons.prems(3,4) by auto
    have fresh: "pl_dest e \<notin> pl_dest ` set es" using Cons.prems(3) by simp
    then have kept: "dst s' (pl_dest e) = dst s1 (pl_dest e)"
      using ih(4) [of "pl_dest e"] by (metis image_eqI)
    have "dst s' q = dst s q \<or> (\<exists>x \<in> set (e # es). pl_dest x = q \<and> acted x (src s) (dst s' q))" for q
      using ih(4) [of q] own [of q] g1(2) by auto
    moreover have "acted x (src s) (dst s' (pl_dest x))"
      if "r = Ok ()" "trouble s' = trouble s" "x \<in> set (e # es)" "op_transfers (pl_action x) \<or> op_destroys (pl_action x)" for x
    proof -
      have eq: "trouble s' = trouble s1" "trouble s1 = trouble s" using that(2) ih(3) g1(3) by auto
      show ?thesis
      proof (cases "x = e")
        case True
        with t1 eq Inr that(4) obtain c where "acted e (src s) c" "dst s1 = (dst s)(pl_dest e := c)" by auto
        with True kept show ?thesis by (metis fun_upd_same)
      next
        case False
        with ih(5) [OF that(1) eq(1) _ that(4)] that(3) g1(2) show ?thesis by auto
      qed
    qed
    ultimately show ?thesis using ih(1-3) g1 by auto
  qed
qed auto

text \<open>
  In every mode, whatever fails: the source stays, and every path of the destination is as it was or as
  the plan asks. Returned without a counted failure, every entry is done.
\<close>

lemma sync_run_sides:
  assumes "good s" "sync_run cx d rt plan mode s = (r, s')" "distinct (map pl_dest plan)"
    and "\<forall>e \<in> set plan. (op_transfers (pl_action e) \<longrightarrow> ok (pl_source e)) \<and> (op_is_action (pl_action e) \<longrightarrow> ok (pl_dest e))"
  shows "src s' = src s \<and>
    (\<forall>q. dst s' q = dst s q \<or> (\<exists>e \<in> set plan. pl_dest e = q \<and> acted e (src s) (dst s' q))) \<and>
    (r = Ok () \<longrightarrow> trouble s' = trouble s \<longrightarrow>
      (\<forall>e \<in> set plan. op_transfers (pl_action e) \<or> op_destroys (pl_action e) \<longrightarrow> acted e (src s) (dst s' (pl_dest e))))"
proof -
  have set: "set (sync_order mode plan) = {e \<in> set plan. op_is_action (pl_action e)}"
    by (simp add: sync_order_set actions_def)
  have "sync_entries cx d rt (sync_order mode plan) s = (r, s')" using assms(2) by (simp only: sync_run_order)
  note t = sync_entries_sides [OF assms(1) this sync_order_distinct [OF assms(3)]]
  have acts: "op_transfers p \<or> op_destroys p \<Longrightarrow> op_is_action p" for p
    by (cases p) (simp_all add: op_transfers_def op_destroys_def op_is_action_def)
  have "\<forall>e \<in> set (sync_order mode plan).
      (op_transfers (pl_action e) \<longrightarrow> ok (pl_source e)) \<and> (op_is_action (pl_action e) \<longrightarrow> ok (pl_dest e))"
    using assms(4) set by auto
  note t [OF this]
  then show ?thesis unfolding set using acts by blast
qed

end

end
