(* ===== verification/Transfer_Engine.thy ===== *)
theory Transfer_Engine
  imports Transfer_Run Logical_Path
begin

text \<open>
  \<open>dctl-cli/src/commands/transfer/engine.rs\<close>, the driver and the reaper between two directories of one
  machine (\<open>Direction::LocalOnly\<close>). A file system maps paths, as lists of names, to contents and times;
  every call may fail, by the next entry of a list of faults that the world carries; a call that fails changes
  nothing, and calls that leave no trace here (the creation of a directory, a flush) are one call that returns.
  A file is read in full windows. The hash of a file is the field \<open>blake3_hash\<close> of the primitives, in the
  given hexadecimal form.
\<close>

section \<open>The world\<close>

record local_file =
  lf_bytes :: bytes
  lf_time :: "int option"

record local_world =
  lw_files :: "str list \<Rightarrow> local_file option"
  lw_staged :: "str \<Rightarrow> int option option"
  lw_hashes :: "str \<Rightarrow> str option"
  lw_seq :: nat
  lw_faults :: "nat \<Rightarrow> exit_code option"
  lw_log :: "audit_entry list"
  lw_over :: "nat \<Rightarrow> bool"

type_synonym 'a local_io = "(local_world, exit_code, 'a) io"

text \<open>One call of the operating system: it fails, or the action happens.\<close>

definition fs_call :: "'a local_io \<Rightarrow> 'a local_io" where
  "fs_call m = (\<lambda>w.
     let w' = w\<lparr>lw_faults := (\<lambda>n. lw_faults w (n + 1))\<rparr> in
     case lw_faults w 0 of Some c \<Rightarrow> (Err c, w') | None \<Rightarrow> m w')"

definition set_file :: "str list \<Rightarrow> local_file option \<Rightarrow> unit local_io" where
  "set_file path f = (\<lambda>w. (Ok (), w\<lparr>lw_files := (lw_files w)(path := f)\<rparr>))"

definition get_file_at :: "str list \<Rightarrow> local_file local_io" where
  "get_file_at path = (\<lambda>w. case lw_files w path of None \<Rightarrow> (Err FileNotFound, w) | Some f \<Rightarrow> (Ok f, w))"

text \<open>\<open>let _ = remove_file(..)\<close>: what comes of it is ignored.\<close>

definition discard :: "str list \<Rightarrow> unit local_io" where
  "discard path = (\<lambda>w. (Ok (), snd (fs_call (set_file path None) w)))"

section \<open>The copy\<close>

definition TRANSFER_STREAM_WINDOW_BYTES :: nat where
  "TRANSFER_STREAM_WINDOW_BYTES = 128 * 1024"

definition STAGING_NAME_PREFIX :: str where
  "STAGING_NAME_PREFIX = lit ''.dctl-staging.''"

definition is_staging_name :: "str \<Rightarrow> bool" where
  "is_staging_name name \<longleftrightarrow> take (length STAGING_NAME_PREFIX) name = STAGING_NAME_PREFIX"

text \<open>The name of the next staging file; the number is printed by the given function.\<close>

definition staging_sibling :: "(nat \<Rightarrow> str) \<Rightarrow> str list \<Rightarrow> str list local_io" where
  "staging_sibling digits dest = (\<lambda>w.
     (Ok (butlast dest @ [STAGING_NAME_PREFIX @ digits (lw_seq w)]), w\<lparr>lw_seq := lw_seq w + 1\<rparr>))"

text \<open>The loop over the windows of the source: each is read and written, and the file grows by it.\<close>

function fill_loop :: "str list \<Rightarrow> bytes \<Rightarrow> bytes \<Rightarrow> nat \<Rightarrow> nat local_io" where
  "fill_loop staging written rest count =
     (if rest = [] then io_bind (fs_call (io_return ())) (\<lambda>_. io_return count)
      else let chunk = take TRANSFER_STREAM_WINDOW_BYTES rest in
        io_bind (fs_call (io_return ())) (\<lambda>_.
        io_bind (fs_call (set_file staging (Some \<lparr>lf_bytes = written @ chunk, lf_time = None\<rparr>))) (\<lambda>_.
        fill_loop staging (written @ chunk) (drop TRANSFER_STREAM_WINDOW_BYTES rest) (count + length chunk))))"
  by pat_completeness auto
termination
  by (relation "measure (\<lambda>(_, _, rest, _). length rest)") (auto simp: TRANSFER_STREAM_WINDOW_BYTES_def)

declare fill_loop.simps [simp del]

record streamed =
  sd_bytes :: nat
  sd_hash :: bytes

definition fill_from :: "prims \<Rightarrow> str list \<Rightarrow> str list \<Rightarrow> int option \<Rightarrow> streamed local_io" where
  "fill_from P source staging modified =
     io_bind (fs_call (get_file_at source)) (\<lambda>f.
     io_bind (fs_call (set_file staging (Some \<lparr>lf_bytes = [], lf_time = None\<rparr>))) (\<lambda>_.
     io_bind (fill_loop staging [] (lf_bytes f) 0) (\<lambda>n.
     io_bind (fs_call (io_return ())) (\<lambda>_.
     io_bind (case modified of None \<Rightarrow> io_return ()
       | Some t \<Rightarrow> fs_call (set_file staging (Some \<lparr>lf_bytes = lf_bytes f, lf_time = Some t\<rparr>))) (\<lambda>_.
     io_bind (fs_call (io_return ())) (\<lambda>_.
     io_return \<lparr>sd_bytes = n, sd_hash = blake3_hash P (lf_bytes f)\<rparr>))))))"

definition rename_file :: "str list \<Rightarrow> str list \<Rightarrow> unit local_io" where
  "rename_file from_path to_path =
     io_bind (get_file_at from_path) (\<lambda>f.
     io_bind (set_file from_path None) (\<lambda>_. set_file to_path (Some f)))"

definition copy_durably ::
    "prims \<Rightarrow> (nat \<Rightarrow> str) \<Rightarrow> str list \<Rightarrow> str list \<Rightarrow> int option \<Rightarrow> streamed local_io" where
  "copy_durably P digits source dest modified =
     io_bind (fs_call (io_return ())) (\<lambda>_.
     io_bind (staging_sibling digits dest) (\<lambda>staging w.
       case fill_from P source staging modified w of
         (Inl e, w) \<Rightarrow> io_bind (discard staging) (\<lambda>_. io_fail e) w
       | (Inr copied, w) \<Rightarrow>
           (case fs_call (rename_file staging dest) w of
              (Inl e, w) \<Rightarrow> io_bind (discard staging) (\<lambda>_. io_fail e) w
            | (Inr _, w) \<Rightarrow> io_bind (fs_call (io_return ())) (\<lambda>_. io_return copied) w)))"

section \<open>The driver\<close>

text \<open>\<open>describe_local\<close>: the file is opened; its time is unknown when its metadata cannot be read.\<close>

definition describe_local :: "str list \<Rightarrow> int option local_io" where
  "describe_local path =
     io_bind (fs_call (get_file_at path)) (\<lambda>f w.
       case fs_call (io_return (lf_time f)) w of
         (Inl _, w) \<Rightarrow> (Ok None, w)
       | (Inr t, w) \<Rightarrow> (Ok t, w))"

definition engine_read :: "str list \<Rightarrow> plan_entry \<Rightarrow> unit local_io" where
  "engine_read source_root e =
     io_bind (describe_local (from_logical source_root (pl_source e))) (\<lambda>modified w.
       (Ok (), w\<lparr>lw_staged := (lw_staged w)(pl_dest e \<mapsto> modified)\<rparr>))"

definition take_staged :: "str \<Rightarrow> int option local_io" where
  "take_staged key = (\<lambda>w.
     case lw_staged w key of
       None \<Rightarrow> (Err FatalError, w)
     | Some modified \<Rightarrow> (Ok modified, w\<lparr>lw_staged := (lw_staged w)(key := None)\<rparr>))"

definition engine_upload ::
    "prims \<Rightarrow> (nat \<Rightarrow> str) \<Rightarrow> str list \<Rightarrow> str list \<Rightarrow> plan_entry \<Rightarrow> u64 local_io" where
  "engine_upload P digits source_root dest_root e =
     io_bind (take_staged (pl_dest e)) (\<lambda>modified.
     io_bind (copy_durably P digits (from_logical source_root (pl_source e)) (from_logical dest_root (pl_dest e)) modified)
       (\<lambda>moved w.
         (Ok (of_nat (sd_bytes moved)), w\<lparr>lw_hashes := (lw_hashes w)(pl_dest e \<mapsto> hex_encode P (sd_hash moved))\<rparr>)))"

definition engine_take_hash :: "plan_entry \<Rightarrow> local_world \<Rightarrow> str \<times> local_world" where
  "engine_take_hash e w =
     (case lw_hashes w (pl_dest e) of None \<Rightarrow> [] | Some h \<Rightarrow> h,
      w\<lparr>lw_hashes := (lw_hashes w)(pl_dest e := None)\<rparr>)"

definition local_engine :: "prims \<Rightarrow> (nat \<Rightarrow> str) \<Rightarrow> str list \<Rightarrow> str list \<Rightarrow> local_world driver" where
  "local_engine P digits source_root dest_root = \<lparr>
     dr_read = engine_read source_root,
     dr_encrypt = (\<lambda>e. io_return ()),
     dr_upload = engine_upload P digits source_root dest_root,
     dr_verify = (\<lambda>e. io_return ()),
     dr_commit = (\<lambda>e. io_return ()),
     dr_create_dir = (\<lambda>e. fs_call (io_return ())),
     dr_take_hash = engine_take_hash\<rparr>"

text \<open>The reaper of one side: a file that is not there is removed already.\<close>

definition engine_remove :: "str list \<Rightarrow> local_world reaper" where
  "engine_remove side_root path =
     fs_call (set_file (from_logical side_root path) None)"

text \<open>The audit log and the clock of the same world.\<close>

definition audit_append :: "audit_entry \<Rightarrow> unit local_io" where
  "audit_append entry = fs_call (\<lambda>w. (Ok (), w\<lparr>lw_log := lw_log w @ [entry]\<rparr>))"

definition clock_exceeded :: "local_world \<Rightarrow> bool \<times> local_world" where
  "clock_exceeded w = (lw_over w 0, w\<lparr>lw_over := (\<lambda>n. lw_over w (n + 1))\<rparr>)"

definition local_context :: "u64 option \<Rightarrow> u32 \<Rightarrow> local_world run_context" where
  "local_context limit retries = \<lparr>cx_limit = limit, cx_retries = retries,
     cx_exceeded = clock_exceeded, cx_audit = audit_append\<rparr>"

end
