(* ===== verification/Transfer_Engine_Correct.thy ===== *)
theory Transfer_Engine_Correct
  imports Transfer_Sync Transfer_Engine
begin

text \<open>
  The engine between two directories keeps the contract of \<open>transfer_sides\<close>, whatever call fails: a copy is
  staged beside its destination and published by a rename, so the destination holds its old content or the
  source's. Runs of \<open>sync\<close> and \<open>move\<close> on two directories then have what the locale proves.
\<close>

section \<open>What a directory holds\<close>

text \<open>The paths that name a file: proper names, the last not one of a staging file.\<close>

definition canonical :: "str \<Rightarrow> bool" where
  "canonical p \<longleftrightarrow> (\<forall>n \<in> set (split_on slash p). n \<noteq> [] \<and> n \<noteq> lit ''.'' \<and> n \<noteq> lit ''..'') \<and>
     \<not> is_staging_name (file_name p)"

definition holds :: "str list \<Rightarrow> local_world \<Rightarrow> str \<Rightarrow> bytes option" where
  "holds side_root w p =
     (if canonical p then map_option lf_bytes (lw_files w (from_logical side_root p)) else None)"

text \<open>Neither of the two directories is inside the other.\<close>

definition apart :: "str list \<Rightarrow> str list \<Rightarrow> bool" where
  "apart a b \<longleftrightarrow> \<not> prefix a b \<and> \<not> prefix b a"

lemma apart_append: "apart a b \<Longrightarrow> a @ xs \<noteq> b @ ys"
  unfolding apart_def by (metis prefixI prefix_same_cases)

lemma from_logical_canonical: "canonical p \<Longrightarrow> from_logical side_root p = side_root @ split_on slash p"
  by (simp add: canonical_def from_logical_def filter_id_conv)

lemma from_logical_inj: "canonical p \<Longrightarrow> canonical q \<Longrightarrow> from_logical r p = from_logical r q \<Longrightarrow> p = q"
  by (simp add: from_logical_canonical) (metis join_split_on)

definition staging_of :: "(nat \<Rightarrow> str) \<Rightarrow> nat \<Rightarrow> str list \<Rightarrow> str list" where
  "staging_of digits n dest = butlast dest @ [STAGING_NAME_PREFIX @ digits n]"

lemma staging_hidden:
  assumes "canonical p" "canonical q"
  shows "staging_of digits n (from_logical r p) \<noteq> from_logical r q"
proof
  assume eq: "staging_of digits n (from_logical r p) = from_logical r q"
  have "last (from_logical r q) = file_name q"
    using assms(2) by (simp add: from_logical_canonical file_name_def)
  moreover have "is_staging_name (last (staging_of digits n (from_logical r p)))"
    by (simp add: staging_of_def is_staging_name_def)
  ultimately show False using assms(2) eq by (simp add: canonical_def)
qed

lemma staging_elsewhere:
  assumes "canonical p" "apart a b"
  shows "staging_of digits n (from_logical b p) \<noteq> from_logical a q"
proof -
  have "staging_of digits n (from_logical b p) = b @ (butlast (split_on slash p) @ [STAGING_NAME_PREFIX @ digits n])"
    using assms(1) by (simp add: staging_of_def from_logical_canonical butlast_append)
  then show ?thesis using apart_append [OF assms(2)] by (metis from_logical_def)
qed

lemma holds_files: "lw_files w' = lw_files w \<Longrightarrow> holds r w' = holds r w"
  by (simp add: holds_def fun_eq_iff)

lemma holds_set:
  "canonical p \<Longrightarrow> lw_files w' = (lw_files w)(from_logical r p := x) \<Longrightarrow> holds r w' = (holds r w)(p := map_option lf_bytes x)"
  using from_logical_inj [of p _ r] by (simp add: holds_def fun_eq_iff) metis

lemma holds_elsewhere:
  "(\<And>q. canonical q \<Longrightarrow> path \<noteq> from_logical r q) \<Longrightarrow> lw_files w' = (lw_files w)(path := x) \<Longrightarrow> holds r w' = holds r w"
  by (auto simp: holds_def fun_eq_iff)

section \<open>The calls\<close>

lemma fs_call_cases:
  assumes "fs_call m w = (r, w')"
  obtains (fault) c where "r = Err c" "lw_files w' = lw_files w"
  | (done_it) w0 where "m w0 = (r, w')" "lw_files w0 = lw_files w"
proof (cases "lw_faults w 0")
  case None
  with assms show ?thesis by (intro done_it [of "w\<lparr>lw_faults := (\<lambda>n. lw_faults w (n + 1))\<rparr>"]) (simp_all add: fs_call_def)
next
  case (Some c)
  with assms show ?thesis by (intro fault) (auto simp: fs_call_def)
qed

lemma fs_call_return: "fs_call (io_return x) w = (r, w') \<Longrightarrow> lw_files w' = lw_files w \<and> (\<forall>y. r = Ok y \<longrightarrow> y = x)"
  by (erule fs_call_cases) auto

lemma fs_call_set: "fs_call (set_file path f) w = (r, w') \<Longrightarrow>
    r = Ok () \<and> lw_files w' = (lw_files w)(path := f) \<or> (\<exists>c. r = Err c) \<and> lw_files w' = lw_files w"
  by (erule fs_call_cases) (auto simp: set_file_def)

lemma fs_call_get: "fs_call (get_file_at path) w = (r, w') \<Longrightarrow>
    lw_files w' = lw_files w \<and> (\<forall>f. r = Ok f \<longrightarrow> lw_files w path = Some f)"
  by (erule fs_call_cases) (auto simp: get_file_at_def split: option.splits)

text \<open>Two file systems that differ at most at one path.\<close>

definition only_at :: "str list \<Rightarrow> local_world \<Rightarrow> local_world \<Rightarrow> bool" where
  "only_at path w w' \<longleftrightarrow> (\<forall>q. q \<noteq> path \<longrightarrow> lw_files w' q = lw_files w q)"

lemma only_at_same: "lw_files w' = lw_files w \<Longrightarrow> only_at path w w'"
  by (simp add: only_at_def)

lemma only_at_upd: "lw_files w' = (lw_files w)(path := x) \<Longrightarrow> only_at path w w'"
  by (simp add: only_at_def)

lemma only_at_trans: "only_at path w w' \<Longrightarrow> only_at path w' w'' \<Longrightarrow> only_at path w w''"
  by (simp add: only_at_def)

lemma fs_call_only_at: "fs_call (set_file path f) w = (r, w') \<Longrightarrow> only_at path w w'"
  using fs_call_set [of path f w r w'] by (auto intro: only_at_same only_at_upd)

lemma discard_only_at: "discard path w = (r, w') \<Longrightarrow> only_at path w w'"
  by (cases "fs_call (set_file path None) w") (auto simp: discard_def dest: fs_call_only_at)

lemma fill_loop_files:
  assumes "fill_loop staging written rest n w = (r, w')" "lw_files w staging = Some \<lparr>lf_bytes = written, lf_time = None\<rparr>"
  shows "only_at staging w w' \<and>
    (\<forall>k. r = Ok k \<longrightarrow> k = n + length rest \<and> lw_files w' staging = Some \<lparr>lf_bytes = written @ rest, lf_time = None\<rparr>)"
  using assms
proof (induction rest arbitrary: written n w rule: length_induct)
  case (1 rest)
  obtain r1 w1 where one: "fs_call (io_return ()) w = (r1, w1)" by fastforce
  note f1 = fs_call_return [OF one]
  show ?case
  proof (cases "rest = []")
    case True
    with "1.prems" one f1 show ?thesis
      by (cases r1) (auto simp: fill_loop.simps [of staging written "[]"] io_bind_def intro: only_at_same)
  next
    case rest: False
    let ?c = "take TRANSFER_STREAM_WINDOW_BYTES rest" and ?d = "drop TRANSFER_STREAM_WINDOW_BYTES rest"
    show ?thesis
    proof (cases r1)
      case (Inl c)
      with "1.prems" one f1 rest show ?thesis
        by (auto simp: fill_loop.simps [of staging written rest] io_bind_def Let_def intro: only_at_same)
    next
      case r1: (Inr u)
      obtain r2 w2 where two: "fs_call (set_file staging (Some \<lparr>lf_bytes = written @ ?c, lf_time = None\<rparr>)) w1 = (r2, w2)"
        by fastforce
      have f2: "only_at staging w w2"
        using only_at_trans [OF only_at_same fs_call_only_at [OF two]] f1 by blast
      show ?thesis
      proof (cases r2)
        case (Inl c)
        with "1.prems" one two f2 rest r1 show ?thesis
          by (auto simp: fill_loop.simps [of staging written rest] io_bind_def Let_def)
      next
        case (Inr u)
        then have w2: "lw_files w2 staging = Some \<lparr>lf_bytes = written @ ?c, lf_time = None\<rparr>"
          using fs_call_set [OF two] by auto
        have "fill_loop staging (written @ ?c) ?d (n + length ?c) w2 = (r, w')"
          using "1.prems"(1) one two rest r1 Inr
          by (simp add: fill_loop.simps [of staging written rest] io_bind_def Let_def)
        moreover have "length ?d < length rest" using rest by (simp add: TRANSFER_STREAM_WINDOW_BYTES_def)
        ultimately have "only_at staging w2 w' \<and> (\<forall>k. r = Ok k \<longrightarrow>
            k = n + length ?c + length ?d \<and> lw_files w' staging = Some \<lparr>lf_bytes = (written @ ?c) @ ?d, lf_time = None\<rparr>)"
          using "1.IH" w2 by blast
        moreover have "n + length ?c + length ?d = n + length rest" by simp
        moreover have "(written @ ?c) @ ?d = written @ rest" by simp
        ultimately show ?thesis using f2 by (auto simp del: length_take length_drop intro: only_at_trans)
      qed
    qed
  qed
qed

lemma fs_call_step:
  assumes "io_bind (fs_call m) k w = (r, w')"
  obtains (fault) c w1 where "fs_call m w = (Err c, w1)" "r = Err c" "w' = w1"
  | (step) x w1 where "fs_call m w = (Ok x, w1)" "k x w1 = (r, w')"
  using assms by (cases "fs_call m w"; cases "fst (fs_call m w)") (auto simp: io_bind_def)

lemma fill_from_files:
  assumes "fill_from P source staging modified w = (r, w')" "source \<noteq> staging"
  shows "only_at staging w w' \<and> (\<forall>sd. r = Ok sd \<longrightarrow> (\<exists>f. lw_files w source = Some f \<and>
    lw_files w' staging = Some \<lparr>lf_bytes = lf_bytes f, lf_time = modified\<rparr> \<and>
    sd = \<lparr>sd_bytes = length (lf_bytes f), sd_hash = blake3_hash P (lf_bytes f)\<rparr>))"
  using assms(1) unfolding fill_from_def
proof (cases rule: fs_call_step)
  case (fault c w1)
  then show ?thesis using fs_call_get [OF fault(1)] by (auto intro: only_at_same)
next
  case (step f w1)
  note g = fs_call_get [OF step(1)]
  from step(2) show ?thesis
  proof (cases rule: fs_call_step)
    case (fault c w2)
    then show ?thesis using only_at_trans [OF only_at_same fs_call_only_at [OF fault(1)]] g by auto
  next
    case create: (step u w2)
    have w2: "lw_files w2 staging = Some \<lparr>lf_bytes = [], lf_time = None\<rparr>" using fs_call_set [OF create(1)] by auto
    have o2: "only_at staging w w2" using only_at_trans [OF only_at_same fs_call_only_at [OF create(1)]] g by auto
    obtain r3 w3 where 3: "fill_loop staging [] (lf_bytes f) 0 w2 = (r3, w3)" by fastforce
    note l = fill_loop_files [OF 3 w2]
    have o3: "only_at staging w w3" using only_at_trans [OF o2] l by blast
    show ?thesis
    proof (cases r3)
      case (Inl c)
      with create(2) 3 o3 show ?thesis by (auto simp: io_bind_def)
    next
      case (Inr n)
      let ?stamp = "case modified of None \<Rightarrow> io_return ()
       | Some t \<Rightarrow> fs_call (set_file staging (Some \<lparr>lf_bytes = lf_bytes f, lf_time = Some t\<rparr>))"
      let ?last = "io_bind (fs_call (io_return ())) (\<lambda>_. io_return \<lparr>sd_bytes = n, sd_hash = blake3_hash P (lf_bytes f)\<rparr>)"
      have "io_bind (fs_call (io_return ())) (\<lambda>_. io_bind ?stamp (\<lambda>_. ?last)) w3 = (r, w')"
        using create(2) 3 Inr by (simp add: io_bind_def [of "fill_loop _ _ _ _"])
      then show ?thesis
      proof (cases rule: fs_call_step)
        case (fault c w4)
        then show ?thesis using fs_call_return [OF fault(1)] only_at_trans [OF o3 only_at_same] by auto
      next
        case flush: (step u w4)
        have w4: "lw_files w4 = lw_files w3" using fs_call_return [OF flush(1)] by simp
        obtain r5 w5 where 5: "?stamp w4 = (r5, w5)" by fastforce
        have s5: "only_at staging w w5 \<and> (r5 = Ok () \<longrightarrow> lw_files w5 staging = Some \<lparr>lf_bytes = lf_bytes f, lf_time = modified\<rparr>)"
        proof (cases modified)
          case None
          with 5 w4 l Inr only_at_trans [OF o3 only_at_same] show ?thesis by (auto simp: io_return_def)
        next
          case (Some t)
          with 5 have 5: "fs_call (set_file staging (Some \<lparr>lf_bytes = lf_bytes f, lf_time = Some t\<rparr>)) w4 = (r5, w5)" by simp
          have "only_at staging w w4" using only_at_trans [OF o3 only_at_same] w4 by blast
          with Some fs_call_set [OF 5] only_at_trans [OF this fs_call_only_at [OF 5]] show ?thesis by auto
        qed
        show ?thesis
        proof (cases r5)
          case (Inl c)
          with flush(2) 5 s5 show ?thesis by (auto simp: io_bind_def [of ?stamp])
        next
          case (Inr u)
          with flush(2) 5 have "?last w5 = (r, w')" by (simp add: io_bind_def [of ?stamp])
          then show ?thesis
          proof (cases rule: fs_call_step)
            case (fault c w6)
            then show ?thesis using fs_call_return [OF fault(1)] s5 only_at_trans [OF _ only_at_same] by fastforce
          next
            case (step u w6)
            then have "lw_files w' = lw_files w5" "r = Ok \<lparr>sd_bytes = n, sd_hash = blake3_hash P (lf_bytes f)\<rparr>"
              using fs_call_return [OF step(1)] by (auto simp: io_return_def)
            moreover have "n = length (lf_bytes f)" using l \<open>r3 = Inr n\<close> by simp
            ultimately show ?thesis
              using s5 Inr g \<open>fs_call (get_file_at source) w = (Ok f, w1)\<close> only_at_trans [OF _ only_at_same] by fastforce
          qed
        qed
      qed
    qed
  qed
qed

text \<open>
  The copy: the destination holds what it held or the whole of the source, and besides it only the staging
  file changes.
\<close>

definition published :: "str list \<Rightarrow> str list \<Rightarrow> local_world \<Rightarrow> local_world \<Rightarrow> bool" where
  "published source dest w w' \<longleftrightarrow> (\<exists>f g. lw_files w source = Some f \<and> lw_files w' dest = Some g \<and> lf_bytes g = lf_bytes f)"

lemma copy_durably_files:
  assumes run: "copy_durably P digits source dest modified w = (r, w')"
    and staging: "staging_of digits (lw_seq w) dest \<noteq> source" "staging_of digits (lw_seq w) dest \<noteq> dest"
  shows "(\<forall>q. q \<noteq> dest \<longrightarrow> q \<noteq> staging_of digits (lw_seq w) dest \<longrightarrow> lw_files w' q = lw_files w q) \<and>
    (lw_files w' dest = lw_files w dest \<or> published source dest w w') \<and>
    (\<forall>sd. r = Ok sd \<longrightarrow> published source dest w w')"
  using run unfolding copy_durably_def
proof (cases rule: fs_call_step)
  case (fault c w1)
  then show ?thesis using fs_call_return [OF fault(1)] by simp
next
  case (step u w1)
  have w1: "lw_files w1 = lw_files w" using fs_call_return [OF step(1)] by simp
  have seq: "lw_seq w1 = lw_seq w"
    using step(1) by (auto simp: fs_call_def io_return_def Let_def split: option.splits)
  let ?st = "staging_of digits (lw_seq w) dest"
  define w2 where "w2 = w1\<lparr>lw_seq := lw_seq w1 + 1\<rparr>"
  have sib: "staging_sibling digits dest w1 = (Ok ?st, w2)"
    by (simp add: staging_sibling_def staging_of_def seq w2_def)
  obtain r3 w3 where 3: "fill_from P source ?st modified w2 = (r3, w3)" by fastforce
  have w2: "lw_files w2 = lw_files w" by (simp add: w2_def w1)
  note f3 = fill_from_files [OF 3 staging(1) [symmetric]]
  have o3: "only_at ?st w w3" using only_at_trans [OF only_at_same] f3 w2 by blast
  show ?thesis
  proof (cases r3)
    case (Inl c)
    then have "io_bind (discard ?st) (\<lambda>_. io_fail c) w3 = (r, w')"
      using step(2) sib 3 by (simp add: io_bind_def [of "staging_sibling _ _"])
    then obtain r4 where "discard ?st w3 = (r4, w')" "\<forall>sd. r \<noteq> Ok sd"
      by (auto simp: io_bind_def io_fail_def split: prod.splits sum.splits)
    with discard_only_at o3 only_at_trans have "only_at ?st w w'" "\<forall>sd. r \<noteq> Ok sd" by blast+
    then show ?thesis using staging(2) by (auto simp: only_at_def)
  next
    case (Inr copied)
    then obtain f where f: "lw_files w source = Some f"
      "lw_files w3 ?st = Some \<lparr>lf_bytes = lf_bytes f, lf_time = modified\<rparr>"
      using f3 w2 by auto
    obtain r4 w4 where 4: "fs_call (rename_file ?st dest) w3 = (r4, w4)" by fastforce
    show ?thesis
    proof (cases r4)
      case (Inl c)
      then have "lw_files w4 = lw_files w3"
        using 4 f(2) by (cases rule: fs_call_cases [OF 4]) (auto simp: rename_file_def get_file_at_def set_file_def io_bind_def)
      moreover have "io_bind (discard ?st) (\<lambda>_. io_fail c) w4 = (r, w')"
        using step(2) sib 3 Inr 4 Inl by (simp add: io_bind_def [of "staging_sibling _ _"])
      then obtain r5 where "discard ?st w4 = (r5, w')" "\<forall>sd. r \<noteq> Ok sd"
        by (auto simp: io_bind_def io_fail_def split: prod.splits sum.splits)
      ultimately have "only_at ?st w w'" "\<forall>sd. r \<noteq> Ok sd"
        using only_at_trans [OF o3 only_at_trans [OF only_at_same discard_only_at]] by simp_all
      then show ?thesis using staging(2) by (auto simp: only_at_def)
    next
      case r4: (Inr u)
      then have w4: "lw_files w4 = (lw_files w3)(?st := None, dest := Some \<lparr>lf_bytes = lf_bytes f, lf_time = modified\<rparr>)"
        using 4 f(2) by (cases rule: fs_call_cases [OF 4]) (auto simp: rename_file_def get_file_at_def set_file_def io_bind_def)
      have "io_bind (fs_call (io_return ())) (\<lambda>_. io_return copied) w4 = (r, w')"
        using step(2) sib 3 Inr 4 r4 by (simp add: io_bind_def [of "staging_sibling _ _"])
      then have "lw_files w' = lw_files w4"
        by (cases rule: fs_call_step) (auto dest: fs_call_return)
      with w4 f(1) o3 show ?thesis by (auto simp: only_at_def published_def)
    qed
  qed
qed

section \<open>The engine keeps the contract\<close>

lemma describe_local_files: "describe_local path w = (r, w') \<Longrightarrow> lw_files w' = lw_files w"
  unfolding describe_local_def
proof (cases rule: fs_call_step)
  assume "io_bind (fs_call (get_file_at path)) (\<lambda>f w. case fs_call (io_return (lf_time f)) w of
       (Inl _, w) \<Rightarrow> (Ok None, w) | (Inr t, w) \<Rightarrow> (Ok t, w)) w = (r, w')"
  then show "io_bind (fs_call (get_file_at path)) (\<lambda>f w. case fs_call (io_return (lf_time f)) w of
       (Inl _, w) \<Rightarrow> (Ok None, w) | (Inr t, w) \<Rightarrow> (Ok t, w)) w = (r, w')" .
next
  fix c w1 assume "fs_call (get_file_at path) w = (Err c, w1)" "w' = w1"
  then show ?thesis using fs_call_get by blast
next
  fix f w1 assume 1: "fs_call (get_file_at path) w = (Ok f, w1)"
    "(case fs_call (io_return (lf_time f)) w1 of (Inl _, w) \<Rightarrow> (Ok None, w) | (Inr t, w) \<Rightarrow> (Ok t, w)) = (r, w')"
  then obtain r2 where "fs_call (io_return (lf_time f)) w1 = (r2, w')"
    by (auto split: prod.splits sum.splits)
  with 1(1) show ?thesis using fs_call_get fs_call_return by (metis (no_types))
qed

lemma engine_read_files: "engine_read root e w = (r, w') \<Longrightarrow> lw_files w' = lw_files w"
  by (cases "describe_local (from_logical root (pl_source e)) w"; cases "fst (describe_local (from_logical root (pl_source e)) w)")
    (auto simp: engine_read_def io_bind_def dest: describe_local_files)

text \<open>The upload, on the two sides.\<close>

lemma engine_upload_files:
  assumes run: "engine_upload P digits sroot droot e w = (r, w')"
    and paths: "apart sroot droot" "canonical (pl_source e)" "canonical (pl_dest e)"
  defines "copied \<equiv> holds sroot w (pl_source e) \<noteq> None \<and> holds droot w' = (holds droot w)(pl_dest e := holds sroot w (pl_source e))"
  shows "holds sroot w' = holds sroot w \<and> (holds droot w' = holds droot w \<or> copied) \<and> (\<forall>n. r = Inr n \<longrightarrow> copied)"
proof (cases "lw_staged w (pl_dest e)")
  case None
  with run show ?thesis by (auto simp: engine_upload_def take_staged_def io_bind_def)
next
  case (Some modified)
  let ?s = "from_logical sroot (pl_source e)" and ?d = "from_logical droot (pl_dest e)"
  define w1 where "w1 = w\<lparr>lw_staged := (lw_staged w)(pl_dest e := None)\<rparr>"
  obtain r2 w2 where 2: "copy_durably P digits ?s ?d modified w1 = (r2, w2)" by fastforce
  have eq: "lw_files w1 = lw_files w" "lw_files w' = lw_files w2" "(\<exists>n. r = Inr n) \<longleftrightarrow> (\<exists>sd. r2 = Ok sd)"
    using run Some 2 by (auto simp: engine_upload_def take_staged_def io_bind_def w1_def split: sum.splits)
  let ?st = "staging_of digits (lw_seq w1) ?d"
  have st: "?st \<noteq> ?s" "?st \<noteq> ?d" "canonical q \<Longrightarrow> ?st \<noteq> from_logical droot q" "?st \<noteq> from_logical sroot q" for q
    using staging_elsewhere [OF paths(3,1)] staging_hidden [OF paths(3)] paths(3) by auto
  note c = copy_durably_files [OF 2 st(1,2)]
  have src: "from_logical sroot q \<noteq> ?d" for q
    unfolding from_logical_def by (rule apart_append [OF paths(1)])
  have kept: "lw_files w' q = lw_files w q" if "q \<noteq> ?d" "q \<noteq> ?st" for q
    using c that eq by simp
  have "lw_files w' (from_logical sroot q) = lw_files w (from_logical sroot q)" for q
    by (rule kept) (use src st(4) in metis)+
  then have s: "holds sroot w' = holds sroot w" by (simp add: holds_def fun_eq_iff)
  have d: "holds droot w' q = holds droot w q" if "q \<noteq> pl_dest e" for q
  proof (cases "canonical q")
    case True
    then have "from_logical droot q \<noteq> ?d" using from_logical_inj [of q "pl_dest e" droot] paths(3) that by auto
    from kept [OF this] st(3) [OF True] show ?thesis by (metis holds_def)
  qed (simp add: holds_def)
  have pub: "published ?s ?d w1 w2 \<Longrightarrow> copied"
  proof -
    assume "published ?s ?d w1 w2"
    then obtain f g where "lw_files w ?s = Some f" "lw_files w' ?d = Some g" "lf_bytes g = lf_bytes f"
      using eq by (auto simp: published_def)
    then have "holds sroot w (pl_source e) = Some (lf_bytes f)" "holds droot w' (pl_dest e) = Some (lf_bytes f)"
      using paths(2,3) by (simp_all add: holds_def)
    with d show copied by (simp add: copied_def fun_eq_iff)
  qed
  have same: "holds droot w' = holds droot w" if "lw_files w2 ?d = lw_files w1 ?d"
  proof
    fix q
    show "holds droot w' q = holds droot w q"
      using d [of q] that eq(1,2) by (cases "q = pl_dest e") (simp_all add: holds_def)
  qed
  show ?thesis using s pub same c eq(3) by blast
qed

lemma engine_remove_files:
  assumes "engine_remove root p w = (r, w')" "canonical p"
  shows "holds root w' = (holds root w)(p := None) \<or> r \<noteq> Ok () \<and> holds root w' = holds root w"
  using fs_call_set [OF assms(1) [unfolded engine_remove_def]] holds_set [OF assms(2), of w' w root None]
  by (auto intro: holds_files)

lemma engine_remove_other:
  assumes "engine_remove a p w = (r, w')" "apart a b"
  shows "holds b w' = holds b w"
proof -
  have "from_logical a p \<noteq> from_logical b q" for q
    unfolding from_logical_def by (rule apart_append [OF assms(2)])
  then show ?thesis
    using fs_call_set [OF assms(1) [unfolded engine_remove_def]]
    by (auto intro: holds_files holds_elsewhere)
qed

lemma aside_files:
  "audit_append a w = (r, w') \<Longrightarrow> lw_files w' = lw_files w"
  "clock_exceeded w = (b, w') \<Longrightarrow> lw_files w' = lw_files w"
  "engine_take_hash e w = (h, w') \<Longrightarrow> lw_files w' = lw_files w"
  "fs_call (io_return ()) w = (r, w') \<Longrightarrow> lw_files w' = lw_files w"
  by (auto simp: audit_append_def clock_exceeded_def engine_take_hash_def dest: fs_call_return elim: fs_call_cases)

lemma apart_sym: "apart a b \<Longrightarrow> apart b a"
  by (auto simp: apart_def)

interpretation two_dirs: transfer_sides "local_context limit retries" "local_engine P digits sroot droot"
    "engine_remove sroot" "engine_remove droot" "holds sroot" "holds droot" "\<lambda>_. apart sroot droot" canonical
proof (unfold_locales, goal_cases)
  case (9 w e n w')
  then show ?case using engine_upload_files [of P digits sroot droot e w "Inr n" w'] by (auto simp: local_engine_def)
next
  case (10 w e c w')
  then show ?case using engine_upload_files [of P digits sroot droot e w "Inl c" w'] by (auto simp: local_engine_def)
next
  case (11 w p r w')
  note run = 11(3) and ok = 11(2) and dirs = 11(1)
  show ?case using engine_remove_files [OF run ok] engine_remove_other [OF run dirs] dirs by simp
next
  case (12 w p r w')
  note run = 12(3) and ok = 12(2) and dirs = 12(1)
  show ?case using engine_remove_files [OF run ok] engine_remove_other [OF run apart_sym [OF dirs]] dirs by simp
next
  case (5 w e r w')
  then show ?case using aside_files(4) [of w r w'] by (auto simp: local_engine_def intro: holds_files)
qed (auto simp: local_engine_def local_context_def io_return_def
    dest!: aside_files engine_read_files intro: holds_files)

section \<open>Without failures\<close>

text \<open>No call fails and the deadline never passes; then every operation runs through.\<close>

definition quiet :: "local_world \<Rightarrow> bool" where
  "quiet w \<longleftrightarrow> lw_faults w = (\<lambda>_. None) \<and> lw_over w = (\<lambda>_. False)"

definition runs :: "'a local_io \<Rightarrow> local_world \<Rightarrow> bool" where
  "runs m w \<longleftrightarrow> (\<exists>x w'. m w = (Ok x, w') \<and> quiet w')"

lemma fs_call_quiet: "quiet w \<Longrightarrow> fs_call m w = m w"
  by (cases w) (simp add: fs_call_def quiet_def Let_def)

lemma runs_bind:
  "runs m w \<Longrightarrow> (\<And>x w'. m w = (Ok x, w') \<Longrightarrow> quiet w' \<Longrightarrow> runs (k x) w') \<Longrightarrow> runs (io_bind m k) w"
  by (fastforce simp: runs_def io_bind_def)

lemma runs_calls:
  "quiet w \<Longrightarrow> runs (io_return x) w" "quiet w \<Longrightarrow> runs (fs_call (io_return x)) w"
  "quiet w \<Longrightarrow> runs (fs_call (set_file path f)) w"
  "quiet w \<Longrightarrow> lw_files w path \<noteq> None \<Longrightarrow> runs (fs_call (get_file_at path)) w"
  by (auto simp: runs_def fs_call_quiet set_file_def get_file_at_def quiet_def)

lemma runs_fill_loop: "quiet w \<Longrightarrow> runs (fill_loop staging written rest n) w"
proof (induction rest arbitrary: written n w rule: length_induct)
  case (1 rest)
  show ?case
  proof (cases "rest = []")
    case True
    then show ?thesis unfolding fill_loop.simps [of staging written rest] by (simp, intro runs_bind runs_calls 1)
  next
    case False
    then have "length (drop TRANSFER_STREAM_WINDOW_BYTES rest) < length rest" by (simp add: TRANSFER_STREAM_WINDOW_BYTES_def)
    with 1(1) have "quiet w \<Longrightarrow> runs (fill_loop staging written' (drop TRANSFER_STREAM_WINDOW_BYTES rest) n') w" for written' n' w
      by blast
    with False 1(2) show ?thesis
      unfolding fill_loop.simps [of staging written rest] Let_def by (simp, intro runs_bind runs_calls)
  qed
qed

lemma runs_fill_from: "quiet w \<Longrightarrow> lw_files w source \<noteq> None \<Longrightarrow> runs (fill_from P source staging modified) w"
  unfolding fill_from_def
  by (intro runs_bind runs_calls runs_fill_loop) (auto intro: runs_calls split: option.split)

lemma runs_copy:
  assumes "quiet w" "lw_files w source \<noteq> None" "\<And>n. staging_of digits n dest \<noteq> source"
  shows "runs (copy_durably P digits source dest modified) w"
  unfolding copy_durably_def
proof (rule runs_bind)
  show "runs (fs_call (io_return ())) w" by (rule runs_calls(2) [OF assms(1)])
next
  fix u w1 assume 1: "fs_call (io_return ()) w = (Ok u, w1)" "quiet w1"
  then have w1: "lw_files w1 = lw_files w" using fs_call_return [OF 1(1)] by simp
  let ?st = "staging_of digits (lw_seq w1) dest"
  define w2 where "w2 = w1\<lparr>lw_seq := lw_seq w1 + 1\<rparr>"
  have q2: "quiet w2" "lw_files w2 source \<noteq> None" using 1(2) w1 assms(2) by (simp_all add: quiet_def w2_def)
  have sib: "staging_sibling digits dest w1 = (Ok ?st, w2)"
    by (simp add: staging_sibling_def staging_of_def w2_def)
  obtain x w3 where 3: "fill_from P source ?st modified w2 = (Ok x, w3)" "quiet w3"
    using runs_fill_from [OF q2, of P ?st modified] by (auto simp: runs_def)
  obtain f where f: "lw_files w3 ?st = Some f" using fill_from_files [OF 3(1) assms(3) [symmetric]] by auto
  obtain w4 where 4: "fs_call (rename_file ?st dest) w3 = (Ok (), w4)" "quiet w4"
    using f 3(2) by (simp add: fs_call_quiet rename_file_def get_file_at_def set_file_def io_bind_def quiet_def)
  have "runs (io_bind (fs_call (io_return ())) (\<lambda>_. io_return x)) w4"
    by (intro runs_bind runs_calls 4(2))
  then show "runs (io_bind (staging_sibling digits dest) (\<lambda>staging w.
       case fill_from P source staging modified w of
         (Inl e, w) \<Rightarrow> io_bind (discard staging) (\<lambda>_. io_fail e) w
       | (Inr copied, w) \<Rightarrow>
           (case fs_call (rename_file staging dest) w of
              (Inl e, w) \<Rightarrow> io_bind (discard staging) (\<lambda>_. io_fail e) w
            | (Inr _, w) \<Rightarrow> io_bind (fs_call (io_return ())) (\<lambda>_. io_return copied) w))) w1"
    by (simp add: runs_def io_bind_def [of "staging_sibling _ _"] sib 3 4)
qed

lemma runs_engine:
  assumes "quiet w" "lw_files w (from_logical sroot (pl_source e)) \<noteq> None"
  shows "runs (engine_read sroot e) w" "lw_staged w (pl_dest e) \<noteq> None \<Longrightarrow> apart sroot droot \<Longrightarrow> canonical (pl_dest e) \<Longrightarrow>
    runs (engine_upload P digits sroot droot e) w"
proof -
  obtain f where "lw_files w (from_logical sroot (pl_source e)) = Some f" using assms(2) by blast
  with assms(1) show "runs (engine_read sroot e) w"
    by (simp add: runs_def engine_read_def describe_local_def io_bind_def fs_call_quiet get_file_at_def)
      (simp add: quiet_def)
next
  assume staged: "lw_staged w (pl_dest e) \<noteq> None" "apart sroot droot" "canonical (pl_dest e)"
  then obtain m where m: "lw_staged w (pl_dest e) = Some m" by blast
  define w1 where "w1 = w\<lparr>lw_staged := (lw_staged w)(pl_dest e := None)\<rparr>"
  have "quiet w1" "lw_files w1 (from_logical sroot (pl_source e)) \<noteq> None"
    using assms by (simp_all add: quiet_def w1_def)
  from runs_copy [OF this staging_elsewhere [OF staged(3,2)], of P digits m] m
  show "runs (engine_upload P digits sroot droot e) w"
    by (auto simp: runs_def engine_upload_def take_staged_def io_bind_def w1_def quiet_def)
qed

definition flows :: "(local_world, 'a) run_io \<Rightarrow> local_world run_state \<Rightarrow> bool" where
  "flows m s \<longleftrightarrow> (\<exists>x s'. m s = (Ok x, s') \<and> quiet (rs_world s'))"

lemma flows_bind:
  "flows m s \<Longrightarrow> (\<And>x s'. m s = (Ok x, s') \<Longrightarrow> quiet (rs_world s') \<Longrightarrow> flows (k x) s') \<Longrightarrow> flows (io_bind m k) s"
  by (fastforce simp: flows_def io_bind_def)

lemma flows_world: "runs m (rs_world s) \<Longrightarrow> flows (in_world m) s"
  by (auto simp: flows_def runs_def in_world_def)

lemma flows_io:
  assumes "quiet (rs_world s)"
  shows "flows (io_return x) s" "flows (count_stat f) s" "flows (settle_budget cx e n) s"
    "flows (afford (local_context None retries) e) s" "flows (within_deadline (local_context limit retries)) s"
    "flows (perform (Ok ())) s"
  using assms
  by (auto simp: flows_def count_stat_def settle_budget_def afford_def budget_afford_def local_context_def
      within_deadline_def clock_exceeded_def quiet_def perform_def Let_def)

lemma flows_audit: "quiet (rs_world s) \<Longrightarrow> flows (in_world (cx_audit (local_context limit retries) a)) s"
  by (intro flows_world) (auto simp: runs_def local_context_def audit_append_def fs_call_quiet, auto simp: quiet_def)

lemma engine_read_staged: "engine_read root e w = (Ok u, w') \<Longrightarrow> lw_staged w' (pl_dest e) \<noteq> None"
  by (auto simp: engine_read_def io_bind_def split: prod.splits sum.splits)

lemma flows_stages:
  assumes s: "quiet (rs_world s)" "lw_files (rs_world s) (from_logical sroot (pl_source e)) \<noteq> None"
    and paths: "apart sroot droot" "canonical (pl_dest e)"
  shows "flows (run_stages cx (local_engine P digits sroot droot) e) s"
proof -
  let ?d = "local_engine P digits sroot droot"
  have tail: "flows (io_bind (settle_budget cx e n) (\<lambda>_. io_bind (in_world (dr_verify ?d e)) (\<lambda>_.
      io_bind (count_stat f) (\<lambda>_. io_bind (in_world (dr_commit ?d e)) (\<lambda>_. io_bind (count_stat g) (\<lambda>_. io_return n)))))) s"
    if "quiet (rs_world s)" for n f g s
    by (rule flows_bind, rule flows_io, rule that, rule flows_bind, simp add: local_engine_def flows_world runs_calls,
        rule flows_bind, rule flows_io, assumption, rule flows_bind, simp add: local_engine_def flows_world runs_calls,
        rule flows_bind, rule flows_io, assumption, rule flows_io)
  show ?thesis
    unfolding run_stages_def
  proof (rule flows_bind, goal_cases)
    case 1
    show ?case using runs_engine(1) [OF s] by (simp add: local_engine_def flows_world)
  next
    case (2 u s1)
    then have r: "engine_read sroot e (rs_world s) = (Ok u, rs_world s1)"
      by (auto simp: local_engine_def in_world_def split: prod.splits)
    show ?case
    proof (rule flows_bind, goal_cases)
      case 1
      show ?case using 2(2) by (simp add: local_engine_def flows_world runs_calls)
    next
      case (2 v s2)
      then have "rs_world s2 = rs_world s1" by (auto simp: local_engine_def in_world_def io_return_def)
      then have "flows (in_world (dr_upload ?d e)) s2"
        using runs_engine(2) [OF 2(2) _ _ paths, of P digits] engine_read_files [OF r] engine_read_staged [OF r] s(2)
        by (simp add: local_engine_def flows_world)
      then show ?case by (rule flows_bind) (rule tail)
    qed
  qed
qed

lemma flows_transfer:
  assumes s: "quiet (rs_world s)" "lw_files (rs_world s) (from_logical sroot (pl_source e)) \<noteq> None"
    and paths: "apart sroot droot" "canonical (pl_dest e)"
  shows "flows (transfer_file (local_context None retries) op (local_engine P digits sroot droot) e) s"
proof -
  let ?d = "local_engine P digits sroot droot" and ?cx = "local_context None retries"
  have walk: "\<exists>n s'. walk_file ?cx ?d e s = (Inr n, s') \<and> quiet (rs_world s')"
    if "quiet (rs_world s)" "lw_files (rs_world s) (from_logical sroot (pl_source e)) \<noteq> None" for s
  proof -
    note stages = flows_stages [OF that paths, of ?cx P digits]
    obtain n s' where "run_stages ?cx ?d e s = (Inr n, s')" "quiet (rs_world s')"
      using stages by (auto simp: flows_def)
    then show ?thesis by (cases "attempts ?cx - 1") (auto simp: walk_file_def)
  qed
  show ?thesis
    unfolding transfer_file_def
  proof (rule flows_bind, goal_cases)
    case 1
    show ?case by (rule flows_io(5) [OF s(1)])
  next
    case (2 u s1)
    then have f1: "lw_files (rs_world s1) = lw_files (rs_world s)"
      by (auto simp: within_deadline_def local_context_def clock_exceeded_def Let_def split: if_splits)
    show ?case
    proof (rule flows_bind, goal_cases)
      case 1
      show ?case by (rule flows_io(4) [OF 2(2)])
    next
      case (2 v s2)
      then have "rs_world s2 = rs_world s1"
        by (auto simp: afford_def split: sum.splits)
      with walk [of s2] f1 s(2) 2(2) obtain n s3 where w: "walk_file ?cx ?d e s2 = (Inr n, s3)" "quiet (rs_world s3)"
        by auto
      have "flows (record_file ?cx op ?d e n (Ok ())) s3"
      proof -
        obtain h w' where h: "engine_take_hash e (rs_world s3) = (h, w')" "quiet w'"
          using w(2) by (auto simp: engine_take_hash_def quiet_def)
        have "flows (io_bind (in_world (cx_audit ?cx a)) (\<lambda>_. io_lift (Ok ()))) (s3\<lparr>rs_world := w'\<rparr>)" for a
          by (rule flows_bind, rule flows_audit) (simp_all add: h(2) flows_def)
        then show ?thesis using h(1) by (simp add: flows_def record_file_def local_engine_def)
      qed
      then show ?case by (simp add: w(1) flows_def)
    qed
  qed
qed

lemma flows_sync_entry:
  assumes s: "quiet (rs_world s)" "apart sroot droot"
    and e: "op_transfers (pl_action e) \<Longrightarrow> canonical (pl_source e) \<and> holds sroot (rs_world s) (pl_source e) \<noteq> None"
      "op_is_action (pl_action e) \<Longrightarrow> canonical (pl_dest e)"
  shows "flows (sync_entry (local_context None retries) (local_engine P digits sroot droot) (engine_remove droot) e) s \<and>
    trouble (snd (sync_entry (local_context None retries) (local_engine P digits sroot droot) (engine_remove droot) e s)) = trouble s"
proof -
  let ?d = "local_engine P digits sroot droot" and ?cx = "local_context None retries"
  have done_with: "flows (\<lambda>s. let (outcome, s) = m s in perform outcome s) s \<and>
      trouble (snd (let (outcome, s) = m s in perform outcome s)) = trouble s"
    if m: "flows m s" "calm m" for m :: "(local_world, unit) run_io"
  proof -
    obtain s1 where 1: "m s = (Ok (), s1)" "quiet (rs_world s1)" using m(1) by (auto simp: flows_def)
    with calmD [OF m(2) 1(1)] show ?thesis by (simp add: flows_def perform_def)
  qed
  show ?thesis
  proof (cases "op_transfers (pl_action e)")
    case True
    then have "lw_files (rs_world s) (from_logical sroot (pl_source e)) \<noteq> None" "canonical (pl_dest e)"
      using e by (auto simp: holds_def op_transfers_def op_is_action_def)
    from done_with [OF flows_transfer [OF s(1) this(1) s(2) this(2)] calm_transfer] True show ?thesis
      by (simp add: sync_entry_def)
  next
    case False
    have create: "flows (in_world (dr_create_dir ?d e)) s"
      by (simp add: local_engine_def flows_world runs_calls s(1))
    obtain s1 where 1: "in_world (engine_remove droot (pl_dest e)) s = (Ok (), s1)" "quiet (rs_world s1)"
      using flows_world [OF runs_calls(3) [OF s(1)]] by (auto simp: flows_def engine_remove_def)
    define gone where "gone = io_bind (in_world (cx_audit ?cx (removal_record ''sync'' (pl_dest e) (Ok ())))) (\<lambda>_.
      io_bind (perform (Ok ())) (\<lambda>_. count_stat (\<lambda>st. st\<lparr>st_deleted := st_deleted st + 1\<rparr>)))"
    have "flows gone s1"
      unfolding gone_def
      by (rule flows_bind, rule flows_audit, rule 1(2), rule flows_bind, rule flows_io(6), assumption, rule flows_io(2), assumption)
    moreover have "calm gone"
      unfolding gone_def by (intro calm_bind calm_io calm_count) (simp_all add: perform_def calm_def)
    moreover have "remove_one ?cx ''sync'' (engine_remove droot) e s = gone s1"
      by (simp add: remove_one_def 1 gone_def)
    ultimately have remove: "flows (remove_one ?cx ''sync'' (engine_remove droot) e) s \<and>
        trouble (snd (remove_one ?cx ''sync'' (engine_remove droot) e s)) = trouble s"
      using calmD [OF calm_io(1) 1(1)] calmD [of gone s1] by (auto simp: flows_def)
    from done_with [OF create calm_io(1)] remove False flows_io(1) [OF s(1), of "()"] show ?thesis
      by (simp add: sync_entry_def)
  qed
qed

lemma flows_sync_entries:
  assumes "quiet (rs_world s)" "apart sroot droot"
    and "\<forall>e \<in> set es. op_transfers (pl_action e) \<longrightarrow> canonical (pl_source e) \<and> holds sroot (rs_world s) (pl_source e) \<noteq> None"
    and "\<forall>e \<in> set es. op_is_action (pl_action e) \<longrightarrow> canonical (pl_dest e)"
  shows "flows (sync_entries (local_context None retries) (local_engine P digits sroot droot) (engine_remove droot) es) s \<and>
    trouble (snd (sync_entries (local_context None retries) (local_engine P digits sroot droot) (engine_remove droot) es s)) = trouble s"
  using assms
proof (induction es arbitrary: s)
  case Nil
  then show ?case by (simp add: flows_def)
next
  case (Cons e es)
  let ?go = "sync_entry (local_context None retries) (local_engine P digits sroot droot) (engine_remove droot)"
  obtain s1 where 1: "?go e s = (Ok (), s1)" "quiet (rs_world s1)" "trouble s1 = trouble s"
    using flows_sync_entry [of s sroot droot e retries P digits] Cons.prems by (auto simp: flows_def)
  have "holds sroot (rs_world s1) = holds sroot (rs_world s)"
    using two_dirs.sync_entry_sides [OF Cons.prems(2) 1(1)] Cons.prems(3,4) by simp
  then show ?case
    using Cons.IH [OF 1(2) Cons.prems(2)] Cons.prems(3,4) 1 by (auto simp: flows_def io_bind_def)
qed

section \<open>Sync and move between two directories\<close>

text \<open>A listing of a directory: its files are those that the directory holds, each once.\<close>

definition lists :: "str list \<Rightarrow> local_world \<Rightarrow> entry list \<Rightarrow> bool" where
  "lists side_root w es \<longleftrightarrow> distinct (map en_path es) \<and> (\<forall>e \<in> set es. canonical (en_path e)) \<and>
     (\<forall>p. holds side_root w p \<noteq> None \<longleftrightarrow> (\<exists>e \<in> set es. is_file e \<and> en_path e = p))"

lemma listsD:
  assumes "lists r w es"
  shows "distinct (map en_path es)" "e \<in> set es \<Longrightarrow> canonical (en_path e)"
    "e \<in> set es \<Longrightarrow> is_file e \<Longrightarrow> holds r w (en_path e) \<noteq> None"
    "holds r w p \<noteq> None \<Longrightarrow> \<exists>e \<in> set es. is_file e \<and> en_path e = p"
  using assms unfolding lists_def by blast+

lemma planned_action:
  assumes "planned policy dest item pe"
  shows "pl_action pe \<noteq> OpDelete" "op_transfers (pl_action pe) \<Longrightarrow> is_file item"
    "is_file item \<Longrightarrow> pl_action pe \<noteq> OpCreateDir"
    "\<not> is_file item \<Longrightarrow> counterpart dest (en_path item) \<noteq> None \<Longrightarrow> pl_action pe = OpSkip"
  using assms
  by (auto simp: planned_def file_entry_def empty_dir_entry_def op_transfers_def Let_def split: if_splits elim: action_op.elims)

text \<open>What the entries of a plan are, and that each listed path has one.\<close>

lemma plan_entries:
  assumes dest: "distinct (map en_path dest)" and plan: "compute source dest policy = Ok plan" and e: "e \<in> set plan"
  obtains (planned) item where "item \<in> set source" "planned policy dest item e"
  | (extra) item where "item \<in> set dest" "is_file item" "en_path item \<notin> en_path ` set source" "e = delete_entry item"
proof -
  obtain pes where pes: "list_all2 (planned policy dest) source pes"
    "plan = pes @ (if po_delete_extras policy then map delete_entry (extras source dest) else [])"
    using plan unfolding compute_Ok_iff [OF dest] by blast
  show thesis
  proof (cases "e \<in> set pes")
    case True
    then show thesis using list_all2_member(2) [OF pes(1)] planned by blast
  next
    case False
    with e pes(2) have "e \<in> delete_entry ` set (extras source dest)" by (auto split: if_splits)
    then obtain x where x: "x \<in> set (extras source dest)" "e = delete_entry x" by blast
    then have "x \<in> set dest" "is_file x" "en_path x \<notin> en_path ` set source" by (auto simp: extras_def)
    then show thesis using extra x(2) by blast
  qed
qed

lemma plan_covers:
  assumes dest: "distinct (map en_path dest)" and plan: "compute source dest policy = Ok plan"
  shows "item \<in> set source \<Longrightarrow> \<exists>e \<in> set plan. planned policy dest item e"
    "po_delete_extras policy \<Longrightarrow> item \<in> set dest \<Longrightarrow> is_file item \<Longrightarrow> en_path item \<notin> en_path ` set source \<Longrightarrow>
      delete_entry item \<in> set plan"
proof -
  obtain pes where pes: "list_all2 (planned policy dest) source pes"
    "plan = pes @ (if po_delete_extras policy then map delete_entry (extras source dest) else [])"
    using plan unfolding compute_Ok_iff [OF dest] by blast
  show "item \<in> set source \<Longrightarrow> \<exists>e \<in> set plan. planned policy dest item e"
    using list_all2_member(1) [OF pes(1)] pes(2) by fastforce
  show "po_delete_extras policy \<Longrightarrow> item \<in> set dest \<Longrightarrow> is_file item \<Longrightarrow> en_path item \<notin> en_path ` set source \<Longrightarrow>
      delete_entry item \<in> set plan"
    using pes(2) by (simp add: extras_def)
qed

lemma plan_entry_facts:
  assumes lists: "lists sroot w source" "lists droot w dest" and plan: "compute source dest policy = Ok plan" and e: "e \<in> set plan"
  shows "op_transfers (pl_action e) \<longrightarrow> canonical (pl_source e) \<and> holds sroot w (pl_source e) \<noteq> None \<and> pl_source e = pl_dest e"
    "canonical (pl_dest e)" "op_destroys (pl_action e) \<longrightarrow> holds sroot w (pl_dest e) = None"
proof -
  note src = listsD [OF lists(1)] and dst = listsD [OF lists(2)]
  have "(op_transfers (pl_action e) \<longrightarrow> canonical (pl_source e) \<and> holds sroot w (pl_source e) \<noteq> None \<and> pl_source e = pl_dest e) \<and>
      canonical (pl_dest e) \<and> (op_destroys (pl_action e) \<longrightarrow> holds sroot w (pl_dest e) = None)"
  proof (rule plan_entries [OF dst(1) plan e])
    fix item assume item: "item \<in> set source" "planned policy dest item e"
    note at = planned_dest [OF item(2)] and act = planned_action(1,2) [OF item(2)]
    have "canonical (en_path item)" by (rule src(2) [OF item(1)])
    moreover have "op_transfers (pl_action e) \<Longrightarrow> holds sroot w (en_path item) \<noteq> None"
      by (rule src(3) [OF item(1) act(2)])
    ultimately show ?thesis using at act(1) by (auto simp: op_destroys_def)
  next
    fix item assume item: "item \<in> set dest" "en_path item \<notin> en_path ` set source" "e = delete_entry item"
    then have gone: "holds sroot w (en_path item) = None" using src(4) [of "en_path item"] by (metis image_eqI)
    have "canonical (en_path item)" by (rule dst(2) [OF item(1)])
    with gone show ?thesis by (simp add: item(3) delete_entry_def op_transfers_def)
  qed
  then show "op_transfers (pl_action e) \<longrightarrow> canonical (pl_source e) \<and> holds sroot w (pl_source e) \<noteq> None \<and> pl_source e = pl_dest e"
    "canonical (pl_dest e)" "op_destroys (pl_action e) \<longrightarrow> holds sroot w (pl_dest e) = None" by blast+
qed

text \<open>When every entry is done, every path is settled.\<close>

lemma plan_settles:
  assumes lists: "lists sroot w source" "lists droot w dest" and plan: "compute source dest policy = Ok plan" "po_delete_extras policy"
    and either: "T' p = holds droot w p \<or> T' p = holds sroot w p"
    and finished: "\<And>e. e \<in> set plan \<Longrightarrow> op_transfers (pl_action e) \<or> op_destroys (pl_action e) \<Longrightarrow>
      T' (pl_dest e) = holds sroot w (pl_dest e)"
  shows "T' p = holds sroot w p \<or> T' p = holds droot w p \<and> (\<exists>e \<in> set plan. pl_dest e = p \<and> pl_action e = OpSkip)"
proof -
  note src = listsD [OF lists(1)] and dst = listsD [OF lists(2)]
  consider (both) "holds sroot w p = None" "holds droot w p = None" | (source) item where "item \<in> set source" "en_path item = p"
    | (extra) item where "item \<in> set dest" "is_file item" "en_path item = p" "p \<notin> en_path ` set source"
  proof (cases "p \<in> en_path ` set source")
    case True
    then show thesis using source by blast
  next
    case False
    then have "holds sroot w p = None" using src(4) [of p] by (metis image_eqI)
    moreover have "holds droot w p \<noteq> None \<Longrightarrow> thesis" using dst(4) [of p] extra False by blast
    ultimately show thesis using both by blast
  qed
  then show ?thesis
  proof cases
    case both
    with either show ?thesis by auto
  next
    case source
    then obtain e where e: "e \<in> set plan" "planned policy dest item e" using plan_covers(1) [OF dst(1) plan(1)] by blast
    note act = planned_action [OF e(2)] and at = planned_dest [OF e(2)]
    consider "op_transfers (pl_action e)" | "pl_action e = OpSkip" | "pl_action e = OpCreateDir"
      using act(1) by (cases "pl_action e") (auto simp: op_transfers_def)
    then show ?thesis
    proof cases
      case 1
      with finished [OF e(1)] at source(2) show ?thesis by simp
    next
      case 2
      with either e(1) at source(2) show ?thesis by blast
    next
      case 3
      have dir: "\<not> is_file item" using act(3) 3 by blast
      then have "counterpart dest p = None" using act(4) 3 source(2) by (cases "counterpart dest p") auto
      then have "holds droot w p = None" using dst(4) [of p] counterpart_None [of dest p] by blast
      moreover have "holds sroot w p = None"
      proof (rule ccontr)
        assume "holds sroot w p \<noteq> None"
        then obtain x where x: "x \<in> set source" "is_file x" "en_path x = p" using src(4) by blast
        then have "x = item" using source src(1) by (metis distinct_map inj_onD)
        with x(2) dir show False by simp
      qed
      ultimately show ?thesis using either by simp
    qed
  next
    case extra
    then have "delete_entry item \<in> set plan" using plan_covers(2) [OF dst(1) plan, of item] by simp
    from finished [OF this] extra(3) show ?thesis by (simp add: delete_entry_def op_destroys_def)
  qed
qed

text \<open>
  C33. A sync between two directories, with any of the three orders of deletion and whatever calls fail: the
  source stays as it was, and every path of the destination holds its old content or what the source holds
  there, which is nothing for a file that the source does not have. When the run returns without having
  counted a failure, every path holds what the source holds, but for the paths that the plan judged up to
  date, which are as they were. And when no call fails and no limit is set, the run does return so.
\<close>

theorem sync_mirrors:
  assumes dirs: "apart sroot droot" "lists sroot (rs_world s) source" "lists droot (rs_world s) dest"
    and plan: "compute source dest policy = Ok plan" "po_delete_extras policy"
    and run: "sync_run (local_context limit retries) (local_engine P digits sroot droot) (engine_remove droot) plan mode s = (r, s')"
  shows "holds sroot (rs_world s') = holds sroot (rs_world s) \<and>
    (\<forall>p. holds droot (rs_world s') p = holds droot (rs_world s) p \<or> holds droot (rs_world s') p = holds sroot (rs_world s) p) \<and>
    (r = Ok () \<and> trouble s' = trouble s \<longrightarrow> (\<forall>p. holds droot (rs_world s') p = holds sroot (rs_world s) p \<or>
      holds droot (rs_world s') p = holds droot (rs_world s) p \<and> (\<exists>e \<in> set plan. pl_dest e = p \<and> pl_action e = OpSkip))) \<and>
    (quiet (rs_world s) \<and> limit = None \<longrightarrow> r = Ok () \<and> trouble s' = trouble s)"
proof -
  let ?S = "holds sroot (rs_world s)" and ?T = "holds droot (rs_world s)" and ?T' = "holds droot (rs_world s')"
  note entry = plan_entry_facts [OF dirs(2,3) plan(1)]
  have distinct: "distinct (map pl_dest plan)"
    by (rule distinct_plan [OF listsD(1) [OF dirs(2)] listsD(1) [OF dirs(3)] plan(1)])
  have side: "\<forall>e \<in> set plan. (op_transfers (pl_action e) \<longrightarrow> canonical (pl_source e)) \<and>
      (op_is_action (pl_action e) \<longrightarrow> canonical (pl_dest e))"
    using entry by blast
  note sides = two_dirs.sync_run_sides [OF dirs(1) run distinct side]
  have acted: "?T' (pl_dest e) = ?S (pl_dest e)" if "e \<in> set plan" "acted e ?S (?T' (pl_dest e))" for e
    using entry [OF that(1)] that(2) unfolding acted_def by metis
  have either: "?T' p = ?T p \<or> ?T' p = ?S p" for p
    using sides acted by blast
  have settled: "?T' p = ?S p \<or> ?T' p = ?T p \<and> (\<exists>e \<in> set plan. pl_dest e = p \<and> pl_action e = OpSkip)"
    if "r = Ok ()" "trouble s' = trouble s" for p
    by (rule plan_settles [OF dirs(2,3) plan either]) (use sides acted that in blast)
  have quiet: "r = Ok () \<and> trouble s' = trouble s" if q: "quiet (rs_world s)" "limit = None"
  proof -
    have "set (sync_order mode plan) \<subseteq> set plan" by (auto simp: sync_order_set actions_def)
    then have "\<forall>e \<in> set (sync_order mode plan). op_transfers (pl_action e) \<longrightarrow> canonical (pl_source e) \<and> ?S (pl_source e) \<noteq> None"
      "\<forall>e \<in> set (sync_order mode plan). op_is_action (pl_action e) \<longrightarrow> canonical (pl_dest e)"
      using entry by blast+
    from flows_sync_entries [OF q(1) dirs(1) this, of retries P digits] run q(2)
    show ?thesis by (auto simp: sync_run_order flows_def)
  qed
  show ?thesis using sides either settled quiet by blast
qed

text \<open>
  Two directories for the examples: \<open>in\<close> has the files \<open>a\<close> and \<open>d/b\<close>, \<open>out\<close> has another \<open>a\<close> and \<open>x\<close>.
\<close>

definition sample_stats :: run_stats where
  "sample_stats = \<lparr>st_files_done = 0, st_verified_bytes = 0, st_errors = 0, st_mismatches = 0, st_deleted = 0,
     st_retries = 0, st_skipped = 0, st_checks_done = 0, st_checks_total = 0\<rparr>"

definition sample_file :: "bytes \<Rightarrow> local_file" where
  "sample_file b = \<lparr>lf_bytes = b, lf_time = Some 0\<rparr>"

definition sample_state :: "(nat \<Rightarrow> exit_code option) \<Rightarrow> local_world run_state" where
  "sample_state faults = \<lparr>rs_world = \<lparr>
       lw_files = (\<lambda>_. None)(
         [lit ''in'', lit ''a''] \<mapsto> sample_file [1], [lit ''in'', lit ''d'', lit ''b''] \<mapsto> sample_file [2],
         [lit ''out'', lit ''a''] \<mapsto> sample_file [3], [lit ''out'', lit ''x''] \<mapsto> sample_file [4]),
       lw_staged = (\<lambda>_. None), lw_hashes = (\<lambda>_. None), lw_seq = 0, lw_faults = faults, lw_log = [],
       lw_over = (\<lambda>_. False)\<rparr>,
     rs_spent = 0, rs_stats = sample_stats\<rparr>"

definition sample_source :: "entry list" where
  "sample_source = [with_modified (entry_file (lit ''a'') 1) 5, with_modified (entry_file (lit ''d/b'') 1) 5]"

definition sample_dest :: "entry list" where
  "sample_dest = [with_modified (entry_file (lit ''a'') 1) 0, with_modified (entry_file (lit ''x'') 1) 0]"

definition sample_policy :: policy where
  "sample_policy = policy_syncing \<lparr>cp_checksum = False, cp_size_only = False, cp_ignore_existing = False,
    cp_update = False, cp_modify_window = 1\<rparr>"

lemma sample_canonical: "canonical (lit ''a'')" "canonical (lit ''d/b'')" "canonical (lit ''x'')"
  unfolding canonical_def by code_simp+

lemma sample_apart: "apart [lit ''in''] [lit ''out'']"
  unfolding apart_def by code_simp

lemma split_on_canonical: "canonical q \<Longrightarrow> from_logical r p = r @ split_on slash q \<Longrightarrow> canonical p \<Longrightarrow> p = q"
  by (rule from_logical_inj) (simp_all add: from_logical_canonical)

lemma sample_splits: "split_on slash (lit ''a'') = [lit ''a'']" "split_on slash (lit ''d/b'') = [lit ''d'', lit ''b'']"
    "split_on slash (lit ''x'') = [lit ''x'']" "lit ''in'' \<noteq> lit ''out''" "lit ''a'' \<noteq> lit ''d/b''" "lit ''a'' \<noteq> lit ''x''"
  by code_simp+

lemma holds_dom:
  assumes "\<And>q. lw_files w (r @ q) \<noteq> None \<longleftrightarrow> q \<in> split_on slash ` A" "\<forall>p \<in> A. canonical p"
  shows "holds r w p \<noteq> None \<longleftrightarrow> p \<in> A"
proof -
  have "split_on slash p \<in> split_on slash ` A \<longleftrightarrow> p \<in> A" by (auto dest: arg_cong [of _ _ "join_with slash"] simp: join_split_on)
  with assms show ?thesis by (auto simp: holds_def from_logical_canonical)
qed

lemma sample_lists:
  "lists [lit ''in''] (rs_world (sample_state faults)) sample_source"
  "lists [lit ''out''] (rs_world (sample_state faults)) sample_dest"
proof -
  have "holds [lit ''in''] (rs_world (sample_state faults)) p \<noteq> None \<longleftrightarrow> p \<in> {lit ''a'', lit ''d/b''}" for p
    by (rule holds_dom) (auto simp: sample_state_def sample_splits sample_splits(4) [symmetric] sample_canonical simp del: lit_simps)
  then show "lists [lit ''in''] (rs_world (sample_state faults)) sample_source"
    by (auto simp: lists_def sample_source_def with_modified_def entry_file_def is_file_def sample_canonical sample_splits(5,6) simp del: lit_simps)
  have "holds [lit ''out''] (rs_world (sample_state faults)) p \<noteq> None \<longleftrightarrow> p \<in> {lit ''a'', lit ''x''}" for p
    by (rule holds_dom) (auto simp: sample_state_def sample_splits sample_splits(4) [symmetric] sample_canonical simp del: lit_simps)
  then show "lists [lit ''out''] (rs_world (sample_state faults)) sample_dest"
    by (auto simp: lists_def sample_dest_def with_modified_def entry_file_def is_file_def sample_canonical sample_splits(5,6) simp del: lit_simps)
qed

lemma sample_quiet: "quiet (rs_world (sample_state (\<lambda>_. None)))"
  by (simp add: quiet_def sample_state_def)

lemma sample_plan:
  obtains e f g where "compute sample_source sample_dest sample_policy = Ok [e, f, g]"
    "pl_action e = OpUpdate" "pl_action f = OpCopy" "pl_action g = OpDelete"
    "pl_dest e = lit ''a''" "pl_dest f = lit ''d/b''" "pl_dest g = lit ''x''"
proof -
  have "map_option (map (\<lambda>e. (pl_action e, pl_dest e)))
      (case compute sample_source sample_dest sample_policy of Inl _ \<Rightarrow> None | Inr plan \<Rightarrow> Some plan) =
    Some [(OpUpdate, lit ''a''), (OpCopy, lit ''d/b''), (OpDelete, lit ''x'')]"
    by code_simp
  then show ?thesis using that by (auto split: sum.splits)
qed

lemma sync_mirrors_witness:
  "\<exists>plan s'. compute sample_source sample_dest sample_policy = Ok plan \<and>
    sync_run (local_context None 3) (local_engine toy_prims (\<lambda>n. []) [lit ''in''] [lit ''out'']) (engine_remove [lit ''out''])
      plan During (sample_state (\<lambda>_. None)) = (Ok (), s') \<and>
    holds [lit ''out''] (rs_world s') = holds [lit ''in''] (rs_world (sample_state (\<lambda>_. None)))"
proof -
  obtain e f g where plan: "compute sample_source sample_dest sample_policy = Ok [e, f, g]"
    "pl_action e = OpUpdate" "pl_action f = OpCopy" "pl_action g = OpDelete"
    by (rule sample_plan)
  obtain r s' where run: "sync_run (local_context None 3) (local_engine toy_prims (\<lambda>n. []) [lit ''in''] [lit ''out''])
      (engine_remove [lit ''out'']) [e, f, g] During (sample_state (\<lambda>_. None)) = (r, s')" by fastforce
  have extras: "po_delete_extras sample_policy" by (simp add: sample_policy_def policy_syncing_def)
  note t = sync_mirrors [OF sample_apart sample_lists plan(1) extras run]
  have "r = Ok ()" "trouble s' = trouble (sample_state (\<lambda>_. None))" using t sample_quiet by simp_all
  then have "\<forall>p. holds [lit ''out''] (rs_world s') p = holds [lit ''in''] (rs_world (sample_state (\<lambda>_. None))) p"
    using t plan(2-4) by simp
  then have "holds [lit ''out''] (rs_world s') = holds [lit ''in''] (rs_world (sample_state (\<lambda>_. None)))"
    by (simp add: fun_eq_iff)
  with plan(1) run \<open>r = Ok ()\<close> show ?thesis by blast
qed

text \<open>
  C34. A move between two directories loses nothing, whatever calls fail and however the run ends: what the
  source held at a path is still there, or is at the destination of an entry of the plan for that path.
  The source changes only by losing files, and a path of the destination changes only to hold what
  the source held for it.
\<close>

theorem moves_lose_nothing:
  assumes dirs: "apart sroot droot" "lists sroot (rs_world s) source" "lists droot (rs_world s) dest"
    and plan: "compute source dest policy = Ok plan"
    and run: "run_moves (local_context limit retries) op (local_engine P digits sroot droot) (engine_remove sroot) plan s = (r, s')"
  shows "(\<forall>p c. holds sroot (rs_world s) p = Some c \<longrightarrow>
      holds sroot (rs_world s') p = Some c \<or> holds droot (rs_world s') p = Some c) \<and>
    (\<forall>p. holds sroot (rs_world s') p = holds sroot (rs_world s) p \<or> holds sroot (rs_world s') p = None) \<and>
    (\<forall>p. holds droot (rs_world s') p = holds droot (rs_world s) p \<or>
      holds sroot (rs_world s) p \<noteq> None \<and> holds droot (rs_world s') p = holds sroot (rs_world s) p)"
proof -
  note entry = plan_entry_facts [OF dirs(2,3) plan]
  have distinct: "distinct (map pl_dest plan)"
    by (rule distinct_plan [OF listsD(1) [OF dirs(2)] listsD(1) [OF dirs(3)] plan])
  have side: "\<forall>e \<in> set plan. canonical (pl_source e) \<and> canonical (pl_dest e) \<or> \<not> op_transfers (pl_action e)"
    using entry by blast
  let ?S = "holds sroot (rs_world s)" and ?T' = "holds droot (rs_world s')"
  note moved = two_dirs.run_moves_sides [OF dirs(1) run distinct side]
  have "holds sroot (rs_world s') p = Some c \<or> ?T' p = Some c" if "?S p = Some c" for p c
    using moved entry(1) that by (metis (no_types, lifting))
  moreover have "?T' p = holds droot (rs_world s) p \<or> ?S p \<noteq> None \<and> ?T' p = ?S p" for p
    using moved entry(1) by (metis (no_types, lifting))
  moreover have "holds sroot (rs_world s') p = ?S p \<or> holds sroot (rs_world s') p = None" for p
    using moved [THEN conjunct2, THEN conjunct1] by (rule spec)
  ultimately show ?thesis by (intro conjI allI impI) simp_all
qed

text \<open>
  In the example the seventh call fails: the first file has been read and staged, so that it stays where it
  was, and the run goes on.
\<close>

lemma moves_lose_nothing_witness:
  "\<exists>plan r s'. compute sample_source sample_dest sample_policy = Ok plan \<and>
    run_moves (local_context None 0) ''move'' (local_engine toy_prims (\<lambda>n. []) [lit ''in''] [lit ''out'']) (engine_remove [lit ''in''])
      plan (sample_state (\<lambda>n. if n = 6 then Some Uncategorised else None)) = (r, s') \<and>
    (holds [lit ''in''] (rs_world s') (lit ''a'') = Some [1] \<or> holds [lit ''out''] (rs_world s') (lit ''a'') = Some [1])"
proof -
  obtain plan where plan: "compute sample_source sample_dest sample_policy = Ok plan"
    by (rule sample_plan)
  let ?s = "sample_state (\<lambda>n. if n = 6 then Some Uncategorised else None)"
  obtain r s' where run: "run_moves (local_context None 0) ''move'' (local_engine toy_prims (\<lambda>n. []) [lit ''in''] [lit ''out''])
      (engine_remove [lit ''in'']) plan ?s = (r, s')" by fastforce
  have "holds [lit ''in''] (rs_world ?s) (lit ''a'') = Some [1]"
    by (simp add: holds_def sample_canonical from_logical_canonical sample_splits sample_state_def sample_file_def del: lit_simps)
  with moves_lose_nothing [OF sample_apart sample_lists plan run] plan run show ?thesis by blast
qed

end
