(* ===== verification/Envelope.thy ===== *)
theory Envelope
  imports Primitives
begin

text \<open>
  \<open>dctl-crypto/src/envelope\<close>: the vault envelope that carries the root key, wrapped once per key
  slot, its serializer and parser, and the wrapping of a slot.
\<close>

section \<open>The model\<close>

definition WRAPPED_ROOT_LEN :: nat where
  [simp]: "WRAPPED_ROOT_LEN = NONCE_LEN + KEY_LEN + TAG_LEN"

definition ENV_HEADER_LEN :: nat where
  [simp]: "ENV_HEADER_LEN = 4 + 1 + VAULT_ID_LEN + 2"

record slot =
  slot_type :: byte
  slot_flags :: byte
  slot_kdf_id :: byte
  slot_wrap_algo :: byte
  slot_m_cost :: u32
  slot_t_cost :: u32
  slot_p_lanes :: u32
  slot_commit :: bytes
  slot_salt :: bytes
  slot_aux :: bytes
  slot_wrapped_root :: bytes

record envelope =
  e_vault_id :: bytes
  e_slots :: "slot list"

definition generate_vault_id :: "rng \<Rightarrow> bytes \<times> rng" where
  "generate_vault_id r = rng_fill VAULT_ID_LEN r"

section \<open>Serializing\<close>

definition u32_try_from :: "string \<Rightarrow> nat \<Rightarrow> u32 crypto" where
  "u32_try_from e n = (if n < 2 ^ 32 then Ok (of_nat n) else Err (Format e))"

definition serialize_slot :: "slot \<Rightarrow> bytes \<Rightarrow> bytes crypto" where
  "serialize_slot s out =
     and_then (len_u8 ''slot salt too long'' (slot_salt s)) (\<lambda>salt_len.
     and_then (len_u16 ''slot aux too long'' (slot_aux s)) (\<lambda>aux_len.
     and_then (len_u16 ''slot wrapped_root too long'' (slot_wrapped_root s)) (\<lambda>wrap_len.
     and_then (ok_or (Format ''slot_len overflow'')
       (Option.bind (Option.bind (checked_add SLOT_FIXED_PREFIX_LEN (unat salt_len))
         (\<lambda>v. checked_add v (unat aux_len))) (\<lambda>v. checked_add v (unat wrap_len)))) (\<lambda>len.
     and_then (u32_try_from ''slot_len overflow'' len) (\<lambda>slot_len.
     Ok (out @ u32_le slot_len
       @ [slot_type s, slot_flags s, slot_kdf_id s, slot_wrap_algo s]
       @ u32_le (slot_m_cost s) @ u32_le (slot_t_cost s) @ u32_le (slot_p_lanes s)
       @ slot_commit s @ [salt_len] @ slot_salt s @ u16_le aux_len @ slot_aux s
       @ u16_le wrap_len @ slot_wrapped_root s))))))"

fun serialize_slots :: "slot list \<Rightarrow> bytes \<Rightarrow> bytes crypto" where
  "serialize_slots [] out = Ok out"
| "serialize_slots (s # ss) out = and_then (serialize_slot s out) (serialize_slots ss)"

definition serialize :: "envelope \<Rightarrow> bytes crypto" where
  "serialize env =
     (if e_slots env = [] \<or> MAX_SLOT_COUNT < length (e_slots env)
        then Err (Format ''slot_count out of range (1..=64)'')
      else serialize_slots (e_slots env)
        (ENVELOPE_MAGIC @ [ENVELOPE_VERSION] @ e_vault_id env
          @ u16_le (of_nat (length (e_slots env)))))"

section \<open>Parsing\<close>

definition rd_u32 :: "bytes \<Rightarrow> nat \<Rightarrow> u32 crypto" where
  "rd_u32 bs p = and_then (slice_at p (p + 4) bs) (\<lambda>b. Ok (u32_from_le b))"

definition rd_u16 :: "bytes \<Rightarrow> nat \<Rightarrow> u16 crypto" where
  "rd_u16 bs p = and_then (slice_at p (p + 2) bs) (\<lambda>b. Ok (u16_from_le b))"

definition parse_slot :: "bytes \<Rightarrow> nat \<Rightarrow> (slot \<times> nat) crypto" where
  "parse_slot bs off =
     and_then (ok_or (Format ''slot offset overflow'') (checked_add off SLOT_FIXED_PREFIX_LEN))
       (\<lambda>need_prefix.
     if length bs < need_prefix then Err (Format ''slot truncated (prefix)'') else
     and_then (rd_u32 bs off) (\<lambda>slot_len.
     and_then (byte_at (off + 4) bs) (\<lambda>ty.
     and_then (byte_at (off + 5) bs) (\<lambda>flags.
     and_then (byte_at (off + 6) bs) (\<lambda>kdf_id.
     and_then (byte_at (off + 7) bs) (\<lambda>wrap_algo.
     and_then (rd_u32 bs (off + 8)) (\<lambda>m_cost.
     and_then (rd_u32 bs (off + 12)) (\<lambda>t_cost.
     and_then (rd_u32 bs (off + 16)) (\<lambda>p_lanes.
     and_then (slice_at (off + 20) (off + 52) bs) (\<lambda>commit.
     and_then (byte_at (off + 52) bs) (\<lambda>salt_len.
     let salt_start = off + 53 in
     and_then (ok_or (Format ''slot salt overruns'')
       (Option.bind (checked_add off 53) (\<lambda>v. checked_add v (unat salt_len)))) (\<lambda>aux_len_pos.
     if length bs < aux_len_pos + 2 then Err (Format ''slot truncated (aux_len)'') else
     and_then (rd_u16 bs aux_len_pos) (\<lambda>aux_len.
     and_then (ok_or (Format ''slot aux overruns'')
       (Option.bind (checked_add aux_len_pos 2) (\<lambda>v. checked_add v (unat aux_len)))) (\<lambda>wrap_len_pos.
     if length bs < wrap_len_pos + 2 then Err (Format ''slot truncated (wrap_len)'') else
     and_then (rd_u16 bs wrap_len_pos) (\<lambda>wrap_len.
     and_then (ok_or (Format ''slot length overflow'')
       (Option.bind (Option.bind (checked_add SLOT_FIXED_PREFIX_LEN (unat salt_len))
         (\<lambda>v. checked_add v (unat aux_len))) (\<lambda>v. checked_add v (unat wrap_len)))) (\<lambda>expected.
     if unat slot_len \<noteq> expected
       then Err (Format ''slot_len != 57 + salt_len + aux_len + wrap_len'') else
     and_then (ok_or (Format ''slot end overflow'') (checked_add off (unat slot_len))) (\<lambda>slot_end.
     if length bs < slot_end then Err (Format ''slot overruns envelope'') else
     if wrap_algo = WRAP_ALGO_XCHACHA20_POLY1305 \<and> unat wrap_len \<noteq> WRAPPED_ROOT_LEN
       then Err (Format ''wrap_len != 72 for XChaCha20-Poly1305 slot'') else
     and_then (slice_at salt_start (salt_start + unat salt_len) bs) (\<lambda>salt.
     let aux_start = aux_len_pos + 2 in
     and_then (slice_at aux_start (aux_start + unat aux_len) bs) (\<lambda>aux.
     let wr_start = wrap_len_pos + 2 in
     and_then (slice_at wr_start (wr_start + unat wrap_len) bs) (\<lambda>wrapped_root.
     Ok (\<lparr>slot_type = ty, slot_flags = flags, slot_kdf_id = kdf_id, slot_wrap_algo = wrap_algo,
          slot_m_cost = m_cost, slot_t_cost = t_cost, slot_p_lanes = p_lanes,
          slot_commit = commit, slot_salt = salt, slot_aux = aux,
          slot_wrapped_root = wrapped_root\<rparr>, slot_end)))))))))))))))))))))"

text \<open>The loop over \<open>slot_count\<close>: the slots in order and the offset after the last.\<close>

fun parse_slots :: "nat \<Rightarrow> bytes \<Rightarrow> nat \<Rightarrow> (slot list \<times> nat) crypto" where
  "parse_slots 0 bs off = Ok ([], off)"
| "parse_slots (Suc n) bs off =
     and_then (parse_slot bs off) (\<lambda>(s, next).
     and_then (parse_slots n bs next) (\<lambda>(ss, stop). Ok (s # ss, stop)))"

definition parse :: "bytes \<Rightarrow> envelope crypto" where
  "parse bs =
     (if length bs < ENV_HEADER_LEN then Err (Format ''envelope too short'') else
      and_then (slice_at 0 4 bs) (\<lambda>magic.
      if magic \<noteq> ENVELOPE_MAGIC then Err (Format ''bad envelope magic'') else
      and_then (byte_at 4 bs) (\<lambda>version.
      if version \<noteq> ENVELOPE_VERSION then Err (Format ''unsupported envelope version'') else
      and_then (slice_at 5 (5 + VAULT_ID_LEN) bs) (\<lambda>vault_id.
      and_then (slice_at 21 23 bs) (\<lambda>sc.
      let slot_count = u16_from_le sc in
      if slot_count = 0 \<or> MAX_SLOT_COUNT < unat slot_count
        then Err (Format ''slot_count out of range (1..=64)'') else
      and_then (parse_slots (unat slot_count) bs ENV_HEADER_LEN) (\<lambda>(slots, off).
      if off \<noteq> length bs then Err (Format ''trailing bytes after slots'') else
      Ok \<lparr>e_vault_id = vault_id, e_slots = slots\<rparr>))))))"

section \<open>The contract of the format\<close>

definition valid_slot :: "slot \<Rightarrow> bool" where
  "valid_slot s \<longleftrightarrow>
     length (slot_commit s) = COMMIT_LEN \<and> length (slot_salt s) < 2 ^ 8 \<and>
     length (slot_aux s) < 2 ^ 16 \<and> length (slot_wrapped_root s) < 2 ^ 16 \<and>
     (slot_wrap_algo s = WRAP_ALGO_XCHACHA20_POLY1305 \<longrightarrow>
        length (slot_wrapped_root s) = WRAPPED_ROOT_LEN)"

definition valid_envelope :: "envelope \<Rightarrow> bool" where
  "valid_envelope e \<longleftrightarrow>
     length (e_vault_id e) = VAULT_ID_LEN \<and> e_slots e \<noteq> [] \<and>
     length (e_slots e) \<le> MAX_SLOT_COUNT \<and> (\<forall>s \<in> set (e_slots e). valid_slot s)"

text \<open>The image of a slot, apart from what \<open>serialize_slot\<close> checks.\<close>

definition slot_fixed :: "slot \<Rightarrow> bytes" where
  "slot_fixed s =
     u32_le (of_nat (57 + length (slot_salt s) + length (slot_aux s) + length (slot_wrapped_root s)))
     @ [slot_type s, slot_flags s, slot_kdf_id s, slot_wrap_algo s]
     @ u32_le (slot_m_cost s) @ u32_le (slot_t_cost s) @ u32_le (slot_p_lanes s)
     @ slot_commit s @ [of_nat (length (slot_salt s))]"

definition slot_image :: "slot \<Rightarrow> bytes" where
  "slot_image s = slot_fixed s @ slot_salt s @ u16_le (of_nat (length (slot_aux s))) @ slot_aux s
     @ u16_le (of_nat (length (slot_wrapped_root s))) @ slot_wrapped_root s"

lemma serialize_slot_image:
  "valid_slot s \<Longrightarrow> serialize_slot s out = Ok (out @ slot_image s)"
  by (simp add: serialize_slot_def valid_slot_def len_u8_def len_u16_def u32_try_from_def
      checked_add_def U64_MAX_def unat_of_nat slot_image_def slot_fixed_def)

lemma serialize_slots_image:
  "\<forall>s \<in> set ss. valid_slot s \<Longrightarrow>
   serialize_slots ss out = Ok (out @ concat (map slot_image ss))"
  by (induction ss arbitrary: out) (simp_all add: serialize_slot_image)

lemma length_slot_image:
  "valid_slot s \<Longrightarrow> length (slot_image s)
     = 57 + length (slot_salt s) + length (slot_aux s) + length (slot_wrapped_root s)"
  by (simp add: slot_image_def slot_fixed_def valid_slot_def)

lemma slot_image_small: "valid_slot s \<Longrightarrow> length (slot_image s) < 2 ^ 18"
  by (simp add: length_slot_image valid_slot_def)

lemma bind_checked_Some_iff [simp]:
  "Option.bind m (\<lambda>v. checked_add v a) = Some c \<longleftrightarrow> (\<exists>v. m = Some v \<and> c = v + a \<and> v + a \<le> U64_MAX)"
  by (cases m) auto

lemma parse_slot_image:
  assumes valid: "valid_slot s" and max: "length xs + length (slot_image s) \<le> U64_MAX"
  shows "parse_slot (xs @ slot_image s @ ys) (length xs) = Ok (s, length xs + length (slot_image s))"
proof -
  have len: "length (slot_fixed s) = 53"
    using valid by (simp add: slot_fixed_def valid_slot_def)
  have small: "length (slot_salt s) < 256" "length (slot_aux s) < 65536"
    "length (slot_wrapped_root s) < 65536"
    using valid by (auto simp: valid_slot_def)
  define w :: u32 where "w = of_nat (57 + length (slot_salt s) + length (slot_aux s)
      + length (slot_wrapped_root s))"
  have w: "unat w = 57 + length (slot_salt s) + length (slot_aux s) + length (slot_wrapped_root s)"
    using small unfolding w_def by (subst unat_of_nat) simp
  have fixed: "seg 0 4 (slot_fixed s) = u32_le w"
    "slot_fixed s ! 4 = slot_type s" "slot_fixed s ! 5 = slot_flags s"
    "slot_fixed s ! 6 = slot_kdf_id s" "slot_fixed s ! 7 = slot_wrap_algo s"
    "seg 8 12 (slot_fixed s) = u32_le (slot_m_cost s)"
    "seg 12 16 (slot_fixed s) = u32_le (slot_t_cost s)"
    "seg 16 20 (slot_fixed s) = u32_le (slot_p_lanes s)"
    "seg 20 52 (slot_fixed s) = slot_commit s"
    "slot_fixed s ! 52 = of_nat (length (slot_salt s))"
    using valid by (simp_all add: slot_fixed_def valid_slot_def seg_def nth_append w_def)
  show ?thesis
    using max len small valid fixed w
    unfolding length_slot_image [OF valid] parse_slot_def Let_def
    by (simp add: slot_image_def rd_u32_def rd_u16_def checked_add_def
        nth_append unat_of_nat valid_slot_def)
qed


lemma parse_slots_image:
  assumes "\<forall>s \<in> set ss. valid_slot s"
    and "length xs + length (concat (map slot_image ss)) \<le> U64_MAX"
  shows "parse_slots (length ss) (xs @ concat (map slot_image ss) @ ys) (length xs)
    = Ok (ss, length xs + length (concat (map slot_image ss)))"
  using assms
proof (induction ss arbitrary: xs)
  case (Cons s ss)
  then have "parse_slot (xs @ slot_image s @ concat (map slot_image ss) @ ys) (length xs)
    = Ok (s, length xs + length (slot_image s))"
    by (intro parse_slot_image) simp_all
  then show ?case
    using Cons.IH [of "xs @ slot_image s"] Cons.prems by (simp add: add.assoc)
qed simp

lemma serialize_image:
  "valid_envelope e \<Longrightarrow> serialize e = Ok (ENVELOPE_MAGIC @ [ENVELOPE_VERSION] @ e_vault_id e
     @ u16_le (of_nat (length (e_slots e))) @ concat (map slot_image (e_slots e)))"
  by (simp add: serialize_def valid_envelope_def serialize_slots_image)

lemma length_slot_images:
  "\<forall>s \<in> set ss. valid_slot s \<Longrightarrow> length (concat (map slot_image ss)) \<le> length ss * 2 ^ 18"
proof (induction ss)
  case (Cons s ss)
  then have "length (slot_image s) < 2 ^ 18" using slot_image_small [of s] by simp
  with Cons show ?case by simp
qed simp

lemma parse_serialize:
  assumes "valid_envelope e" and "serialize e = Ok bs"
  shows "parse bs = Ok e"
proof -
  define fixed where "fixed = ENVELOPE_MAGIC @ [ENVELOPE_VERSION] @ e_vault_id e
     @ u16_le (of_nat (length (e_slots e)))"
  have bs: "bs = fixed @ concat (map slot_image (e_slots e)) @ []"
    using assms by (simp add: serialize_image fixed_def)
  have len: "length fixed = 23" and count: "0 < length (e_slots e)" "length (e_slots e) \<le> 64"
    using assms by (auto simp: fixed_def valid_envelope_def)
  have head: "seg 0 4 fixed = ENVELOPE_MAGIC" "fixed ! 4 = ENVELOPE_VERSION"
    "seg 5 21 fixed = e_vault_id e" "seg 21 23 fixed = u16_le (of_nat (length (e_slots e)))"
    using assms by (simp_all add: fixed_def valid_envelope_def seg_def nth_append)
  have "length (concat (map slot_image (e_slots e))) \<le> length (e_slots e) * 2 ^ 18"
    using assms by (intro length_slot_images) (simp add: valid_envelope_def)
  also have "\<dots> \<le> 64 * 2 ^ 18"
    using count by simp
  finally have "parse_slots (length (e_slots e)) bs (length fixed)
    = Ok (e_slots e, length fixed + length (concat (map slot_image (e_slots e))))"
    unfolding bs using assms len
    by (intro parse_slots_image) (simp_all add: valid_envelope_def U64_MAX_def)
  moreover have "(of_nat (length (e_slots e)) :: u16) \<noteq> 0"
    "unat (of_nat (length (e_slots e)) :: u16) = length (e_slots e)"
    using count by (simp_all add: unat_of_nat word_of_nat_eq_0_iff nat_dvd_not_less)
  ultimately show ?thesis
    using head len count by (simp add: parse_def Let_def bs nth_append)
qed


lemma parse_slot_Ok:
  assumes "parse_slot bs off = Ok (s, stop)"
  shows "valid_slot s \<and> off \<le> stop \<and> stop \<le> length bs \<and> slot_image s = seg off stop bs"
proof -
  define a where "a = off + 53 + unat (bs ! (off + 52))"
  define w where "w = a + 2 + unat (u16_from_le (seg a (a + 2) bs))"
  define e where "e = w + 2 + unat (u16_from_le (seg w (w + 2) bs))"
  have parts: "s = \<lparr>slot_type = bs ! (off + 4), slot_flags = bs ! (off + 5),
      slot_kdf_id = bs ! (off + 6), slot_wrap_algo = bs ! (off + 7),
      slot_m_cost = u32_from_le (seg (off + 8) (off + 8 + 4) bs),
      slot_t_cost = u32_from_le (seg (off + 12) (off + 12 + 4) bs),
      slot_p_lanes = u32_from_le (seg (off + 16) (off + 16 + 4) bs),
      slot_commit = seg (off + 20) (off + 52) bs,
      slot_salt = seg (off + 53) a bs,
      slot_aux = seg (a + 2) w bs,
      slot_wrapped_root = seg (w + 2) e bs\<rparr> \<and>
    stop = off + unat (u32_from_le (seg off (off + 4) bs)) \<and>
    unat (u32_from_le (seg off (off + 4) bs)) = 57 + unat (bs ! (off + 52))
      + unat (u16_from_le (seg a (a + 2) bs)) + unat (u16_from_le (seg w (w + 2) bs)) \<and>
    stop \<le> length bs \<and>
    \<not> (bs ! (off + 7) = 1 \<and> unat (u16_from_le (seg w (w + 2) bs)) \<noteq> WRAPPED_ROOT_LEN)"
    using assms
    unfolding parse_slot_def Let_def and_then_Ok_iff if_Err_Ok_iff slice_at_Ok_iff
      byte_at_Ok_iff ok_or_Ok_iff bind_checked_Some_iff checked_Some_iff rd_u32_def rd_u16_def
      not_less not_not
      WRAP_ALGO_XCHACHA20_POLY1305_def SLOT_FIXED_PREFIX_LEN_def sum.inject prod.inject
    by (elim exE conjE, hypsubst, unfold a_def [symmetric], unfold w_def [symmetric],
        unfold e_def [symmetric]) (intro conjI TrueI refl; assumption)
  have order: "off + 53 \<le> a" "a + 2 \<le> w" "w + 2 \<le> e"
    by (simp_all add: a_def w_def e_def)
  have spans: "a - (off + 53) = unat (bs ! (off + 52))"
    "w - (a + 2) = unat (u16_from_le (seg a (a + 2) bs))"
    "e - (w + 2) = unat (u16_from_le (seg w (w + 2) bs))"
    by (simp_all add: a_def w_def e_def)
  have "stop = e"
    using parts by (simp add: a_def w_def e_def)
  then have in_range: "e \<le> length bs" "off \<le> e"
    using parts order by auto
  then have u16: "u16_le (u16_from_le (seg a (a + 2) bs)) = seg a (a + 2) bs"
    "u16_le (u16_from_le (seg w (w + 2) bs)) = seg w (w + 2) bs"
    using order by (simp_all add: to_from_le)
  have lens: "length (slot_salt s) = unat (bs ! (off + 52))"
    "length (slot_aux s) = unat (u16_from_le (seg a (a + 2) bs))"
    "length (slot_wrapped_root s) = unat (u16_from_le (seg w (w + 2) bs))"
    using parts order spans in_range by auto
  have bytes: "[bs ! (off + 4), bs ! (off + 5), bs ! (off + 6), bs ! (off + 7)] = seg (off + 4) (off + 8) bs"
    "[bs ! (off + 52)] = seg (off + 52) (off + 53) bs"
    using order in_range by (simp_all add: seg_Cons add.commute [of _ off])
  have "57 + length (slot_salt s) + length (slot_aux s) + length (slot_wrapped_root s)
      = unat (u32_from_le (seg off (off + 4) bs))"
    using parts unfolding lens by (elim conjE) (erule sym)
  then have total: "u32_le (of_nat (57 + length (slot_salt s) + length (slot_aux s)
      + length (slot_wrapped_root s))) = seg off (off + 4) bs"
    using order in_range by (simp only: of_nat_unat) (simp add: to_from_le)
  have "slot_fixed s = seg off (off + 4) bs @ seg (off + 4) (off + 8) bs
      @ seg (off + 8) (off + 8 + 4) bs @ seg (off + 12) (off + 12 + 4) bs
      @ seg (off + 16) (off + 16 + 4) bs @ seg (off + 20) (off + 52) bs @ seg (off + 52) (off + 53) bs"
    using parts order in_range unfolding slot_fixed_def total unfolding lens bytes [symmetric]
    by (simp add: to_from_le)
  then have "slot_fixed s = seg off (off + 53) bs"
    by (simp add: add.commute [of off])
  then have "slot_image s = seg off e bs"
    using parts order in_range lens(2,3) by (simp add: slot_image_def u16)
  moreover have "valid_slot s"
    using parts lens order in_range unat_byte_bound [of "bs ! (off + 52)"]
      unat_bounds(1) [of "u16_from_le (seg a (a + 2) bs)"]
      unat_bounds(1) [of "u16_from_le (seg w (w + 2) bs)"]
    by (auto simp: valid_slot_def)
  ultimately show ?thesis
    using \<open>stop = e\<close> in_range by simp
qed

lemma parse_slots_Ok:
  assumes "parse_slots n bs off = Ok (ss, stop)" and "off \<le> length bs"
  shows "length ss = n \<and> (\<forall>s \<in> set ss. valid_slot s) \<and> off \<le> stop \<and> stop \<le> length bs \<and>
    concat (map slot_image ss) = seg off stop bs"
  using assms
proof (induction n arbitrary: off ss)
  case (Suc n)
  then obtain s off' rest where first: "parse_slot bs off = Ok (s, off')"
    and rest: "parse_slots n bs off' = Ok (rest, stop)" and ss: "ss = s # rest"
    by (auto simp: and_then_Ok_iff split: prod.splits)
  note head = parse_slot_Ok [OF first]
  then show ?case
    using Suc.IH [OF rest] unfolding ss by auto
qed simp

lemma serialize_parse:
  assumes "parse bs = Ok e"
  shows "valid_envelope e" and "serialize e = Ok bs"
proof -
  from assms obtain stop where magic: "seg 0 4 bs = ENVELOPE_MAGIC" "bs ! 4 = ENVELOPE_VERSION"
    and len: "23 \<le> length bs" and id: "e_vault_id e = seg 5 21 bs"
    and count: "u16_from_le (seg 21 23 bs) \<noteq> 0" "unat (u16_from_le (seg 21 23 bs)) \<le> 64"
    and slots: "parse_slots (unat (u16_from_le (seg 21 23 bs))) bs 23 = Ok (e_slots e, stop)"
    and stop: "stop = length bs"
    by (auto simp: parse_def Let_def and_then_Ok_iff slice_at_Ok_iff byte_at_Ok_iff not_less)
  note images = parse_slots_Ok [OF slots len]
  have "e_slots e \<noteq> []"
    using images count(1) by (auto simp: unat_eq_0)
  then show valid: "valid_envelope e"
    using images count len id by (auto simp: valid_envelope_def)
  have "length (seg 21 23 bs) = 2"
    using len by simp
  then have "u16_le (of_nat (length (e_slots e))) = seg 21 23 bs"
    using images by (simp add: to_from_le del: length_seg)
  moreover have "[ENVELOPE_VERSION] = seg 4 5 bs"
    using magic(2) len by (simp add: seg_Cons)
  ultimately show "serialize e = Ok bs"
    unfolding serialize_image [OF valid] id magic(1) [symmetric]
    using images len stop by simp
qed

lemma no_panic_parse_slot [no_panic_intros]: "no_panic (parse_slot bs off)"
  unfolding parse_slot_def Let_def rd_u32_def rd_u16_def
  by (intro no_panic_intros) (auto simp: not_less simp del: Option.bind_assoc)

lemma no_panic_parse_slots [no_panic_intros]: "no_panic (parse_slots n bs off)"
  by (induction n arbitrary: off) (auto intro!: no_panic_intros split: prod.splits)

lemma no_panic_parse: "no_panic (parse bs)"
  unfolding parse_def Let_def
  by (intro no_panic_intros) (auto simp: not_less intro!: no_panic_intros split: prod.splits)

interpretation envelope_format: exact_format serialize parse valid_envelope
  using serialize_image parse_serialize serialize_parse by unfold_locales blast+

section \<open>Wrapping a slot\<close>

definition slot_aad ::
  "bytes \<Rightarrow> byte \<Rightarrow> byte \<Rightarrow> byte \<Rightarrow> byte \<Rightarrow> bytes \<Rightarrow> bytes \<Rightarrow> bytes crypto" where
  "slot_aad vault_id ty flags kdf_id wrap_algo salt aux =
     and_then (len_u8 ''salt too long'' salt) (\<lambda>salt_len.
     and_then (len_u16 ''aux too long'' aux) (\<lambda>aux_len.
     Ok (SLOT_AAD_PREFIX @ vault_id @ [ty, flags, kdf_id, wrap_algo, salt_len] @ salt
         @ u16_le aux_len @ aux)))"

definition commitment :: "prims \<Rightarrow> bytes \<Rightarrow> bytes crypto" where
  "commitment P kek = derive_subkey P kek SLOT_COMMIT_INFO"

definition wrap_slot ::
  "prims \<Rightarrow> bytes \<Rightarrow> bytes \<Rightarrow> bytes \<Rightarrow> byte \<Rightarrow> byte \<Rightarrow> u32 \<Rightarrow> u32 \<Rightarrow> u32 \<Rightarrow> bytes \<Rightarrow> bytes \<Rightarrow> rng
     \<Rightarrow> (slot \<times> rng) crypto" where
  "wrap_slot P kek root_key vault_id ty kdf_id m_cost t_cost p_lanes salt aux r =
     (let flags = 0; wrap_algo = WRAP_ALGO_XCHACHA20_POLY1305 in
      and_then (slot_aad vault_id ty flags kdf_id wrap_algo salt aux) (\<lambda>aad.
      and_then (aead_encrypt P kek root_key aad r) (\<lambda>(wrapped_root, r').
      and_then (commitment P kek) (\<lambda>commit.
      Ok (\<lparr>slot_type = ty, slot_flags = flags, slot_kdf_id = kdf_id, slot_wrap_algo = wrap_algo,
           slot_m_cost = m_cost, slot_t_cost = t_cost, slot_p_lanes = p_lanes,
           slot_commit = commit, slot_salt = salt, slot_aux = aux,
           slot_wrapped_root = wrapped_root\<rparr>, r')))))"

definition unwrap_slot :: "prims \<Rightarrow> slot \<Rightarrow> bytes \<Rightarrow> bytes \<Rightarrow> bytes crypto" where
  "unwrap_slot P s kek vault_id =
     and_then (commitment P kek) (\<lambda>expected.
     if expected \<noteq> slot_commit s then Err Aead else
     and_then (slot_aad vault_id (slot_type s) (slot_flags s) (slot_kdf_id s) (slot_wrap_algo s)
       (slot_salt s) (slot_aux s)) (\<lambda>aad.
     and_then (aead_decrypt P kek (slot_wrapped_root s) aad) (\<lambda>pt.
     if length pt \<noteq> KEY_LEN then Err (Format ''unwrapped root wrong length'') else Ok pt)))"

text \<open>
  The additional data of a slot determines every field it binds: no two slots of different
  shape share it.
\<close>

lemma slot_aad_inj:
  assumes "slot_aad v t f k w s a = Ok x" and "slot_aad v' t' f' k' w' s' a' = Ok x"
    and "length v = VAULT_ID_LEN" "length v' = VAULT_ID_LEN"
  shows "v = v' \<and> t = t' \<and> f = f' \<and> k = k' \<and> w = w' \<and> s = s' \<and> a = a'"
proof -
  have len: "length s < 256" "length s' < 256" and fields: "v = v'" "t = t'" "f = f'" "k = k'"
    "w = w'" "(of_nat (length s) :: byte) = of_nat (length s')"
    and tail: "s @ u16_le (of_nat (length a)) @ a = s' @ u16_le (of_nat (length a')) @ a'"
    using assms by (auto simp: slot_aad_def and_then_Ok_iff)
  have "unat (of_nat (length s) :: byte) = unat (of_nat (length s') :: byte)"
    using fields(6) by simp
  then have "length s = length s'"
    using len by (simp only: unat_of_nat) simp
  with tail fields show ?thesis by simp
qed

lemma commitment_ok:
  assumes "hkdf_ok P"
  obtains c where "commitment P kek = Ok c" "length c = 32"
  using derive_subkey_ok [OF assms] by (metis commitment_def)

text \<open>Wrapping then unwrapping under the same key gives the root key back.\<close>

lemma unwrap_wrap_slot:
  assumes P: "cipher_ok P" "hkdf_ok P" and len: "length kek = 32" "length root = 32"
    and fields: "length salt < 256" "length aux < 65536"
  obtains s r' where
    "wrap_slot P kek root vid ty kdf m t p salt aux r = Ok (s, r')"
    "unwrap_slot P s kek vid = Ok root" "valid_slot s"
    "slot_type s = ty" "slot_kdf_id s = kdf" "slot_m_cost s = m" "slot_t_cost s = t"
    "slot_p_lanes s = p" "slot_salt s = salt" "slot_aux s = aux" "r' = (\<lambda>i. r (i + 24))"
proof -
  obtain aad where aad: "slot_aad vid ty 0 kdf WRAP_ALGO_XCHACHA20_POLY1305 salt aux = Ok aad"
    using fields by (simp add: slot_aad_def len_u8_def len_u16_def)
  obtain c where c: "commitment P kek = Ok c" "length c = 32"
    using commitment_ok [OF P(2)] .
  obtain blob r' where blob: "aead_encrypt P kek root aad r = Ok (blob, r')"
    "r' = (\<lambda>i. r (i + 24))" "length blob = length root + 40" "aead_decrypt P kek blob aad = Ok root"
    using len(2) by (auto intro: aead_encrypt_ok [OF P(1) len(1), of root aad r])
  show thesis
    by (rule that [of "\<lparr>slot_type = ty, slot_flags = 0, slot_kdf_id = kdf,
          slot_wrap_algo = WRAP_ALGO_XCHACHA20_POLY1305, slot_m_cost = m, slot_t_cost = t,
          slot_p_lanes = p, slot_commit = c, slot_salt = salt, slot_aux = aux,
          slot_wrapped_root = blob\<rparr>" r'])
      (use aad c blob len fields in \<open>simp_all add: wrap_slot_def unwrap_slot_def valid_slot_def\<close>)
qed

text \<open>
  A key whose commitment differs is refused before the cipher is run, whatever the wrapped
  bytes say.
\<close>

lemma unwrap_slot_wrong_key:
  "commitment P kek = Ok c \<Longrightarrow> c \<noteq> slot_commit s \<Longrightarrow> unwrap_slot P s kek vid = Err Aead"
  by (simp add: unwrap_slot_def)

lemma unwrap_slot_length: "unwrap_slot P s kek vid = Ok k \<Longrightarrow> length k = 32"
  by (auto simp: unwrap_slot_def and_then_Ok_iff)

lemma no_panic_unwrap_slot [no_panic_intros]: "no_panic (unwrap_slot P s kek vid)"
  unfolding unwrap_slot_def slot_aad_def commitment_def
  by (intro no_panic_intros) auto

text \<open>
  A slot that opens holds the root key the cipher sealed under the data of that very slot: a
  change to any field the additional data binds is a different sealing.
\<close>

lemma unwrap_slot_tidy:
  assumes "cipher_tidy P" and "unwrap_slot P s kek vid = Ok root"
  shows "commitment P kek = Ok (slot_commit s)"
    and "\<exists>aad nonce ct. slot_aad vid (slot_type s) (slot_flags s) (slot_kdf_id s)
        (slot_wrap_algo s) (slot_salt s) (slot_aux s) = Ok aad \<and>
      slot_wrapped_root s = nonce @ ct \<and> length nonce = 24 \<and>
      cipher_encrypt P kek nonce root aad = Some ct"
proof -
  from assms(2) obtain aad where 1: "commitment P kek = Ok (slot_commit s)"
    and aad: "slot_aad vid (slot_type s) (slot_flags s) (slot_kdf_id s)
        (slot_wrap_algo s) (slot_salt s) (slot_aux s) = Ok aad"
    and dec: "aead_decrypt P kek (slot_wrapped_root s) aad = Ok root"
    by (auto simp: unwrap_slot_def and_then_Ok_iff)
  show "commitment P kek = Ok (slot_commit s)" by (rule 1)
  from dec have "cipher_decrypt P kek (take 24 (slot_wrapped_root s))
      (drop 24 (slot_wrapped_root s)) aad = Some root" "24 \<le> length (slot_wrapped_root s)"
    by (auto simp: aead_decrypt_def Let_def not_less)
  with aad cipher_tidyD(1) [OF assms(1)] show "\<exists>aad nonce ct. slot_aad vid (slot_type s)
      (slot_flags s) (slot_kdf_id s) (slot_wrap_algo s) (slot_salt s) (slot_aux s) = Ok aad \<and>
      slot_wrapped_root s = nonce @ ct \<and> length nonce = 24 \<and>
      cipher_encrypt P kek nonce root aad = Some ct"
    by (intro exI [of _ aad] exI [of _ "take 24 (slot_wrapped_root s)"]
        exI [of _ "drop 24 (slot_wrapped_root s)"]) simp
qed

end
