(* ===== verification/Object_Head.thy ===== *)
theory Object_Head
  imports Primitives
begin

text \<open>
  \<open>dctl-crypto/src/object/head.rs\<close> and \<open>nonce.rs\<close>: the 68-byte head that opens every object, its
  builder and parser, and the nonces and plaintext lengths of its chunks.
\<close>

section \<open>The head\<close>

record head =
  h_algo :: byte
  h_kem_id :: byte
  h_flags :: byte
  h_chunk_size :: u32
  h_plaintext_len :: u64
  h_chunk_count :: u64
  h_base_nonce :: bytes
  h_file_id :: bytes

definition has_footer :: "head \<Rightarrow> bool" where
  "has_footer h \<longleftrightarrow> h_flags h AND FLAG_FOOTER \<noteq> 0"

definition build_head :: "head \<Rightarrow> bytes" where
  "build_head h =
     OBJECT_MAGIC @ [OBJECT_VERSION, h_algo h, h_kem_id h, h_flags h]
     @ u32_le (h_chunk_size h) @ u64_le (h_plaintext_len h) @ u64_le (h_chunk_count h)
     @ h_base_nonce h @ h_file_id h"

definition read_u64 :: "bytes \<Rightarrow> u64 crypto" where
  "read_u64 b = (if length b = 8 then Ok (u64_from_le b) else Err (Format ''bad u64 field''))"

definition parse_head :: "bytes \<Rightarrow> head crypto" where
  "parse_head bs =
     (if length bs < OBJECT_HEAD_LEN then Err (Format ''object shorter than head'') else
      and_then (slice_at 0 4 bs) (\<lambda>magic.
      if magic \<noteq> OBJECT_MAGIC then Err (Format ''bad object magic'') else
      and_then (byte_at 4 bs) (\<lambda>version.
      if version \<noteq> OBJECT_VERSION then Err (Format ''unsupported object version'') else
      and_then (byte_at 5 bs) (\<lambda>algo.
      if algo \<noteq> ALGO_XCHACHA20_POLY1305 then Err (Format ''unsupported algo'') else
      and_then (byte_at 6 bs) (\<lambda>kem_id.
      if kem_id \<noteq> KEM_ID_NONE \<and> kem_id \<noteq> KEM_ID_HYBRID
        then Err (Format ''unsupported kem_id'') else
      and_then (byte_at 7 bs) (\<lambda>flags.
      if flags AND NOT FLAG_FOOTER \<noteq> 0 then Err (Format ''unknown critical object flag'') else
      and_then (slice_at 8 12 bs) (\<lambda>cs.
      let chunk_size = u32_from_le cs in
      if chunk_size = 0 \<or> MAX_CHUNK_SIZE < chunk_size
        then Err (Format ''chunk_size out of range'') else
      and_then (slice_at 12 20 bs) (\<lambda>pl. and_then (read_u64 pl) (\<lambda>plaintext_len.
      and_then (slice_at 20 28 bs) (\<lambda>cc. and_then (read_u64 cc) (\<lambda>chunk_count.
      if unat chunk_count \<noteq> div_ceil (unat plaintext_len) (unat chunk_size)
        then Err (Format ''chunk_count != ceil(plaintext_len/chunk_size)'') else
      and_then (slice_at 28 52 bs) (\<lambda>base_nonce.
      and_then (slice_at 52 68 bs) (\<lambda>file_id.
      Ok \<lparr>h_algo = algo, h_kem_id = kem_id, h_flags = flags, h_chunk_size = chunk_size,
          h_plaintext_len = plaintext_len, h_chunk_count = chunk_count,
          h_base_nonce = base_nonce, h_file_id = file_id\<rparr>)))))))))))))"

text \<open>The heads that the parser accepts: the abstract contract of the format.\<close>

definition valid_head :: "head \<Rightarrow> bool" where
  "valid_head h \<longleftrightarrow>
     h_algo h = ALGO_XCHACHA20_POLY1305 \<and>
     (h_kem_id h = KEM_ID_NONE \<or> h_kem_id h = KEM_ID_HYBRID) \<and>
     h_flags h AND NOT FLAG_FOOTER = 0 \<and>
     h_chunk_size h \<noteq> 0 \<and> h_chunk_size h \<le> MAX_CHUNK_SIZE \<and>
     unat (h_chunk_count h) = div_ceil (unat (h_plaintext_len h)) (unat (h_chunk_size h)) \<and>
     length (h_base_nonce h) = NONCE_LEN \<and> length (h_file_id h) = FILE_ID_LEN"

lemma read_u64_Ok_iff [simp]: "read_u64 b = Ok x \<longleftrightarrow> length b = 8 \<and> x = u64_from_le b"
  by (auto simp: read_u64_def)

lemma read_u64_in [simp]: "length b = 8 \<Longrightarrow> read_u64 b = Ok (u64_from_le b)"
  by (simp add: read_u64_def)

lemma no_panic_read_u64 [no_panic_intros]: "no_panic (read_u64 b)"
  by (simp add: read_u64_def)

lemma length_build_head:
  "length (h_base_nonce h) = 24 \<Longrightarrow> length (h_file_id h) = 16 \<Longrightarrow> length (build_head h) = 68"
  by (simp add: build_head_def)

lemma parse_build_head:
  assumes "valid_head h"
  shows "parse_head (build_head h @ r) = Ok h"
  using assms
  by (simp add: parse_head_def build_head_def valid_head_def slice_at_def byte_at_def seg_def
      nth_append read_u64_def not_less Let_def)

lemma build_parse_head:
  assumes "parse_head bs = Ok h"
  shows "valid_head h" and "68 \<le> length bs" and "build_head h = take 68 bs"
proof -
  from assms show "valid_head h" and len: "68 \<le> length bs"
    by (auto simp: parse_head_def valid_head_def and_then_Ok_iff slice_at_Ok_iff byte_at_Ok_iff
        Let_def not_less)
  have bytes: "[bs ! 4, bs ! 5, bs ! 6, bs ! 7] = seg 4 8 bs"
    using len by (simp add: seg_Cons)
  from assms have "build_head h = seg 0 4 bs @ seg 4 8 bs @ seg 8 12 bs @ seg 12 20 bs
      @ seg 20 28 bs @ seg 28 52 bs @ seg 52 68 bs"
    by (auto simp: parse_head_def build_head_def and_then_Ok_iff slice_at_Ok_iff byte_at_Ok_iff
        Let_def to_from_le bytes [symmetric])
  then show "build_head h = take 68 bs"
    by (simp flip: seg_eq_take)
qed

lemma no_panic_parse_head [no_panic_intros]: "no_panic (parse_head bs)"
  unfolding parse_head_def Let_def
  by (intro no_panic_intros) (auto simp: not_less)

interpretation head_format: prefix_format build_head parse_head valid_head
proof
  show "parse_head (build_head h @ r) = Ok h" if "valid_head h" for h r
    using that by (rule parse_build_head)
  show "valid_head h \<and> (\<exists>r. bs = build_head h @ r)" if "parse_head bs = Ok h" for bs h
    using build_parse_head [OF that] by (metis append_take_drop_id)
qed

text \<open>A parsed head is decided by the first 68 bytes.\<close>

lemma parse_head_take: "68 \<le> length bs \<Longrightarrow> parse_head (take 68 bs) = parse_head bs"
  by (simp add: parse_head_def Let_def cong: if_cong del: byte_at_in slice_at_in)

section \<open>Nonces\<close>

text \<open>
  The last byte of a nonce says whether it seals a chunk or the metadata; the index of a chunk is
  added without carry into the first eight bytes.
\<close>

definition base_nonce :: "rng \<Rightarrow> bytes \<times> rng" where
  "base_nonce r = (let (n, r') = rng_fill NONCE_LEN r in
     (n[NONCE_DOMAIN_BYTE := NONCE_DOMAIN_CHUNK], r'))"

definition metadata_nonce :: "rng \<Rightarrow> bytes \<times> rng" where
  "metadata_nonce r = (let (n, r') = rng_fill NONCE_LEN r in
     (n[NONCE_DOMAIN_BYTE := NONCE_DOMAIN_META], r'))"

definition chunk_nonce :: "bytes \<Rightarrow> u64 \<Rightarrow> bytes" where
  "chunk_nonce base index = map2 (XOR) (take 8 base) (u64_le index) @ drop 8 base"

lemma length_base_nonce [simp]: "length (fst (base_nonce r)) = 24"
  by (simp add: base_nonce_def rng_fill_def)

lemma length_metadata_nonce [simp]: "length (fst (metadata_nonce r)) = 24"
  by (simp add: metadata_nonce_def rng_fill_def)

lemma base_nonce_domain: "fst (base_nonce r) ! 23 = 0"
  by (simp add: base_nonce_def rng_fill_def)

lemma metadata_nonce_domain: "fst (metadata_nonce r) ! 23 = 1"
  by (simp add: metadata_nonce_def rng_fill_def)

lemma length_chunk_nonce: "8 \<le> length base \<Longrightarrow> length (chunk_nonce base i) = length base"
  by (simp add: chunk_nonce_def)

lemma chunk_nonce_tail: "8 \<le> k \<Longrightarrow> k < length base \<Longrightarrow> chunk_nonce base i ! k = base ! k"
  by (simp add: chunk_nonce_def nth_append)

lemma map2_xor_cancel:
  fixes xs ys zs :: bytes
  assumes "length ys = length xs" "length zs = length xs" "map2 (XOR) xs ys = map2 (XOR) xs zs"
  shows "ys = zs"
  using assms
proof (induction xs arbitrary: ys zs)
  case (Cons x xs)
  then obtain y ys' z zs' where split: "ys = y # ys'" "zs = z # zs'"
    by (metis length_Suc_conv)
  with Cons.prems have "x XOR y = x XOR z" by simp
  then have "x XOR (x XOR y) = x XOR (x XOR z)" by simp
  then have "y = z" by (simp flip: xor.assoc)
  with Cons split show ?case by simp
qed simp

lemma u64_le_inj: "u64_le a = u64_le b \<Longrightarrow> a = b"
  by (metis from_to_le(3))

lemma chunk_nonce_inj:
  assumes "8 \<le> length base" "chunk_nonce base i = chunk_nonce base j"
  shows "i = j"
proof -
  from assms have "map2 (XOR) (take 8 base) (u64_le i) = map2 (XOR) (take 8 base) (u64_le j)"
    by (simp add: chunk_nonce_def)
  then have "u64_le i = u64_le j"
    using map2_xor_cancel [of "u64_le i" "take 8 base" "u64_le j"] assms(1) by simp
  then show ?thesis by (rule u64_le_inj)
qed

section \<open>Chunk lengths\<close>

definition chunk_plaintext_len :: "nat \<Rightarrow> nat \<Rightarrow> nat \<Rightarrow> nat" where
  "chunk_plaintext_len len chunk_size index =
     (let start = saturating_mul index chunk_size in min (saturating_sub len start) chunk_size)"

lemma chunk_plaintext_len_eq:
  "len \<le> U64_MAX \<Longrightarrow> chunk_plaintext_len len cs i = min (len - i * cs) cs"
  by (simp add: chunk_plaintext_len_def saturating_mul_def saturating_sub_def)

lemma chunk_plaintext_len_le: "chunk_plaintext_len len cs i \<le> cs"
  by (simp add: chunk_plaintext_len_def)

text \<open>Every chunk but the last is full, and the last is not empty.\<close>

lemma chunk_plaintext_len_full:
  assumes "len \<le> U64_MAX" "0 < cs" "i + 1 < div_ceil len cs"
  shows "chunk_plaintext_len len cs i = cs"
proof -
  have "(i + 1) * cs < len" using less_div_ceil_iff assms by blast
  then show ?thesis using assms by (simp add: chunk_plaintext_len_eq)
qed

lemma chunk_plaintext_len_pos:
  assumes "len \<le> U64_MAX" "0 < cs" "i < div_ceil len cs"
  shows "0 < chunk_plaintext_len len cs i"
  using assms less_div_ceil_iff [of cs i len] by (simp add: chunk_plaintext_len_eq)

lemma sum_chunk_plaintext_len_upto:
  assumes "len \<le> U64_MAX"
  shows "(\<Sum>i<n. chunk_plaintext_len len cs i) = min len (n * cs)"
proof (induction n)
  case (Suc n)
  have "min len (n * cs) + min (len - n * cs) cs = min len (cs + n * cs)"
    by linarith
  with Suc show ?case using assms by (simp add: chunk_plaintext_len_eq)
qed simp

lemma sum_chunk_plaintext_len:
  assumes "len \<le> U64_MAX" "0 < cs"
  shows "(\<Sum>i<div_ceil len cs. chunk_plaintext_len len cs i) = len"
proof -
  have "\<not> div_ceil len cs < div_ceil len cs" by simp
  then have "len \<le> div_ceil len cs * cs"
    using less_div_ceil_iff [OF assms(2), of "div_ceil len cs" len] by simp
  then show ?thesis using sum_chunk_plaintext_len_upto [OF assms(1)] by simp
qed

end
