(* ===== verification/Object_Meta.thy ===== *)
theory Object_Meta
  imports Object_Head Utf8
begin

text \<open>
  \<open>dctl-crypto/src/object/meta.rs\<close>: the metadata record sealed in every object, its builder and
  its parser.
\<close>

record metadata =
  m_flags :: byte
  m_mtime_unix :: u64 \<comment> \<open>an \<open>i64\<close>, read with \<open>sint\<close>\<close>
  m_birthtime_unix :: u64
  m_size :: u64
  m_content_blake3 :: bytes
  m_metadata_gen :: u64
  m_mode :: u32
  m_path_hint :: str
  m_content_type :: "str option"
  m_ext :: bytes

definition metadata_new :: "str \<Rightarrow> metadata" where
  "metadata_new path_hint =
     \<lparr>m_flags = 0, m_mtime_unix = 0, m_birthtime_unix = 0, m_size = 0,
      m_content_blake3 = replicate 32 0, m_metadata_gen = 0, m_mode = 0, m_path_hint = path_hint,
      m_content_type = None, m_ext = []\<rparr>"

definition with_mtime :: "u64 option \<Rightarrow> metadata \<Rightarrow> metadata" where
  "with_mtime unix m = (case unix of Some seconds \<Rightarrow> m\<lparr>m_mtime_unix := seconds\<rparr> | None \<Rightarrow> m)"

definition recorded_mtime :: "metadata \<Rightarrow> u64 option" where
  "recorded_mtime m = (if m_mtime_unix m = 0 then None else Some (m_mtime_unix m))"

definition is_tombstone :: "metadata \<Rightarrow> bool" where
  "is_tombstone m \<longleftrightarrow> m_flags m AND META_FLAG_TOMBSTONE \<noteq> 0"

definition build_metadata :: "metadata \<Rightarrow> bytes crypto" where
  "build_metadata m =
     (let path = m_path_hint m in
      if \<not> is_tombstone m \<and> path = []
        then Err (Format ''path_hint required for non-tombstone object'') else
      and_then (len_u16 ''path_hint too long'' path) (\<lambda>path_len.
      let ct_bytes = (case m_content_type m of Some t \<Rightarrow> t | None \<Rightarrow> []) in
      and_then (len_u16 ''content_type too long'' ct_bytes) (\<lambda>ct_len.
      and_then (len_u16 ''ext too long'' (m_ext m)) (\<lambda>ext_len.
      Ok ([META_SCHEMA_V1, m_flags m]
        @ u64_le (m_mtime_unix m) @ u64_le (m_birthtime_unix m) @ u64_le (m_size m)
        @ m_content_blake3 m @ u64_le (m_metadata_gen m) @ u32_le (m_mode m)
        @ u16_le path_len @ path @ u16_le ct_len @ ct_bytes @ u16_le ext_len @ m_ext m)))))"

definition parse_metadata :: "bytes \<Rightarrow> metadata crypto" where
  "parse_metadata bs =
     (if length bs < META_MIN_PLAINTEXT_LEN then Err (Format ''metadata too short'') else
      and_then (byte_at 0 bs) (\<lambda>schema.
      if schema \<noteq> META_SCHEMA_V1 then Err (Format ''unexpected metadata schema_version'') else
      and_then (byte_at 1 bs) (\<lambda>flags.
      and_then (slice_at 2 10 bs) (\<lambda>mt. and_then (read_u64 mt) (\<lambda>mtime_unix.
      and_then (slice_at 10 18 bs) (\<lambda>bt. and_then (read_u64 bt) (\<lambda>birthtime_unix.
      and_then (slice_at 18 26 bs) (\<lambda>sz. and_then (read_u64 sz) (\<lambda>size.
      and_then (slice_at 26 58 bs) (\<lambda>content_blake3.
      and_then (slice_at 58 66 bs) (\<lambda>mg. and_then (read_u64 mg) (\<lambda>metadata_gen.
      and_then (slice_at 66 70 bs) (\<lambda>mo.
      and_then (slice_at 70 72 bs) (\<lambda>pl.
      let path_len = unat (u16_from_le pl); p_start = 72 in
      and_then (ok_or (Format ''path overruns'') (checked_add p_start path_len)) (\<lambda>p_end.
      if length bs < p_end + 2 then Err (Format ''metadata truncated (ct_len)'') else
      and_then (slice_at p_start p_end bs) (\<lambda>ph.
      and_then (from_utf8 (Format ''path_hint not UTF-8'') ph) (\<lambda>path_hint.
      and_then (slice_at p_end (p_end + 2) bs) (\<lambda>cl.
      let ct_len = unat (u16_from_le cl); ct_start = p_end + 2 in
      and_then (ok_or (Format ''content_type overruns'') (checked_add ct_start ct_len)) (\<lambda>ct_end.
      if length bs < ct_end + 2 then Err (Format ''metadata truncated (ext_len)'') else
      and_then (if ct_len = 0 then Ok None else
        and_then (slice_at ct_start ct_end bs) (\<lambda>ct.
        and_then (from_utf8 (Format ''content_type not UTF-8'') ct) (\<lambda>t. Ok (Some t))))
      (\<lambda>content_type.
      and_then (slice_at ct_end (ct_end + 2) bs) (\<lambda>el.
      let ext_len = unat (u16_from_le el); ext_start = ct_end + 2 in
      and_then (ok_or (Format ''ext overruns'') (checked_add ext_start ext_len)) (\<lambda>ext_end.
      if ext_end \<noteq> length bs then Err (Format ''metadata length != 76 + P + T + E'') else
      and_then (slice_at ext_start ext_end bs) (\<lambda>ext.
      let md = \<lparr>m_flags = flags, m_mtime_unix = mtime_unix, m_birthtime_unix = birthtime_unix,
        m_size = size, m_content_blake3 = content_blake3, m_metadata_gen = metadata_gen,
        m_mode = u32_from_le mo, m_path_hint = path_hint, m_content_type = content_type,
        m_ext = ext\<rparr> in
      if \<not> is_tombstone md \<and> m_path_hint md = []
        then Err (Format ''path_hint required for non-tombstone object'') else Ok md
      )))))))))))))))))))))))"

text \<open>
  The records that survive a round trip. An empty content type is written as none, so it is read
  back as none.
\<close>

definition valid_metadata :: "metadata \<Rightarrow> bool" where
  "valid_metadata m \<longleftrightarrow>
     length (m_content_blake3 m) = 32 \<and>
     length (m_path_hint m) < 2 ^ 16 \<and> utf8_valid (m_path_hint m) \<and>
     (is_tombstone m \<or> m_path_hint m \<noteq> []) \<and>
     (case m_content_type m of None \<Rightarrow> True
      | Some t \<Rightarrow> t \<noteq> [] \<and> length t < 2 ^ 16 \<and> utf8_valid t) \<and>
     length (m_ext m) < 2 ^ 16"

lemma parse_build_metadata:
  assumes valid: "valid_metadata m" and build: "build_metadata m = Ok bs"
  shows "parse_metadata bs = Ok m"
proof -
  define ct where "ct = (case m_content_type m of Some t \<Rightarrow> t | None \<Rightarrow> [])"
  define fixed where "fixed = [META_SCHEMA_V1, m_flags m]
        @ u64_le (m_mtime_unix m) @ u64_le (m_birthtime_unix m) @ u64_le (m_size m)
        @ m_content_blake3 m @ u64_le (m_metadata_gen m) @ u32_le (m_mode m)
        @ u16_le (of_nat (length (m_path_hint m)))"
  have bs: "bs = fixed @ m_path_hint m @ u16_le (of_nat (length ct)) @ ct
      @ u16_le (of_nat (length (m_ext m))) @ m_ext m"
    using build valid
    by (auto simp: build_metadata_def and_then_Ok_iff Let_def fixed_def ct_def)
  have len: "length fixed = 72" and small: "length (m_path_hint m) < 65536" "length ct < 65536"
    "length (m_ext m) < 65536" and utf8: "utf8_valid (m_path_hint m)" "utf8_valid ct"
    using valid by (auto simp: valid_metadata_def fixed_def ct_def split: option.splits)
  have head: "fixed ! 0 = 1" "fixed ! 1 = m_flags m" "seg 2 10 fixed = u64_le (m_mtime_unix m)"
    "seg 10 18 fixed = u64_le (m_birthtime_unix m)" "seg 18 26 fixed = u64_le (m_size m)"
    "seg 26 58 fixed = m_content_blake3 m" "seg 58 66 fixed = u64_le (m_metadata_gen m)"
    "seg 66 70 fixed = u32_le (m_mode m)"
    "seg 70 72 fixed = u16_le (of_nat (length (m_path_hint m)))"
    using valid by (simp_all add: fixed_def seg_def valid_metadata_def)
  have "m_content_type m = (if ct = [] then None else Some ct)"
    using valid by (auto simp: valid_metadata_def ct_def split: option.splits)
  then show ?thesis
    using valid len small utf8 head unfolding bs
    by (cases "ct = []") (simp_all add: parse_metadata_def Let_def nth_append unat_of_nat
        checked_add_def U64_MAX_def from_utf8_def valid_metadata_def is_tombstone_def)
qed

lemma optional_text_Ok_iff:
  "(if n = 0 then Ok None else and_then (slice_at a b bs) (\<lambda>ct.
      and_then (from_utf8 e ct) (\<lambda>t. Ok (Some t)))) = Ok x \<longleftrightarrow>
   (n \<noteq> 0 \<longrightarrow> a \<le> b \<and> b \<le> length bs \<and> utf8_valid (seg a b bs)) \<and>
   x = (if n = 0 then None else Some (seg a b bs))"
  by (auto simp: and_then_Ok_iff slice_at_Ok_iff)

lemma build_parse_metadata:
  assumes "parse_metadata bs = Ok m"
  shows "valid_metadata m" and "build_metadata m = Ok bs"
proof -
  define p where "p = 72 + unat (u16_from_le (seg 70 72 bs))"
  define c where "c = p + 2 + unat (u16_from_le (seg p (p + 2) bs))"
  define e where "e = c + 2 + unat (u16_from_le (seg c (c + 2) bs))"
  define ty where "ty = (if unat (u16_from_le (seg p (p + 2) bs)) = 0 then None
    else Some (seg (p + 2) c bs))"
  have fields: "bs ! 0 = 1 \<and>
    e = length bs \<and>
    utf8_valid (seg 72 p bs) \<and>
    (unat (u16_from_le (seg p (p + 2) bs)) \<noteq> 0 \<longrightarrow> utf8_valid (seg (p + 2) c bs)) \<and>
    m = \<lparr>m_flags = bs ! 1, m_mtime_unix = u64_from_le (seg 2 10 bs),
        m_birthtime_unix = u64_from_le (seg 10 18 bs), m_size = u64_from_le (seg 18 26 bs),
        m_content_blake3 = seg 26 58 bs, m_metadata_gen = u64_from_le (seg 58 66 bs),
        m_mode = u32_from_le (seg 66 70 bs), m_path_hint = seg 72 p bs, m_content_type = ty,
        m_ext = seg (c + 2) e bs\<rparr> \<and>
    (is_tombstone m \<or> m_path_hint m \<noteq> [])"
    using assms
    unfolding parse_metadata_def Let_def and_then_Ok_iff if_Err_Ok_iff slice_at_Ok_iff
      byte_at_Ok_iff read_u64_Ok_iff ok_or_Ok_iff checked_Some_iff from_utf8_Ok_iff
      optional_text_Ok_iff not_not META_SCHEMA_V1_def
    by (elim exE conjE, hypsubst, simp only: ty_def [symmetric] p_def [symmetric]
        c_def [symmetric] e_def [symmetric] sum.inject) blast
  have order: "72 \<le> p" "p + 2 \<le> c" "c + 2 \<le> e"
    by (simp_all add: p_def c_def e_def)
  have bounds: "p - 72 < 65536" "c - (p + 2) < 65536" "e - (c + 2) < 65536"
    using unat_bounds(1) [of "u16_from_le (seg 70 72 bs)"]
      unat_bounds(1) [of "u16_from_le (seg p (p + 2) bs)"]
      unat_bounds(1) [of "u16_from_le (seg c (c + 2) bs)"]
    by (simp_all add: p_def c_def e_def)
  from fields order bounds show valid: "valid_metadata m"
    by (auto simp: valid_metadata_def ty_def c_def)
  have len: "76 \<le> length bs"
    using fields order by linarith
  then have "bs \<noteq> []" by auto
  have "[bs ! 0, bs ! 1] = seg 0 2 bs"
    using len \<open>bs \<noteq> []\<close> by (simp add: seg_Cons numeral_2_eq_2)
  have "p - 72 = unat (u16_from_le (seg 70 72 bs))"
    "c - (p + 2) = unat (u16_from_le (seg p (p + 2) bs))"
    "e - (c + 2) = unat (u16_from_le (seg c (c + 2) bs))"
    by (simp_all add: p_def c_def e_def)
  moreover have "e = length bs" using fields by blast
  ultimately have u16: "len_u16 x (seg 72 p bs) = Ok (u16_from_le (seg 70 72 bs))"
    "len_u16 x (seg (p + 2) c bs) = Ok (u16_from_le (seg p (p + 2) bs))"
    "len_u16 x (seg (c + 2) e bs) = Ok (u16_from_le (seg c (c + 2) bs))" for x
    using order by (auto intro!: len_u16_from_le simp del: len_u16_Ok_iff)
  have "length (seg p (p + 2) bs) = 2" "length (seg c (c + 2) bs) = 2"
    using order fields by auto
  note reread = to_from_le(1) [OF this(1)] to_from_le(1) [OF this(2)]
  have parts: "m_flags m = bs ! 1 \<and> m_mtime_unix m = u64_from_le (seg 2 10 bs) \<and>
    m_birthtime_unix m = u64_from_le (seg 10 18 bs) \<and> m_size m = u64_from_le (seg 18 26 bs) \<and>
    m_content_blake3 m = seg 26 58 bs \<and> m_metadata_gen m = u64_from_le (seg 58 66 bs) \<and>
    m_mode m = u32_from_le (seg 66 70 bs) \<and> m_path_hint m = seg 72 p bs \<and>
    m_content_type m = ty \<and> m_ext m = seg (c + 2) e bs"
    using fields by simp
  then have content: "(case m_content_type m of Some t \<Rightarrow> t | None \<Rightarrow> []) = seg (p + 2) c bs"
    by (simp add: ty_def c_def)
  have named: "\<not> (\<not> is_tombstone m \<and> m_path_hint m = [])" and "bs ! 0 = 1" "length bs = e"
    using fields by blast+
  then show "build_metadata m = Ok bs"
    unfolding build_metadata_def Let_def if_not_P [OF named] content
    using \<open>[bs ! 0, bs ! 1] = seg 0 2 bs\<close> order len
    by (simp add: parts u16 reread to_from_le del: len_u16_Ok_iff)
qed

lemma length_build_metadata:
  "build_metadata m = Ok bs \<Longrightarrow> length bs < 200000 + length (m_content_blake3 m)"
  by (auto simp: build_metadata_def Let_def and_then_Ok_iff)

lemma valid_metadata_size:
  assumes "valid_metadata m"
  obtains bs where "build_metadata m = Ok bs" "76 \<le> length bs" "length bs \<le> 262104"
  using assms
  by (auto simp: build_metadata_def valid_metadata_def Let_def len_u16_def split: option.splits)

lemma build_metadata_schema: "build_metadata m = Ok bs \<Longrightarrow> bs \<noteq> [] \<and> bs ! 0 = META_SCHEMA_V1"
  by (auto simp: build_metadata_def Let_def and_then_Ok_iff)

lemma no_panic_parse_metadata [no_panic_intros]: "no_panic (parse_metadata bs)"
  unfolding parse_metadata_def Let_def
  by (intro no_panic_intros) (auto simp: not_less)

interpretation metadata_format: exact_format build_metadata parse_metadata valid_metadata
proof
  show "\<exists>bs. build_metadata m = Ok bs" if "valid_metadata m" for m
    using that by (auto simp: build_metadata_def valid_metadata_def Let_def len_u16_def
        split: option.splits)
qed (use parse_build_metadata build_parse_metadata in blast)+

end
