(* ===== verification/Object_Seal.thy ===== *)
theory Object_Seal
  imports Object_Head Object_Meta
begin

text \<open>
  \<open>dctl-crypto/src/object/seal.rs\<close>: the one place that writes an object and the one place that
  reads it back. Sealing draws its key and nonces from the tape in the order of the source;
  opening hands each chunk to a callback as soon as it is authenticated, so it is code that acts
  on the state of the callback.
\<close>

section \<open>Additional data and small reads\<close>

definition prefixed_aad :: "bytes \<Rightarrow> bytes \<Rightarrow> bytes" where
  "prefixed_aad prefix head = prefix @ head"

definition chunk_aad :: "bytes \<Rightarrow> u64 \<Rightarrow> bytes" where
  "chunk_aad head index = head @ u64_le index"

definition object_u16 :: "bytes \<Rightarrow> nat \<Rightarrow> u16 crypto" where
  "object_u16 b off =
     (if length b < off + 2 then Err (Format ''object truncated (u16)'')
      else and_then (slice_at off (off + 2) b) (\<lambda>w. Ok (u16_from_le w)))"

definition object_u32 :: "bytes \<Rightarrow> nat \<Rightarrow> u32 crypto" where
  "object_u32 b off =
     (if length b < off + 4 then Err (Format ''object truncated (u32)'')
      else and_then (slice_at off (off + 4) b) (\<lambda>w. Ok (u32_from_le w)))"

section \<open>Sealing\<close>

text \<open>\<open>slice::chunks\<close>.\<close>

function chunks_of :: "nat \<Rightarrow> 'a list \<Rightarrow> 'a list list" where
  "chunks_of n xs = (if n = 0 \<or> xs = [] then [] else take n xs # chunks_of n (drop n xs))"
  by auto

termination by (relation "measure (length \<circ> snd)") auto

declare chunks_of.simps [simp del]

fun seal_chunks ::
  "prims \<Rightarrow> bytes \<Rightarrow> bytes \<Rightarrow> bytes \<Rightarrow> nat \<Rightarrow> bytes list \<Rightarrow> bytes \<Rightarrow> bytes crypto" where
  "seal_chunks P dek bn head_bytes i [] out = Ok out"
| "seal_chunks P dek bn head_bytes i (chunk # chunks) out =
     (let n = chunk_nonce bn (of_nat i) in
      and_then (encrypt_with_nonce P dek n chunk (chunk_aad head_bytes (of_nat i))) (\<lambda>ct.
      seal_chunks P dek bn head_bytes (i + 1) chunks (out @ ct)))"

definition seal_core ::
  "prims \<Rightarrow> byte \<Rightarrow> bytes \<Rightarrow> (bytes \<Rightarrow> rng \<Rightarrow> (bytes \<times> rng) crypto) \<Rightarrow> bytes \<Rightarrow> metadata \<Rightarrow> u32 \<Rightarrow> rng
     \<Rightarrow> (bytes \<times> rng) crypto" where
  "seal_core P kem_id dek_wrapping_key build_kem_wrap plaintext meta chunk_size r =
     (if chunk_size = 0 \<or> MAX_CHUNK_SIZE < chunk_size
        then Err (Format ''chunk_size out of range'') else
      let cs = unat chunk_size;
          (dek, r) = generate_key r;
          (file_id, r) = rng_fill FILE_ID_LEN r;
          (bn, r) = base_nonce r;
          plaintext_len = length plaintext;
          chunk_count = div_ceil plaintext_len cs;
          head = \<lparr>h_algo = ALGO_XCHACHA20_POLY1305, h_kem_id = kem_id, h_flags = FLAG_FOOTER,
            h_chunk_size = chunk_size, h_plaintext_len = of_nat plaintext_len,
            h_chunk_count = of_nat chunk_count, h_base_nonce = bn, h_file_id = file_id\<rparr>;
          head_bytes = build_head head
      in
      and_then (build_kem_wrap head_bytes r) (\<lambda>(kem_wrap, r).
      and_then (len_u16 ''kem_wrap too large'' kem_wrap) (\<lambda>kem_ct_len.
      and_then (aead_encrypt P dek_wrapping_key dek (prefixed_aad DEK_WRAP_AAD_PREFIX head_bytes) r)
        (\<lambda>(wrapped_dek, r).
      if length wrapped_dek \<noteq> WRAPPED_DEK_LEN then Err (Format ''wrapped_dek wrong size'') else
      let m = meta\<lparr>m_size := of_nat plaintext_len, m_content_blake3 := blake3_hash P plaintext\<rparr> in
      and_then (build_metadata m) (\<lambda>meta_pt.
      let (mnonce, r) = metadata_nonce r in
      and_then (encrypt_with_nonce P dek mnonce meta_pt (prefixed_aad META_AAD_PREFIX head_bytes))
        (\<lambda>meta_ct.
      let meta_len = NONCE_LEN + length meta_ct in
      if \<not> (META_MIN_LEN \<le> meta_len \<and> meta_len \<le> META_MAX_LEN)
        then Err (Format ''meta_len out of range'') else
      and_then (seal_chunks P dek bn head_bytes 0 (chunks_of cs plaintext)
          (head_bytes @ u16_le kem_ct_len @ kem_wrap @ wrapped_dek @ u32_le (of_nat meta_len)
           @ mnonce @ meta_ct)) (\<lambda>out.
      Ok (out @ blake3_hash P out, r))))))))"

definition seal ::
  "prims \<Rightarrow> bytes \<Rightarrow> bytes \<Rightarrow> metadata \<Rightarrow> u32 \<Rightarrow> rng \<Rightarrow> (bytes \<times> rng) crypto" where
  "seal P wrapping_key plaintext meta chunk_size r =
     seal_core P KEM_ID_NONE wrapping_key (\<lambda>_ r. Ok ([], r)) plaintext meta chunk_size r"

section \<open>Opening\<close>

record opened =
  o_metadata :: "metadata option"
  o_plaintext :: bytes

text \<open>
  The metadata plaintext: schema version 1 is parsed and checked against the head, any other
  version is skipped.
\<close>

definition read_metadata :: "head \<Rightarrow> bytes \<Rightarrow> metadata option crypto" where
  "read_metadata head meta_pt =
     (if meta_pt \<noteq> [] \<and> meta_pt ! 0 = META_SCHEMA_V1 then
        and_then (parse_metadata meta_pt) (\<lambda>md.
        if m_size md \<noteq> h_plaintext_len head then Err (Format ''meta.size != plaintext_len'')
        else Ok (Some md))
      else Ok None)"

definition decode_dek_and_meta ::
  "prims \<Rightarrow> bytes \<Rightarrow> bytes \<Rightarrow> head \<Rightarrow> nat \<Rightarrow> (bytes \<times> metadata option \<times> nat) crypto" where
  "decode_dek_and_meta P dek_wrapping_key blob head off =
     and_then (slice_at 0 OBJECT_HEAD_LEN blob) (\<lambda>head_bytes.
     let dek_aad = prefixed_aad DEK_WRAP_AAD_PREFIX head_bytes;
         meta_aad = prefixed_aad META_AAD_PREFIX head_bytes in
     if length blob < off + WRAPPED_DEK_LEN
       then Err (Format ''object truncated (wrapped_dek)'') else
     and_then (slice_at off (off + WRAPPED_DEK_LEN) blob) (\<lambda>wrapped_dek.
     let off = off + WRAPPED_DEK_LEN in
     and_then (aead_decrypt P dek_wrapping_key wrapped_dek dek_aad) (\<lambda>dek.
     if length dek \<noteq> KEY_LEN then Err (Format ''unwrapped DEK wrong length'') else
     and_then (object_u32 blob off) (\<lambda>ml.
     let meta_len = unat ml; off = off + 4 in
     if \<not> (META_MIN_LEN \<le> meta_len \<and> meta_len \<le> META_MAX_LEN)
       then Err (Format ''meta_len out of range'') else
     if length blob < off + meta_len then Err (Format ''object truncated (metadata)'') else
     and_then (slice_at off (off + meta_len) blob) (\<lambda>meta_blob.
     let off = off + meta_len in
     and_then (slice_at 0 NONCE_LEN meta_blob) (\<lambda>mnonce.
     and_then (slice_at NONCE_LEN (length meta_blob) meta_blob) (\<lambda>meta_ct.
     and_then (decrypt_with_nonce P dek mnonce meta_ct meta_aad) (\<lambda>meta_pt.
     and_then (read_metadata head meta_pt) (\<lambda>metadata.
     Ok (dek, metadata, off))))))))))"

definition decrypt_chunk :: "prims \<Rightarrow> bytes \<Rightarrow> head \<Rightarrow> bytes \<Rightarrow> nat \<Rightarrow> bytes \<Rightarrow> bytes crypto" where
  "decrypt_chunk P dek head head_bytes index ct_and_tag =
     (let n = chunk_nonce (h_base_nonce head) (of_nat index) in
      decrypt_with_nonce P dek n ct_and_tag (chunk_aad head_bytes (of_nat index)))"

text \<open>
  The loop of \<open>open_core_streamed\<close> over the chunks that are left, from index \<open>i\<close> and position \<open>p\<close>.
\<close>

fun open_chunk_loop ::
  "prims \<Rightarrow> bytes \<Rightarrow> head \<Rightarrow> bytes \<Rightarrow> bytes \<Rightarrow> nat \<Rightarrow> (bytes \<Rightarrow> ('s, crypto_error, unit) io)
     \<Rightarrow> nat \<Rightarrow> nat \<Rightarrow> nat \<Rightarrow> nat \<Rightarrow> ('s, crypto_error, nat \<times> nat) io" where
  "open_chunk_loop P dek head head_bytes blob body_end emit 0 i p produced =
     io_return (p, produced)"
| "open_chunk_loop P dek head head_bytes blob body_end emit (Suc left) i p produced =
     (let this_pt = chunk_plaintext_len (unat (h_plaintext_len head)) (unat (h_chunk_size head)) i;
          ct_len = this_pt + TAG_LEN in
      if body_end < p + ct_len then io_fail (Format ''object truncated (chunk)'') else
      io_bind (io_lift (and_then (slice_at p (p + ct_len) blob)
        (decrypt_chunk P dek head head_bytes i))) (\<lambda>pt.
      io_bind (emit pt) (\<lambda>_.
      open_chunk_loop P dek head head_bytes blob body_end emit left (i + 1) (p + ct_len)
        (produced + length pt))))"

definition open_core_streamed ::
  "prims \<Rightarrow> bytes \<Rightarrow> bytes \<Rightarrow> head \<Rightarrow> nat \<Rightarrow> (bytes \<Rightarrow> ('s, crypto_error, unit) io)
     \<Rightarrow> ('s, crypto_error, metadata option) io" where
  "open_core_streamed P dek_wrapping_key blob head off emit =
     io_bind (io_lift (slice_at 0 OBJECT_HEAD_LEN blob)) (\<lambda>head_bytes.
     io_bind (io_lift (decode_dek_and_meta P dek_wrapping_key blob head off))
       (\<lambda>(dek, metadata, off).
     let footer_len = (if h_flags head AND FLAG_FOOTER \<noteq> 0 then FOOTER_LEN else 0) in
     if length blob < off + footer_len then io_fail (Format ''object truncated (footer)'') else
     let body_end = length blob - footer_len in
     if footer_len \<noteq> 0 \<and> drop body_end blob \<noteq> blake3_hash P (take body_end blob)
       then io_fail (Format ''footer mismatch'') else
     io_bind (open_chunk_loop P dek head head_bytes blob body_end emit
         (unat (h_chunk_count head)) 0 off 0) (\<lambda>(p, produced).
     if p \<noteq> body_end then io_fail (Format ''trailing bytes after last chunk'') else
     if produced \<noteq> unat (h_plaintext_len head)
       then io_fail (Format ''decrypted length mismatch'') else
     io_return metadata)))"

text \<open>The callback of \<open>open_core\<close>: collect the plaintext.\<close>

definition collect :: "bytes \<Rightarrow> (bytes, crypto_error, unit) io" where
  "collect chunk = (\<lambda>plaintext. (Ok (), plaintext @ chunk))"

definition open_core :: "prims \<Rightarrow> bytes \<Rightarrow> bytes \<Rightarrow> head \<Rightarrow> nat \<Rightarrow> opened crypto" where
  "open_core P dek_wrapping_key blob head off =
     (case open_core_streamed P dek_wrapping_key blob head off collect [] of
        (Err e, _) \<Rightarrow> Err e
      | (Ok metadata, plaintext) \<Rightarrow> Ok \<lparr>o_metadata = metadata, o_plaintext = plaintext\<rparr>)"

lemma open_core_Ok_iff:
  "open_core P kek blob h off = Ok x \<longleftrightarrow>
     open_core_streamed P kek blob h off collect [] = (Ok (o_metadata x), o_plaintext x)"
  by (cases x) (auto simp: open_core_def split: prod.splits sum.splits)

definition open_object :: "prims \<Rightarrow> bytes \<Rightarrow> bytes \<Rightarrow> opened crypto" where
  "open_object P wrapping_key blob =
     and_then (parse_head blob) (\<lambda>head.
     if h_kem_id head \<noteq> KEM_ID_NONE
       then Err (Format ''kem_id=1 object needs the hybrid opener'') else
     and_then (object_u16 blob OBJECT_HEAD_LEN) (\<lambda>kem_ct_len.
     if kem_ct_len \<noteq> 0 then Err (Format ''kem_ct_len must be 0 for kem_id=0'') else
     open_core P wrapping_key blob head (OBJECT_HEAD_LEN + 2)))"


section \<open>The chunks of a plaintext\<close>

lemma concat_chunks_of: "0 < n \<Longrightarrow> concat (chunks_of n xs) = xs"
  by (induction n xs rule: chunks_of.induct) (subst chunks_of.simps, simp)

lemma chunks_of_Nil [simp]: "chunks_of n [] = []"
  by (simp add: chunks_of.simps)

lemma div_ceil_step:
  assumes "0 < cs" "0 < len"
  shows "div_ceil len cs = Suc (div_ceil (len - cs) cs)"
proof -
  have "n < div_ceil len cs \<longleftrightarrow> n < Suc (div_ceil (len - cs) cs)" for n
  proof (cases n)
    case 0
    then show ?thesis using assms by (simp add: less_div_ceil_iff)
  next
    case (Suc k)
    then show ?thesis using assms by (simp add: less_div_ceil_iff less_diff_conv add.commute)
  qed
  then show ?thesis by (metis linorder_neq_iff)
qed

text \<open>The lengths of the chunks are the ones the reader computes from the head.\<close>

lemma map_length_chunks_of:
  assumes "0 < cs" "length xs \<le> U64_MAX"
  shows "map length (chunks_of cs xs)
    = map (chunk_plaintext_len (length xs) cs) [0..<div_ceil (length xs) cs]"
  using assms
proof (induction cs xs rule: chunks_of.induct)
  case (1 n xs)
  show ?case
  proof (cases "xs = []")
    case False
    have next_len: "chunk_plaintext_len (length xs) n (Suc k)
        = chunk_plaintext_len (length xs - n) n k" for k
      using "1.prems" by (simp add: chunk_plaintext_len_eq)
    have "map length (chunks_of n xs) = min (length xs) n # map length (chunks_of n (drop n xs))"
      using False "1.prems" by (subst chunks_of.simps) simp
    also have "map length (chunks_of n (drop n xs)) =
        map (chunk_plaintext_len (length xs - n) n) [0..<div_ceil (length xs - n) n]"
      using "1.IH" False "1.prems" by simp
    also have "min (length xs) n # \<dots> = map (chunk_plaintext_len (length xs) n)
        [0..<div_ceil (length xs) n]"
      using False "1.prems" unfolding div_ceil_step [OF "1.prems"(1), of "length xs", simplified, OF False]
      by (simp add: upt_conv_Cons map_Suc_upt [symmetric] next_len chunk_plaintext_len_eq
          del: upt_Suc)
    finally show ?thesis .
  qed simp
qed

lemma length_chunks_of:
  "0 < cs \<Longrightarrow> length xs \<le> U64_MAX \<Longrightarrow> length (chunks_of cs xs) = div_ceil (length xs) cs"
  using arg_cong [OF map_length_chunks_of, of cs xs length] by simp

lemma same_lengths_concat:
  "map length xss = map length yss \<Longrightarrow> concat xss = concat yss \<Longrightarrow> xss = yss"
proof (induction xss arbitrary: yss)
  case (Cons xs xss)
  then show ?case by (cases yss) auto
qed simp

lemma length_chunk_le: "c \<in> set (chunks_of n xs) \<Longrightarrow> length c \<le> n"
proof (induction n xs rule: chunks_of.induct)
  case (1 n xs)
  show ?case
  proof (cases "n = 0 \<or> xs = []")
    case False
    with "1.prems" have "c = take n xs \<or> c \<in> set (chunks_of n (drop n xs))"
      by (subst (asm) chunks_of.simps) auto
    with "1.IH" False show ?thesis by auto
  next
    case True
    with "1.prems" show ?thesis by (subst (asm) chunks_of.simps) auto
  qed
qed

text \<open>Cutting a plaintext at the lengths of the reader gives its chunks.\<close>

lemma chunks_of_unique:
  assumes "0 < cs" "length (concat pts) = len" "len \<le> U64_MAX"
    and "map length pts = map (chunk_plaintext_len len cs) [0..<div_ceil len cs]"
  shows "pts = chunks_of cs (concat pts)"
  using assms map_length_chunks_of [of cs "concat pts"]
  by (intro same_lengths_concat) (simp_all add: concat_chunks_of)

section \<open>The chunk loops\<close>

text \<open>
  The ciphertexts that decrypt, from an index on, to the plaintexts, at the lengths the head
  prescribes.
\<close>

fun decrypts :: "prims \<Rightarrow> bytes \<Rightarrow> head \<Rightarrow> bytes \<Rightarrow> nat \<Rightarrow> bytes list \<Rightarrow> bytes list \<Rightarrow> bool" where
  "decrypts P dek h hb i [] [] \<longleftrightarrow> True"
| "decrypts P dek h hb i (ct # cts) (pt # pts) \<longleftrightarrow>
     length ct = chunk_plaintext_len (unat (h_plaintext_len h)) (unat (h_chunk_size h)) i + 16 \<and>
     decrypt_chunk P dek h hb i ct = Ok pt \<and> decrypts P dek h hb (i + 1) cts pts"
| "decrypts P dek h hb i _ _ \<longleftrightarrow> False"

text \<open>Running the callback over a list of plaintexts.\<close>

fun emit_all :: "(bytes \<Rightarrow> ('s, crypto_error, unit) io) \<Rightarrow> bytes list \<Rightarrow> ('s, crypto_error, unit) io" where
  "emit_all emit [] = io_return ()"
| "emit_all emit (pt # pts) = io_bind (emit pt) (\<lambda>_. emit_all emit pts)"

lemma decrypts_length: "decrypts P dek h hb i cts pts \<Longrightarrow> length cts = length pts"
  by (induction P dek h hb i cts pts rule: decrypts.induct) auto

lemma collect_apply: "collect chunk s = (Ok (), s @ chunk)"
  by (simp add: collect_def)

lemma io_bind_collect: "io_bind (collect chunk) k s = k () (s @ chunk)"
  by (rule io_bind_Ok, rule collect_apply)

lemma emit_all_collect: "emit_all collect pts s = (Ok (), s @ concat pts)"
  by (induction pts arbitrary: s) (simp_all add: collect_apply io_bind_def)

lemma open_chunk_loop_decrypts:
  assumes "decrypts P dek h hb i cts pts" and "blob = pre @ concat cts @ post"
    and "length pre + length (concat cts) \<le> body_end"
  shows "open_chunk_loop P dek h hb blob body_end emit (length cts) i (length pre) n s
    = io_bind (emit_all emit pts)
        (\<lambda>_. io_return (length pre + length (concat cts), n + length (concat pts))) s"
  using assms
proof (induction P dek h hb i cts pts arbitrary: pre n s rule: decrypts.induct)
  case (2 P dek h hb i ct cts pt pts)
  have slice: "slice_at (length pre) (length pre + length ct) blob = Ok ct"
    using "2.prems" by simp
  have "open_chunk_loop P dek h hb blob body_end emit (length cts) (i + 1)
      (length (pre @ ct)) (n + length pt) =
    io_bind (emit_all emit pts) (\<lambda>_. io_return (length (pre @ ct) + length (concat cts),
      n + length pt + length (concat pts)))"
    using "2.IH" [of "pre @ ct" "n + length pt"] "2.prems"
    by (intro ext) (simp del: io_simps add: add.assoc)
  moreover have "length ct = chunk_plaintext_len (unat (h_plaintext_len h))
      (unat (h_chunk_size h)) i + TAG_LEN" and "decrypt_chunk P dek h hb i ct = Ok pt"
    using "2.prems" by simp_all
  ultimately show ?case
    using slice "2.prems"(3)
    by (simp add: Let_def io_bind_assoc add.assoc del: io_simps(1))
qed simp_all

lemma open_chunk_loop_Ok:
  assumes "open_chunk_loop P dek h hb blob body_end emit n i p k s = (Ok (p', k'), s')"
    and "body_end \<le> length blob" "p \<le> body_end"
  obtains cts pts where "decrypts P dek h hb i cts pts" "length cts = n"
    "p \<le> p'" "p' \<le> body_end" "seg p p' blob = concat cts" "k' = k + length (concat pts)"
    "emit_all emit pts s = (Ok (), s')"
proof -
  have "\<exists>cts pts. decrypts P dek h hb i cts pts \<and> length cts = n \<and> p \<le> p' \<and> p' \<le> body_end \<and>
    seg p p' blob = concat cts \<and> k' = k + length (concat pts) \<and> emit_all emit pts s = (Ok (), s')"
    using assms
  proof (induction n arbitrary: i p k s)
    case 0
    then show ?case by (intro exI [of _ "[]"]) simp
  next
    case (Suc n)
    define len where "len = chunk_plaintext_len (unat (h_plaintext_len h)) (unat (h_chunk_size h)) i
      + TAG_LEN"
    from Suc.prems obtain pt t where in_range: "p + len \<le> body_end"
      and dec: "decrypt_chunk P dek h hb i (seg p (p + len) blob) = Ok pt"
      and emit: "emit pt s = (Ok (), t)"
      and rest: "open_chunk_loop P dek h hb blob body_end emit n (i + 1) (p + len)
          (k + length pt) t = (Ok (p', k'), s')"
      by (auto simp: Let_def io_bind_Ok_iff and_then_Ok_iff slice_at_Ok_iff len_def not_less
          split: if_splits)
    obtain cts pts where "decrypts P dek h hb (i + 1) cts pts" "length cts = n" "p + len \<le> p'"
      "p' \<le> body_end" "seg (p + len) p' blob = concat cts"
      "k' = k + length pt + length (concat pts)" "emit_all emit pts t = (Ok (), s')"
      using Suc.IH [OF rest] in_range Suc.prems(2) by blast
    moreover have "seg p p' blob = seg p (p + len) blob @ seg (p + len) p' blob"
      using \<open>p + len \<le> p'\<close> by simp
    moreover have "length (seg p (p + len) blob) = len"
      using in_range Suc.prems(2) by simp
    ultimately have "decrypts P dek h hb i (seg p (p + len) blob # cts) (pt # pts) \<and>
      length (seg p (p + len) blob # cts) = Suc n \<and> p \<le> p' \<and> p' \<le> body_end \<and>
      seg p p' blob = concat (seg p (p + len) blob # cts) \<and>
      k' = k + length (concat (pt # pts)) \<and> emit_all emit (pt # pts) s = (Ok (), s')"
      using dec emit by (simp add: len_def io_bind_def del: length_seg)
    then show ?case by blast
  qed
  then show thesis using that by blast
qed


text \<open>Sealing the chunks of a plaintext makes ciphertexts that decrypt to them.\<close>

lemma seal_chunks_ok:
  assumes "cipher_ok P" "length dek = 32" "length (h_base_nonce h) = 24"
    and "map length pts = map (chunk_plaintext_len (unat (h_plaintext_len h))
      (unat (h_chunk_size h))) [i..<i + length pts]"
    and "\<forall>pt\<in>set pts. length pt < 2 ^ 32"
  shows "\<exists>cts. decrypts P dek h hb i cts pts \<and>
    (\<forall>out. seal_chunks P dek (h_base_nonce h) hb i pts out = Ok (out @ concat cts))"
  using assms(4,5)
proof (induction pts arbitrary: i)
  case Nil
  then show ?case by (intro exI [of _ "[]"]) simp
next
  case (Cons pt pts)
  have lens: "length pt = chunk_plaintext_len (unat (h_plaintext_len h)) (unat (h_chunk_size h)) i"
    "map length pts = map (chunk_plaintext_len (unat (h_plaintext_len h))
      (unat (h_chunk_size h))) [i + 1..<i + 1 + length pts]"
    using Cons.prems(1) by (simp_all add: upt_conv_Cons del: upt_Suc)
  obtain ct where ct: "encrypt_with_nonce P dek (chunk_nonce (h_base_nonce h) (of_nat i)) pt
      (chunk_aad hb (of_nat i)) = Ok ct" "length ct = length pt + 16"
    "decrypt_with_nonce P dek (chunk_nonce (h_base_nonce h) (of_nat i)) ct
      (chunk_aad hb (of_nat i)) = Ok pt"
    using encrypt_with_nonce_ok [OF assms(1,2), of "chunk_nonce (h_base_nonce h) (of_nat i)" pt]
      assms(3) Cons.prems(2) by (auto simp: length_chunk_nonce)
  obtain cts where "decrypts P dek h hb (i + 1) cts pts"
    "\<forall>out. seal_chunks P dek (h_base_nonce h) hb (i + 1) pts out = Ok (out @ concat cts)"
    using Cons.IH [OF lens(2)] Cons.prems(2) by auto
  with ct lens(1) show ?case
    by (intro exI [of _ "ct # cts"]) (simp add: decrypt_chunk_def)
qed

text \<open>Conversely, what decrypts was sealed, chunk by chunk, under the same nonces.\<close>

lemma decrypts_sealed:
  assumes "cipher_tidy P" and "decrypts P dek h hb i cts pts"
  shows "seal_chunks P dek (h_base_nonce h) hb i pts out = Ok (out @ concat cts) \<and>
    map length pts = map (chunk_plaintext_len (unat (h_plaintext_len h))
      (unat (h_chunk_size h))) [i..<i + length pts]"
  using assms
proof (induction P dek h hb i cts pts arbitrary: out rule: decrypts.induct)
  case (2 P dek h hb i ct cts pt pts)
  from "2.prems" have "encrypt_with_nonce P dek (chunk_nonce (h_base_nonce h) (of_nat i)) pt
      (chunk_aad hb (of_nat i)) = Ok ct" "length ct = length pt + 16"
    using decrypt_with_nonce_tidy by (auto simp: decrypt_chunk_def Let_def)
  with 2 show ?case by (simp add: upt_conv_Cons del: upt_Suc)
qed simp_all

section \<open>The parts of an object\<close>

text \<open>What lies between the key-encapsulation block and the chunks.\<close>

definition header_bytes :: "bytes \<Rightarrow> bytes \<Rightarrow> bytes \<Rightarrow> bytes" where
  "header_bytes wrapped_dek mnonce meta_ct =
     wrapped_dek @ u32_le (of_nat (24 + length meta_ct)) @ mnonce @ meta_ct"

definition header_opens ::
  "prims \<Rightarrow> bytes \<Rightarrow> bytes \<Rightarrow> head \<Rightarrow> bytes \<Rightarrow> bytes \<Rightarrow> bytes \<Rightarrow> bytes \<Rightarrow> metadata option \<Rightarrow> bool" where
  "header_opens P kek hb h wrapped_dek mnonce meta_ct dek md \<longleftrightarrow>
     length wrapped_dek = 72 \<and> length mnonce = 24 \<and>
     META_MIN_LEN \<le> 24 + length meta_ct \<and> 24 + length meta_ct \<le> META_MAX_LEN \<and>
     aead_decrypt P kek wrapped_dek (prefixed_aad DEK_WRAP_AAD_PREFIX hb) = Ok dek \<and>
     length dek = 32 \<and>
     (\<exists>meta_pt. decrypt_with_nonce P dek mnonce meta_ct (prefixed_aad META_AAD_PREFIX hb) = Ok meta_pt \<and>
        read_metadata h meta_pt = Ok md)"

lemma decode_header:
  assumes "header_opens P kek hb h w n m dek md" "length hb = 68"
  shows "decode_dek_and_meta P kek (hb @ x @ header_bytes w n m @ rest) h (68 + length x)
    = Ok (dek, md, 68 + length x + length (header_bytes w n m))"
proof -
  have "unat (of_nat (24 + length m) :: u32) = 24 + length m"
    using assms by (intro unat_of_nat_id) (simp add: header_opens_def)
  then show ?thesis
    using assms unfolding header_opens_def decode_dek_and_meta_def
    by (elim conjE exE) (simp add: Let_def header_bytes_def object_u32_def seg_seg)
qed

lemma decode_Ok:
  assumes "decode_dek_and_meta P kek blob h off = Ok (dek, md, off')"
  obtains w n m where "header_opens P kek (take 68 blob) h w n m dek md" "68 \<le> length blob"
    "off' = off + length (header_bytes w n m)" "off' \<le> length blob"
    "seg off off' blob = header_bytes w n m"
proof -
  define len where "len = unat (u32_from_le (seg (off + 72) (off + 72 + 4) blob))"
  define a where "a = off + 72 + 4"
  have parts: "68 \<le> length blob \<and> 116 \<le> len \<and> len \<le> 262144 \<and> a + len \<le> length blob \<and>
    off' = a + len \<and>
    aead_decrypt P kek (seg off (off + 72) blob) (prefixed_aad DEK_WRAP_AAD_PREFIX (seg 0 68 blob))
      = Ok dek \<and> length dek = 32 \<and>
    (\<exists>meta_pt. decrypt_with_nonce P dek (seg 0 24 (seg a (a + len) blob))
      (seg 24 (length (seg a (a + len) blob)) (seg a (a + len) blob))
      (prefixed_aad META_AAD_PREFIX (seg 0 68 blob)) = Ok meta_pt \<and> read_metadata h meta_pt = Ok md)"
    using assms
    unfolding decode_dek_and_meta_def Let_def and_then_Ok_iff if_Err_Ok_iff slice_at_Ok_iff
      object_u32_def OBJECT_HEAD_LEN_def WRAPPED_DEK_LEN_def KEY_LEN_def META_MIN_LEN_def
      META_MAX_LEN_def NONCE_LEN_def TAG_LEN_def META_MIN_PLAINTEXT_LEN_def not_not
    by (auto simp: len_def a_def)
  define w n m where "w = seg off (off + 72) blob" and "n = seg a (a + 24) blob"
    and "m = seg (a + 24) (a + len) blob"
  have order: "off + 72 \<le> length blob" "off + 76 = a" "a + 24 \<le> a + len" "a + len \<le> length blob"
    using parts by (auto simp: a_def)
  have lens: "length w = 72" "length n = 24" "length m = len - 24"
    using order by (auto simp: w_def n_def m_def)
  have "length (seg a (a + len) blob) = len"
    using order by simp
  have "seg 0 24 (seg a (a + len) blob) = n"
    "seg 24 (length (seg a (a + len) blob)) (seg a (a + len) blob) = m"
    using order parts unfolding \<open>length (seg a (a + len) blob) = len\<close>
    by (simp_all add: n_def m_def seg_seg)
  then have "header_opens P kek (take 68 blob) h w n m dek md"
    using parts lens by (auto simp: header_opens_def w_def [symmetric] simp flip: seg_eq_take)
  moreover have "u32_le (of_nat len) = seg (off + 72) (off + 72 + 4) blob"
    using order parts by (simp add: len_def to_from_le)
  then have "header_bytes w n m = seg off (a + len) blob"
    using lens order parts by (simp add: header_bytes_def w_def n_def m_def a_def)
  ultimately show thesis
    using that [of w n m] parts order lens by (simp add: header_bytes_def a_def)
qed


text \<open>The footer a head announces.\<close>

definition footer_for :: "prims \<Rightarrow> head \<Rightarrow> bytes \<Rightarrow> bytes" where
  "footer_for P h body = (if h_flags h AND FLAG_FOOTER \<noteq> 0 then blake3_hash P body else [])"

lemma open_sealed:
  assumes header: "header_opens P kek hb h w n m dek md" "length hb = 68"
    and chunks: "decrypts P dek h hb 0 cts pts" "length cts = unat (h_chunk_count h)"
      "length (concat pts) = unat (h_plaintext_len h)"
    and P: "hashes_ok P"
    and body: "body = hb @ x @ header_bytes w n m @ concat cts"
  shows "open_core_streamed P kek (body @ footer_for P h body) h (68 + length x) emit s
    = io_bind (emit_all emit pts) (\<lambda>_. io_return md) s"
proof -
  define f where "f = footer_for P h body"
  have f: "length f = (if h_flags h AND FLAG_FOOTER \<noteq> 0 then FOOTER_LEN else 0)"
    using hashes_okD(1) [OF P] by (simp add: f_def footer_for_def)
  have ends: "length (body @ f) - (if h_flags h AND FLAG_FOOTER \<noteq> 0 then FOOTER_LEN else 0)
      = length body"
    using f by simp
  have decode: "decode_dek_and_meta P kek (body @ f) h (68 + length x)
      = Ok (dek, md, length (hb @ x @ header_bytes w n m))"
    using decode_header [OF header, of x "concat cts @ f"] header(2) by (simp add: body add.assoc)
  have loop: "open_chunk_loop P dek h hb (body @ f) (length body) emit (unat (h_chunk_count h)) 0
      (length (hb @ x @ header_bytes w n m)) 0
    = io_bind (emit_all emit pts) (\<lambda>_. io_return (length body, length (concat pts)))"
    using open_chunk_loop_decrypts [OF chunks(1), of "body @ f" "hb @ x @ header_bytes w n m" f
        "length body" emit 0] chunks(2)
    by (intro ext) (simp add: body add.assoc del: io_simps)
  have "h_flags h AND FLAG_FOOTER \<noteq> 0 \<Longrightarrow> f = blake3_hash P body"
    by (simp add: f_def footer_for_def)
  moreover have "slice_at 0 OBJECT_HEAD_LEN (body @ f) = Ok hb"
    using header(2) by (simp add: body)
  moreover have "length (hb @ x @ header_bytes w n m) \<le> length body"
    by (simp add: body)
  moreover note f chunks(3) decode loop
  ultimately show ?thesis
    unfolding open_core_streamed_def f_def [symmetric] ends Let_def
    by (cases "h_flags h AND FLAG_FOOTER \<noteq> 0")
      (simp_all add: io_bind_assoc del: io_simps(1))
qed

lemma open_streamed_Ok:
  assumes "open_core_streamed P kek blob h off emit s = (Ok md, s')"
  obtains w n m dek cts pts body where
    "header_opens P kek (take 68 blob) h w n m dek md"
    "decrypts P dek h (take 68 blob) 0 cts pts" "length cts = unat (h_chunk_count h)"
    "length (concat pts) = unat (h_plaintext_len h)" "emit_all emit pts s = (Ok (), s')"
    "off \<le> length blob" "body = take off blob @ header_bytes w n m @ concat cts"
    "blob = body @ footer_for P h body"
proof -
  define flen where "flen = (if h_flags h AND FLAG_FOOTER \<noteq> 0 then FOOTER_LEN else 0)"
  define stop where "stop = length blob - flen"
  from assms obtain dek off' where decode: "decode_dek_and_meta P kek blob h off = Ok (dek, md, off')"
    and len: "off' + flen \<le> length blob"
    and footer: "flen \<noteq> 0 \<Longrightarrow> drop stop blob = blake3_hash P (take stop blob)"
    and loop: "open_chunk_loop P dek h (take 68 blob) blob stop emit (unat (h_chunk_count h)) 0
        off' 0 s = (Ok (stop, unat (h_plaintext_len h)), s')"
    unfolding open_core_streamed_def Let_def flen_def [symmetric] stop_def [symmetric]
    by (auto simp: io_bind_Ok_iff slice_at_Ok_iff seg_eq_take split: if_splits)
  obtain w n m where header: "header_opens P kek (take 68 blob) h w n m dek md"
    "off' = off + length (header_bytes w n m)" "seg off off' blob = header_bytes w n m"
    using decode_Ok [OF decode] by metis
  have stop: "stop \<le> length blob" "off' \<le> stop"
    using len by (simp_all add: stop_def)
  obtain cts pts where chunks: "decrypts P dek h (take 68 blob) 0 cts pts"
    "length cts = unat (h_chunk_count h)" "seg off' stop blob = concat cts"
    "unat (h_plaintext_len h) = length (concat pts)" "emit_all emit pts s = (Ok (), s')"
    by (rule open_chunk_loop_Ok [OF loop stop]) (use that in auto)
  have "take stop blob = seg 0 off blob @ seg off off' blob @ seg off' stop blob"
    using header(2) stop by (simp flip: seg_eq_take)
  then have body: "take stop blob = take off blob @ header_bytes w n m @ concat cts"
    by (simp only: header(3) chunks(3) seg_eq_take)
  have "drop stop blob = footer_for P h (take stop blob)"
  proof (cases "flen = 0")
    case True
    then show ?thesis by (auto simp: footer_for_def flen_def stop_def split: if_splits)
  next
    case False
    then show ?thesis using footer by (auto simp: footer_for_def flen_def split: if_splits)
  qed
  then have "blob = take stop blob @ footer_for P h (take stop blob)"
    by (metis append_take_drop_id)
  then show thesis
    using that [OF header(1) chunks(1,2) chunks(4) [symmetric] chunks(5) _ body] stop header(2) by simp
qed

section \<open>What a sealed object is made of\<close>

lemma seal_core_Ok:
  assumes P: "cipher_ok P" "hashes_ok P" and key: "length kek = 32"
    and pt: "length pt \<le> U64_MAX"
    and seal: "seal_core P kem_id kek build_kem_wrap pt meta cs r = Ok (blob, r')"
  obtains h kw rk rk' w n m dek cts mpt body where
    "h_kem_id h = kem_id" "h_flags h = FLAG_FOOTER" "h_chunk_size h = cs"
    "unat (h_plaintext_len h) = length pt"
    "kem_id = KEM_ID_NONE \<or> kem_id = KEM_ID_HYBRID \<longrightarrow> valid_head h"
    "build_kem_wrap (build_head h) rk = Ok (kw, rk')" "length kw < 65536"
    "build_metadata (meta\<lparr>m_size := of_nat (length pt), m_content_blake3 := blake3_hash P pt\<rparr>) = Ok mpt"
    "\<forall>md. read_metadata h mpt = Ok md \<longrightarrow> header_opens P kek (build_head h) h w n m dek md"
    "decrypts P dek h (build_head h) 0 cts (chunks_of (unat cs) pt)"
    "length cts = unat (h_chunk_count h)"
    "body = build_head h @ u16_le (of_nat (length kw)) @ kw @ header_bytes w n m @ concat cts"
    "blob = body @ footer_for P h body"
proof -
  define dek r1 where "dek = fst (generate_key r)" and "r1 = snd (generate_key r)"
  define file_id r2 where "file_id = fst (rng_fill 16 r1)" and "r2 = snd (rng_fill 16 r1)"
  define bn r3 where "bn = fst (base_nonce r2)" and "r3 = snd (base_nonce r2)"
  define count where "count = div_ceil (length pt) (unat cs)"
  define h where "h = \<lparr>h_algo = ALGO_XCHACHA20_POLY1305, h_kem_id = kem_id, h_flags = FLAG_FOOTER,
    h_chunk_size = cs, h_plaintext_len = of_nat (length pt), h_chunk_count = of_nat count,
    h_base_nonce = bn, h_file_id = file_id\<rparr>"
  have lens: "length dek = 32" "length file_id = 16" "length bn = 24"
    by (simp_all add: dek_def file_id_def bn_def generate_key_def)
  have size: "cs \<noteq> 0" "cs \<le> MAX_CHUNK_SIZE"
    using seal by (auto simp: seal_core_def not_less split: if_splits)
  then have cs: "0 < unat cs" "unat cs \<le> 2 ^ 24"
    by (auto simp: unat_gt_0 word_le_nat_alt)
  have count_le: "count \<le> U64_MAX"
    using div_ceil_le [OF cs(1), of "length pt"] pt by (simp add: count_def)
  have words: "unat (h_plaintext_len h) = length pt" "unat (h_chunk_count h) = count"
    using pt count_le by (simp_all add: h_def unat_of_nat U64_MAX_def)
  from seal obtain kwr wr mpt m out where
    kw: "build_kem_wrap (build_head h) r3 = Ok kwr" "length (fst kwr) < 65536"
    and wrap: "aead_encrypt P kek dek (prefixed_aad DEK_WRAP_AAD_PREFIX (build_head h)) (snd kwr) = Ok wr"
    and mpt: "build_metadata (meta\<lparr>m_size := of_nat (length pt), m_content_blake3 := blake3_hash P pt\<rparr>)
      = Ok mpt"
    and m: "encrypt_with_nonce P dek (fst (metadata_nonce (snd wr))) mpt
      (prefixed_aad META_AAD_PREFIX (build_head h)) = Ok m"
    and meta_len: "META_MIN_LEN \<le> 24 + length m" "24 + length m \<le> META_MAX_LEN"
    and body: "seal_chunks P dek bn (build_head h) 0 (chunks_of (unat cs) pt)
        (build_head h @ u16_le (of_nat (length (fst kwr))) @ fst kwr @ fst wr
          @ u32_le (of_nat (24 + length m)) @ fst (metadata_nonce (snd wr)) @ m) = Ok out"
    and blob: "blob = out @ blake3_hash P out"
    unfolding seal_core_def Let_def case_prod_beta and_then_Ok_iff if_Err_Ok_iff len_u16_Ok_iff
      FILE_ID_LEN_def dek_def [symmetric] r1_def [symmetric] file_id_def [symmetric]
      r2_def [symmetric] bn_def [symmetric] r3_def [symmetric] count_def [symmetric]
      h_def [symmetric] not_not sum.inject prod.inject NONCE_LEN_def
    by (elim exE conjE) (rule that; (assumption | rule sym, assumption)?; simp)
  define w n where "w = fst wr" and "n = fst (metadata_nonce (snd wr))"
  have "length w = 72" "aead_decrypt P kek w (prefixed_aad DEK_WRAP_AAD_PREFIX (build_head h)) = Ok dek"
    using aead_encrypt_Ok [OF P(1) key _ wrap] lens(1) by (simp_all add: w_def)
  moreover have "length n = 24"
    by (simp add: n_def)
  moreover have "decrypt_with_nonce P dek n m (prefixed_aad META_AAD_PREFIX (build_head h)) = Ok mpt"
    using encrypt_with_nonce_Ok(2) [OF P(1) lens(1) _ _ m] length_build_metadata [OF mpt]
      hashes_okD(1) [OF P(2), of pt] by (simp add: n_def)
  ultimately have header: "header_opens P kek (build_head h) h w n m dek md"
    if "read_metadata h mpt = Ok md" for md
    using that meta_len lens(1) unfolding header_opens_def by blast
  obtain cts where cts: "decrypts P dek h (build_head h) 0 cts (chunks_of (unat cs) pt)"
    "\<And>out. seal_chunks P dek (h_base_nonce h) (build_head h) 0 (chunks_of (unat cs) pt) out
      = Ok (out @ concat cts)"
  proof -
    have "map length (chunks_of (unat cs) pt) = map (chunk_plaintext_len (unat (h_plaintext_len h))
        (unat (h_chunk_size h))) [0..<0 + length (chunks_of (unat cs) pt)]"
      using map_length_chunks_of [OF cs(1) pt] length_chunks_of [OF cs(1) pt] words
      by (simp add: h_def)
    moreover have "\<forall>c\<in>set (chunks_of (unat cs) pt). length c < 2 ^ 32"
      using cs(2) length_chunk_le [of _ "unat cs" pt] by fastforce
    ultimately show ?thesis
      using seal_chunks_ok [OF P(1) lens(1), of h "chunks_of (unat cs) pt" 0 "build_head h"]
        lens(3) that by (auto simp: h_def)
  qed
  have "out = build_head h @ u16_le (of_nat (length (fst kwr))) @ fst kwr @ header_bytes w n m @ concat cts"
    using body cts(2) by (simp add: h_def header_bytes_def w_def n_def)
  moreover have "length cts = unat (h_chunk_count h)"
    using decrypts_length [OF cts(1)] length_chunks_of [OF cs(1) pt] words(2) by (simp add: count_def)
  moreover have "valid_head h" if "kem_id = KEM_ID_NONE \<or> kem_id = KEM_ID_HYBRID"
    using that size lens words by (auto simp: valid_head_def h_def count_def)
  moreover have "blob = out @ footer_for P h out"
    using blob by (simp add: footer_for_def h_def)
  moreover obtain kw rk' where "kwr = (kw, rk')" by fastforce
  ultimately show thesis
    using that [of h r3 kw rk' mpt w n m dek cts out] kw mpt header cts(1) words(1)
    by (simp add: h_def)
qed


section \<open>Opening what was sealed\<close>

text \<open>The metadata a sealing records: the caller's, with the size and hash of the content.\<close>

definition recorded :: "prims \<Rightarrow> bytes \<Rightarrow> metadata \<Rightarrow> metadata" where
  "recorded P pt meta = meta\<lparr>m_size := of_nat (length pt), m_content_blake3 := blake3_hash P pt\<rparr>"

lemma read_metadata_built:
  assumes "valid_metadata m" "build_metadata m = Ok mpt" "m_size m = h_plaintext_len h"
  shows "read_metadata h mpt = Ok (Some m)"
  using parse_build_metadata [OF assms(1,2)] build_metadata_schema [OF assms(2)] assms(3)
  by (simp add: read_metadata_def)

lemma object_u16_sealed:
  "length hb = 68 \<Longrightarrow> object_u16 (hb @ u16_le k @ rest) 68 = Ok k"
  by (simp add: object_u16_def)

text \<open>
  The reader of both kinds of object: after the head and a block of \<open>kw\<close> bytes, the sealed
  content comes back whole.
\<close>

lemma open_core_sealed:
  assumes P: "cipher_ok P" "hashes_ok P" and key: "length kek = 32"
    and pt: "length pt \<le> U64_MAX" and meta: "valid_metadata (recorded P pt meta)"
    and kem: "kem_id = KEM_ID_NONE \<or> kem_id = KEM_ID_HYBRID"
    and seal: "seal_core P kem_id kek build_kem_wrap pt meta cs r = Ok (blob, r')"
  obtains h kw rk rk' rest where "parse_head blob = Ok h" "h_kem_id h = kem_id"
    "build_kem_wrap (build_head h) rk = Ok (kw, rk')" "length kw < 65536"
    "blob = build_head h @ u16_le (of_nat (length kw)) @ kw @ rest" "length (build_head h) = 68"
    "valid_head h" "unat (h_plaintext_len h) = length pt" "h_chunk_size h = cs"
    "open_core P kek blob h (70 + length kw)
      = Ok \<lparr>o_metadata = Some (recorded P pt meta), o_plaintext = pt\<rparr>"
proof -
  obtain h kw rk rk' w n m dek cts mpt body where
    h: "h_kem_id h = kem_id" "h_flags h = FLAG_FOOTER" "h_chunk_size h = cs"
      "unat (h_plaintext_len h) = length pt" "valid_head h"
    and kw: "build_kem_wrap (build_head h) rk = Ok (kw, rk')" "length kw < 65536"
    and mpt: "build_metadata (recorded P pt meta) = Ok mpt"
    and header: "\<forall>md. read_metadata h mpt = Ok md \<longrightarrow>
      header_opens P kek (build_head h) h w n m dek md"
    and chunks: "decrypts P dek h (build_head h) 0 cts (chunks_of (unat cs) pt)"
      "length cts = unat (h_chunk_count h)"
    and body: "body = build_head h @ u16_le (of_nat (length kw)) @ kw @ header_bytes w n m @ concat cts"
      "blob = body @ footer_for P h body"
    using seal_core_Ok [OF P key pt seal] kem unfolding recorded_def by metis
  have hb: "length (build_head h) = 68"
    using h(5) by (intro length_build_head) (simp_all add: valid_head_def)
  have "m_size (recorded P pt meta) = h_plaintext_len h"
    using h(4) by (metis of_nat_unat recorded_def ucast_id metadata.select_convs(4)
        metadata.surjective metadata.update_convs(4,5))
  then have "read_metadata h mpt = Ok (Some (recorded P pt meta))"
    by (rule read_metadata_built [OF meta mpt])
  then have opens: "header_opens P kek (build_head h) h w n m dek (Some (recorded P pt meta))"
    using header by blast
  have cs: "0 < unat cs"
    using h(3,5) by (auto simp: valid_head_def unat_gt_0)
  have "open_core_streamed P kek (body @ footer_for P h body) h
      (68 + length (u16_le (of_nat (length kw)) @ kw)) collect []
    = (Ok (Some (recorded P pt meta)), pt)"
    using open_sealed [OF opens hb chunks _ P(2), of body "u16_le (of_nat (length kw)) @ kw" collect "[]"]
      body(1) h(4) concat_chunks_of [OF cs, of pt]
    by (simp add: emit_all_collect io_bind_def)
  then have "open_core P kek blob h (70 + length kw)
      = Ok \<lparr>o_metadata = Some (recorded P pt meta), o_plaintext = pt\<rparr>"
    by (simp add: open_core_def body(2))
  moreover have "parse_head blob = Ok h"
    using parse_build_head [OF h(5)] by (simp add: body)
  ultimately show thesis
    using that [of h rk kw rk' "header_bytes w n m @ concat cts @ footer_for P h body"] h kw hb
    by (simp add: body add.assoc)
qed

theorem open_seal:
  assumes "cipher_ok P" "hashes_ok P" "length key = 32" "length pt \<le> U64_MAX"
    and "valid_metadata (recorded P pt meta)" and "seal P key pt meta cs r = Ok (blob, r')"
  shows "open_object P key blob
    = Ok \<lparr>o_metadata = Some (recorded P pt meta), o_plaintext = pt\<rparr>"
proof -
  obtain h kw rk rk' rest where "parse_head blob = Ok h" "h_kem_id h = KEM_ID_NONE"
    "Ok ([], rk) = (Ok (kw, rk') :: (bytes \<times> rng) crypto)"
    "blob = build_head h @ u16_le (of_nat (length kw)) @ kw @ rest" "length (build_head h) = 68"
    "open_core P key blob h (70 + length kw)
      = Ok \<lparr>o_metadata = Some (recorded P pt meta), o_plaintext = pt\<rparr>"
    by (rule open_core_sealed [OF assms(1-5) _ assms(6) [unfolded seal_def]]) auto
  then show ?thesis
    by (simp add: open_object_def object_u16_sealed)
qed


text \<open>Sealing succeeds whenever the chunk size is in range and the metadata fits.\<close>

lemma seal_core_total:
  assumes P: "cipher_ok P" "hashes_ok P" and key: "length kek = 32"
    and pt: "length pt \<le> U64_MAX" and cs: "cs \<noteq> 0" "cs \<le> MAX_CHUNK_SIZE"
    and kem: "\<And>hb r. length hb = 68 \<Longrightarrow> \<exists>kw r'. build_kem_wrap hb r = Ok (kw, r') \<and> length kw < 65536"
    and meta: "build_metadata (recorded P pt meta) = Ok mpt" "76 \<le> length mpt" "length mpt \<le> 262104"
  shows "\<exists>blob r'. seal_core P kem_id kek build_kem_wrap pt meta cs r = Ok (blob, r')"
proof -
  define dek r1 where "dek = fst (generate_key r)" and "r1 = snd (generate_key r)"
  define file_id r2 where "file_id = fst (rng_fill 16 r1)" and "r2 = snd (rng_fill 16 r1)"
  define bn r3 where "bn = fst (base_nonce r2)" and "r3 = snd (base_nonce r2)"
  define h where "h = \<lparr>h_algo = ALGO_XCHACHA20_POLY1305, h_kem_id = kem_id, h_flags = FLAG_FOOTER,
    h_chunk_size = cs, h_plaintext_len = of_nat (length pt),
    h_chunk_count = of_nat (div_ceil (length pt) (unat cs)), h_base_nonce = bn, h_file_id = file_id\<rparr>"
  have lens: "length dek = 32" "length bn = 24" and hb: "length (build_head h) = 68"
    by (simp_all add: dek_def bn_def generate_key_def h_def length_build_head file_id_def)
  have cs': "0 < unat cs" "unat cs \<le> 2 ^ 24"
    using cs by (auto simp: unat_gt_0 word_le_nat_alt)
  obtain kw r4 where kw: "build_kem_wrap (build_head h) r3 = Ok (kw, r4)" "length kw < 65536"
    using kem [OF hb] by blast
  obtain w r5 where w: "aead_encrypt P kek dek (prefixed_aad DEK_WRAP_AAD_PREFIX (build_head h)) r4
      = Ok (w, r5)" "length w = 72"
    using lens(1) by (auto intro: aead_encrypt_ok [OF P(1) key,
        of dek "prefixed_aad DEK_WRAP_AAD_PREFIX (build_head h)" r4])
  obtain m where m: "encrypt_with_nonce P dek (fst (metadata_nonce r5)) mpt
      (prefixed_aad META_AAD_PREFIX (build_head h)) = Ok m" "length m = length mpt + 16"
    using meta(3) by (auto intro: encrypt_with_nonce_ok [OF P(1) lens(1),
        of "fst (metadata_nonce r5)" mpt "prefixed_aad META_AAD_PREFIX (build_head h)"])
  have "map length (chunks_of (unat cs) pt) = map (chunk_plaintext_len (unat (h_plaintext_len h))
      (unat (h_chunk_size h))) [0..<0 + length (chunks_of (unat cs) pt)]"
    using map_length_chunks_of [OF cs'(1) pt] length_chunks_of [OF cs'(1) pt] pt
    by (simp add: h_def U64_MAX_def unat_of_nat_id)
  moreover have "\<forall>c\<in>set (chunks_of (unat cs) pt). length c < 2 ^ 32"
    using cs'(2) length_chunk_le [of _ "unat cs" pt] by fastforce
  ultimately obtain cts where "\<And>out. seal_chunks P dek bn (build_head h) 0 (chunks_of (unat cs) pt) out
      = Ok (out @ concat cts)"
    using seal_chunks_ok [OF P(1) lens(1), of h "chunks_of (unat cs) pt" 0 "build_head h"]
      lens(2) by (auto simp: h_def)
  then show ?thesis
    using cs kw w m meta unfolding seal_core_def Let_def case_prod_beta recorded_def
      FILE_ID_LEN_def dek_def [symmetric] r1_def [symmetric] file_id_def [symmetric]
      r2_def [symmetric] bn_def [symmetric] r3_def [symmetric] h_def [symmetric]
    by (simp add: len_u16_def not_less)
qed

section \<open>Only what was sealed opens\<close>

text \<open>An object that opens, taken apart, and the converse.\<close>

definition object_parts ::
  "prims \<Rightarrow> bytes \<Rightarrow> bytes \<Rightarrow> head \<Rightarrow> bytes \<Rightarrow> bytes \<Rightarrow> bytes \<Rightarrow> bytes \<Rightarrow> bytes list \<Rightarrow> bytes list
     \<Rightarrow> metadata option \<Rightarrow> bool" where
  "object_parts P key body h w n m dek cts pts md \<longleftrightarrow>
     valid_head h \<and> h_kem_id h = KEM_ID_NONE \<and>
     header_opens P key (build_head h) h w n m dek md \<and>
     decrypts P dek h (build_head h) 0 cts pts \<and> length cts = unat (h_chunk_count h) \<and>
     length (concat pts) = unat (h_plaintext_len h) \<and>
     body = build_head h @ u16_le 0 @ header_bytes w n m @ concat cts"

lemma object_parts_head:
  "object_parts P key body h w n m dek cts pts md \<Longrightarrow> length (build_head h) = 68"
  by (auto simp: object_parts_def valid_head_def intro: length_build_head)

lemma take_two_seg: "take 70 xs = take 68 xs @ seg 68 70 xs"
  by (simp add: seg_def take_add [of 68 2, simplified])

lemma open_object_parts:
  assumes "open_object P key blob = Ok x"
  obtains h w n m dek cts pts body where
    "object_parts P key body h w n m dek cts pts (o_metadata x)"
    "o_plaintext x = concat pts" "blob = body @ footer_for P h body" "parse_head blob = Ok h"
proof -
  from assms obtain h where h: "parse_head blob = Ok h" "h_kem_id h = KEM_ID_NONE"
    and kem: "object_u16 blob 68 = Ok 0" and "open_core P key blob h 70 = Ok x"
    by (auto simp: open_object_def and_then_Ok_iff)
  then have "open_core_streamed P key blob h 70 collect [] = (Ok (o_metadata x), o_plaintext x)"
    by (simp add: open_core_Ok_iff)
  then obtain w n m dek cts pts body where
    header: "header_opens P key (take 68 blob) h w n m dek (o_metadata x)"
    and chunks: "decrypts P dek h (take 68 blob) 0 cts pts" "length cts = unat (h_chunk_count h)"
    and len: "length (concat pts) = unat (h_plaintext_len h)"
    and pt: "emit_all collect pts [] = (Ok (), o_plaintext x)"
    and body: "70 \<le> length blob" "body = take 70 blob @ header_bytes w n m @ concat cts"
      "blob = body @ footer_for P h body"
    by (rule open_streamed_Ok) (rule that; assumption)
  note valid = build_parse_head [OF h(1)]
  have "seg 68 70 blob = u16_le (u16_from_le (seg 68 70 blob))"
    using body(1) by (simp add: to_from_le)
  also have "\<dots> = u16_le 0"
    using kem by (auto simp: object_u16_def and_then_Ok_iff slice_at_Ok_iff split: if_splits)
  finally have "body = build_head h @ u16_le 0 @ header_bytes w n m @ concat cts"
    unfolding body(2) take_two_seg valid(3) by simp
  then have "object_parts P key body h w n m dek cts pts (o_metadata x)"
    using valid h header chunks len by (simp add: object_parts_def)
  moreover have "o_plaintext x = concat pts"
    using pt by (simp add: emit_all_collect)
  ultimately show thesis using that body(3) h(1) by blast
qed

lemma object_parts_open:
  assumes parts: "object_parts P key body h w n m dek cts pts md" and P: "hashes_ok P"
  shows "open_object P key (body @ footer_for P h body)
    = Ok \<lparr>o_metadata = md, o_plaintext = concat pts\<rparr>"
proof -
  note hb = object_parts_head [OF parts]
  from parts have h: "valid_head h" "h_kem_id h = KEM_ID_NONE"
    and header: "header_opens P key (build_head h) h w n m dek md"
    and chunks: "decrypts P dek h (build_head h) 0 cts pts" "length cts = unat (h_chunk_count h)"
      "length (concat pts) = unat (h_plaintext_len h)"
    and body: "body = build_head h @ u16_le 0 @ header_bytes w n m @ concat cts"
    by (simp_all add: object_parts_def)
  have "open_core_streamed P key (body @ footer_for P h body) h 70 collect []
      = (Ok md, concat pts)"
    using open_sealed [OF header hb chunks P body, of collect "[]"]
    by (simp add: emit_all_collect io_bind_def)
  moreover have "parse_head (body @ footer_for P h body) = Ok h"
    using parse_build_head [OF h(1)] by (simp add: body)
  moreover have "object_u16 (body @ footer_for P h body) 68 = Ok 0"
    using object_u16_sealed [OF hb] by (simp add: body)
  ultimately show ?thesis
    using h(2) by (simp add: open_object_def open_core_Ok_iff)
qed

lemma object_parts_chunks:
  assumes "object_parts P key body h w n m dek cts pts md" and "cipher_tidy P"
  shows "pts = chunks_of (unat (h_chunk_size h)) (concat pts)"
    and "seal_chunks P dek (h_base_nonce h) (build_head h) 0 pts out = Ok (out @ concat cts)"
proof -
  from assms(1) have h: "valid_head h"
    and chunks: "decrypts P dek h (build_head h) 0 cts pts" "length cts = unat (h_chunk_count h)"
      "length (concat pts) = unat (h_plaintext_len h)"
    by (simp_all add: object_parts_def)
  note sealed = decrypts_sealed [OF assms(2) chunks(1)]
  have "length pts = div_ceil (unat (h_plaintext_len h)) (unat (h_chunk_size h))"
    "0 < unat (h_chunk_size h)"
    using decrypts_length [OF chunks(1)] chunks(2) h by (auto simp: valid_head_def unat_gt_0)
  then show "pts = chunks_of (unat (h_chunk_size h)) (concat pts)"
    using chunks_of_unique [OF _ chunks(3) unat_u64_le_max] sealed by simp
  show "seal_chunks P dek (h_base_nonce h) (build_head h) 0 pts out = Ok (out @ concat cts)"
    using sealed by blast
qed

text \<open>
  With a cipher that accepts no ciphertext but its own, an object that opens is, byte for byte,
  the sealing of the plaintext it opens to: every chunk under the nonce of its own index, none
  missing, none repeated, none moved.
\<close>

theorem open_only_sealed:
  assumes tidy: "cipher_tidy P" and opened: "open_object P key blob = Ok x"
  shows "\<exists>h dek w n m body. parse_head blob = Ok h \<and>
    length (o_plaintext x) = unat (h_plaintext_len h) \<and>
    header_opens P key (build_head h) h w n m dek (o_metadata x) \<and>
    seal_chunks P dek (h_base_nonce h) (build_head h) 0
      (chunks_of (unat (h_chunk_size h)) (o_plaintext x))
      (build_head h @ u16_le 0 @ header_bytes w n m) = Ok body \<and>
    blob = body @ footer_for P h body"
proof -
  obtain h w n m dek cts pts body where
    parts: "object_parts P key body h w n m dek cts pts (o_metadata x)"
    and pt: "o_plaintext x = concat pts" and blob: "blob = body @ footer_for P h body"
    and h: "parse_head blob = Ok h"
    by (rule open_object_parts [OF opened])
  have "seal_chunks P dek (h_base_nonce h) (build_head h) 0
      (chunks_of (unat (h_chunk_size h)) (o_plaintext x))
      (build_head h @ u16_le 0 @ header_bytes w n m) = Ok body"
    using object_parts_chunks [OF parts tidy] parts by (simp add: pt object_parts_def)
  moreover have "length (o_plaintext x) = unat (h_plaintext_len h)"
    "header_opens P key (build_head h) h w n m dek (o_metadata x)"
    using parts pt by (simp_all add: object_parts_def)
  ultimately show ?thesis using h blob by blast
qed

text \<open>
  Whatever the reader has handed out when it stops, also on an error, is a run of authenticated
  chunks from the first on.
\<close>

lemma loop_releases_prefix:
  "open_chunk_loop P dek h hb blob body_end collect n i p k s = (res, s') \<Longrightarrow>
   \<exists>cts pts. decrypts P dek h hb i cts pts \<and> length pts \<le> n \<and> s' = s @ concat pts"
proof (induction n arbitrary: i p k s)
  case 0
  then show ?case by (intro exI [of _ "[]"]) simp
next
  case (Suc n)
  define len where "len = chunk_plaintext_len (unat (h_plaintext_len h)) (unat (h_chunk_size h)) i
    + TAG_LEN"
  show ?case
  proof (cases "\<exists>pt. p + len \<le> body_end \<and> p + len \<le> length blob \<and>
      decrypt_chunk P dek h hb i (seg p (p + len) blob) = Ok pt")
    case False
    then have "body_end < p + len \<or>
        (\<exists>e. and_then (slice_at p (p + len) blob) (decrypt_chunk P dek h hb i) = Err e)"
      by (cases "and_then (slice_at p (p + len) blob) (decrypt_chunk P dek h hb i)")
        (auto simp: and_then_Ok_iff slice_at_Ok_iff not_less)
    then have "s' = s"
      using Suc.prems by (auto simp: Let_def len_def split: if_splits)
    then show ?thesis by (intro exI [of _ "[]"]) simp
  next
    case True
    then obtain pt where pt: "p + len \<le> body_end" "p + len \<le> length blob"
      "decrypt_chunk P dek h hb i (seg p (p + len) blob) = Ok pt" by blast
    then have "open_chunk_loop P dek h hb blob body_end collect n (i + 1) (p + len) (k + length pt)
        (s @ pt) = (res, s')"
      using Suc.prems by (simp add: Let_def len_def io_bind_collect)
    from Suc.IH [OF this] obtain cts pts where "decrypts P dek h hb (i + 1) cts pts"
      "length pts \<le> n" "s' = (s @ pt) @ concat pts" by blast
    with pt show ?thesis
      by (intro exI [of _ "seg p (p + len) blob # cts"] exI [of _ "pt # pts"]) (simp add: len_def)
  qed
qed

section \<open>No panic\<close>

lemma no_panic_decode [no_panic_intros]: "68 \<le> length blob \<Longrightarrow> no_panic (decode_dek_and_meta P kek blob h off)"
  unfolding decode_dek_and_meta_def Let_def object_u32_def read_metadata_def
  by (intro no_panic_intros) (auto simp: not_less slice_at_Ok_iff)

lemma no_panic_open_chunk_loop [no_panic_intros]:
  "body_end \<le> length blob \<Longrightarrow> (\<And>pt. no_panic_io (emit pt)) \<Longrightarrow>
   no_panic_io (open_chunk_loop P dek h hb blob body_end emit n i p k)"
  by (induction n arbitrary: i p k)
    (auto simp: Let_def decrypt_chunk_def intro!: no_panic_intros)

lemma no_panic_open_core_streamed [no_panic_intros]:
  "68 \<le> length blob \<Longrightarrow> (\<And>pt. no_panic_io (emit pt)) \<Longrightarrow>
   no_panic_io (open_core_streamed P kek blob h off emit)"
  unfolding open_core_streamed_def Let_def
  by (auto intro!: no_panic_intros split: prod.splits)

lemma no_panic_open_core [no_panic_intros]:
  assumes "68 \<le> length blob"
  shows "no_panic (open_core P kek blob h off)"
proof -
  have "no_panic_io (open_core_streamed P kek blob h off collect)"
    using assms by (intro no_panic_intros) (simp_all add: collect_def no_panic_io_def)
  then show ?thesis
    unfolding no_panic_io_def open_core_def
    by (auto split: prod.splits sum.splits) (metis fst_conv no_panic_simps(2))
qed

lemma no_panic_open_object: "no_panic (open_object P key blob)"
  unfolding open_object_def object_u16_def
  by (intro no_panic_intros) (auto dest: build_parse_head(2) simp: not_less)


section \<open>Sealing always succeeds, and opens\<close>

lemma seal_total:
  assumes "cipher_ok P" "hashes_ok P" "length key = 32" "length pt \<le> U64_MAX"
    and "cs \<noteq> 0" "cs \<le> MAX_CHUNK_SIZE" "valid_metadata (recorded P pt meta)"
  obtains blob r' where "seal P key pt meta cs r = Ok (blob, r')"
    "open_object P key blob = Ok \<lparr>o_metadata = Some (recorded P pt meta), o_plaintext = pt\<rparr>"
proof -
  obtain mpt where mpt: "build_metadata (recorded P pt meta) = Ok mpt" "76 \<le> length mpt"
    "length mpt \<le> 262104"
    by (rule valid_metadata_size [OF assms(7)])
  then obtain blob r' where "seal P key pt meta cs r = Ok (blob, r')"
    using seal_core_total [OF assms(1-6) _ mpt, of "\<lambda>_ r. Ok ([], r)" KEM_ID_NONE r]
    by (auto simp: seal_def)
  with that open_seal [OF assms(1-4,7)] show thesis by blast
qed

text \<open>What a stopped reader has released, stated over the whole reader.\<close>

lemma open_streamed_releases:
  assumes "open_core_streamed P kek blob h off collect [] = (res, out)"
  shows "\<exists>dek cts pts. decrypts P dek h (take 68 blob) 0 cts pts \<and>
    length pts \<le> unat (h_chunk_count h) \<and> out = concat pts"
proof (cases "out = []")
  case True
  then show ?thesis by (intro exI [of _ "[]"]) simp
next
  case False
  with assms obtain dek off' stop res' where
    "open_chunk_loop P dek h (take 68 blob) blob stop collect (unat (h_chunk_count h)) 0 off' 0 []
      = (res', out)"
    unfolding open_core_streamed_def Let_def
    by (auto simp: io_bind_def slice_at_def seg_eq_take split: if_splits sum.splits prod.splits)
  from loop_releases_prefix [OF this] show ?thesis by auto
qed

section \<open>The size of an object\<close>

lemma length_seal_chunks:
  assumes "cipher_ok P" "length dek = 32" "length bn = 24"
    and "\<forall>c \<in> set chunks. length c < 2 ^ 32" "seal_chunks P dek bn hb i chunks out = Ok body"
  shows "length body = length out + length (concat chunks) + 16 * length chunks"
  using assms(4,5)
proof (induction chunks arbitrary: i out)
  case (Cons c chunks)
  then obtain ct where ct: "encrypt_with_nonce P dek (chunk_nonce bn (of_nat i)) c (chunk_aad hb (of_nat i)) = Ok ct"
    "seal_chunks P dek bn hb (i + 1) chunks (out @ ct) = Ok body"
    by (auto simp: and_then_Ok_iff)
  have "length ct = length c + 16"
    by (rule encrypt_with_nonce_Ok(1) [OF assms(1,2) _ _ ct(1)])
      (use Cons.prems assms(3) in \<open>simp_all add: length_chunk_nonce\<close>)
  with Cons.IH [OF _ ct(2)] Cons.prems(1) show ?case by simp
qed simp

lemma opened_length:
  assumes "cipher_ok P" "cipher_tidy P" "hashes_ok P" "open_object P key blob = Ok x"
  shows "length blob \<le> 2 ^ 19 + 17 * length (o_plaintext x)"
proof -
  obtain h dek w n m body where o: "parse_head blob = Ok h"
    "length (o_plaintext x) = unat (h_plaintext_len h)"
    "header_opens P key (build_head h) h w n m dek (o_metadata x)"
    "seal_chunks P dek (h_base_nonce h) (build_head h) 0
      (chunks_of (unat (h_chunk_size h)) (o_plaintext x))
      (build_head h @ u16_le 0 @ header_bytes w n m) = Ok body"
    "blob = body @ footer_for P h body"
    using open_only_sealed [OF assms(2,4)] by blast
  then have h: "valid_head h" by (simp add: head_format.parse_iff)
  define cs where "cs = unat (h_chunk_size h)"
  have cs: "0 < cs" "cs < 2 ^ 32"
    using h unsigned_less [of "h_chunk_size h"] by (simp_all add: cs_def valid_head_def unat_gt_0)
  have small: "length (o_plaintext x) \<le> U64_MAX"
    using o(2) unat_u64_le_max [of "h_plaintext_len h"] by simp
  have len: "length body = length (build_head h @ u16_le 0 @ header_bytes w n m)
      + length (concat (chunks_of cs (o_plaintext x))) + 16 * length (chunks_of cs (o_plaintext x))"
    by (rule length_seal_chunks [OF assms(1) _ _ _ o(4) [folded cs_def]])
      (use o(3) h cs(2) length_chunk_le [of _ cs "o_plaintext x"] in
        \<open>fastforce simp: header_opens_def valid_head_def\<close>)+
  have "length (chunks_of cs (o_plaintext x)) \<le> length (o_plaintext x)"
    using cs(1) small by (simp add: length_chunks_of div_ceil_le)
  moreover have "length (footer_for P h body) \<le> 32"
    using assms(3) by (simp add: footer_for_def hashes_ok_def)
  moreover have "length (build_head h @ u16_le 0 @ header_bytes w n m) \<le> 70 + 76 + 262144"
    using o(3) h by (simp add: length_build_head header_bytes_def header_opens_def valid_head_def)
  moreover have "length (concat (chunks_of cs (o_plaintext x))) = length (o_plaintext x)"
    using cs(1) by (simp add: concat_chunks_of)
  ultimately show ?thesis using len by (simp add: o(5))
qed

end
