(* ===== verification/Object_Stream.thy ===== *)
theory Object_Stream
  imports Object_Seal
begin

text \<open>
  \<open>dctl-crypto/src/object/sealer.rs\<close> and \<open>stream.rs\<close>: sealing from a reader to a writer in two
  passes, and opening to a writer, from memory or from a reader, one chunk at a time.
\<close>

section \<open>Readers and writers\<close>

text \<open>
  A reader is what its successive \<open>read\<close> calls return: some bytes, or an error; past the end of
  the list it is at end of file, which is also what an empty read says. A call with a smaller
  buffer takes the start of the next item and leaves the rest.
\<close>

type_synonym reader = "bytes option list"

fun read :: "nat \<Rightarrow> reader \<Rightarrow> bytes option \<times> reader" where
  "read n [] = (Some [], [])"
| "read n (None # rs) = (None, rs)"
| "read n (Some c # rs) =
     (if length c \<le> n then (Some c, rs) else (Some (take n c), Some (drop n c) # rs))"

fun reader_size :: "reader \<Rightarrow> nat" where
  "reader_size [] = 0"
| "reader_size (None # rs) = Suc (reader_size rs)"
| "reader_size (Some c # rs) = Suc (length c + reader_size rs)"

lemma read_shrinks: "read n rs = (Some b, rs') \<Longrightarrow> b \<noteq> [] \<Longrightarrow> reader_size rs' < reader_size rs"
  by (induction n rs rule: read.induct) (auto split: if_splits)

text \<open>\<open>read_exact\<close>: read until the buffer is full; end of file before that is an error.\<close>

function read_exact :: "nat \<Rightarrow> reader \<Rightarrow> (bytes \<times> reader) option" where
  "read_exact n rs =
     (if n = 0 then Some ([], rs)
      else case read n rs of
        (None, _) \<Rightarrow> None
      | (Some b, rs') \<Rightarrow>
          if b = [] then None
          else (case read_exact (n - length b) rs' of
              None \<Rightarrow> None
            | Some (c, rs'') \<Rightarrow> Some (b @ c, rs'')))"
  by auto

termination
  by (relation "measure (reader_size \<circ> snd)") (simp_all, metis read_shrinks)

declare read_exact.simps [simp del]

text \<open>A writer's \<open>write_all\<close>, and the error its callers map a failure to.\<close>

type_synonym 'w writer = "bytes \<Rightarrow> ('w, unit, unit) io"

definition write_out :: "'w writer \<Rightarrow> bytes \<Rightarrow> ('w, crypto_error, unit) io" where
  "write_out w b = (\<lambda>s. let (res, s') = w b s in
     (map_err (\<lambda>_. Format ''output write failed'') res, s'))"

text \<open>Reading from a file that gives its bytes without errors, in whatever pieces.\<close>

definition serves :: "reader \<Rightarrow> bytes \<Rightarrow> bool" where
  "serves rs xs \<longleftrightarrow> (\<forall>x\<in>set rs. \<exists>c. x = Some c \<and> c \<noteq> []) \<and> concat (map the rs) = xs"

lemma serves_Nil [simp]: "serves [] xs \<longleftrightarrow> xs = []"
  by (auto simp: serves_def)

lemma serves_Cons:
  "serves (x # rs) xs \<longleftrightarrow> (\<exists>c ys. x = Some c \<and> c \<noteq> [] \<and> xs = c @ ys \<and> serves rs ys)"
  by (auto simp: serves_def)

lemma read_serves:
  assumes "serves rs xs" "0 < n"
  obtains b rs' ys where "read n rs = (Some b, rs')" "xs = b @ ys" "serves rs' ys"
    "length b \<le> n" "b = [] \<longleftrightarrow> xs = []"
proof (cases rs)
  case Nil
  with assms that [of "[]" "[]" "[]"] show ?thesis by simp
next
  case (Cons x rs1)
  with assms obtain c ys where c: "x = Some c" "c \<noteq> []" "xs = c @ ys" "serves rs1 ys"
    by (auto simp: serves_Cons)
  show ?thesis
  proof (cases "length c \<le> n")
    case True
    with c Cons that [of c rs1 ys] show ?thesis by simp
  next
    case False
    with c Cons assms that [of "take n c" "Some (drop n c) # rs1" "drop n c @ ys"] show ?thesis
      by (simp add: serves_Cons)
  qed
qed

lemma read_exact_serves:
  assumes "serves rs xs"
  shows "if n \<le> length xs then \<exists>rs'. read_exact n rs = Some (take n xs, rs') \<and> serves rs' (drop n xs)
    else read_exact n rs = None"
  using assms
proof (induction n rs arbitrary: xs rule: read_exact.induct)
  case (1 n rs)
  show ?case
  proof (cases "n = 0")
    case True
    with "1.prems" show ?thesis by (simp add: read_exact.simps)
  next
    case False
    then obtain b rs' ys where b: "read n rs = (Some b, rs')" "xs = b @ ys" "serves rs' ys"
      "length b \<le> n" "b = [] \<longleftrightarrow> xs = []"
      using read_serves [OF "1.prems", of n] by auto
    show ?thesis
    proof (cases "b = []")
      case True
      with b False show ?thesis by (simp add: read_exact.simps)
    next
      case nonempty: False
      note IH = "1.IH" [OF False b(1) [symmetric] refl nonempty b(3)]
      show ?thesis
      proof (cases "n \<le> length xs")
        case True
        with b have "n - length b \<le> length ys" by simp
        with IH obtain rs'' where "read_exact (n - length b) rs' = Some (take (n - length b) ys, rs'')"
          "serves rs'' (drop (n - length b) ys)" by (auto simp: if_P)
        with True b False nonempty show ?thesis by (subst read_exact.simps) simp
      next
        case small: False
        with IH b have "read_exact (n - length b) rs' = None"
          by (simp split: if_splits)
        with small b False nonempty show ?thesis by (subst read_exact.simps) simp
      qed
    qed
  qed
qed

lemma read_exact_take:
  assumes "serves rs xs" "n \<le> length xs"
  obtains rs' where "read_exact n rs = Some (take n xs, rs')" "serves rs' (drop n xs)"
  using read_exact_serves [OF assms(1), of n] assms(2) by auto

lemma read_exact_short: "serves rs xs \<Longrightarrow> length xs < n \<Longrightarrow> read_exact n rs = None"
  using read_exact_serves [of rs xs n] by simp


section \<open>Sealing in two passes\<close>

record planned_seal =
  ps_dek :: bytes
  ps_head_bytes :: bytes
  ps_base_nonce :: bytes
  ps_file_id :: bytes
  ps_header :: bytes
  ps_chunk_size :: u32
  ps_plaintext_len :: nat
  ps_chunk_count :: nat
  ps_object_len :: nat
  ps_content_blake3 :: bytes

definition total_len :: "nat \<Rightarrow> nat \<Rightarrow> nat \<Rightarrow> nat crypto" where
  "total_len header_len plaintext_len chunk_count =
     ok_or (Format ''object length overflows u64'')
       (Option.bind (Option.bind (Option.bind (checked_mul chunk_count TAG_LEN)
          (\<lambda>tags. checked_add tags plaintext_len))
          (\<lambda>payload. checked_add payload header_len))
          (\<lambda>body. checked_add body FOOTER_LEN))"

text \<open>
  The first pass: read to the end of the input, absorbing and counting what is read. The buffer
  holds one chunk.
\<close>

function hash_pass :: "nat \<Rightarrow> reader \<Rightarrow> bytes \<Rightarrow> nat \<Rightarrow> (bytes \<times> nat) crypto" where
  "hash_pass cs rs absorbed count =
     (case read cs rs of
        (None, _) \<Rightarrow> Err (Format ''input read failed'')
      | (Some b, rs') \<Rightarrow>
          if b = [] then Ok (absorbed, count)
          else (case checked_add count (length b) of
              None \<Rightarrow> Err (Format ''input longer than u64'')
            | Some count' \<Rightarrow> hash_pass cs rs' (absorbed @ b) count'))"
  by auto

termination
  by (relation "measure (\<lambda>(cs, rs, _). reader_size rs)") (simp_all, metis read_shrinks)

declare hash_pass.simps [simp del]

text \<open>
  The input of a sealing: what the first pass reads, and what the second reads after the seek
  back to the start, which may fail.
\<close>

record seekable =
  in_first :: reader
  in_rewound :: "reader option"

definition prepare ::
  "prims \<Rightarrow> bytes \<Rightarrow> seekable \<Rightarrow> nat \<Rightarrow> metadata \<Rightarrow> u32 \<Rightarrow> rng
     \<Rightarrow> (planned_seal \<times> reader \<times> rng) crypto" where
  "prepare P wrapping_key input plaintext_len meta chunk_size r =
     (if chunk_size = 0 \<or> MAX_CHUNK_SIZE < chunk_size
        then Err (Format ''chunk_size out of range'') else
      let cs = unat chunk_size;
          chunk_count = div_ceil plaintext_len cs;
          (dek, r) = generate_key r;
          (file_id, r) = rng_fill FILE_ID_LEN r;
          (bn, r) = base_nonce r
      in
      and_then (hash_pass cs (in_first input) [] 0) (\<lambda>(absorbed, count).
      if count \<noteq> plaintext_len then Err (Format ''input length != plaintext_len'') else
      let content_blake3 = blake3_hash P absorbed in
      and_then (ok_or (Format ''input rewind failed'') (in_rewound input)) (\<lambda>rewound.
      let head = \<lparr>h_algo = ALGO_XCHACHA20_POLY1305, h_kem_id = KEM_ID_NONE, h_flags = FLAG_FOOTER,
            h_chunk_size = chunk_size, h_plaintext_len = of_nat plaintext_len,
            h_chunk_count = of_nat chunk_count, h_base_nonce = bn, h_file_id = file_id\<rparr>;
          head_bytes = build_head head
      in
      and_then (aead_encrypt P wrapping_key dek (prefixed_aad DEK_WRAP_AAD_PREFIX head_bytes) r)
        (\<lambda>(wrapped_dek, r).
      if length wrapped_dek \<noteq> WRAPPED_DEK_LEN then Err (Format ''wrapped_dek wrong size'') else
      let m = meta\<lparr>m_size := of_nat plaintext_len, m_content_blake3 := content_blake3\<rparr> in
      and_then (build_metadata m) (\<lambda>meta_pt.
      let (mnonce, r) = metadata_nonce r in
      and_then (encrypt_with_nonce P dek mnonce meta_pt (prefixed_aad META_AAD_PREFIX head_bytes))
        (\<lambda>meta_ct.
      let meta_len = NONCE_LEN + length meta_ct in
      if \<not> (META_MIN_LEN \<le> meta_len \<and> meta_len \<le> META_MAX_LEN)
        then Err (Format ''meta_len out of range'') else
      let header = head_bytes @ u16_le 0 @ wrapped_dek @ u32_le (of_nat meta_len) @ mnonce @ meta_ct in
      and_then (total_len (length header) plaintext_len chunk_count) (\<lambda>object_len.
      Ok (\<lparr>ps_dek = dek, ps_head_bytes = head_bytes, ps_base_nonce = bn, ps_file_id = file_id,
           ps_header = header, ps_chunk_size = chunk_size, ps_plaintext_len = plaintext_len,
           ps_chunk_count = chunk_count, ps_object_len = object_len,
           ps_content_blake3 = content_blake3\<rparr>, rewound, r))))))))"

text \<open>
  The second pass. What was hashed for the footer is threaded through, as the hasher is in the
  source; \<open>write_hashed\<close> adds to it and writes.
\<close>

definition write_hashed :: "'w writer \<Rightarrow> bytes \<Rightarrow> bytes \<Rightarrow> ('w, crypto_error, bytes) io" where
  "write_hashed w hashed b = io_bind (write_out w b) (\<lambda>_. io_return (hashed @ b))"

fun emit_chunks ::
  "prims \<Rightarrow> planned_seal \<Rightarrow> 'w writer \<Rightarrow> nat \<Rightarrow> nat \<Rightarrow> reader \<Rightarrow> bytes
     \<Rightarrow> ('w, crypto_error, bytes) io" where
  "emit_chunks P ps w 0 i input hashed = io_return hashed"
| "emit_chunks P ps w (Suc left) i input hashed =
     (let this_pt = chunk_plaintext_len (ps_plaintext_len ps) (unat (ps_chunk_size ps)) i in
      case read_exact this_pt input of
        None \<Rightarrow> io_fail (Format ''input read failed'')
      | Some (buf, input') \<Rightarrow>
          let nonce = chunk_nonce (ps_base_nonce ps) (of_nat i);
              aad = ps_head_bytes ps @ u64_le (of_nat i) in
          io_bind (io_lift (encrypt_with_nonce P (ps_dek ps) nonce buf aad)) (\<lambda>ct.
          io_bind (write_hashed w hashed ct) (\<lambda>hashed'.
          emit_chunks P ps w left (i + 1) input' hashed')))"

definition emit :: "prims \<Rightarrow> planned_seal \<Rightarrow> reader \<Rightarrow> 'w writer \<Rightarrow> ('w, crypto_error, unit) io" where
  "emit P ps input w =
     io_bind (write_hashed w [] (ps_header ps)) (\<lambda>hashed.
     io_bind (emit_chunks P ps w (ps_chunk_count ps) 0 input hashed) (\<lambda>hashed.
     write_out w (blake3_hash P hashed)))"

definition seal_stream ::
  "prims \<Rightarrow> bytes \<Rightarrow> seekable \<Rightarrow> nat \<Rightarrow> metadata \<Rightarrow> u32 \<Rightarrow> 'w writer \<Rightarrow> rng
     \<Rightarrow> ('w, crypto_error, rng) io" where
  "seal_stream P wrapping_key input plaintext_len meta chunk_size w r =
     io_bind (io_lift (prepare P wrapping_key input plaintext_len meta chunk_size r))
       (\<lambda>(ps, rewound, r). io_bind (emit P ps rewound w) (\<lambda>_. io_return r))"

section \<open>Opening to a writer\<close>

definition open_stream ::
  "prims \<Rightarrow> bytes \<Rightarrow> bytes \<Rightarrow> 'w writer \<Rightarrow> ('w, crypto_error, metadata option) io" where
  "open_stream P wrapping_key blob w =
     io_bind (io_lift (parse_head blob)) (\<lambda>head.
     if h_kem_id head \<noteq> KEM_ID_NONE
       then io_fail (Format ''kem_id=1 object needs the hybrid opener'') else
     io_bind (io_lift (object_u16 blob OBJECT_HEAD_LEN)) (\<lambda>kem_ct_len.
     if kem_ct_len \<noteq> 0 then io_fail (Format ''kem_ct_len must be 0 for kem_id=0'') else
     open_core_streamed P wrapping_key blob head (OBJECT_HEAD_LEN + 2) (write_out w)))"

definition read_full :: "reader \<Rightarrow> nat \<Rightarrow> (bytes \<times> reader) crypto" where
  "read_full r n = ok_or (Format ''object truncated'') (read_exact n r)"

fun reader_chunk_loop ::
  "prims \<Rightarrow> bytes \<Rightarrow> head \<Rightarrow> bytes \<Rightarrow> 'w writer \<Rightarrow> nat \<Rightarrow> nat \<Rightarrow> reader \<Rightarrow> bytes option \<Rightarrow> nat
     \<Rightarrow> ('w, crypto_error, reader \<times> bytes option \<times> nat) io" where
  "reader_chunk_loop P dek head head_bytes w 0 i object hashed produced =
     io_return (object, hashed, produced)"
| "reader_chunk_loop P dek head head_bytes w (Suc left) i object hashed produced =
     (let this_pt = chunk_plaintext_len (unat (h_plaintext_len head)) (unat (h_chunk_size head)) i;
          ct_len = this_pt + TAG_LEN in
      io_bind (io_lift (read_full object ct_len)) (\<lambda>(buf, object').
      let hashed' = map_option (\<lambda>h. h @ buf) hashed in
      io_bind (io_lift (decrypt_chunk P dek head head_bytes i buf)) (\<lambda>pt.
      io_bind (write_out w pt) (\<lambda>_.
      reader_chunk_loop P dek head head_bytes w left (i + 1) object' hashed'
        (produced + length pt)))))"

text \<open>The end of \<open>open_reader\<close>: the footer, where there is one, and nothing after it.\<close>

definition check_footer :: "prims \<Rightarrow> bytes option \<Rightarrow> reader \<Rightarrow> reader crypto" where
  "check_footer P hashed object =
     (case hashed of
        None \<Rightarrow> Ok object
      | Some h \<Rightarrow>
          and_then (read_full object FOOTER_LEN) (\<lambda>(footer, object).
          if footer \<noteq> blake3_hash P h then Err (Format ''footer mismatch'') else Ok object))"

definition expect_end :: "reader \<Rightarrow> unit crypto" where
  "expect_end object =
     (case read 1 object of
        (Some [], _) \<Rightarrow> Ok ()
      | (Some _, _) \<Rightarrow> Err (Format ''trailing bytes after last chunk'')
      | (None, _) \<Rightarrow> Err (Format ''input read failed''))"

definition open_reader ::
  "prims \<Rightarrow> bytes \<Rightarrow> reader \<Rightarrow> 'w writer \<Rightarrow> ('w, crypto_error, metadata option) io" where
  "open_reader P wrapping_key object w =
     io_bind (io_lift (read_full object OBJECT_HEAD_LEN)) (\<lambda>(head_bytes, object).
     io_bind (io_lift (parse_head head_bytes)) (\<lambda>head.
     if h_kem_id head \<noteq> KEM_ID_NONE
       then io_fail (Format ''kem_id=1 object needs the hybrid opener'') else
     io_bind (io_lift (read_full object 2)) (\<lambda>(u16buf, object).
     if u16_from_le u16buf \<noteq> 0
       then io_fail (Format ''kem_ct_len must be 0 for kem_id=0'') else
     io_bind (io_lift (read_full object WRAPPED_DEK_LEN)) (\<lambda>(dek_buf, object).
     io_bind (io_lift (read_full object 4)) (\<lambda>(lenbuf, object).
     let meta_len = unat (u32_from_le lenbuf) in
     if \<not> (META_MIN_LEN \<le> meta_len \<and> meta_len \<le> META_MAX_LEN)
       then io_fail (Format ''meta_len out of range'') else
     io_bind (io_lift (read_full object meta_len)) (\<lambda>(meta_blob, object).
     let header = head_bytes @ u16buf @ dek_buf @ lenbuf @ meta_blob in
     io_bind (io_lift (decode_dek_and_meta P wrapping_key header head (OBJECT_HEAD_LEN + 2)))
       (\<lambda>(dek, metadata, off).
     let hashed = (if has_footer head then Some header else None) in
     io_bind (reader_chunk_loop P dek head head_bytes w (unat (h_chunk_count head)) 0 object hashed 0)
       (\<lambda>(object, hashed, produced).
     if produced \<noteq> unat (h_plaintext_len head)
       then io_fail (Format ''decrypted length mismatch'') else
     io_bind (io_lift (check_footer P hashed object)) (\<lambda>object.
     io_bind (io_lift (expect_end object)) (\<lambda>_. io_return metadata))))))))))"


section \<open>A writer that keeps what it is given\<close>

definition append_writer :: "bytes writer" where
  "append_writer b = (\<lambda>s. (Ok (), s @ b))"

lemma write_out_append: "write_out append_writer = collect"
  by (intro ext) (simp add: write_out_def append_writer_def collect_def)

lemma write_hashed_append:
  "io_bind (write_hashed append_writer hashed b) k s = k (hashed @ b) (s @ b)"
  by (simp add: write_hashed_def write_out_append io_bind_assoc io_bind_collect)

section \<open>Opening to a writer is opening\<close>

lemma open_stream_Ok_iff:
  "open_stream P key blob append_writer [] = (Ok md, out) \<longleftrightarrow>
     open_object P key blob = Ok \<lparr>o_metadata = md, o_plaintext = out\<rparr>"
  by (cases "parse_head blob"; cases "object_u16 blob 68")
    (auto simp: open_stream_def open_object_def open_core_Ok_iff write_out_append)

lemma open_stream_Err_iff:
  "fst (open_stream P key blob append_writer []) = Err e \<longleftrightarrow> open_object P key blob = Err e"
  by (cases "parse_head blob"; cases "object_u16 blob 68")
    (auto simp: open_stream_def open_object_def open_core_def write_out_append
      split: prod.splits sum.splits)

section \<open>Opening from a reader is opening\<close>

lemma reader_loop_decrypts:
  assumes "decrypts P dek h hb i cts pts" and "serves rd (concat cts @ rest)"
  shows "\<exists>rd'. serves rd' rest \<and>
    reader_chunk_loop P dek h hb append_writer (length cts) i rd hashed k s
      = (Ok (rd', map_option (\<lambda>x. x @ concat cts) hashed, k + length (concat pts)), s @ concat pts)"
  using assms
proof (induction P dek h hb i cts pts arbitrary: rd hashed k s rule: decrypts.induct)
  case (1 P dek h hb i)
  then show ?case by (intro exI [of _ rd]) (simp add: option.map_id0 [unfolded id_def])
next
  case (2 P dek h hb i ct cts pt pts)
  obtain rd1 where rd1: "read_exact (length ct) rd = Some (ct, rd1)" "serves rd1 (concat cts @ rest)"
    using read_exact_take [OF "2.prems"(2), of "length ct"] by auto
  obtain rd' where rd': "serves rd' rest"
    "reader_chunk_loop P dek h hb append_writer (length cts) (i + 1) rd1
        (map_option (\<lambda>x. x @ ct) hashed) (k + length pt) (s @ pt)
      = (Ok (rd', map_option (\<lambda>x. x @ concat cts) (map_option (\<lambda>x. x @ ct) hashed),
          k + length pt + length (concat pts)), (s @ pt) @ concat pts)"
    using "2.IH" "2.prems"(1) rd1(2) by fastforce
  have len: "length ct = chunk_plaintext_len (unat (h_plaintext_len h)) (unat (h_chunk_size h)) i
      + TAG_LEN" and dec: "decrypt_chunk P dek h hb i ct = Ok pt"
    using "2.prems"(1) by simp_all
  have "reader_chunk_loop P dek h hb append_writer (length (ct # cts)) i rd hashed k s
    = reader_chunk_loop P dek h hb append_writer (length cts) (i + 1) rd1
        (map_option (\<lambda>x. x @ ct) hashed) (k + length pt) (s @ pt)"
    using rd1(1) dec unfolding len
    by (simp add: Let_def read_full_def write_out_append io_bind_collect)
  with rd' show ?case
    by (intro exI [of _ rd']) (simp add: option.map_comp comp_def)
qed simp_all

lemma reader_loop_Ok:
  assumes "reader_chunk_loop P dek h hb append_writer n i rd hashed k s = (Ok (rd', hashed', k'), s')"
    and "serves rd xs"
  shows "\<exists>cts pts rest. decrypts P dek h hb i cts pts \<and> length cts = n \<and> xs = concat cts @ rest \<and>
    serves rd' rest \<and> hashed' = map_option (\<lambda>x. x @ concat cts) hashed \<and>
    k' = k + length (concat pts) \<and> s' = s @ concat pts"
  using assms
proof (induction n arbitrary: i rd hashed k s xs)
  case 0
  then show ?case
    by (intro exI [of _ "[]"] exI [of _ xs]) (auto simp: option.map_id0 [unfolded id_def])
next
  case (Suc n)
  define len where "len = chunk_plaintext_len (unat (h_plaintext_len h)) (unat (h_chunk_size h)) i
    + TAG_LEN"
  from Suc.prems(1) obtain ct rd1 pt where first: "read_exact len rd = Some (ct, rd1)"
    "decrypt_chunk P dek h hb i ct = Ok pt"
    and rest: "reader_chunk_loop P dek h hb append_writer n (i + 1) rd1
        (map_option (\<lambda>x. x @ ct) hashed) (k + length pt) (s @ pt) = (Ok (rd', hashed', k'), s')"
    by (auto simp: Let_def read_full_def write_out_append io_bind_Ok_iff collect_apply len_def)
  have "len \<le> length xs"
    using first(1) read_exact_short [OF Suc.prems(2), of len] by (cases "len \<le> length xs") auto
  then have ct: "ct = take len xs" "serves rd1 (drop len xs)"
    using read_exact_serves [OF Suc.prems(2), of len] first(1) by auto
  obtain cts pts ys where IH: "decrypts P dek h hb (i + 1) cts pts" "length cts = n"
    "drop len xs = concat cts @ ys" "serves rd' ys"
    "hashed' = map_option (\<lambda>x. x @ concat cts) (map_option (\<lambda>x. x @ ct) hashed)"
    "k' = k + length pt + length (concat pts)" "s' = (s @ pt) @ concat pts"
    using Suc.IH [OF rest ct(2)] by blast
  have "xs = concat (ct # cts) @ ys"
    using IH(3) ct(1) append_take_drop_id [of len xs] by simp
  moreover have "decrypts P dek h hb i (ct # cts) (pt # pts)"
    using IH(1) first(2) \<open>len \<le> length xs\<close> by (simp add: ct(1) len_def)
  ultimately show ?case
    using IH by (intro exI [of _ "ct # cts"] exI [of _ "pt # pts"] exI [of _ ys])
      (simp add: option.map_comp comp_def)
qed


lemma read_full_take:
  assumes "serves rd xs" "n \<le> length xs"
  obtains rd' where "read_full rd n = Ok (take n xs, rd')" "serves rd' (drop n xs)"
  using read_exact_take [OF assms] by (metis ok_or_simps(2) read_full_def)

lemma read_full_Ok:
  assumes "read_full rd n = Ok (b, rd')" "serves rd xs"
  shows "n \<le> length xs" "b = take n xs" "serves rd' (drop n xs)"
  using assms read_exact_serves [of rd xs n] by (auto simp: read_full_def split: if_splits)

lemma read_serves_end: "serves rd [] \<Longrightarrow> 0 < n \<Longrightarrow> \<exists>rd'. read n rd = (Some [], rd')"
  using read_serves [of rd "[]" n] by (metis append_is_Nil_conv)

lemma read_serves_more: "serves rd xs \<Longrightarrow> read 1 rd = (Some [], rd') \<Longrightarrow> xs = []"
  using read_serves [of rd xs 1] by (metis Pair_inject option.inject zero_less_one)

lemma expect_end_Ok: "serves rd xs \<Longrightarrow> expect_end rd = Ok () \<longleftrightarrow> xs = []"
  using read_serves_end [of rd 1] read_serves_more [of rd xs]
  by (auto simp: expect_end_def simp del: read.simps split: option.splits prod.splits list.splits)

lemma check_footer_Ok:
  assumes "serves rd xs"
  shows "check_footer P hashed rd = Ok rd' \<longleftrightarrow>
    (case hashed of None \<Rightarrow> rd' = rd
     | Some h \<Rightarrow> read_full rd 32 = Ok (blake3_hash P h, rd'))"
  by (auto simp: check_footer_def and_then_Ok_iff split: option.splits prod.splits)

lemma has_footer_iff: "has_footer h \<longleftrightarrow> h_flags h AND FLAG_FOOTER \<noteq> 0"
  by (simp add: has_footer_def)

lemma open_reader_parts:
  assumes parts: "object_parts P key body h w n m dek cts pts md" and P: "hashes_ok P"
    and rd: "serves rd (body @ footer_for P h body)"
  shows "open_reader P key rd append_writer [] = (Ok md, concat pts)"
proof -
  note hb = object_parts_head [OF parts]
  from parts have h: "valid_head h" "h_kem_id h = KEM_ID_NONE"
    and header: "header_opens P key (build_head h) h w n m dek md"
    and chunks: "decrypts P dek h (build_head h) 0 cts pts" "length cts = unat (h_chunk_count h)"
      "length (concat pts) = unat (h_plaintext_len h)"
    and body: "body = build_head h @ u16_le 0 @ header_bytes w n m @ concat cts"
    by (simp_all add: object_parts_def)
  from header have lens: "length w = 72" "length n = 24" "116 \<le> 24 + length m"
    "24 + length m \<le> 262144"
    by (simp_all add: header_opens_def)
  define f where "f = footer_for P h body"
  define tail where "tail = concat cts @ f"
  define ml :: u32 where "ml = of_nat (24 + length m)"
  have len32: "unat ml = 24 + length m"
    using lens(4) unfolding ml_def by (intro unat_of_nat_id) simp
  have header_eq: "header_bytes w n m = w @ u32_le ml @ n @ m"
    by (simp add: header_bytes_def ml_def)
  have blob: "serves rd (build_head h @ u16_le 0 @ w @ u32_le ml @ (n @ m) @ tail)"
    using rd by (simp add: body header_eq tail_def f_def)
  obtain rd1 where rd1: "read_full rd 68 = Ok (build_head h, rd1)"
    "serves rd1 (u16_le 0 @ w @ u32_le ml @ (n @ m) @ tail)"
    using read_full_take [OF blob, of 68] hb by auto
  obtain rd2 where rd2: "read_full rd1 2 = Ok (u16_le 0, rd2)"
    "serves rd2 (w @ u32_le ml @ (n @ m) @ tail)"
    using read_full_take [OF rd1(2), of 2] by auto
  obtain rd3 where rd3: "read_full rd2 72 = Ok (w, rd3)"
    "serves rd3 (u32_le ml @ (n @ m) @ tail)"
    using read_full_take [OF rd2(2), of 72] lens by auto
  obtain rd4 where rd4: "read_full rd3 4 = Ok (u32_le ml, rd4)"
    "serves rd4 ((n @ m) @ tail)"
    using read_full_take [OF rd3(2), of 4] by auto
  obtain rd5 where rd5: "read_full rd4 (24 + length m) = Ok (n @ m, rd5)" "serves rd5 tail"
    using read_full_take [OF rd4(2), of "24 + length m"] lens by auto
  define hdr where "hdr = build_head h @ u16_le 0 @ w @ u32_le ml @ n @ m"
  have decode: "decode_dek_and_meta P key hdr h 70 = Ok (dek, md, 70 + length (header_bytes w n m))"
    using decode_header [OF header hb, of "u16_le 0" "[]"] by (simp add: hdr_def header_eq)
  obtain rd6 where rd6: "serves rd6 f"
    "reader_chunk_loop P dek h (build_head h) append_writer (unat (h_chunk_count h)) 0 rd5
      (if has_footer h then Some hdr else None) 0 []
    = (Ok (rd6, map_option (\<lambda>x. x @ concat cts) (if has_footer h then Some hdr else None),
        unat (h_plaintext_len h)), concat pts)"
    using reader_loop_decrypts [OF chunks(1) rd5(2) [unfolded tail_def],
        of "if has_footer h then Some hdr else None" 0 "[]"] chunks(2,3) by auto
  have hdr_body: "hdr @ concat cts = body"
    by (simp add: hdr_def body header_eq)
  have parse: "parse_head (build_head h) = Ok h"
    using parse_build_head [OF h(1), of "[]"] by simp
  show ?thesis
  proof (cases "has_footer h")
    case True
    then have f: "f = blake3_hash P body" "length f = 32"
      using hashes_okD(1) [OF P] by (simp_all add: f_def footer_for_def has_footer_iff)
    obtain rd7 where rd7: "read_full rd6 32 = Ok (f, rd7)" "serves rd7 []"
      using read_full_take [OF rd6(1), of 32] f(2) by auto
    have at_end: "expect_end rd7 = Ok ()"
      using expect_end_Ok [OF rd7(2)] by simp
    show ?thesis
      using True rd1(1) rd2(1) rd3(1) rd4(1) rd5(1) rd6(2) rd7(1) at_end decode parse h(2) lens len32 hdr_body f
      by (simp add: open_reader_def Let_def hdr_def [symmetric] io_bind_Ok check_footer_def)
  next
    case False
    then have "f = []"
      by (simp add: f_def footer_for_def has_footer_iff)
    then have at_end: "expect_end rd6 = Ok ()"
      using expect_end_Ok [OF rd6(1)] by simp
    show ?thesis
      using False rd1(1) rd2(1) rd3(1) rd4(1) rd5(1) rd6(2) at_end decode parse h(2) lens len32
      by (simp add: open_reader_def Let_def hdr_def [symmetric] io_bind_Ok check_footer_def)
  qed
qed


text \<open>The header a reader collects is exactly what the decoder consumes of it.\<close>

lemma decode_whole_header:
  assumes "decode_dek_and_meta P key (hb @ z @ wb @ lb @ mb) h 70 = Ok (dek, md, off)"
    and "length hb = 68" "length z = 2" "length wb = 72" "length lb = 4"
    and "length mb = unat (u32_from_le lb)"
  obtains w n m where "header_opens P key hb h w n m dek md"
    "wb @ lb @ mb = header_bytes w n m"
proof -
  obtain w n m where opens: "header_opens P key (take 68 (hb @ z @ wb @ lb @ mb)) h w n m dek md"
    and off: "off = 70 + length (header_bytes w n m)" "off \<le> length (hb @ z @ wb @ lb @ mb)"
    and seg: "seg 70 off (hb @ z @ wb @ lb @ mb) = header_bytes w n m"
    by (rule decode_Ok [OF assms(1)]) (rule that; assumption)
  have lens: "length w = 72" "length n = 24" and small: "24 + length m < 2 ^ 32"
    using opens by (simp_all add: header_opens_def)
  have "seg 0 (length (header_bytes w n m)) (wb @ lb @ mb) = header_bytes w n m"
    using seg off assms(2,3) by simp
  then have "take (length (header_bytes w n m)) (wb @ lb @ mb) = header_bytes w n m"
    by (simp only: seg_eq_take)
  then obtain rest where rest: "wb @ lb @ mb = header_bytes w n m @ rest"
    by (metis append_take_drop_id)
  then have "lb = u32_le (of_nat (24 + length m))" and tail: "mb = n @ m @ rest"
    using assms(4,5) lens by (simp_all add: header_bytes_def)
  then have "length mb = 24 + length m"
    using assms(6) unat_of_nat_id(2) [OF small] by (simp del: of_nat_add)
  then have "rest = []"
    using tail lens by simp
  with rest opens assms(2) that show thesis by simp
qed

lemma open_reader_Ok:
  assumes ok: "open_reader P key rd append_writer [] = (Ok md, out)" and rd: "serves rd blob"
  obtains h w n m dek cts pts body where "object_parts P key body h w n m dek cts pts md"
    "out = concat pts" "blob = body @ footer_for P h body"
proof -
  from ok obtain hb rd1 h z rd2 wb rd3 lb rd4 mb rd5 dek off rd6 hashed rd7 where
    1: "read_full rd 68 = Ok (hb, rd1)" and h: "parse_head hb = Ok h" "h_kem_id h = KEM_ID_NONE"
    and 2: "read_full rd1 2 = Ok (z, rd2)" "u16_from_le z = 0"
    and 3: "read_full rd2 72 = Ok (wb, rd3)" and 4: "read_full rd3 4 = Ok (lb, rd4)"
    and 5: "read_full rd4 (unat (u32_from_le lb)) = Ok (mb, rd5)"
    and decode: "decode_dek_and_meta P key (hb @ z @ wb @ lb @ mb) h 70 = Ok (dek, md, off)"
    and loop: "reader_chunk_loop P dek h hb append_writer (unat (h_chunk_count h)) 0 rd5
        (if has_footer h then Some (hb @ z @ wb @ lb @ mb) else None) 0 []
      = (Ok (rd6, hashed, unat (h_plaintext_len h)), out)"
    and footer: "check_footer P hashed rd6 = Ok rd7" and last: "expect_end rd7 = Ok ()"
    unfolding open_reader_def io_bind_Ok_iff Let_def by (auto simp: io_bind_Ok_iff)
  note r1 = read_full_Ok [OF 1 rd]
  note r2 = read_full_Ok [OF 2(1) r1(3)]
  note r3 = read_full_Ok [OF 3 r2(3)]
  note r4 = read_full_Ok [OF 4 r3(3)]
  note r5 = read_full_Ok [OF 5 r4(3)]
  define tail where "tail = drop (unat (u32_from_le lb)) (drop 4 (drop 72 (drop 2 (drop 68 blob))))"
  have lens: "length hb = 68" "length z = 2" "length wb = 72" "length lb = 4"
    "length mb = unat (u32_from_le lb)"
    using r1 r2 r3 r4 r5 by simp_all
  have blob: "blob = hb @ z @ wb @ lb @ mb @ tail"
    using r1(2) r2(2) r3(2) r4(2) r5(2) by (simp only: tail_def append_take_drop_id)
  have tail: "serves rd5 tail"
    using r5(3) by (simp only: tail_def)
  obtain w n m where header: "header_opens P key hb h w n m dek md" "wb @ lb @ mb = header_bytes w n m"
    by (rule decode_whole_header [OF decode lens]) (rule that; assumption)
  obtain cts pts rest where chunks: "decrypts P dek h hb 0 cts pts"
    "length cts = unat (h_chunk_count h)" "tail = concat cts @ rest" "serves rd6 rest"
    "hashed = map_option (\<lambda>x. x @ concat cts) (if has_footer h then Some (hb @ z @ wb @ lb @ mb) else None)"
    "unat (h_plaintext_len h) = length (concat pts)" "out = concat pts"
    using reader_loop_Ok [OF loop tail] by auto
  note valid = build_parse_head [OF h(1)]
  have hb: "hb = build_head h"
    using valid lens(1) by simp
  have z: "z = u16_le 0"
    using to_from_le(1) [OF lens(2)] 2(2) by simp
  define body where "body = build_head h @ u16_le 0 @ header_bytes w n m @ concat cts"
  have "rest = footer_for P h body"
  proof (cases "has_footer h")
    case True
    then have "hashed = Some body"
      unfolding chunks(5) body_def hb z header(2) [symmetric] by simp
    then have "read_full rd6 32 = Ok (blake3_hash P body, rd7)"
      using footer check_footer_Ok [OF chunks(4)] by simp
    note f = read_full_Ok [OF this chunks(4)]
    with last expect_end_Ok [OF f(3)] True show ?thesis
      by (simp add: footer_for_def has_footer_iff)
  next
    case False
    then have "rd7 = rd6"
      using footer check_footer_Ok [OF chunks(4)] chunks(5) by simp
    with last expect_end_Ok [OF chunks(4)] False show ?thesis
      by (simp add: footer_for_def has_footer_iff)
  qed
  moreover have "object_parts P key body h w n m dek cts pts md"
    using valid(1) h(2) header(1) chunks hb by (simp add: object_parts_def body_def)
  moreover have "blob = body @ rest"
    unfolding blob chunks(3) body_def hb z header(2) [symmetric] by simp
  ultimately show thesis
    using that chunks(7) by simp
qed

text \<open>The streaming reader accepts the objects the opener accepts, with the same result.\<close>

theorem open_reader_iff:
  assumes "hashes_ok P" and "serves rd blob"
  shows "open_reader P key rd append_writer [] = (Ok md, out) \<longleftrightarrow>
    open_object P key blob = Ok \<lparr>o_metadata = md, o_plaintext = out\<rparr>"
proof
  assume ok: "open_reader P key rd append_writer [] = (Ok md, out)"
  obtain h w n m dek cts pts body where "object_parts P key body h w n m dek cts pts md"
    "out = concat pts" "blob = body @ footer_for P h body"
    by (rule open_reader_Ok [OF ok assms(2)]) (rule that; assumption)
  then show "open_object P key blob = Ok \<lparr>o_metadata = md, o_plaintext = out\<rparr>"
    using object_parts_open [OF _ assms(1)] by simp
next
  assume ok: "open_object P key blob = Ok \<lparr>o_metadata = md, o_plaintext = out\<rparr>"
  obtain h w n m dek cts pts body where "object_parts P key body h w n m dek cts pts md"
    "out = concat pts" "blob = body @ footer_for P h body"
    by (rule open_object_parts [OF ok]) (use that in simp)
  then show "open_reader P key rd append_writer [] = (Ok md, out)"
    using open_reader_parts [OF _ assms(1)] assms(2) by simp
qed


section \<open>The two-pass sealer writes what the sealer returns\<close>

lemma hash_pass_serves:
  assumes "serves rs xs" "0 < cs" "count + length xs \<le> U64_MAX"
  shows "hash_pass cs rs absorbed count = Ok (absorbed @ xs, count + length xs)"
  using assms
proof (induction cs rs absorbed count arbitrary: xs rule: hash_pass.induct)
  case (1 cs rs absorbed count)
  obtain b rs' ys where b: "read cs rs = (Some b, rs')" "xs = b @ ys" "serves rs' ys"
    "b = [] \<longleftrightarrow> xs = []"
    by (rule read_serves [OF "1.prems"(1,2)]) (rule that; assumption)
  show ?case
  proof (cases "b = []")
    case True
    with b show ?thesis by (simp add: hash_pass.simps)
  next
    case False
    have fits: "count + length b \<le> U64_MAX" "count + length b + length ys \<le> U64_MAX"
      using "1.prems"(3) b(2) by simp_all
    then have add: "checked_add count (length b) = Some (count + length b)" by simp
    have "hash_pass cs rs absorbed count = hash_pass cs rs' (absorbed @ b) (count + length b)"
      using False by (subst hash_pass.simps) (simp only: b(1) add prod.case option.case if_False)
    also have "\<dots> = Ok ((absorbed @ b) @ ys, count + length b + length ys)"
      by (rule "1.IH" [OF b(1) [symmetric] refl False add b(3) "1.prems"(2) fits(2)])
    finally show ?thesis by (simp add: b(2))
  qed
qed

text \<open>The emitting loop writes and hashes exactly what the sealing loop appends.\<close>

lemma emit_chunks_eq:
  assumes "serves rd (concat pts)"
    and "map length pts = map (chunk_plaintext_len (ps_plaintext_len ps) (unat (ps_chunk_size ps)))
      [i..<i + length pts]"
  shows "(case seal_chunks P (ps_dek ps) (ps_base_nonce ps) (ps_head_bytes ps) i pts out of
      Ok out' \<Rightarrow> emit_chunks P ps append_writer (length pts) i rd out out = (Ok out', out')
    | Err e \<Rightarrow> fst (emit_chunks P ps append_writer (length pts) i rd out out) = Err e)"
  using assms
proof (induction pts arbitrary: i rd out)
  case (Cons pt pts)
  have lens: "length pt = chunk_plaintext_len (ps_plaintext_len ps) (unat (ps_chunk_size ps)) i"
    "map length pts = map (chunk_plaintext_len (ps_plaintext_len ps) (unat (ps_chunk_size ps)))
      [i + 1..<i + 1 + length pts]"
    using Cons.prems(2) by (simp_all add: upt_conv_Cons del: upt_Suc)
  obtain rd' where rd': "read_exact (length pt) rd = Some (pt, rd')" "serves rd' (concat pts)"
    using read_exact_take [OF Cons.prems(1), of "length pt"] by auto
  show ?case
  proof (cases "encrypt_with_nonce P (ps_dek ps) (chunk_nonce (ps_base_nonce ps) (of_nat i)) pt
      (chunk_aad (ps_head_bytes ps) (of_nat i))")
    case (Inl e)
    then show ?thesis
      using rd'(1) by (simp add: lens(1) Let_def chunk_aad_def)
  next
    case (Inr ct)
    then have step: "emit_chunks P ps append_writer (length (pt # pts)) i rd out out
      = emit_chunks P ps append_writer (length pts) (i + 1) rd' (out @ ct) (out @ ct)"
      using rd'(1) by (simp add: lens(1) Let_def chunk_aad_def write_hashed_append)
    show ?thesis
      unfolding step using Inr Cons.IH [OF rd'(2) lens(2), of "out @ ct"] by (simp add: Let_def)
  qed
qed simp


lemma total_len_Ok:
  assumes "header_len + plaintext_len + 16 * chunk_count + 32 \<le> U64_MAX"
  shows "total_len header_len plaintext_len chunk_count
    = Ok (header_len + plaintext_len + 16 * chunk_count + 32)"
  using assms by (simp add: total_len_def checked_add_def checked_mul_def ac_simps)

theorem seal_stream_eq:
  assumes first: "serves (in_first input) pt" and second: "in_rewound input = Some rd" "serves rd pt"
    and small: "length pt \<le> 2 ^ 59"
  shows "(case seal P key pt meta cs r of
      Ok (blob, r') \<Rightarrow>
        seal_stream P key input (length pt) meta cs append_writer r [] = (Ok r', blob)
    | Err e \<Rightarrow> fst (seal_stream P key input (length pt) meta cs append_writer r []) = Err e)"
proof (cases "cs = 0 \<or> MAX_CHUNK_SIZE < cs")
  case True
  then show ?thesis
    by (simp add: seal_def seal_core_def seal_stream_def prepare_def)
next
  case False
  then have cs: "0 < unat cs" by (auto simp: unat_gt_0)
  have max: "length pt \<le> U64_MAX" using small by (simp add: U64_MAX_def)
  define dek r1 where "dek = fst (generate_key r)" and "r1 = snd (generate_key r)"
  define file_id r2 where "file_id = fst (rng_fill 16 r1)" and "r2 = snd (rng_fill 16 r1)"
  define bn r3 where "bn = fst (base_nonce r2)" and "r3 = snd (base_nonce r2)"
  define hb where "hb = build_head \<lparr>h_algo = ALGO_XCHACHA20_POLY1305, h_kem_id = KEM_ID_NONE,
    h_flags = FLAG_FOOTER, h_chunk_size = cs, h_plaintext_len = of_nat (length pt),
    h_chunk_count = of_nat (div_ceil (length pt) (unat cs)), h_base_nonce = bn, h_file_id = file_id\<rparr>"
  have hb: "length hb = 68"
    by (simp add: hb_def length_build_head bn_def file_id_def)
  have count: "div_ceil (length pt) (unat cs) \<le> length pt"
    by (rule div_ceil_le [OF cs])
  have pass: "hash_pass (unat cs) (in_first input) [] 0 = Ok (pt, length pt)"
    using hash_pass_serves [OF first cs, of 0 "[]"] max by simp
  define wrap where "wrap = aead_encrypt P key dek (prefixed_aad DEK_WRAP_AAD_PREFIX hb) r3"
  define mpt where "mpt = build_metadata (meta\<lparr>m_size := of_nat (length pt),
    m_content_blake3 := blake3_hash P pt\<rparr>)"
  note folds = dek_def [symmetric] r1_def [symmetric] file_id_def [symmetric] r2_def [symmetric]
    bn_def [symmetric] r3_def [symmetric] hb_def [symmetric] wrap_def [symmetric] mpt_def [symmetric]
  note unfolds = seal_def seal_core_def seal_stream_def prepare_def Let_def case_prod_beta FILE_ID_LEN_def
  show ?thesis
  proof (cases wrap)
    case (Inl e)
    then show ?thesis
      unfolding unfolds folds using False pass second by (simp add: folds len_u16_def)
  next
    case (Inr wr)
    define n where "n = fst (metadata_nonce (snd wr))"
    define seal_meta where "seal_meta = (\<lambda>m. encrypt_with_nonce P dek n m (prefixed_aad META_AAD_PREFIX hb))"
    show ?thesis
    proof (cases "length (fst wr) = 72 \<and> (\<exists>m ct. mpt = Ok m \<and> seal_meta m = Ok ct \<and>
        116 \<le> 24 + length ct \<and> 24 + length ct \<le> 262144)")
      case bad: False
      then show ?thesis
        unfolding unfolds folds using False pass second Inr
        by (cases mpt; cases "seal_meta (projr mpt)")
          (auto simp: folds len_u16_def seal_meta_def n_def)
    next
      case True
      then obtain m ct where ok: "length (fst wr) = 72" "mpt = Ok m" "seal_meta m = Ok ct"
        "116 \<le> 24 + length ct" "24 + length ct \<le> 262144" by blast
      define hdr where "hdr = hb @ u16_le 0 @ fst wr @ u32_le (of_nat (24 + length ct)) @ n @ ct"
      define ps where "ps = \<lparr>ps_dek = dek, ps_head_bytes = hb, ps_base_nonce = bn,
        ps_file_id = file_id, ps_header = hdr, ps_chunk_size = cs, ps_plaintext_len = length pt,
        ps_chunk_count = div_ceil (length pt) (unat cs),
        ps_object_len = length hdr + length pt + 16 * div_ceil (length pt) (unat cs) + 32,
        ps_content_blake3 = blake3_hash P pt\<rparr>"
      have "length n = 24" by (simp add: n_def)
      then have "length hdr + length pt + 16 * div_ceil (length pt) (unat cs) + 32 \<le> U64_MAX"
        using ok hb count small by (simp add: hdr_def U64_MAX_def)
      note total = total_len_Ok [OF this]
      have prepared: "prepare P key input (length pt) meta cs r
          = Ok (ps, rd, snd (metadata_nonce (snd wr)))"
        unfolding unfolds folds using False pass second Inr ok total
        by (simp add: folds seal_meta_def n_def ps_def hdr_def)
      have sealed: "seal P key pt meta cs r
          = and_then (seal_chunks P dek bn hb 0 (chunks_of (unat cs) pt) hdr) (\<lambda>out.
              Ok (out @ blake3_hash P out, snd (metadata_nonce (snd wr))))"
        unfolding unfolds folds using False Inr ok
        by (simp add: folds seal_meta_def n_def hdr_def len_u16_def)
      have lens: "map length (chunks_of (unat cs) pt)
        = map (chunk_plaintext_len (ps_plaintext_len ps) (unat (ps_chunk_size ps)))
          [0..<0 + length (chunks_of (unat cs) pt)]"
        using map_length_chunks_of [OF cs max] length_chunks_of [OF cs max] by (simp add: ps_def)
      have fields: "ps_dek ps = dek" "ps_base_nonce ps = bn" "ps_head_bytes ps = hb"
        "ps_header ps = hdr" "ps_chunk_count ps = div_ceil (length pt) (unat cs)"
        by (simp_all add: ps_def)
      have "serves rd (concat (chunks_of (unat cs) pt))"
        using second(2) by (simp only: concat_chunks_of [OF cs])
      note emit = emit_chunks_eq [OF this lens, of P hdr, unfolded fields length_chunks_of [OF cs max]]
      show ?thesis
      proof (cases "seal_chunks P dek bn hb 0 (chunks_of (unat cs) pt) hdr")
        case (Inl e)
        with emit obtain s' where "emit_chunks P ps append_writer (div_ceil (length pt) (unat cs)) 0
            rd hdr hdr = (Err e, s')" by (cases "emit_chunks P ps append_writer
            (div_ceil (length pt) (unat cs)) 0 rd hdr hdr") simp
        with Inl show ?thesis
          by (simp add: sealed seal_stream_def prepared emit_def write_hashed_append fields
              io_bind_assoc io_bind_Err)
      next
        case (Inr out)
        with emit have "emit_chunks P ps append_writer (div_ceil (length pt) (unat cs)) 0
            rd hdr hdr = (Ok out, out)" by simp
        with Inr show ?thesis
          by (simp add: sealed seal_stream_def prepared emit_def write_hashed_append fields
              io_bind_assoc io_bind_Ok write_out_append io_bind_collect)
      qed
    qed
  qed
qed

end
