(* ===== verification/Object_Range.thy ===== *)
theory Object_Range
  imports Object_Seal
begin

text \<open>
  \<open>dctl-crypto/src/object/range.rs\<close>: how much of an object a reader must fetch to know its header,
  which ciphertext covers a window of the plaintext, and the decryption of such a window. The
  conversions between \<open>u64\<close> and \<open>usize\<close> cannot fail on the 64-bit targets and are left out.
\<close>

section \<open>The header extent\<close>

datatype header_extent = Complete nat | Short nat

definition MIN_PROBE_LEN :: nat where
  [simp]: "MIN_PROBE_LEN = OBJECT_HEAD_LEN + 2"

definition range_u32 :: "bytes \<Rightarrow> nat \<Rightarrow> u32 crypto" where
  "range_u32 bs off =
     (case checked_add off 4 of
        None \<Rightarrow> Err (Format ''object truncated (u32)'')
      | Some end' \<Rightarrow>
          if length bs < end' then Err (Format ''object truncated (u32)'')
          else and_then (slice_at off end' bs) (\<lambda>w. Ok (u32_from_le w)))"

definition header_extent :: "bytes \<Rightarrow> header_extent crypto" where
  "header_extent prefix =
     (if length prefix < MIN_PROBE_LEN then Ok (Short MIN_PROBE_LEN) else
      and_then (parse_head prefix) (\<lambda>head.
      and_then (object_u16 prefix OBJECT_HEAD_LEN) (\<lambda>kl.
      let kem_ct_len = unat kl in
      if h_kem_id head = KEM_ID_NONE \<and> kem_ct_len \<noteq> 0
        then Err (Format ''kem_ct_len must be 0 for kem_id=0'') else
      if h_kem_id head = KEM_ID_HYBRID \<and> kem_ct_len = 0
        then Err (Format ''kem_ct_len must be non-zero for kem_id=1'') else
      let meta_len_at = MIN_PROBE_LEN + kem_ct_len + WRAPPED_DEK_LEN;
          through_meta_len = meta_len_at + 4 in
      if length prefix < through_meta_len then Ok (Short through_meta_len) else
      and_then (range_u32 prefix meta_len_at) (\<lambda>ml.
      let meta_len = unat ml in
      if \<not> (META_MIN_LEN \<le> meta_len \<and> meta_len \<le> META_MAX_LEN)
        then Err (Format ''meta_len out of range'') else
      let header_len = through_meta_len + meta_len in
      if length prefix < header_len then Ok (Short header_len) else Ok (Complete header_len)))))"

section \<open>An object opened for ranged reads\<close>

record range_header =
  rh_head :: head
  rh_head_bytes :: bytes
  rh_dek :: bytes
  rh_payload_start :: nat
  rh_metadata :: "metadata option"

definition range_decode :: "prims \<Rightarrow> bytes \<Rightarrow> bytes \<Rightarrow> byte \<Rightarrow> range_header crypto" where
  "range_decode P wrapping_key prefix expected_kem_id =
     and_then (header_extent prefix) (\<lambda>extent.
     case extent of
       Short _ \<Rightarrow> Err (Format ''object header prefix too short to decode'')
     | Complete header_len \<Rightarrow>
         and_then (parse_head prefix) (\<lambda>head.
         if h_kem_id head \<noteq> expected_kem_id
           then Err (Format ''object kem_id needs the other range opener'') else
         and_then (object_u16 prefix OBJECT_HEAD_LEN) (\<lambda>kl.
         let dek_offset = MIN_PROBE_LEN + unat kl in
         and_then (slice_at 0 header_len prefix) (\<lambda>header.
         and_then (decode_dek_and_meta P wrapping_key header head dek_offset)
           (\<lambda>(dek, metadata, payload_start).
         if payload_start \<noteq> header_len
           then Err (Format ''object header length disagrees with its own field walk'') else
         and_then (slice_at 0 OBJECT_HEAD_LEN prefix) (\<lambda>head_bytes.
         Ok \<lparr>rh_head = head, rh_head_bytes = head_bytes, rh_dek = dek,
             rh_payload_start = payload_start, rh_metadata = metadata\<rparr>))))))"

definition range_open :: "prims \<Rightarrow> bytes \<Rightarrow> bytes \<Rightarrow> range_header crypto" where
  "range_open P root_key prefix = range_decode P root_key prefix KEM_ID_NONE"

definition range_open_with_kw :: "prims \<Rightarrow> bytes \<Rightarrow> bytes \<Rightarrow> range_header crypto" where
  "range_open_with_kw P kw prefix = range_decode P kw prefix KEM_ID_HYBRID"

section \<open>Spans\<close>

record chunk_span =
  sp_first_chunk :: nat
  sp_chunk_count :: nat
  sp_ciphertext_offset :: nat
  sp_ciphertext_len :: nat
  sp_window_offset :: nat
  sp_window_len :: nat

definition EMPTY_SPAN :: chunk_span where
  "EMPTY_SPAN = \<lparr>sp_first_chunk = 0, sp_chunk_count = 0, sp_ciphertext_offset = 0,
     sp_ciphertext_len = 0, sp_window_offset = 0, sp_window_len = 0\<rparr>"

definition geometry_overflow :: "string \<Rightarrow> crypto_error" where
  "geometry_overflow what =
     Format (''object geometry overflows a byte offset ('' @ what @ '')'')"

definition chunk_span :: "range_header \<Rightarrow> nat \<Rightarrow> nat \<Rightarrow> chunk_span crypto" where
  "chunk_span rh first count =
     (let chunk_count = unat (h_chunk_count (rh_head rh));
          chunk_size = unat (h_chunk_size (rh_head rh)) in
      if chunk_count \<le> first \<or> count = 0 then Ok EMPTY_SPAN else
      let count = min count (chunk_count - first); last = first + count - 1 in
      and_then (ok_or (geometry_overflow ''chunk stride'') (checked_add chunk_size TAG_LEN)) (\<lambda>stride.
      and_then (ok_or (geometry_overflow ''chunk offset'')
        (Option.bind (checked_mul first stride) (\<lambda>skip. checked_add (rh_payload_start rh) skip)))
        (\<lambda>ciphertext_offset.
      and_then (ok_or (geometry_overflow ''chunk length'')
        (checked_add (chunk_plaintext_len (unat (h_plaintext_len (rh_head rh))) chunk_size last) TAG_LEN))
        (\<lambda>last_ct.
      and_then (ok_or (geometry_overflow ''span length'')
        (Option.bind (checked_mul (count - 1) stride) (\<lambda>full. checked_add full last_ct)))
        (\<lambda>ciphertext_len.
      and_then (ok_or (geometry_overflow ''span plaintext'')
        (Option.bind (checked_mul count TAG_LEN) (\<lambda>tags. checked_sub ciphertext_len tags)))
        (\<lambda>window_len.
      Ok \<lparr>sp_first_chunk = first, sp_chunk_count = count, sp_ciphertext_offset = ciphertext_offset,
          sp_ciphertext_len = ciphertext_len, sp_window_offset = 0, sp_window_len = window_len\<rparr>))))))"

definition span :: "range_header \<Rightarrow> nat \<Rightarrow> nat option \<Rightarrow> chunk_span crypto" where
  "span rh offset len =
     (let plaintext_len = unat (h_plaintext_len (rh_head rh)) in
      if plaintext_len \<le> offset then Ok EMPTY_SPAN else
      let available = plaintext_len - offset;
          want = (case len of None \<Rightarrow> available | Some l \<Rightarrow> min l available) in
      if want = 0 then Ok EMPTY_SPAN else
      let chunk_size = unat (h_chunk_size (rh_head rh));
          first = offset div chunk_size;
          last = (offset + want - 1) div chunk_size in
      and_then (chunk_span rh first (last - first + 1)) (\<lambda>sp.
      Ok (sp\<lparr>sp_window_offset := offset - first * chunk_size, sp_window_len := want\<rparr>)))"

section \<open>Decrypting a span\<close>

fun range_chunk_loop ::
  "prims \<Rightarrow> range_header \<Rightarrow> bytes \<Rightarrow> (nat \<Rightarrow> bytes \<Rightarrow> ('s, crypto_error, unit) io) \<Rightarrow> nat \<Rightarrow> nat \<Rightarrow> nat
     \<Rightarrow> ('s, crypto_error, unit) io" where
  "range_chunk_loop P rh ciphertext emit 0 index at = io_return ()"
| "range_chunk_loop P rh ciphertext emit (Suc left) index at =
     (let this_pt = chunk_plaintext_len (unat (h_plaintext_len (rh_head rh)))
            (unat (h_chunk_size (rh_head rh))) index in
      case checked_add at (this_pt + TAG_LEN) of
        None \<Rightarrow> io_fail (Format ''ranged read truncated (chunk)'')
      | Some end' \<Rightarrow>
          if length ciphertext < end' then io_fail (Format ''ranged read truncated (chunk)'') else
          io_bind (io_lift (and_then (slice_at at end' ciphertext)
            (decrypt_chunk P (rh_dek rh) (rh_head rh) (rh_head_bytes rh) index))) (\<lambda>plaintext.
          io_bind (emit index plaintext) (\<lambda>_.
          range_chunk_loop P rh ciphertext emit left (index + 1) end')))"

definition open_chunks ::
  "prims \<Rightarrow> range_header \<Rightarrow> chunk_span \<Rightarrow> bytes \<Rightarrow> (nat \<Rightarrow> bytes \<Rightarrow> ('s, crypto_error, unit) io)
     \<Rightarrow> ('s, crypto_error, unit) io" where
  "open_chunks P rh sp ciphertext emit =
     (if length ciphertext \<noteq> sp_ciphertext_len sp
        then io_fail (Format ''ranged read returned the wrong number of bytes'')
      else range_chunk_loop P rh ciphertext emit (sp_chunk_count sp) (sp_first_chunk sp) 0)"

text \<open>The callback of \<open>read_window\<close>: the part of the chunk that lies in the window; the state is
  what was collected and how many plaintext bytes were seen.\<close>

definition window_part ::
  "chunk_span \<Rightarrow> nat \<Rightarrow> bytes \<Rightarrow> (bytes \<times> nat, crypto_error, unit) io" where
  "window_part sp index plaintext = (\<lambda>(out, seen).
     let window_end = saturating_add (sp_window_offset sp) (sp_window_len sp);
         start = min (saturating_sub (sp_window_offset sp) seen) (length plaintext);
         end' = min (saturating_sub window_end seen) (length plaintext) in
     (Ok (), (if start < end' then out @ seg start end' plaintext else out, seen + length plaintext)))"

definition read_window :: "prims \<Rightarrow> range_header \<Rightarrow> chunk_span \<Rightarrow> bytes \<Rightarrow> bytes crypto" where
  "read_window P rh sp ciphertext =
     (case open_chunks P rh sp ciphertext (window_part sp) ([], 0) of
        (Err e, _) \<Rightarrow> Err e
      | (Ok _, (out, _)) \<Rightarrow>
          if length out \<noteq> sp_window_len sp then Err (Format ''ranged read length mismatch'')
          else Ok out)"


section \<open>How many reads the header takes\<close>

text \<open>The header of a sealed object of either kind, with its key-encapsulation block.\<close>

definition header_shape :: "head \<Rightarrow> bytes \<Rightarrow> bytes \<Rightarrow> bytes \<Rightarrow> bytes \<Rightarrow> bool" where
  "header_shape h kw w n m \<longleftrightarrow> valid_head h \<and> length kw < 2 ^ 16 \<and>
     (h_kem_id h = KEM_ID_NONE \<longleftrightarrow> kw = []) \<and> length w = WRAPPED_DEK_LEN \<and> length n = NONCE_LEN \<and>
     META_MIN_LEN \<le> 24 + length m \<and> 24 + length m \<le> META_MAX_LEN"

definition full_header :: "head \<Rightarrow> bytes \<Rightarrow> bytes \<Rightarrow> bytes \<Rightarrow> bytes \<Rightarrow> bytes" where
  "full_header h kw w n m =
     build_head h @ u16_le (of_nat (length kw)) @ kw @ header_bytes w n m"

lemma header_shape_head:
  assumes "header_shape h kw w n m"
  shows "length (build_head h) = 68" "h_kem_id h = KEM_ID_NONE \<or> h_kem_id h = KEM_ID_HYBRID"
  using assms by (auto simp: header_shape_def valid_head_def intro: length_build_head)

lemma length_full_header:
  "header_shape h kw w n m \<Longrightarrow> length (full_header h kw w n m) = 170 + length kw + length m"
  by (simp add: full_header_def header_bytes_def header_shape_head(1)) (simp add: header_shape_def)

lemma parse_head_prefix:
  assumes "header_shape h kw w n m" "68 \<le> k"
  shows "parse_head (take k (full_header h kw w n m @ rest)) = Ok h"
proof -
  have "take k (full_header h kw w n m @ rest)
    = build_head h @ take (k - 68) (u16_le (of_nat (length kw)) @ kw @ header_bytes w n m @ rest)"
    using assms header_shape_head(1) [OF assms(1)] by (simp add: full_header_def)
  then show ?thesis
    using assms(1) by (simp add: parse_build_head header_shape_def)
qed

lemma header_extent_prefix:
  assumes shape: "header_shape h kw w n m" and k: "k \<le> length (full_header h kw w n m @ rest)"
  shows "header_extent (take k (full_header h kw w n m @ rest)) = Ok
    (if k < 70 then Short 70
     else if k < 146 + length kw then Short (146 + length kw)
     else if k < length (full_header h kw w n m) then Short (length (full_header h kw w n m))
     else Complete (length (full_header h kw w n m)))"
proof -
  define blob where "blob = full_header h kw w n m @ rest"
  note hb = header_shape_head [OF shape]
  have kl: "unat (of_nat (length kw) :: u16) = length kw"
    using shape by (intro unat_of_nat_id) (simp add: header_shape_def)
  have ml: "unat (of_nat (24 + length m) :: u32) = 24 + length m"
    using shape by (intro unat_of_nat_id) (simp add: header_shape_def)
  have len: "length (take k blob) = k"
    using k by (simp add: blob_def)
  have u16: "object_u16 (take k blob) 68 = Ok (of_nat (length kw))" if "70 \<le> k"
  proof -
    have "seg 68 70 (take k blob) = u16_le (of_nat (length kw))"
      using that hb(1) by (simp add: blob_def full_header_def)
    with that len show ?thesis by (simp add: object_u16_def)
  qed
  have u32: "range_u32 (take k blob) (142 + length kw) = Ok (of_nat (24 + length m))"
    if "146 + length kw \<le> k"
  proof -
    have "seg (142 + length kw) (146 + length kw) (take k blob) = u32_le (of_nat (24 + length m))"
      using that hb(1) shape by (simp add: blob_def full_header_def header_bytes_def header_shape_def)
    with that len shape show ?thesis
      by (simp add: range_u32_def checked_add_def U64_MAX_def header_shape_def)
  qed
  have kem: "\<not> (h_kem_id h = KEM_ID_NONE \<and> length kw \<noteq> 0)"
    "\<not> (h_kem_id h = KEM_ID_HYBRID \<and> length kw = 0)"
    using shape by (auto simp: header_shape_def)
  have meta: "META_MIN_LEN \<le> 24 + length m" "24 + length m \<le> META_MAX_LEN"
    using shape by (simp_all add: header_shape_def)
  show ?thesis
    unfolding blob_def [symmetric] header_extent_def Let_def len length_full_header [OF shape]
    using parse_head_prefix [OF shape, of k rest, folded blob_def] u16 u32 kl ml kem meta
    by (simp add: not_less)
qed


lemma range_decode_prefix:
  assumes shape: "header_shape h kw w n m" and opens: "header_opens P kek (build_head h) h w n m dek md"
    and k: "length (full_header h kw w n m) \<le> k" "k \<le> length (full_header h kw w n m @ rest)"
  shows "range_decode P kek (take k (full_header h kw w n m @ rest)) (h_kem_id h)
    = Ok \<lparr>rh_head = h, rh_head_bytes = build_head h, rh_dek = dek,
          rh_payload_start = length (full_header h kw w n m), rh_metadata = md\<rparr>"
proof -
  define hl where "hl = length (full_header h kw w n m)"
  note hb = header_shape_head [OF shape]
  have hl: "hl = 170 + length kw + length m"
    unfolding hl_def by (rule length_full_header [OF shape])
  define p where "p = take k (full_header h kw w n m @ rest)"
  have p: "p = full_header h kw w n m @ take (k - hl) rest" "hl \<le> length p"
    using k by (simp_all add: p_def hl_def)
  have extent: "header_extent p = Ok (Complete hl)"
    using header_extent_prefix [OF shape k(2)] k(1) hl by (simp add: p_def hl_def)
  have parse: "parse_head p = Ok h"
    using parse_head_prefix [OF shape, of k rest] k(1) hl by (simp add: p_def hl_def)
  have u16: "object_u16 p 68 = Ok (of_nat (length kw))"
    using object_u16_sealed [OF hb(1)] by (simp add: p(1) full_header_def)
  have kl: "unat (of_nat (length kw) :: u16) = length kw"
    using shape by (intro unat_of_nat_id) (simp add: header_shape_def)
  have header: "slice_at 0 hl p = Ok (full_header h kw w n m)"
    using p by (simp add: hl_def)
  have "decode_dek_and_meta P kek (full_header h kw w n m) h (70 + length kw) = Ok (dek, md, hl)"
    using decode_header [OF opens hb(1), of "u16_le (of_nat (length kw)) @ kw" "[]"] shape
    by (simp add: full_header_def hl header_shape_def header_bytes_def)
  moreover have "slice_at 0 OBJECT_HEAD_LEN p = Ok (build_head h)"
    using p hb(1) hl by (simp add: full_header_def)
  ultimately show ?thesis
    unfolding p_def [symmetric] hl_def [symmetric]
    using extent parse u16 kl header by (simp add: range_decode_def Let_def)
qed

section \<open>The chunks of a span\<close>

lemma seg_append:
  "seg a b (xs @ ys) = seg a b xs @ seg (a - length xs) (b - length xs) ys"
  by (cases "a \<le> length xs") (simp_all add: seg_def)

lemma window_part_eq:
  "window_part sp i pt (out, seen) = (Ok (),
     (out @ seg (sp_window_offset sp - seen)
        (saturating_add (sp_window_offset sp) (sp_window_len sp) - seen) pt, seen + length pt))"
  by (auto simp: window_part_def Let_def saturating_sub_def seg_def not_less min_def)

text \<open>Over chunks that decrypt, the loop hands their plaintexts to the callback one by one.\<close>

fun emit_from ::
  "(nat \<Rightarrow> bytes \<Rightarrow> ('s, crypto_error, unit) io) \<Rightarrow> nat \<Rightarrow> bytes list \<Rightarrow> ('s, crypto_error, unit) io" where
  "emit_from emit i [] = io_return ()"
| "emit_from emit i (pt # pts) = io_bind (emit i pt) (\<lambda>_. emit_from emit (i + 1) pts)"

lemma range_loop_emit:
  assumes "decrypts P (rh_dek rh) (rh_head rh) (rh_head_bytes rh) i cts pts"
    and "ciphertext = pre @ concat cts @ post" "length ciphertext \<le> U64_MAX"
  shows "range_chunk_loop P rh ciphertext emit (length cts) i (length pre) = emit_from emit i pts"
  using assms
proof (induction P "rh_dek rh" "rh_head rh" "rh_head_bytes rh" i cts pts arbitrary: pre
    rule: decrypts.induct)
  case (2 P i ct cts pt pts)
  have len: "length ct = chunk_plaintext_len (unat (h_plaintext_len (rh_head rh)))
      (unat (h_chunk_size (rh_head rh))) i + TAG_LEN"
    and dec: "decrypt_chunk P (rh_dek rh) (rh_head rh) (rh_head_bytes rh) i ct = Ok pt"
    using "2.prems" by simp_all
  have at: "slice_at (length pre) (length pre + length ct) ciphertext = Ok ct"
    "checked_add (length pre) (length ct) = Some (length pre + length ct)"
    "\<not> length ciphertext < length pre + length ct"
    using "2.prems"(2,3) by (simp_all add: slice_at_def checked_add_def)
  have "range_chunk_loop P rh ciphertext emit (length (ct # cts)) i (length pre)
    = io_bind (emit i pt) (\<lambda>_. range_chunk_loop P rh ciphertext emit (length cts) (i + 1) (length (pre @ ct)))"
    unfolding list.size(4) add_Suc_right Nat.add_0_right range_chunk_loop.simps Let_def len [symmetric] at(2)
    by (simp add: at dec io_bind_def fun_eq_iff)
  with "2.hyps" [of "pre @ ct"] "2.prems" show ?case by simp
qed simp_all

lemma emit_window:
  "emit_from (window_part sp) i pts (out, seen) = (Ok (), (out @ seg (sp_window_offset sp - seen)
      (saturating_add (sp_window_offset sp) (sp_window_len sp) - seen) (concat pts), seen + length (concat pts)))"
  by (induction pts arbitrary: i out seen) (simp_all add: window_part_eq io_bind_Ok seg_append add.assoc)

lemma decrypts_drop:
  "decrypts P dek h hb i cts pts \<Longrightarrow> decrypts P dek h hb (i + f) (drop f cts) (drop f pts)"
proof (induction P dek h hb i cts pts arbitrary: f rule: decrypts.induct)
  case (2 P dek h hb i ct cts pt pts)
  then show ?case by (cases f) (auto dest: "2.IH")
qed simp_all

lemma decrypts_take:
  "decrypts P dek h hb i cts pts \<Longrightarrow> decrypts P dek h hb i (take c cts) (take c pts)"
proof (induction P dek h hb i cts pts arbitrary: c rule: decrypts.induct)
  case (2 P dek h hb i ct cts pt pts)
  then show ?case by (cases c) auto
qed simp_all

lemma decrypts_lengths:
  "decrypts P dek h hb i cts pts \<Longrightarrow>
   map length cts = map (\<lambda>j. chunk_plaintext_len (unat (h_plaintext_len h))
     (unat (h_chunk_size h)) j + 16) [i..<i + length cts]"
  by (induction P dek h hb i cts pts rule: decrypts.induct) (simp_all add: upt_conv_Cons del: upt_Suc)

text \<open>
  Chunks of \<open>cs\<close> bytes, each followed by \<open>t\<close> more, all full but the last: where a run of them starts
  and how long it is.
\<close>

lemma run_start:
  assumes "map length xs = map (\<lambda>j. chunk_plaintext_len len cs j + t) [0..<div_ceil len cs]"
    and "f < div_ceil len cs" "0 < cs" "len \<le> U64_MAX"
  shows "length (concat (take f xs)) = f * (cs + t)"
proof -
  have "map length (take f xs) = map (\<lambda>j. cs + t) [0..<f]"
    unfolding take_map [symmetric] assms(1) using assms(2-4)
    by (simp add: take_map take_upt chunk_plaintext_len_full)
  then have "length (concat (take f xs)) = sum_list (map (\<lambda>j. cs + t) [0..<f])"
    by (simp only: length_concat)
  then show ?thesis by (simp add: sum_list_triv)
qed

lemma run_length:
  assumes "map length xs = map (\<lambda>j. chunk_plaintext_len len cs j + t) [0..<div_ceil len cs]"
    and "f + c \<le> div_ceil len cs" "0 < c" "0 < cs" "len \<le> U64_MAX"
  shows "length (concat (take c (drop f xs)))
    = (c - 1) * (cs + t) + chunk_plaintext_len len cs (f + c - 1) + t"
proof -
  obtain b where c: "c = Suc b" using assms(3) by (cases c) auto
  have "map length (take c (drop f xs)) = map (\<lambda>j. chunk_plaintext_len len cs j + t) [f..<f + c]"
    unfolding take_map [symmetric] drop_map [symmetric] assms(1) using assms(2)
    by (simp add: take_map drop_map take_upt drop_upt)
  also have "\<dots> = map (\<lambda>j. cs + t) [f..<f + b] @ [chunk_plaintext_len len cs (f + b) + t]"
    using assms(2,4,5) by (auto simp: c chunk_plaintext_len_full)
  finally have "length (concat (take c (drop f xs)))
      = sum_list (map (\<lambda>j. cs + t) [f..<f + b] @ [chunk_plaintext_len len cs (f + b) + t])"
    by (simp only: length_concat)
  then show ?thesis by (simp add: c sum_list_triv)
qed

section \<open>A window of the plaintext\<close>

text \<open>An object laid out as the sealer lays it out, and the header a ranged reader has decoded from it.\<close>

definition ranged_object ::
  "prims \<Rightarrow> range_header \<Rightarrow> bytes list \<Rightarrow> bytes list \<Rightarrow> bytes \<Rightarrow> bool" where
  "ranged_object P rh cts pts blob \<longleftrightarrow>
     (let h = rh_head rh; len = unat (h_plaintext_len h); cs = unat (h_chunk_size h) in
      0 < cs \<and> unat (h_chunk_count h) = div_ceil len cs \<and>
      decrypts P (rh_dek rh) h (rh_head_bytes rh) 0 cts pts \<and> length cts = div_ceil len cs \<and>
      map length pts = map (chunk_plaintext_len len cs) [0..<div_ceil len cs] \<and>
      (\<exists>pre post. blob = pre @ concat cts @ post \<and> length pre = rh_payload_start rh) \<and>
      length blob \<le> U64_MAX)"

lemma take_drop_concat:
  "concat xs = concat (take f xs) @ concat (take c (drop f xs)) @ concat (drop c (drop f xs))"
  by (metis append_take_drop_id concat_append)

lemma seg_middle: "seg (length a) (length a + length b) (a @ b @ c) = b"
  by (simp add: seg_def)

text \<open>The bytes that a span names are the chunks it names, and reading them yields the window.\<close>

lemma chunk_span_Ok:
  assumes obj: "ranged_object P rh cts pts blob"
    and fc: "f + c \<le> unat (h_chunk_count (rh_head rh))" "0 < c"
  obtains co cl wl where "chunk_span rh f c = Ok \<lparr>sp_first_chunk = f, sp_chunk_count = c,
      sp_ciphertext_offset = co, sp_ciphertext_len = cl, sp_window_offset = 0, sp_window_len = wl\<rparr>"
    "co + cl \<le> length blob" "seg co (co + cl) blob = concat (take c (drop f cts))"
    "cl = length (concat (take c (drop f cts)))" "wl = length (concat (take c (drop f pts)))"
    "co = rh_payload_start rh + length (concat (take f cts))"
proof -
  define h len cs where "h = rh_head rh" and "len = unat (h_plaintext_len h)"
    and "cs = unat (h_chunk_size h)"
  from obj obtain pre post where cs: "0 < cs" and n: "unat (h_chunk_count h) = div_ceil len cs"
    and dec: "decrypts P (rh_dek rh) h (rh_head_bytes rh) 0 cts pts" "length cts = div_ceil len cs"
    and pl: "map length pts = map (chunk_plaintext_len len cs) [0..<div_ceil len cs]"
    and blob: "blob = pre @ concat cts @ post" "length pre = rh_payload_start rh" "length blob \<le> U64_MAX"
    by (auto simp: ranged_object_def Let_def h_def len_def cs_def)
  have len: "len \<le> U64_MAX" unfolding len_def by (rule unat_u64_le_max)
  have cl: "map length cts = map (\<lambda>j. chunk_plaintext_len len cs j + 16) [0..<div_ceil len cs]"
    using decrypts_lengths [OF dec(1)] dec(2) by (simp add: len_def cs_def)
  define a b where "a = concat (take f cts)" and "b = concat (take c (drop f cts))"
  have fc': "f < div_ceil len cs" "f + c \<le> div_ceil len cs"
    using fc n by (simp_all add: h_def)
  have la: "length a = f * (cs + 16)"
    unfolding a_def by (rule run_start [OF cl fc'(1) cs len])
  have lb: "length b = (c - 1) * (cs + 16) + (chunk_plaintext_len len cs (f + c - 1) + 16)"
    unfolding b_def using run_length [OF cl fc'(2) fc(2) cs len] by simp
  have lp: "length (concat (take c (drop f pts))) = (c - 1) * cs + chunk_plaintext_len len cs (f + c - 1)"
    using run_length [of pts len cs 0, OF _ fc'(2) fc(2) cs len] pl by simp
  have split: "blob = (pre @ a) @ b @ concat (drop c (drop f cts)) @ post"
    using take_drop_concat [of cts f c] by (simp add: blob(1) a_def b_def)
  then have total: "rh_payload_start rh + f * (cs + 16) + length b \<le> length blob"
    using blob(2) la by simp
  have pos: "cs + 16 \<le> f * (cs + 16) \<or> f = 0" by (cases f) simp_all
  have csle: "cs + 16 \<le> U64_MAX"
  proof -
    have "cs < 2 ^ 32" unfolding cs_def using unsigned_less [of "h_chunk_size h"] by simp
    then show ?thesis by (simp add: U64_MAX_def)
  qed
  have wl: "length b - c * 16 = length (concat (take c (drop f pts)))" "c * 16 \<le> length b"
    using fc(2) by (auto simp: lb lp distrib_left gr0_conv_Suc)
  define ps where "ps = rh_payload_start rh"
  have bounds: "cs + 16 \<le> U64_MAX" "f * (cs + 16) \<le> U64_MAX" "ps + f * (cs + 16) \<le> U64_MAX"
    "chunk_plaintext_len len cs (f + c - 1) + 16 \<le> U64_MAX" "(c - 1) * (cs + 16) \<le> U64_MAX"
    "(c - 1) * (cs + 16) + (chunk_plaintext_len len cs (f + c - 1) + 16) \<le> U64_MAX" "c * 16 \<le> U64_MAX"
    "c * 16 \<le> (c - 1) * (cs + 16) + (chunk_plaintext_len len cs (f + c - 1) + 16)"
    using csle total blob(3) lb wl(2) by (simp_all only: ps_def)
  have sums: "checked_add cs TAG_LEN = Some (cs + 16)" "checked_mul f (cs + 16) = Some (f * (cs + 16))"
    "checked_add ps (f * (cs + 16)) = Some (ps + f * (cs + 16))"
    "checked_add (chunk_plaintext_len len cs (f + c - 1)) TAG_LEN
      = Some (chunk_plaintext_len len cs (f + c - 1) + 16)"
    "checked_mul (c - 1) (cs + 16) = Some ((c - 1) * (cs + 16))"
    "checked_add ((c - 1) * (cs + 16)) (chunk_plaintext_len len cs (f + c - 1) + 16) = Some (length b)"
    "checked_mul c TAG_LEN = Some (c * 16)" "checked_sub (length b) (c * 16)
      = Some (length (concat (take c (drop f pts))))"
    using bounds wl(1) by (simp_all add: checked_add_def checked_mul_def checked_sub_def lb)
  have min: "min c (div_ceil len cs - f) = c" "\<not> (div_ceil len cs \<le> f \<or> c = 0)"
    using fc' fc(2) by auto
  have "chunk_span rh f c = Ok \<lparr>sp_first_chunk = f, sp_chunk_count = c,
      sp_ciphertext_offset = ps + f * (cs + 16), sp_ciphertext_len = length b,
      sp_window_offset = 0, sp_window_len = length (concat (take c (drop f pts)))\<rparr>"
    unfolding chunk_span_def Let_def h_def [symmetric] len_def [symmetric] cs_def [symmetric] n min
      sums ps_def [symmetric] bind.simps ok_or_simps and_then_simps sums
    using min(2) by (simp only: if_False)
  moreover have "seg (rh_payload_start rh + f * (cs + 16))
      (rh_payload_start rh + f * (cs + 16) + length b) blob = b"
    using seg_middle [of "pre @ a" b "concat (drop c (drop f cts)) @ post"] split la blob(2) by simp
  ultimately show ?thesis
    using that total la by (simp add: b_def ps_def a_def)
qed

lemma open_chunks_emit:
  assumes obj: "ranged_object P rh cts pts blob" and fc: "f + c \<le> unat (h_chunk_count (rh_head rh))"
    and sp: "sp_first_chunk sp = f" "sp_chunk_count sp = c"
      "sp_ciphertext_len sp = length (concat (take c (drop f cts)))"
  shows "open_chunks P rh sp (concat (take c (drop f cts))) emit = emit_from emit f (take c (drop f pts))"
proof -
  from obj obtain pre post where dec: "decrypts P (rh_dek rh) (rh_head rh) (rh_head_bytes rh) 0 cts pts"
      "length cts = unat (h_chunk_count (rh_head rh))"
    and blob: "blob = pre @ concat cts @ post" "length blob \<le> U64_MAX"
    by (auto simp: ranged_object_def Let_def)
  have run: "decrypts P (rh_dek rh) (rh_head rh) (rh_head_bytes rh) f
      (take c (drop f cts)) (take c (drop f pts))"
    using decrypts_take [OF decrypts_drop [OF dec(1), of f], of c] by simp
  have "length (concat (take c (drop f cts))) \<le> length (concat cts)"
    using take_drop_concat [of cts f c] by (metis length_append le_add1 le_add2 le_trans)
  then have "length (concat (take c (drop f cts))) \<le> U64_MAX"
    using blob by simp
  moreover have "length (take c (drop f cts)) = c"
    using fc dec(2) by simp
  ultimately show ?thesis
    using range_loop_emit [OF run, of "concat (take c (drop f cts))" "[]" "[]" emit]
    by (simp add: open_chunks_def sp)
qed

lemma ranged_read:
  assumes obj: "ranged_object P rh cts pts blob"
    and pt: "length (concat pts) = unat (h_plaintext_len (rh_head rh))"
  obtains sp where "span rh offset len = Ok sp"
    "sp_ciphertext_offset sp + sp_ciphertext_len sp \<le> length blob"
    "read_window P rh sp (seg (sp_ciphertext_offset sp)
        (sp_ciphertext_offset sp + sp_ciphertext_len sp) blob)
      = Ok ((case len of None \<Rightarrow> id | Some l \<Rightarrow> take l) (drop offset (concat pts)))"
proof -
  define pl cs where "pl = unat (h_plaintext_len (rh_head rh))" and "cs = unat (h_chunk_size (rh_head rh))"
  define want where "want = (case len of None \<Rightarrow> pl - offset | Some l \<Rightarrow> min l (pl - offset))"
  have result: "(case len of None \<Rightarrow> id | Some l \<Rightarrow> take l) (drop offset (concat pts))
      = take want (drop offset (concat pts))"
    using pt by (auto simp: want_def pl_def min_def split: option.splits)
  show ?thesis
  proof (cases "want = 0")
    case True
    then have "span rh offset len = Ok EMPTY_SPAN"
      unfolding span_def Let_def pl_def [symmetric] want_def [symmetric] by simp
    moreover have "read_window P rh EMPTY_SPAN (seg 0 (0 + 0) blob) = Ok []"
      by (simp add: read_window_def open_chunks_def EMPTY_SPAN_def io_return_def)
    ultimately show ?thesis
      using that [of EMPTY_SPAN] unfolding result by (simp add: EMPTY_SPAN_def True)
  next
    case False
    define f c where "f = offset div cs" and "c = (offset + want - 1) div cs - f + 1"
    from obj have cs: "0 < cs" and n: "unat (h_chunk_count (rh_head rh)) = div_ceil pl cs"
      and pts: "map length pts = map (chunk_plaintext_len pl cs) [0..<div_ceil pl cs]"
      by (auto simp: ranged_object_def Let_def pl_def cs_def)
    have pl: "pl \<le> U64_MAX" unfolding pl_def by (rule unat_u64_le_max)
    have end': "offset + want \<le> pl" "offset < pl"
      using False by (auto simp: want_def split: option.splits)
    define l where "l = (offset + want - 1) div cs"
    have l: "f \<le> l" "f + c = l + 1" "l * cs < pl" "offset + want \<le> (l + 1) * cs" "f * cs \<le> offset"
    proof -
      show "f \<le> l" "f * cs \<le> offset"
        using False by (simp_all add: f_def l_def div_le_mono)
      then show "f + c = l + 1" by (simp add: c_def l_def)
      have "l * cs \<le> offset + want - 1" by (simp add: l_def)
      then show "l * cs < pl" using end' False by simp
      have "offset + want - 1 < (l + 1) * cs"
        using dividend_less_div_times [OF cs, of "offset + want - 1"] by (simp add: l_def)
      then show "offset + want \<le> (l + 1) * cs" by simp
    qed
    then have fc: "f + c \<le> unat (h_chunk_count (rh_head rh))" "0 < c"
      using n less_div_ceil_iff [OF cs, of l pl] by (simp_all add: c_def)
    obtain co cl wl where sp: "chunk_span rh f c = Ok \<lparr>sp_first_chunk = f, sp_chunk_count = c,
        sp_ciphertext_offset = co, sp_ciphertext_len = cl, sp_window_offset = 0, sp_window_len = wl\<rparr>"
      "co + cl \<le> length blob" "seg co (co + cl) blob = concat (take c (drop f cts))"
      "cl = length (concat (take c (drop f cts)))"
      by (rule chunk_span_Ok [OF obj fc])
    define sp' where "sp' = \<lparr>sp_first_chunk = f, sp_chunk_count = c, sp_ciphertext_offset = co,
      sp_ciphertext_len = cl, sp_window_offset = offset - f * cs, sp_window_len = want\<rparr>"
    have span: "span rh offset len = Ok sp'"
      unfolding span_def Let_def pl_def [symmetric] cs_def [symmetric] want_def [symmetric]
        f_def [symmetric] c_def [symmetric] sp(1)
      using False end'(2) by (simp add: sp'_def)
    define w where "w = concat (take c (drop f pts))"
    have lw: "length w = (c - 1) * cs + chunk_plaintext_len pl cs (f + c - 1)"
      using run_length [of pts pl cs 0 f c] pts fc n cs pl by (simp add: w_def)
    have skip: "length (concat (take f pts)) = f * cs"
      using run_start [of pts pl cs 0 f] pts fc n cs pl by simp
    have split: "concat pts = concat (take f pts) @ w @ concat (drop c (drop f pts))"
      unfolding w_def by (rule take_drop_concat)
    have len: "offset - f * cs + want \<le> length w"
    proof -
      have "f * cs + length w = l * cs + min (pl - l * cs) cs"
        using lw l(1,2) by (simp add: chunk_plaintext_len_eq [OF pl] c_def l_def flip: add_mult_distrib)
      then show ?thesis using end'(1) l(3-5) by (simp add: min_def split: if_splits)
    qed
    have "saturating_add (offset - f * cs) want = offset - f * cs + want"
      using end'(1) pl by (simp add: saturating_add_def)
    then have "read_window P rh sp' (concat (take c (drop f cts)))
        = Ok (seg (offset - f * cs) (offset - f * cs + want) w)"
      using open_chunks_emit [OF obj fc(1), of sp' "window_part sp'"] sp(4) len
      by (simp add: read_window_def sp'_def w_def [symmetric] emit_window)
    also have "seg (offset - f * cs) (offset - f * cs + want) w = take want (drop offset (concat pts))"
      using len l(5) by (simp add: split seg_def skip)
    finally show ?thesis
      using that [OF span] sp(2,3) unfolding result by (simp add: sp'_def)
  qed
qed

text \<open>An object that opens in full can be read in windows, and every window is the same content.\<close>

lemma opened_ranged:
  assumes tidy: "cipher_tidy P" and opened: "open_object P key blob = Ok x"
    and size: "length blob \<le> U64_MAX"
  obtains h w n m rest rh cts pts where "header_shape h [] w n m"
    "blob = full_header h [] w n m @ rest" "rh_metadata rh = o_metadata x"
    "\<And>k. \<lbrakk>length (full_header h [] w n m) \<le> k; k \<le> length blob\<rbrakk> \<Longrightarrow> range_open P key (take k blob) = Ok rh"
    "ranged_object P rh cts pts blob" "concat pts = o_plaintext x"
    "length (o_plaintext x) = unat (h_plaintext_len (rh_head rh))"
    "rh_head rh = h" "rh_payload_start rh = length (full_header h [] w n m)"
    "rest = concat cts @ footer_for P h (full_header h [] w n m @ concat cts)"
proof -
  obtain h w n m dek cts pts body where parts: "object_parts P key body h w n m dek cts pts (o_metadata x)"
    and pt: "o_plaintext x = concat pts" and blob: "blob = body @ footer_for P h body"
    by (rule open_object_parts [OF opened])
  from parts have h: "valid_head h" "h_kem_id h = KEM_ID_NONE"
    and opens: "header_opens P key (build_head h) h w n m dek (o_metadata x)"
    and dec: "decrypts P dek h (build_head h) 0 cts pts" "length cts = unat (h_chunk_count h)"
    and len: "length (concat pts) = unat (h_plaintext_len h)"
    and body: "body = full_header h [] w n m @ concat cts"
    by (simp_all add: object_parts_def full_header_def)
  have shape: "header_shape h [] w n m"
    using h opens by (simp add: header_shape_def header_opens_def)
  have blob': "blob = full_header h [] w n m @ concat cts @ footer_for P h body"
    by (simp add: blob body)
  define rh where "rh = \<lparr>rh_head = h, rh_head_bytes = build_head h, rh_dek = dek,
    rh_payload_start = length (full_header h [] w n m), rh_metadata = o_metadata x\<rparr>"
  have "range_open P key (take k blob) = Ok rh"
    if "length (full_header h [] w n m) \<le> k" "k \<le> length blob" for k
    using range_decode_prefix [OF shape opens that(1), of "concat cts @ footer_for P h body"] that(2)
    by (simp add: range_open_def h(2) rh_def blob')
  moreover have "ranged_object P rh cts pts blob"
    using decrypts_sealed [OF tidy dec(1)] decrypts_length [OF dec(1)] h(1) dec size blob'
    by (auto simp: ranged_object_def rh_def Let_def valid_head_def unat_gt_0)
  ultimately show thesis
    using that [of h w n m "concat cts @ footer_for P h body" rh cts pts] shape blob' pt len body
    by (simp add: rh_def)
qed

end
