(* ===== verification/Kem.thy ===== *)
theory Kem
  imports Primitives
begin

text \<open>
  \<open>dctl-crypto/src/kem/identity.rs\<close>, \<open>combine.rs\<close> and \<open>wrap.rs\<close>: the hybrid identities of
  recipients, the key that wraps a file's key for one of them, and the block of sub-records that an
  object carries, one for each recipient.
\<close>

section \<open>Identities\<close>

record drk1_public =
  x_pk :: bytes
  ek :: bytes

definition drk1_encode :: "drk1_public \<Rightarrow> bytes" where
  "drk1_encode p = RECIP_ID_MAGIC @ [RECIP_ID_VERSION, KEM_SUITE_X25519_MLKEM768] @ x_pk p @ ek p"

definition drk1_decode :: "bytes \<Rightarrow> drk1_public crypto" where
  "drk1_decode bs =
     (if length bs \<noteq> DRK1_LEN then Err (Format ''DRK1 wrong length'') else
      and_then (slice_at 0 4 bs) (\<lambda>magic.
      if magic \<noteq> RECIP_ID_MAGIC then Err (Format ''bad DRK1 magic'') else
      and_then (byte_at 4 bs) (\<lambda>version.
      if version \<noteq> RECIP_ID_VERSION then Err (Format ''unsupported DRK1 version'') else
      and_then (byte_at 5 bs) (\<lambda>suite.
      if suite \<noteq> KEM_SUITE_X25519_MLKEM768
        then Err (Format ''unsupported DRK1 hybrid_suite'') else
      and_then (slice_at 6 (6 + X25519_PK_LEN) bs) (\<lambda>x.
      and_then (slice_at (6 + X25519_PK_LEN) DRK1_LEN bs) (\<lambda>e.
      Ok \<lparr>x_pk = x, ek = e\<rparr>))))))"

definition drk1_key_id :: "prims \<Rightarrow> drk1_public \<Rightarrow> bytes" where
  "drk1_key_id P p = blake3_hash P (RECIP_ID_LABEL @ drk1_encode p)"

definition ml_ek :: "drk1_public \<Rightarrow> bytes crypto" where
  "ml_ek p = (if length (ek p) \<noteq> MLKEM768_EK_LEN then Err (Format ''bad ML-KEM ek length'')
     else Ok (ek p))"

record recipient_keypair =
  kp_public :: drk1_public
  kp_key_id :: bytes
  kp_x_sk :: bytes
  kp_dk :: bytes

definition from_private :: "prims \<Rightarrow> bytes \<Rightarrow> bytes \<Rightarrow> recipient_keypair" where
  "from_private P x_sk dk =
     (let public = \<lparr>x_pk = x25519_public P x_sk, ek = mlkem_ek_of_dk P dk\<rparr> in
      \<lparr>kp_public = public, kp_key_id = drk1_key_id P public, kp_x_sk = x_sk, kp_dk = dk\<rparr>)"

definition derive_recipient :: "prims \<Rightarrow> bytes \<Rightarrow> u32 \<Rightarrow> recipient_keypair crypto" where
  "derive_recipient P root idx =
     and_then (derive_subkey P root (RECIP_SEED_LABEL @ u32_le idx)) (\<lambda>rseed.
     and_then (derive_subkey P rseed RECIP_X25519_LABEL) (\<lambda>x_sk.
     let x = x25519_public P x_sk in
     and_then (derive_subkey P rseed RECIP_MLKEM_D_LABEL) (\<lambda>d.
     and_then (derive_subkey P rseed RECIP_MLKEM_Z_LABEL) (\<lambda>z.
     let (dk, e) = mlkem_generate P d z;
         public = \<lparr>x_pk = x, ek = e\<rparr> in
     Ok \<lparr>kp_public = public, kp_key_id = drk1_key_id P public, kp_x_sk = x_sk, kp_dk = dk\<rparr>))))"

section \<open>The wrapping key\<close>

record transcript =
  t_fixed_head :: bytes
  t_key_id :: bytes
  t_eph_pk :: bytes
  t_ct_m :: bytes
  t_r_x_pk :: bytes
  t_r_ek :: bytes

definition transcript_info :: "transcript \<Rightarrow> bytes" where
  "transcript_info t = KEM_HYBRID_INFO_LABEL @ [KEM_SUITE_X25519_MLKEM768] @ t_fixed_head t
     @ t_key_id t @ t_eph_pk t @ t_ct_m t @ t_r_x_pk t @ t_r_ek t"

definition wrapping_key :: "prims \<Rightarrow> bytes \<Rightarrow> bytes \<Rightarrow> transcript \<Rightarrow> bytes crypto" where
  "wrapping_key P ss_x k_m t = derive_subkey_from_ikm P (ss_x @ k_m) (transcript_info t)"

definition kw_aad :: "bytes \<Rightarrow> bytes \<Rightarrow> bytes" where
  "kw_aad fixed_head key_id = KEM_KW_AAD_PREFIX @ fixed_head @ [KEM_SUITE_X25519_MLKEM768] @ key_id"

definition shared_to_array :: "bytes \<Rightarrow> bytes crypto" where
  "shared_to_array shared =
     (if length shared \<noteq> MLKEM768_SHARED_LEN
        then Err (Format ''ML-KEM shared secret wrong length'') else Ok shared)"

section \<open>Sub-records\<close>

definition build_subrecord :: "bytes \<Rightarrow> bytes \<Rightarrow> bytes \<Rightarrow> bytes \<Rightarrow> bytes" where
  "build_subrecord key_id ct_m eph_pk wrapped_kw =
     u32_le (of_nat RECIP_SUBRECORD_LEN) @ key_id
     @ u16_le (of_nat MLKEM768_CT_LEN) @ ct_m
     @ u16_le (of_nat X25519_PK_LEN) @ eph_pk
     @ u16_le (of_nat WRAPPED_KW_LEN) @ wrapped_kw"

record sub_record =
  sr_ct_m :: bytes
  sr_eph_pk :: bytes
  sr_wrapped_kw :: bytes

definition validate_subrecord_fields :: "bytes \<Rightarrow> unit crypto" where
  "validate_subrecord_fields rec =
     and_then (slice_at 0 4 rec) (\<lambda>l.
     if unat (u32_from_le l) \<noteq> RECIP_SUBRECORD_LEN then Err (Format ''rec_len != 1234'') else
     and_then (slice_at 36 38 rec) (\<lambda>c.
     if unat (u16_from_le c) \<noteq> MLKEM768_CT_LEN then Err (Format ''ct_m_len != 1088'') else
     and_then (slice_at 1126 1128 rec) (\<lambda>e.
     if unat (u16_from_le e) \<noteq> X25519_PK_LEN then Err (Format ''eph_pk_len != 32'') else
     and_then (slice_at 1160 1162 rec) (\<lambda>w.
     if unat (u16_from_le w) \<noteq> WRAPPED_KW_LEN then Err (Format ''wrapped_len != 72'') else
     Ok ()))))"

definition slice_subrecord :: "bytes \<Rightarrow> sub_record crypto" where
  "slice_subrecord rec =
     and_then (slice_at 38 (38 + MLKEM768_CT_LEN) rec) (\<lambda>c.
     and_then (slice_at 1128 (1128 + X25519_PK_LEN) rec) (\<lambda>e.
     and_then (slice_at 1162 (1162 + WRAPPED_KW_LEN) rec) (\<lambda>w.
     Ok \<lparr>sr_ct_m = c, sr_eph_pk = e, sr_wrapped_kw = w\<rparr>)))"

definition parse_subrecord :: "bytes \<Rightarrow> (bytes \<times> sub_record) crypto" where
  "parse_subrecord rec =
     (if length rec \<noteq> RECIP_SUBRECORD_LEN
        then Err (Format ''grant sub-record wrong size'') else
      and_then (validate_subrecord_fields rec) (\<lambda>_.
      and_then (slice_at 4 (4 + KEY_ID_LEN) rec) (\<lambda>key_id.
      and_then (slice_subrecord rec) (\<lambda>sub. Ok (key_id, sub)))))"

section \<open>The block\<close>

fun append_subrecords :: "bytes list \<Rightarrow> bytes \<Rightarrow> bytes crypto" where
  "append_subrecords [] out = Ok out"
| "append_subrecords (rec # recs) out =
     (if length rec \<noteq> RECIP_SUBRECORD_LEN then Err (Format ''sub-record wrong size'')
      else append_subrecords recs (out @ rec))"

definition serialize_block :: "bytes list \<Rightarrow> bytes crypto" where
  "serialize_block sub_records =
     (let n = length sub_records in
      if n = 0 \<or> MAX_RECIP_COUNT < n then Err (Format ''recip_count out of range (1..=53)'')
      else append_subrecords sub_records
        (KEM_WRAP_MAGIC @ [KEM_WRAP_VERSION, KEM_SUITE_X25519_MLKEM768, 0, 0] @ u16_le (of_nat n)))"

record kem_wrap =
  kw_block :: bytes
  kw_count :: nat

definition record_at :: "bytes \<Rightarrow> nat \<Rightarrow> bytes crypto" where
  "record_at block i =
     (let base = KEM_WRAP_HEADER_LEN + i * RECIP_SUBRECORD_LEN in
      slice_at base (base + RECIP_SUBRECORD_LEN) block)"

fun validate_records :: "bytes \<Rightarrow> nat \<Rightarrow> nat \<Rightarrow> unit crypto" where
  "validate_records block 0 i = Ok ()"
| "validate_records block (Suc left) i =
     and_then (record_at block i) (\<lambda>rec.
     and_then (validate_subrecord_fields rec) (\<lambda>_. validate_records block left (i + 1)))"

definition kem_wrap_parse :: "bytes \<Rightarrow> kem_wrap crypto" where
  "kem_wrap_parse block =
     (if length block < KEM_WRAP_HEADER_LEN then Err (Format ''kem_wrap shorter than header'') else
      and_then (slice_at 0 4 block) (\<lambda>magic.
      if magic \<noteq> KEM_WRAP_MAGIC then Err (Format ''bad kem_wrap magic'') else
      and_then (byte_at 4 block) (\<lambda>version.
      if version \<noteq> KEM_WRAP_VERSION then Err (Format ''unsupported kw_version'') else
      and_then (byte_at 5 block) (\<lambda>suite.
      if suite \<noteq> KEM_SUITE_X25519_MLKEM768 then Err (Format ''unsupported hybrid_suite'') else
      and_then (byte_at 6 block) (\<lambda>flags.
      if flags AND NOT KEM_WRAP_FLAG_SIDECAR \<noteq> 0 then Err (Format ''unknown kw_flags bit set'') else
      and_then (byte_at 7 block) (\<lambda>reserved.
      if reserved \<noteq> 0 then Err (Format ''kem_wrap reserved byte nonzero'') else
      and_then (slice_at 8 10 block) (\<lambda>c.
      let count = unat (u16_from_le c) in
      if count = 0 \<or> MAX_RECIP_COUNT < count
        then Err (Format ''recip_count out of range (1..=53)'') else
      let expected = KEM_WRAP_HEADER_LEN + count * RECIP_SUBRECORD_LEN in
      if length block \<noteq> expected then Err (Format ''kem_ct_len != 10 + sum rec_len'') else
      and_then (validate_records block count 0) (\<lambda>_.
      Ok \<lparr>kw_block = block, kw_count = count\<rparr>))))))))"

fun find_record :: "bytes \<Rightarrow> bytes \<Rightarrow> nat \<Rightarrow> nat \<Rightarrow> sub_record option crypto" where
  "find_record block key_id 0 i = Ok None"
| "find_record block key_id (Suc left) i =
     and_then (record_at block i) (\<lambda>rec.
     and_then (slice_at 4 (4 + KEY_ID_LEN) rec) (\<lambda>rec_key_id.
     if rec_key_id = key_id then and_then (slice_subrecord rec) (\<lambda>sub. Ok (Some sub))
     else find_record block key_id left (i + 1)))"

definition kem_wrap_find :: "kem_wrap \<Rightarrow> bytes \<Rightarrow> sub_record option crypto" where
  "kem_wrap_find w key_id = find_record (kw_block w) key_id (kw_count w) 0"

fun collect_ids :: "bytes \<Rightarrow> nat \<Rightarrow> nat \<Rightarrow> bytes list crypto" where
  "collect_ids block 0 i = Ok []"
| "collect_ids block (Suc left) i =
     (let base = KEM_WRAP_HEADER_LEN + i * RECIP_SUBRECORD_LEN in
      and_then (slice_at (base + 4) (base + 4 + KEY_ID_LEN) block) (\<lambda>id'.
      and_then (collect_ids block left (i + 1)) (\<lambda>ids. Ok (id' # ids))))"

definition kem_wrap_key_ids :: "kem_wrap \<Rightarrow> bytes list crypto" where
  "kem_wrap_key_ids w = collect_ids (kw_block w) (kw_count w) 0"

section \<open>Encapsulation\<close>

definition MAX_EPH_ATTEMPTS :: nat where
  [simp]: "MAX_EPH_ATTEMPTS = 8"

text \<open>The ephemeral key and the shared secret, redrawn while the secret is not contributory.\<close>

fun choose_ephemeral :: "prims \<Rightarrow> bytes \<Rightarrow> nat \<Rightarrow> rng \<Rightarrow> (bytes \<times> bytes) option \<times> rng" where
  "choose_ephemeral P their_pk 0 r = (None, r)"
| "choose_ephemeral P their_pk (Suc left) r =
     (let (eph_sk, r) = rng_fill X25519_PK_LEN r;
          ss_x = x25519_dh P eph_sk their_pk in
      if was_contributory P ss_x then (Some (x25519_public P eph_sk, ss_x), r)
      else choose_ephemeral P their_pk left r)"

definition encapsulate_to ::
  "prims \<Rightarrow> drk1_public \<Rightarrow> bytes \<Rightarrow> bytes \<Rightarrow> rng \<Rightarrow> (bytes \<times> rng) crypto" where
  "encapsulate_to P recipient fixed_head kw r =
     (let key_id = drk1_key_id P recipient;
          (chosen, r) = choose_ephemeral P (x_pk recipient) MAX_EPH_ATTEMPTS r in
      and_then (ok_or (Format ''recipient X25519 key is low-order (non-contributory)'') chosen)
        (\<lambda>(eph_pk, ss_x).
      let (m, r) = rng_fill 32 r in
      and_then (ml_ek recipient) (\<lambda>e.
      and_then (ok_or (Format ''ML-KEM encapsulation failed'') (mlkem_encaps P e m)) (\<lambda>(ct_m, shared).
      and_then (shared_to_array shared) (\<lambda>k_m.
      let t = \<lparr>t_fixed_head = fixed_head, t_key_id = key_id, t_eph_pk = eph_pk, t_ct_m = ct_m,
        t_r_x_pk = x_pk recipient, t_r_ek = ek recipient\<rparr> in
      and_then (wrapping_key P ss_x k_m t) (\<lambda>wk.
      let aad = kw_aad fixed_head key_id in
      and_then (aead_encrypt P wk kw aad r) (\<lambda>(wrapped_kw, r).
      if length wrapped_kw \<noteq> WRAPPED_KW_LEN then Err (Format ''wrapped_kw wrong size'') else
      Ok (build_subrecord key_id ct_m eph_pk wrapped_kw, r))))))))"

definition decapsulate_kw ::
  "prims \<Rightarrow> sub_record \<Rightarrow> bytes \<Rightarrow> bytes \<Rightarrow> bytes \<Rightarrow> bytes \<Rightarrow> bytes \<Rightarrow> bytes \<Rightarrow> bytes crypto" where
  "decapsulate_kw P sub x_sk dk r_x_pk r_ek key_id fixed_head =
     (let eph_pk = sr_eph_pk sub;
          ss_x = x25519_dh P x_sk eph_pk in
      if length (sr_ct_m sub) \<noteq> MLKEM768_CT_LEN then Err (Format ''ct_m wrong length'') else
      and_then (ok_or (Format ''ML-KEM decapsulation error'') (mlkem_decaps P dk (sr_ct_m sub)))
        (\<lambda>shared.
      and_then (shared_to_array shared) (\<lambda>k_m.
      let t = \<lparr>t_fixed_head = fixed_head, t_key_id = key_id, t_eph_pk = eph_pk,
        t_ct_m = sr_ct_m sub, t_r_x_pk = r_x_pk, t_r_ek = r_ek\<rparr> in
      and_then (wrapping_key P ss_x k_m t) (\<lambda>wk.
      let aad = kw_aad fixed_head key_id in
      and_then (aead_decrypt P wk (sr_wrapped_kw sub) aad) (\<lambda>kw_pt.
      if length kw_pt \<noteq> KEY_LEN then Err (Format ''unwrapped KW wrong length'') else
      Ok kw_pt)))))"

section \<open>The format of an identity\<close>

definition valid_public :: "drk1_public \<Rightarrow> bool" where
  "valid_public p \<longleftrightarrow> length (x_pk p) = X25519_PK_LEN \<and> length (ek p) = MLKEM768_EK_LEN"

lemma drk1_decode_encode:
  "valid_public p \<Longrightarrow> drk1_decode (drk1_encode p) = Ok p"
  by (simp add: drk1_decode_def drk1_encode_def valid_public_def byte_at_def nth_append seg_to_end)
    (simp add: seg_def drop_Cons')

lemma drk1_encode_decode:
  assumes "drk1_decode bs = Ok p"
  shows "valid_public p" and "drk1_encode p = bs"
proof -
  from assms show "valid_public p"
    by (auto simp: drk1_decode_def valid_public_def and_then_Ok_iff slice_at_Ok_iff)
  from assms have len: "length bs = 1222" and magic: "seg 0 4 bs = RECIP_ID_MAGIC"
    and bytes: "[RECIP_ID_VERSION, KEM_SUITE_X25519_MLKEM768] = [bs ! 4, bs ! 5]"
    and keys: "x_pk p = seg 6 38 bs" "ek p = seg 38 1222 bs"
    by (auto simp: drk1_decode_def and_then_Ok_iff slice_at_Ok_iff byte_at_Ok_iff)
  have "[bs ! 4, bs ! 5] = seg 4 6 bs"
    using len by (simp add: seg_Cons)
  then show "drk1_encode p = bs"
    unfolding drk1_encode_def bytes keys magic [symmetric] using len by simp
qed

interpretation identity_format: exact_format "\<lambda>p. Ok (drk1_encode p)" drk1_decode valid_public
  by unfold_locales (auto intro: drk1_decode_encode drk1_encode_decode)

lemma length_drk1_encode: "valid_public p \<Longrightarrow> length (drk1_encode p) = 1222"
  by (simp add: drk1_encode_def valid_public_def)

section \<open>The format of a sub-record\<close>

definition valid_record :: "bytes \<times> sub_record \<Rightarrow> bool" where
  "valid_record = (\<lambda>(key_id, sub). length key_id = KEY_ID_LEN \<and> length (sr_ct_m sub) = MLKEM768_CT_LEN \<and>
     length (sr_eph_pk sub) = X25519_PK_LEN \<and> length (sr_wrapped_kw sub) = WRAPPED_KW_LEN)"

definition record_image :: "bytes \<times> sub_record \<Rightarrow> bytes" where
  "record_image = (\<lambda>(key_id, sub). build_subrecord key_id (sr_ct_m sub) (sr_eph_pk sub) (sr_wrapped_kw sub))"

lemma length_record_image: "valid_record x \<Longrightarrow> length (record_image x) = 1234"
  by (auto simp: valid_record_def record_image_def build_subrecord_def)

text \<open>Where the fields of an image lie.\<close>

lemma record_image_fields:
  assumes "valid_record x"
  shows "seg 0 4 (record_image x) = u32_le 1234" "seg 4 36 (record_image x) = fst x"
    "seg 36 38 (record_image x) = u16_le 1088" "seg 38 1126 (record_image x) = sr_ct_m (snd x)"
    "seg 1126 1128 (record_image x) = u16_le 32" "seg 1128 1160 (record_image x) = sr_eph_pk (snd x)"
    "seg 1160 1162 (record_image x) = u16_le 72" "seg 1162 1234 (record_image x) = sr_wrapped_kw (snd x)"
  using assms by (auto simp: valid_record_def record_image_def build_subrecord_def seg_to_end split: prod.splits)

lemma record_image_reads:
  assumes "valid_record x"
  shows "validate_subrecord_fields (record_image x) = Ok ()"
    "slice_subrecord (record_image x) = Ok (snd x)"
    "slice_at 4 36 (record_image x) = Ok (fst x)"
  by (simp_all add: validate_subrecord_fields_def slice_subrecord_def length_record_image [OF assms]
      record_image_fields [OF assms])

lemma parse_record_image: "valid_record x \<Longrightarrow> parse_subrecord (record_image x) = Ok x"
  by (simp add: parse_subrecord_def length_record_image record_image_reads record_image_fields)

lemma image_of_validated:
  assumes "validate_subrecord_fields rec = Ok ()" "length rec = 1234"
  obtains sub where "slice_subrecord rec = Ok sub" "valid_record (seg 4 36 rec, sub)"
    "rec = record_image (seg 4 36 rec, sub)"
proof -
  have u32: "u32_le 1234 = l" if "unat (u32_from_le l) = 1234" "length l = 4" for l
    using that to_from_le(2) [of l] by (metis of_nat_numeral of_nat_unat ucast_id)
  have u16: "u16_le (numeral n) = l" if "unat (u16_from_le l) = numeral n" "length l = 2" for l n
    using that to_from_le(1) [of l] by (metis of_nat_numeral of_nat_unat ucast_id)
  define sub where "sub = \<lparr>sr_ct_m = seg 38 1126 rec, sr_eph_pk = seg 1128 1160 rec,
    sr_wrapped_kw = seg 1162 1234 rec\<rparr>"
  have "slice_subrecord rec = Ok sub"
    using assms(2) by (simp add: slice_subrecord_def sub_def)
  moreover have "valid_record (seg 4 36 rec, sub)"
    using assms(2) by (simp add: valid_record_def sub_def)
  moreover have "u32_le 1234 = seg 0 4 rec" "u16_le 1088 = seg 36 38 rec"
    "u16_le 32 = seg 1126 1128 rec" "u16_le 72 = seg 1160 1162 rec"
    using assms by (auto simp: validate_subrecord_fields_def and_then_Ok_iff intro!: u32 u16)
  then have "rec = record_image (seg 4 36 rec, sub)"
    using assms(2) by (simp add: record_image_def build_subrecord_def sub_def)
  ultimately show thesis by (rule that)
qed

lemma record_image_parse:
  assumes "parse_subrecord rec = Ok x"
  shows "valid_record x" and "record_image x = rec"
proof -
  from assms have v: "validate_subrecord_fields rec = Ok ()" "length rec = 1234"
    and x: "fst x = seg 4 36 rec" "slice_subrecord rec = Ok (snd x)"
    by (auto simp: parse_subrecord_def and_then_Ok_iff)
  obtain sub where "slice_subrecord rec = Ok sub" "valid_record (seg 4 36 rec, sub)"
    "rec = record_image (seg 4 36 rec, sub)"
    by (rule image_of_validated [OF v])
  moreover from this x have "x = (seg 4 36 rec, sub)" by (simp add: prod_eq_iff)
  ultimately show "valid_record x" "record_image x = rec" by simp_all
qed

interpretation record_format: exact_format "\<lambda>x. Ok (record_image x)" parse_subrecord valid_record
  by unfold_locales (auto intro: parse_record_image record_image_parse)

section \<open>The format of the block\<close>

definition block_header :: "nat \<Rightarrow> bytes" where
  "block_header n = KEM_WRAP_MAGIC @ [KEM_WRAP_VERSION, KEM_SUITE_X25519_MLKEM768, 0, 0] @ u16_le (of_nat n)"

definition block_image :: "(bytes \<times> sub_record) list \<Rightarrow> bytes" where
  "block_image xs = block_header (length xs) @ concat (map record_image xs)"

lemma length_block_header [simp]: "length (block_header n) = 10"
  by (simp add: block_header_def)

lemma append_subrecords_images:
  "\<forall>x \<in> set xs. valid_record x \<Longrightarrow>
   append_subrecords (map record_image xs) out = Ok (out @ concat (map record_image xs))"
  by (induction xs arbitrary: out) (simp_all add: length_record_image)

lemma serialize_block_image:
  assumes "\<forall>x \<in> set xs. valid_record x" "0 < length xs" "length xs \<le> 53"
  shows "serialize_block (map record_image xs) = Ok (block_image xs)"
  using assms append_subrecords_images [OF assms(1)]
  by (simp add: serialize_block_def Let_def block_image_def block_header_def)

lemma length_images:
  "\<forall>x \<in> set xs. valid_record x \<Longrightarrow> length (concat (map record_image xs)) = length xs * 1234"
  by (induction xs) (simp_all add: length_record_image)

lemma length_block_image:
  "\<forall>x \<in> set xs. valid_record x \<Longrightarrow> length (block_image xs) = 10 + length xs * 1234"
  by (simp add: block_image_def length_images)

lemma record_at_block:
  assumes "length hdr = 10" "\<forall>x \<in> set (pre @ x # post). valid_record x"
  shows "record_at (hdr @ concat (map record_image (pre @ x # post))) (length pre) = Ok (record_image x)"
proof -
  have "length (concat (map record_image pre)) = length pre * 1234" "length (record_image x) = 1234"
    using assms(2) by (simp_all add: length_images length_record_image)
  then show ?thesis
    using assms(1) by (simp add: record_at_def Let_def slice_at_def seg_def)
qed

text \<open>The first record of a recipient is the one that is found.\<close>

lemma find_record_block:
  assumes "length hdr = 10" "\<forall>x \<in> set (pre @ xs). valid_record x"
  shows "find_record (hdr @ concat (map record_image (pre @ xs))) key_id (length xs) (length pre)
    = Ok (map_of xs key_id)"
  using assms
proof (induction xs arbitrary: pre)
  case (Cons x xs)
  then have "record_at (hdr @ concat (map record_image (pre @ x # xs))) (length pre) = Ok (record_image x)"
    by (intro record_at_block) simp_all
  then show ?case
    using Cons.IH [of "pre @ [x]"] Cons.prems record_image_reads(2,3) [of x]
    by (cases x) (auto simp del: slice_at_in)
qed simp

lemma validate_records_block:
  assumes "length hdr = 10" "\<forall>x \<in> set (pre @ xs). valid_record x"
  shows "validate_records (hdr @ concat (map record_image (pre @ xs))) (length xs) (length pre) = Ok ()"
  using assms
proof (induction xs arbitrary: pre)
  case (Cons x xs)
  then have "record_at (hdr @ concat (map record_image (pre @ x # xs))) (length pre) = Ok (record_image x)"
    by (intro record_at_block) simp_all
  then show ?case
    using Cons.IH [of "pre @ [x]"] Cons.prems record_image_reads(1) [of x] by simp
qed simp

lemma collect_ids_block:
  assumes "length hdr = 10" "\<forall>x \<in> set (pre @ xs). valid_record x"
  shows "collect_ids (hdr @ concat (map record_image (pre @ xs))) (length xs) (length pre)
    = Ok (map fst xs)"
  using assms
proof (induction xs arbitrary: pre)
  case (Cons x xs)
  define base where "base = 10 + length pre * 1234"
  have "length (concat (map record_image pre)) = length pre * 1234"
    using Cons.prems by (simp add: length_images)
  then have "slice_at (base + 4) (base + 36) (hdr @ concat (map record_image (pre @ x # xs)))
      = Ok (seg 4 36 (record_image x))"
    using Cons.prems by (simp add: base_def slice_at_def seg_def length_record_image)
  then show ?case
    using Cons.IH [of "pre @ [x]"] Cons.prems record_image_fields(2) [of x]
    by (simp add: base_def Let_def add.assoc)
qed simp

lemma parse_block_image:
  assumes "\<forall>x \<in> set xs. valid_record x" "0 < length xs" "length xs \<le> 53"
  shows "kem_wrap_parse (block_image xs) = Ok \<lparr>kw_block = block_image xs, kw_count = length xs\<rparr>"
proof -
  have "unat (of_nat (length xs) :: u16) = length xs"
    using assms(3) by (intro unat_of_nat_id) simp
  moreover have "block_image xs = KEM_WRAP_MAGIC @ [1, 1, 0, 0] @ u16_le (of_nat (length xs))
      @ concat (map record_image xs)"
    by (simp add: block_image_def block_header_def)
  then have "seg 0 4 (block_image xs) = KEM_WRAP_MAGIC" "block_image xs ! 4 = 1" "block_image xs ! 5 = 1"
    "block_image xs ! 6 = 0" "block_image xs ! 7 = 0"
    "seg 8 10 (block_image xs) = u16_le (of_nat (length xs))"
    by (simp_all add: nth_append seg_def)
  moreover have "validate_records (block_image xs) (length xs) 0 = Ok ()"
    using validate_records_block [of "block_header (length xs)" "[]" xs] assms(1)
    by (simp add: block_image_def)
  ultimately show ?thesis
    using assms by (simp add: kem_wrap_parse_def length_block_image Let_def)
qed

lemma find_block_image:
  assumes "\<forall>x \<in> set xs. valid_record x"
  shows "kem_wrap_find \<lparr>kw_block = block_image xs, kw_count = length xs\<rparr> key_id = Ok (map_of xs key_id)"
    and "kem_wrap_key_ids \<lparr>kw_block = block_image xs, kw_count = length xs\<rparr> = Ok (map fst xs)"
  using find_record_block [of "block_header (length xs)" "[]" xs]
    collect_ids_block [of "block_header (length xs)" "[]" xs] assms
  by (simp_all add: kem_wrap_find_def kem_wrap_key_ids_def block_image_def)

section \<open>Every recipient gets the key\<close>

definition kp_ok :: "prims \<Rightarrow> recipient_keypair \<Rightarrow> bool" where
  "kp_ok P kp \<longleftrightarrow> length (kp_x_sk kp) = X25519_SK_LEN \<and> length (kp_dk kp) = MLKEM768_DK_LEN \<and>
     kp = from_private P (kp_x_sk kp) (kp_dk kp)"

lemma kp_ok_fields:
  assumes "kp_ok P kp"
  shows "x_pk (kp_public kp) = x25519_public P (kp_x_sk kp)" "ek (kp_public kp) = mlkem_ek_of_dk P (kp_dk kp)"
    "kp_key_id kp = drk1_key_id P (kp_public kp)"
  using assms unfolding kp_ok_def
  by (metis from_private_def drk1_public.select_convs recipient_keypair.select_convs)+

lemma kp_ok_valid: "kp_ok P kp \<Longrightarrow> dh_ok P \<Longrightarrow> mlkem_ok P \<Longrightarrow> valid_public (kp_public kp)"
  using kp_ok_fields [of P kp] by (simp add: valid_public_def dh_ok_def mlkem_ok_def kp_ok_def)

lemma derive_recipient_ok:
  assumes "hkdf_ok P" "mlkem_ok P"
  obtains kp where "derive_recipient P root idx = Ok kp" "kp_ok P kp"
proof -
  obtain rseed where 1: "derive_subkey P root (RECIP_SEED_LABEL @ u32_le idx) = Ok rseed"
    by (rule derive_subkey_ok [OF assms(1)])
  obtain x_sk where 2: "derive_subkey P rseed RECIP_X25519_LABEL = Ok x_sk" "length x_sk = 32"
    by (rule derive_subkey_ok [OF assms(1)])
  obtain d where 3: "derive_subkey P rseed RECIP_MLKEM_D_LABEL = Ok d"
    by (rule derive_subkey_ok [OF assms(1)])
  obtain z where 4: "derive_subkey P rseed RECIP_MLKEM_Z_LABEL = Ok z"
    by (rule derive_subkey_ok [OF assms(1)])
  obtain dk e where g: "mlkem_generate P d z = (dk, e)" by fastforce
  then have "e = mlkem_ek_of_dk P dk" "length dk = 2400"
    using assms(2) unfolding mlkem_ok_def by (metis fst_conv snd_conv MLKEM768_DK_LEN_def)+
  then show thesis
    using that 1 2 3 4 g by (simp add: derive_recipient_def kp_ok_def from_private_def Let_def)
qed

lemma mlkem_okE:
  assumes "mlkem_ok P" "length dk = 2400" "length m = 32"
  obtains ct ss where "mlkem_encaps P (mlkem_ek_of_dk P dk) m = Some (ct, ss)" "length ct = 1088"
    "length ss = 32" "mlkem_decaps P dk ct = Some ss"
proof -
  have "\<exists>ct ss. mlkem_encaps P (mlkem_ek_of_dk P dk) m = Some (ct, ss) \<and>
      length ct = MLKEM768_CT_LEN \<and> length ss = MLKEM768_SHARED_LEN \<and> mlkem_decaps P dk ct = Some ss"
    using assms unfolding mlkem_ok_def by (metis MLKEM768_DK_LEN_def)
  then show thesis using that by (elim exE conjE) simp
qed

lemma choose_ephemeral_contributory:
  assumes "dh_ok P" "0 < n"
  obtains eph where "choose_ephemeral P (x25519_public P x) n r
    = (Some (x25519_public P eph, x25519_dh P eph (x25519_public P x)), \<lambda>i. r (i + 32))" "length eph = 32"
  using assms by (cases n) (auto simp: dh_ok_def rng_fill_def Let_def)

lemma encapsulate_decapsulate:
  assumes P: "cipher_ok P" "hashes_ok P" "hkdf_ok P" "dh_ok P" "mlkem_ok P"
    and kp: "kp_ok P kp" and kw: "length kw = 32"
  obtains sub r' where
    "encapsulate_to P (kp_public kp) hb kw r = Ok (record_image (kp_key_id kp, sub), r')"
    "valid_record (kp_key_id kp, sub)"
    "decapsulate_kw P sub (kp_x_sk kp) (kp_dk kp) (x_pk (kp_public kp)) (ek (kp_public kp))
       (kp_key_id kp) hb = Ok kw"
proof -
  note kp_f = kp_ok_fields [OF kp]
  have sk: "length (kp_x_sk kp) = 32" "length (kp_dk kp) = 2400"
    using kp by (simp_all add: kp_ok_def)
  obtain eph where eph: "choose_ephemeral P (x_pk (kp_public kp)) 8 r
      = (Some (x25519_public P eph, x25519_dh P eph (x_pk (kp_public kp))), \<lambda>i. r (i + 32))" "length eph = 32"
    unfolding kp_f(1) by (rule choose_ephemeral_contributory [OF P(4), of 8]) auto
  define m where "m = fst (rng_fill 32 (\<lambda>i. r (i + 32)))"
  obtain ct ss where ml: "mlkem_encaps P (ek (kp_public kp)) m = Some (ct, ss)" "length ct = 1088"
    "length ss = 32" "mlkem_decaps P (kp_dk kp) ct = Some ss"
    by (rule mlkem_okE [OF P(5) sk(2), of m]) (simp_all add: m_def kp_f(2) that)
  have dh: "x25519_dh P (kp_x_sk kp) (x25519_public P eph) = x25519_dh P eph (x_pk (kp_public kp))"
    using P(4) eph(2) sk(1) unfolding kp_f(1) dh_ok_def by blast
  define t where "t = \<lparr>t_fixed_head = hb, t_key_id = kp_key_id kp, t_eph_pk = x25519_public P eph,
    t_ct_m = ct, t_r_x_pk = x_pk (kp_public kp), t_r_ek = ek (kp_public kp)\<rparr>"
  obtain wk where wk: "wrapping_key P (x25519_dh P eph (x_pk (kp_public kp))) ss t = Ok wk" "length wk = 32"
    using hkdf_okE [OF P(3)] unfolding wrapping_key_def derive_subkey_from_ikm_def
    by (metis ok_or_simps(2))
  obtain w r' where w: "aead_encrypt P wk kw (kw_aad hb (kp_key_id kp)) (\<lambda>i. r (i + 64)) = Ok (w, r')"
    "length w = 72" "aead_decrypt P wk w (kw_aad hb (kp_key_id kp)) = Ok kw"
    using kw by (auto intro: aead_encrypt_ok [OF P(1) wk(2), of kw "kw_aad hb (kp_key_id kp)" "\<lambda>i. r (i + 64)"])
  define sub where "sub = \<lparr>sr_ct_m = ct, sr_eph_pk = x25519_public P eph, sr_wrapped_kw = w\<rparr>"
  have ek: "ml_ek (kp_public kp) = Ok (ek (kp_public kp))"
    using kp_ok_valid [OF kp P(4,5)] by (simp add: ml_ek_def valid_public_def)
  have fill: "rng_fill 32 (\<lambda>i. r (i + 32)) = (m, \<lambda>i. r (i + 64))"
    by (simp add: m_def rng_fill_def add.assoc)
  have "encapsulate_to P (kp_public kp) hb kw r = Ok (record_image (kp_key_id kp, sub), r')"
    using eph ml ek fill wk w by (simp add: encapsulate_to_def shared_to_array_def Let_def
        kp_f(3) [symmetric] t_def record_image_def sub_def)
  moreover have "valid_record (kp_key_id kp, sub)"
    using hashes_okD(1) [OF P(2)] P(4) ml(2) w(2)
    by (simp add: valid_record_def sub_def kp_f(3) drk1_key_id_def dh_ok_def)
  moreover have "decapsulate_kw P sub (kp_x_sk kp) (kp_dk kp) (x_pk (kp_public kp)) (ek (kp_public kp))
      (kp_key_id kp) hb = Ok kw"
    using ml wk w kw by (simp add: decapsulate_kw_def sub_def dh shared_to_array_def Let_def t_def)
  ultimately show thesis by (rule that)
qed

text \<open>Nothing a block or a sub-record holds can make its reader leave it.\<close>

lemma no_panic_record [no_panic_intros]:
  "38 \<le> length rec \<Longrightarrow> length rec = 1234 \<Longrightarrow> no_panic (validate_subrecord_fields rec)"
  "length rec = 1234 \<Longrightarrow> no_panic (slice_subrecord rec)"
  "no_panic (parse_subrecord rec')"
  unfolding parse_subrecord_def validate_subrecord_fields_def slice_subrecord_def
  by (auto intro!: no_panic_intros)

lemma no_panic_drk1_decode [no_panic_intros]: "no_panic (drk1_decode bs)"
  unfolding drk1_decode_def by (intro no_panic_intros) auto

lemma no_panic_validate_records:
  "10 + (i + n) * 1234 \<le> length block \<Longrightarrow> no_panic (validate_records block n i)"
proof (induction n arbitrary: i)
  case (Suc n)
  have "10 + i * 1234 + 1234 \<le> length block"
    using Suc.prems by (simp add: algebra_simps)
  then show ?case
    using Suc by (auto simp: record_at_def Let_def intro!: no_panic_intros)
qed simp

lemma no_panic_kem_wrap_parse [no_panic_intros]: "no_panic (kem_wrap_parse block)"
  unfolding kem_wrap_parse_def Let_def
  by (intro no_panic_intros) (auto intro!: no_panic_validate_records)

lemma no_panic_find_record:
  "10 + (i + n) * 1234 \<le> length block \<Longrightarrow> no_panic (find_record block key_id n i)"
proof (induction n arbitrary: i)
  case (Suc n)
  have "10 + i * 1234 + 1234 \<le> length block"
    using Suc.prems by (simp add: algebra_simps)
  then show ?case
    using Suc by (auto simp: record_at_def Let_def intro!: no_panic_intros)
qed simp

end
