(* ===== verification/Object_Recipient.thy ===== *)
theory Object_Recipient
  imports Object_Seal Kem
begin

text \<open>
  \<open>dctl-crypto/src/object/recipient.rs\<close>: objects sealed to a list of recipients, whose key-encapsulation
  block gives each of them the file's wrapping key, and the two ways to open one.
\<close>

fun encapsulate_all ::
  "prims \<Rightarrow> drk1_public list \<Rightarrow> bytes \<Rightarrow> bytes \<Rightarrow> rng \<Rightarrow> (bytes list \<times> rng) crypto" where
  "encapsulate_all P [] fixed_head kw r = Ok ([], r)"
| "encapsulate_all P (p # ps) fixed_head kw r =
     and_then (encapsulate_to P p fixed_head kw r) (\<lambda>(rec, r).
     and_then (encapsulate_all P ps fixed_head kw r) (\<lambda>(recs, r). Ok (rec # recs, r)))"

definition recipient_block ::
  "prims \<Rightarrow> drk1_public list \<Rightarrow> bytes \<Rightarrow> bytes \<Rightarrow> rng \<Rightarrow> (bytes \<times> rng) crypto" where
  "recipient_block P recipients kw fixed_head r =
     and_then (encapsulate_all P recipients fixed_head kw r) (\<lambda>(sub_records, r).
     and_then (serialize_block sub_records) (\<lambda>block. Ok (block, r)))"

definition seal_to_recipients ::
  "prims \<Rightarrow> drk1_public list \<Rightarrow> bytes \<Rightarrow> metadata \<Rightarrow> u32 \<Rightarrow> rng \<Rightarrow> (bytes \<times> rng) crypto" where
  "seal_to_recipients P recipients plaintext meta chunk_size r =
     (let n = length recipients in
      if n = 0 \<or> MAX_RECIP_COUNT < n then Err (Format ''recipient count out of range (1..=53)'') else
      let (kw, r) = generate_key r in
      seal_core P KEM_ID_HYBRID kw (recipient_block P recipients kw) plaintext meta chunk_size r)"

definition open_as_recipient ::
  "prims \<Rightarrow> bytes \<Rightarrow> bytes \<Rightarrow> bytes \<Rightarrow> bytes \<Rightarrow> opened crypto" where
  "open_as_recipient P x_sk dk key_id blob =
     and_then (parse_head blob) (\<lambda>head.
     if h_kem_id head \<noteq> KEM_ID_HYBRID
       then Err (Format ''not a kem_id=1 object (use object::open for kem_id=0)'') else
     let r_x_pk = x25519_public P x_sk;
         r_ek = mlkem_ek_of_dk P dk;
         derived = \<lparr>x_pk = r_x_pk, ek = r_ek\<rparr> in
     if drk1_key_id P derived \<noteq> key_id
       then Err (Format ''key_id does not match the provided keypair'') else
     and_then (object_u16 blob OBJECT_HEAD_LEN) (\<lambda>kl.
     let block_start = OBJECT_HEAD_LEN + 2 in
     and_then (ok_or (Format ''kem_ct_len overflow'') (checked_add block_start (unat kl))) (\<lambda>block_end.
     if length blob < block_end then Err (Format ''object truncated (kem_wrap)'') else
     and_then (slice_at block_start block_end blob) (\<lambda>block.
     and_then (slice_at 0 OBJECT_HEAD_LEN blob) (\<lambda>fixed_head.
     and_then (kem_wrap_parse block) (\<lambda>kem_wrap.
     and_then (kem_wrap_find kem_wrap key_id) (\<lambda>found.
     and_then (ok_or (Format ''no kem_wrap sub-record for this key_id (not a recipient)'') found) (\<lambda>sub.
     and_then (decapsulate_kw P sub x_sk dk r_x_pk r_ek key_id fixed_head) (\<lambda>kw.
     open_core P kw blob head block_end)))))))))"

definition open_with_kw :: "prims \<Rightarrow> bytes \<Rightarrow> bytes \<Rightarrow> opened crypto" where
  "open_with_kw P kw blob =
     and_then (parse_head blob) (\<lambda>head.
     if h_kem_id head \<noteq> KEM_ID_HYBRID
       then Err (Format ''not a kem_id=1 object (open_with_kw is for the hybrid path)'') else
     and_then (object_u16 blob OBJECT_HEAD_LEN) (\<lambda>kl.
     let block_start = OBJECT_HEAD_LEN + 2 in
     and_then (ok_or (Format ''kem_ct_len overflow'') (checked_add block_start (unat kl))) (\<lambda>block_end.
     if length blob < block_end then Err (Format ''object truncated (kem_wrap)'') else
     open_core P kw blob head block_end)))"

section \<open>What is sealed to recipients\<close>

text \<open>A public key that somebody holds the secrets of.\<close>

definition held :: "prims \<Rightarrow> drk1_public \<Rightarrow> bool" where
  "held P p \<longleftrightarrow> (\<exists>kp. kp_ok P kp \<and> kp_public kp = p)"

text \<open>A record that gives \<open>kw\<close> to every holder of \<open>p\<close>.\<close>

definition gives :: "prims \<Rightarrow> bytes \<Rightarrow> bytes \<Rightarrow> drk1_public \<Rightarrow> bytes \<times> sub_record \<Rightarrow> bool" where
  "gives P hb kw p x \<longleftrightarrow> valid_record x \<and> fst x = drk1_key_id P p \<and>
     (\<forall>kp. kp_ok P kp \<longrightarrow> kp_public kp = p \<longrightarrow>
        decapsulate_kw P (snd x) (kp_x_sk kp) (kp_dk kp) (x_pk p) (ek p) (fst x) hb = Ok kw)"

definition prims_ok :: "prims \<Rightarrow> bool" where
  "prims_ok P \<longleftrightarrow> cipher_ok P \<and> hashes_ok P \<and> hkdf_ok P \<and> dh_ok P \<and> mlkem_ok P"

lemma encapsulate_gives:
  assumes P: "prims_ok P" and kw: "length kw = 32" and p: "held P p"
  obtains x r' where "encapsulate_to P p hb kw r = Ok (record_image x, r')" "gives P hb kw p x"
proof -
  from P have P: "cipher_ok P" "hashes_ok P" "hkdf_ok P" "dh_ok P" "mlkem_ok P"
    by (simp_all add: prims_ok_def)
  obtain kp where kp: "kp_ok P kp" "kp_public kp = p"
    using p by (auto simp: held_def)
  obtain sub r' where s: "encapsulate_to P p hb kw r = Ok (record_image (kp_key_id kp, sub), r')"
    "valid_record (kp_key_id kp, sub)"
    using encapsulate_decapsulate [OF P kp(1) kw, of hb r] kp(2) by blast
  have "decapsulate_kw P sub (kp_x_sk kp') (kp_dk kp') (x_pk p) (ek p) (kp_key_id kp) hb = Ok kw"
    if kp': "kp_ok P kp'" "kp_public kp' = p" for kp'
  proof -
    obtain sub' r'' where s': "encapsulate_to P p hb kw r = Ok (record_image (kp_key_id kp', sub'), r'')"
      "valid_record (kp_key_id kp', sub')"
      "decapsulate_kw P sub' (kp_x_sk kp') (kp_dk kp') (x_pk p) (ek p) (kp_key_id kp') hb = Ok kw"
      using encapsulate_decapsulate [OF P kp'(1) kw, of hb r] kp'(2) by blast
    with s have "record_image (kp_key_id kp, sub) = record_image (kp_key_id kp', sub')" by simp
    then have "(kp_key_id kp, sub) = (kp_key_id kp', sub')"
      using record_format.build_inj s(2) s'(2) by blast
    with s'(3) show ?thesis by simp
  qed
  with s have "gives P hb kw p (kp_key_id kp, sub)"
    using kp_ok_fields(3) [OF kp(1)] kp(2) by (simp add: gives_def)
  with s(1) show thesis by (rule that)
qed

lemma encapsulate_all_gives:
  assumes "prims_ok P" "length kw = 32" "\<forall>p \<in> set ps. held P p"
  shows "\<exists>xs r'. encapsulate_all P ps hb kw r = Ok (map record_image xs, r') \<and> list_all2 (gives P hb kw) ps xs"
  using assms(3)
proof (induction ps arbitrary: r)
  case (Cons p ps)
  obtain x r1 where 1: "encapsulate_to P p hb kw r = Ok (record_image x, r1)" "gives P hb kw p x"
    using encapsulate_gives [OF assms(1,2), of p hb r] Cons.prems by auto
  obtain xs r' where 2: "encapsulate_all P ps hb kw r1 = Ok (map record_image xs, r')"
    "list_all2 (gives P hb kw) ps xs"
    using Cons.IH [of r1] Cons.prems by auto
  from 1 2 show ?case by (intro exI [of _ "x # xs"] exI [of _ r']) simp
qed (intro exI [of _ "[]"], simp)

lemma recipient_block_gives:
  assumes "prims_ok P" "length kw = 32" "\<forall>p \<in> set ps. held P p" "0 < length ps" "length ps \<le> 53"
  obtains xs r' where "recipient_block P ps kw hb r = Ok (block_image xs, r')"
    "list_all2 (gives P hb kw) ps xs" "\<forall>x \<in> set xs. valid_record x" "length xs = length ps"
proof -
  obtain xs r' where xs: "encapsulate_all P ps hb kw r = Ok (map record_image xs, r')"
    "list_all2 (gives P hb kw) ps xs"
    using encapsulate_all_gives [OF assms(1-3)] by blast
  then have valid: "\<forall>x \<in> set xs. valid_record x"
    by (metis gives_def in_set_conv_nth list_all2_conv_all_nth)
  have len: "length xs = length ps"
    using list_all2_lengthD [OF xs(2)] by simp
  have "recipient_block P ps kw hb r = Ok (block_image xs, r')"
    using serialize_block_image [OF valid] assms(4,5) len by (simp add: recipient_block_def xs(1))
  then show thesis using xs(2) valid len by (rule that)
qed

lemma found_record_gives:
  assumes xs: "list_all2 (gives P hb kw) ps xs" and kp: "kp_ok P kp" "kp_public kp \<in> set ps"
    and ids: "\<And>p. p \<in> set ps \<Longrightarrow> drk1_key_id P p = kp_key_id kp \<Longrightarrow> p = kp_public kp"
  obtains sub where "map_of xs (kp_key_id kp) = Some sub" "gives P hb kw (kp_public kp) (kp_key_id kp, sub)"
proof -
  have "kp_key_id kp \<in> fst ` set xs"
    using xs kp kp_ok_fields(3) [OF kp(1)] unfolding list_all2_conv_all_nth gives_def in_set_conv_nth
    by (metis (no_types, lifting) image_eqI nth_mem)
  then obtain sub where sub: "map_of xs (kp_key_id kp) = Some sub"
    by (cases "map_of xs (kp_key_id kp)") (auto simp: map_of_eq_None_iff)
  then obtain p where p: "p \<in> set ps" "gives P hb kw p (kp_key_id kp, sub)"
    using xs map_of_SomeD [OF sub] unfolding list_all2_conv_all_nth in_set_conv_nth by metis
  then have "p = kp_public kp"
    using ids by (simp add: gives_def)
  with sub p(2) show thesis using that by simp
qed

lemma sealed_block:
  assumes P: "prims_ok P" and ps: "\<forall>p \<in> set ps. held P p"
    and pt: "length pt \<le> U64_MAX" and meta: "valid_metadata (recorded P pt meta)"
    and seal: "seal_to_recipients P ps pt meta cs r = Ok (blob, r')"
  obtains h kw xs rest where "parse_head blob = Ok h" "h_kem_id h = KEM_ID_HYBRID"
    "length (build_head h) = 68" "list_all2 (gives P (build_head h) kw) ps xs"
    "\<forall>x \<in> set xs. valid_record x" "0 < length xs" "length xs \<le> 53"
    "blob = build_head h @ u16_le (of_nat (length (block_image xs))) @ block_image xs @ rest"
    "open_core P kw blob h (70 + length (block_image xs))
      = Ok \<lparr>o_metadata = Some (recorded P pt meta), o_plaintext = pt\<rparr>"
proof -
  from P have P': "cipher_ok P" "hashes_ok P" by (simp_all add: prims_ok_def)
  define kw where "kw = fst (generate_key r)"
  have kw: "length kw = 32" by (simp add: kw_def generate_key_def)
  from seal have n: "0 < length ps" "length ps \<le> 53"
    and core: "seal_core P KEM_ID_HYBRID kw (recipient_block P ps kw) pt meta cs (snd (generate_key r))
      = Ok (blob, r')"
    by (auto simp: seal_to_recipients_def kw_def split: prod.splits if_splits)
  obtain h bk rk rk' rest where h: "parse_head blob = Ok h" "h_kem_id h = KEM_ID_HYBRID"
    "recipient_block P ps kw (build_head h) rk = Ok (bk, rk')"
    "blob = build_head h @ u16_le (of_nat (length bk)) @ bk @ rest" "length (build_head h) = 68"
    "open_core P kw blob h (70 + length bk)
      = Ok \<lparr>o_metadata = Some (recorded P pt meta), o_plaintext = pt\<rparr>"
    by (rule open_core_sealed [OF P' kw pt meta _ core]) auto
  obtain xs r2 where xs: "recipient_block P ps kw (build_head h) rk = Ok (block_image xs, r2)"
    "list_all2 (gives P (build_head h) kw) ps xs" "\<forall>x \<in> set xs. valid_record x" "length xs = length ps"
    by (rule recipient_block_gives [OF P kw ps n])
  then have "bk = block_image xs" using h(3) by simp
  then show thesis
    using that [of h kw xs rest] h xs n by simp
qed

lemma seal_to_recipients_total:
  assumes P: "prims_ok P" and ps: "\<forall>p \<in> set ps. held P p" "0 < length ps" "length ps \<le> 53"
    and "length pt \<le> U64_MAX" "cs \<noteq> 0" "cs \<le> MAX_CHUNK_SIZE" "valid_metadata (recorded P pt meta)"
  obtains blob r' where "seal_to_recipients P ps pt meta cs r = Ok (blob, r')"
proof -
  from P have P': "cipher_ok P" "hashes_ok P" by (simp_all add: prims_ok_def)
  define kw where "kw = fst (generate_key r)"
  have kw: "length kw = 32" by (simp add: kw_def generate_key_def)
  obtain mpt where mpt: "build_metadata (recorded P pt meta) = Ok mpt" "76 \<le> length mpt" "length mpt \<le> 262104"
    using valid_metadata_size [OF assms(8)] by blast
  have "\<exists>blk r'. recipient_block P ps kw hb r = Ok (blk, r') \<and> length blk < 65536" for hb r
  proof -
    obtain xs r2 where "recipient_block P ps kw hb r = Ok (block_image xs, r2)"
      "\<forall>x \<in> set xs. valid_record x" "length xs = length ps"
      by (rule recipient_block_gives [OF P kw ps])
    then show ?thesis using ps(3) length_block_image [of xs] by auto
  qed
  then show thesis
    using that seal_core_total [OF P' kw assms(5-7), of "recipient_block P ps kw" meta mpt KEM_ID_HYBRID
        "snd (generate_key r)"] mpt ps(2,3)
    by (auto simp: seal_to_recipients_def kw_def case_prod_beta)
qed

text \<open>Reading the block of a sealed object.\<close>

lemma open_as_recipient_block:
  assumes "parse_head blob = Ok h" "h_kem_id h = KEM_ID_HYBRID" "length hb = 68"
    and xs: "\<forall>x \<in> set xs. valid_record x" "0 < length xs" "length xs \<le> 53"
    and blob: "blob = hb @ u16_le (of_nat (length (block_image xs))) @ block_image xs @ rest"
    and kp: "kp_ok P kp"
  shows "open_as_recipient P (kp_x_sk kp) (kp_dk kp) (kp_key_id kp) blob =
    (case map_of xs (kp_key_id kp) of
       None \<Rightarrow> Err (Format ''no kem_wrap sub-record for this key_id (not a recipient)'')
     | Some sub \<Rightarrow> and_then (decapsulate_kw P sub (kp_x_sk kp) (kp_dk kp) (x_pk (kp_public kp))
         (ek (kp_public kp)) (kp_key_id kp) hb) (\<lambda>kw. open_core P kw blob h (70 + length (block_image xs))))"
proof -
  define b where "b = block_image xs"
  have lb: "length b \<le> 65535"
    using xs by (simp add: b_def length_block_image)
  then have l16: "unat (of_nat (length b) :: u16) = length b"
    by (intro unat_of_nat_id) simp
  have pub: "drk1_key_id P \<lparr>x_pk = x_pk (kp_public kp), ek = ek (kp_public kp)\<rparr> = kp_key_id kp"
    unfolding kp_ok_fields(3) [OF kp] by (cases "kp_public kp") simp
  have parts: "slice_at 70 (70 + length b) blob = Ok b" "slice_at 0 68 blob = Ok hb"
    "object_u16 blob 68 = Ok (of_nat (length b))" "checked_add 70 (length b) = Some (70 + length b)"
    "\<not> length blob < 70 + length b"
    using assms(3) lb by (simp_all add: blob b_def [symmetric] object_u16_sealed slice_at_def seg_def checked_add_def U64_MAX_def)
  show ?thesis
    using l16 parse_block_image [OF xs] find_block_image(1) [OF xs(1)] assms(1,2)
    by (simp add: open_as_recipient_def Let_def kp_ok_fields(1,2) [OF kp, symmetric] pub
        b_def [symmetric] parts split: option.splits)
qed

text \<open>
  Every holder of a key the object was sealed to opens it; a keypair it was not sealed to is told so.
\<close>

theorem recipients_open:
  assumes P: "prims_ok P" and ps: "\<forall>p \<in> set ps. held P p"
    and pt: "length pt \<le> U64_MAX" and meta: "valid_metadata (recorded P pt meta)"
    and seal: "seal_to_recipients P ps pt meta cs r = Ok (blob, r')"
    and kp: "kp_ok P kp" and ids: "\<And>p. p \<in> set ps \<Longrightarrow> drk1_key_id P p = kp_key_id kp \<Longrightarrow> p = kp_public kp"
  shows "open_as_recipient P (kp_x_sk kp) (kp_dk kp) (kp_key_id kp) blob =
    (if kp_public kp \<in> set ps then Ok \<lparr>o_metadata = Some (recorded P pt meta), o_plaintext = pt\<rparr>
     else Err (Format ''no kem_wrap sub-record for this key_id (not a recipient)''))"
proof -
  obtain h kw xs rest where h: "parse_head blob = Ok h" "h_kem_id h = KEM_ID_HYBRID"
    "length (build_head h) = 68" and gives: "list_all2 (gives P (build_head h) kw) ps xs"
    and xs: "\<forall>x \<in> set xs. valid_record x" "0 < length xs" "length xs \<le> 53"
    and blob: "blob = build_head h @ u16_le (of_nat (length (block_image xs))) @ block_image xs @ rest"
    and core: "open_core P kw blob h (70 + length (block_image xs))
      = Ok \<lparr>o_metadata = Some (recorded P pt meta), o_plaintext = pt\<rparr>"
    by (rule sealed_block [OF P ps pt meta seal])
  note opens = open_as_recipient_block [OF h xs blob kp]
  show ?thesis
  proof (cases "kp_public kp \<in> set ps")
    case True
    obtain sub where sub: "map_of xs (kp_key_id kp) = Some sub"
      "gives P (build_head h) kw (kp_public kp) (kp_key_id kp, sub)"
      by (rule found_record_gives [OF gives kp True ids])
    then have "decapsulate_kw P sub (kp_x_sk kp) (kp_dk kp) (x_pk (kp_public kp)) (ek (kp_public kp))
        (kp_key_id kp) (build_head h) = Ok kw"
      using kp unfolding gives_def fst_conv snd_conv by blast
    with True sub core show ?thesis by (simp add: opens)
  next
    case False
    have "kp_key_id kp \<notin> fst ` set xs"
    proof
      assume "kp_key_id kp \<in> fst ` set xs"
      then obtain i where "i < length xs" "fst (xs ! i) = kp_key_id kp"
        by (auto simp: in_set_conv_nth)
      then have "ps ! i \<in> set ps" "drk1_key_id P (ps ! i) = kp_key_id kp"
        using gives by (auto simp: list_all2_conv_all_nth gives_def)
      with ids [of "ps ! i"] False show False by simp
    qed
    then have "map_of xs (kp_key_id kp) = None"
      by (simp add: map_of_eq_None_iff)
    with False show ?thesis by (simp add: opens)
  qed
qed

end
