(* ===== verification/Sidecar.thy ===== *)
theory Sidecar
  imports Kem
begin

text \<open>
  \<open>dctl-crypto/src/kem/sidecar.rs\<close>: the file beside an object that holds the grants made after it was
  sealed, bound to the object by its file id and the hash of its head, and the ways a recipient
  recovers the file's key from a grant or from the object's own block.
\<close>

section \<open>Grants and the sidecar\<close>

definition grant_from_bytes :: "bytes \<Rightarrow> bytes crypto" where
  "grant_from_bytes bs =
     (if length bs \<noteq> RECIP_SUBRECORD_LEN then Err (Format ''grant record wrong size'') else Ok bs)"

definition grant_key_id :: "bytes \<Rightarrow> bytes crypto" where
  "grant_key_id grant = slice_at 4 (4 + KEY_ID_LEN) grant"

record parsed_sidecar =
  ps_grant_gen :: u64
  ps_grants :: "bytes list"

fun append_grants :: "bytes list \<Rightarrow> bytes \<Rightarrow> bytes crypto" where
  "append_grants [] out = Ok out"
| "append_grants (g # gs) out =
     (if length g \<noteq> RECIP_SUBRECORD_LEN then Err (Format ''grant record wrong size'')
      else append_grants gs (out @ g))"

definition sidecar_serialize :: "prims \<Rightarrow> bytes \<Rightarrow> bytes \<Rightarrow> u64 \<Rightarrow> bytes list \<Rightarrow> bytes crypto" where
  "sidecar_serialize P file_id head_bytes grant_gen grants =
     (let g = length grants in
      if MAX_GRANT_COUNT < g then Err (Format ''grant_count exceeds 4096'') else
      let head_hash = blake3_hash P head_bytes in
      append_grants grants
        (GRANT_SIDECAR_MAGIC @ [GRANT_SIDECAR_VERSION, KEM_SUITE_X25519_MLKEM768, 0, 0]
         @ file_id @ head_hash @ u64_le grant_gen @ u16_le (of_nat g)))"

fun parse_grants :: "bytes \<Rightarrow> nat \<Rightarrow> nat \<Rightarrow> bytes list crypto" where
  "parse_grants bs 0 i = Ok []"
| "parse_grants bs (Suc left) i =
     (let base = GRANT_SIDECAR_HEADER_LEN + i * RECIP_SUBRECORD_LEN in
      and_then (slice_at base (base + RECIP_SUBRECORD_LEN) bs) (\<lambda>rec.
      and_then (parse_subrecord rec) (\<lambda>_.
      and_then (grant_from_bytes rec) (\<lambda>g.
      and_then (parse_grants bs left (i + 1)) (\<lambda>gs. Ok (g # gs))))))"

definition sidecar_parse :: "prims \<Rightarrow> bytes \<Rightarrow> bytes \<Rightarrow> bytes \<Rightarrow> parsed_sidecar crypto" where
  "sidecar_parse P bs expected_file_id head_bytes =
     (if length bs < GRANT_SIDECAR_HEADER_LEN then Err (Format ''DGS1 shorter than header'') else
      and_then (slice_at 0 4 bs) (\<lambda>magic.
      if magic \<noteq> GRANT_SIDECAR_MAGIC then Err (Format ''bad DGS1 magic'') else
      and_then (byte_at 4 bs) (\<lambda>version.
      if version \<noteq> GRANT_SIDECAR_VERSION then Err (Format ''unsupported DGS1 version'') else
      and_then (byte_at 5 bs) (\<lambda>suite.
      if suite \<noteq> KEM_SUITE_X25519_MLKEM768 then Err (Format ''unsupported DGS1 hybrid_suite'') else
      and_then (byte_at 6 bs) (\<lambda>r6. and_then (byte_at 7 bs) (\<lambda>r7.
      if r6 \<noteq> 0 \<or> r7 \<noteq> 0 then Err (Format ''DGS1 reserved bytes nonzero'') else
      and_then (slice_at 8 (8 + FILE_ID_LEN) bs) (\<lambda>file_id.
      if file_id \<noteq> expected_file_id then Err (Format ''DGS1 file_id mismatch'') else
      and_then (slice_at 24 (24 + HEAD_HASH_LEN) bs) (\<lambda>head_hash.
      if head_hash \<noteq> blake3_hash P head_bytes then Err (Format ''DGS1 head_hash mismatch'') else
      and_then (slice_at 56 64 bs) (\<lambda>gen.
      and_then (slice_at 64 66 bs) (\<lambda>c.
      let grant_count = unat (u16_from_le c) in
      if MAX_GRANT_COUNT < grant_count then Err (Format ''DGS1 grant_count exceeds 4096'') else
      if length bs \<noteq> GRANT_SIDECAR_HEADER_LEN + grant_count * RECIP_SUBRECORD_LEN
        then Err (Format ''DGS1 length != header + G*1234'') else
      and_then (parse_grants bs grant_count 0) (\<lambda>grants.
      Ok \<lparr>ps_grant_gen = u64_from_le gen, ps_grants = grants\<rparr>)))))))))))"

definition seal_kw_to_recipient ::
  "prims \<Rightarrow> bytes \<Rightarrow> drk1_public \<Rightarrow> bytes \<Rightarrow> rng \<Rightarrow> (bytes \<times> rng) crypto" where
  "seal_kw_to_recipient P kw recipient head_bytes r =
     and_then (encapsulate_to P recipient head_bytes kw r) (\<lambda>(bs, r).
     and_then (grant_from_bytes bs) (\<lambda>g. Ok (g, r)))"

definition recover_kw_as_recipient ::
  "prims \<Rightarrow> bytes \<Rightarrow> recipient_keypair \<Rightarrow> bytes \<Rightarrow> bytes crypto" where
  "recover_kw_as_recipient P grant keypair head_bytes =
     and_then (parse_subrecord grant) (\<lambda>(key_id, sub).
     if key_id \<noteq> kp_key_id keypair then Err (Format ''grant key_id does not match this keypair'')
     else decapsulate_kw P sub (kp_x_sk keypair) (kp_dk keypair) (x_pk (kp_public keypair))
       (ek (kp_public keypair)) (kp_key_id keypair) head_bytes)"

definition recover_kw_from_block ::
  "prims \<Rightarrow> recipient_keypair \<Rightarrow> bytes \<Rightarrow> bytes \<Rightarrow> bytes option crypto" where
  "recover_kw_from_block P keypair head_bytes kem_wrap_block =
     and_then (kem_wrap_parse kem_wrap_block) (\<lambda>kemwrap.
     and_then (kem_wrap_find kemwrap (kp_key_id keypair)) (\<lambda>found.
     case found of
       None \<Rightarrow> Ok None
     | Some sub \<Rightarrow>
         and_then (decapsulate_kw P sub (kp_x_sk keypair) (kp_dk keypair) (x_pk (kp_public keypair))
           (ek (kp_public keypair)) (kp_key_id keypair) head_bytes) (\<lambda>kw. Ok (Some kw))))"

definition inline_key_ids :: "bytes \<Rightarrow> bytes list crypto" where
  "inline_key_ids kem_wrap_block = and_then (kem_wrap_parse kem_wrap_block) kem_wrap_key_ids"

section \<open>The format\<close>

definition good_grant :: "bytes \<Rightarrow> bool" where
  "good_grant g \<longleftrightarrow> (\<exists>x. parse_subrecord g = Ok x)"

lemma length_good_grant: "good_grant g \<Longrightarrow> length g = 1234"
  by (auto simp: good_grant_def parse_subrecord_def split: if_splits)

lemma good_grant_image: "valid_record x \<Longrightarrow> good_grant (record_image x)"
  using parse_record_image by (auto simp: good_grant_def)

lemma append_grants_Ok_iff:
  "append_grants gs out = Ok bs \<longleftrightarrow> (\<forall>g \<in> set gs. length g = 1234) \<and> bs = out @ concat gs"
  by (induction gs arbitrary: out) auto

lemma parse_grants_Ok_iff:
  assumes "66 + (i + n) * 1234 \<le> length bs"
  shows "parse_grants bs n i = Ok gs \<longleftrightarrow> length gs = n \<and> (\<forall>g \<in> set gs. good_grant g) \<and>
    concat gs = seg (66 + i * 1234) (66 + (i + n) * 1234) bs"
  using assms
proof (induction n arbitrary: i gs)
  case (Suc n)
  define a e where "a = 66 + i * 1234" and "e = 66 + (i + Suc n) * 1234"
  have ae: "a + 1234 \<le> e" "e \<le> length bs" "66 + (i + 1) * 1234 = a + 1234" "66 + (i + 1 + n) * 1234 = e"
    using Suc.prems by (simp_all add: a_def e_def)
  note IH = Suc.IH [of "i + 1", unfolded ae]
  have split: "seg a e bs = seg a (a + 1234) bs @ seg (a + 1234) e bs"
    using ae by simp
  have step: "parse_grants bs (Suc n) i = Ok gs \<longleftrightarrow>
    (\<exists>gs'. gs = seg a (a + 1234) bs # gs' \<and> good_grant (seg a (a + 1234) bs) \<and> parse_grants bs n (i + 1) = Ok gs')"
    using ae by (auto simp: Let_def a_def and_then_Ok_iff good_grant_def grant_from_bytes_def)
  show ?case
  proof (cases gs)
    case (Cons g gs')
    have "good_grant g \<Longrightarrow> g @ concat gs' = seg a e bs \<longleftrightarrow>
        g = seg a (a + 1234) bs \<and> concat gs' = seg (a + 1234) e bs"
      unfolding split using ae by (intro append_eq_append_conv) (simp add: length_good_grant)
    then show ?thesis
      unfolding a_def [symmetric] e_def [symmetric] step using IH ae Cons by auto
  qed (use step in \<open>simp del: parse_grants.simps\<close>)
qed auto

text \<open>
  A sidecar has one encoding for the object it is bound to: bytes parse exactly when they are the
  serialization, for this file id and head, of at most 4096 well-formed grants.
\<close>

lemma sidecar_parse_iff:
  assumes "hashes_ok P" "length file_id = 16"
  shows "sidecar_parse P bs file_id hb = Ok s \<longleftrightarrow>
    (\<forall>g \<in> set (ps_grants s). good_grant g) \<and>
    sidecar_serialize P file_id hb (ps_grant_gen s) (ps_grants s) = Ok bs"
proof -
  define hdr where "hdr n = GRANT_SIDECAR_MAGIC @ [1, 1, 0, 0] @ file_id @ blake3_hash P hb
    @ u64_le (ps_grant_gen s) @ u16_le (of_nat n)" for n
  define n where "n = length (ps_grants s)"
  have lh: "length (hdr k) = 66" for k
    using assms by (simp add: hdr_def hashes_okD(1))
  have ser: "sidecar_serialize P file_id hb (ps_grant_gen s) (ps_grants s) = Ok bs \<longleftrightarrow>
      n \<le> 4096 \<and> (\<forall>g \<in> set (ps_grants s). length g = 1234) \<and> bs = hdr n @ concat (ps_grants s)"
    by (auto simp: sidecar_serialize_def Let_def append_grants_Ok_iff n_def hdr_def)
  show ?thesis
  proof
    assume parse: "sidecar_parse P bs file_id hb = Ok s"
    define c where "c = unat (u16_from_le (seg 64 66 bs))"
    from parse have len: "length bs = 66 + c * 1234" "c \<le> 4096"
      and fields: "seg 0 4 bs = GRANT_SIDECAR_MAGIC" "[1, 1, 0, 0] = [bs ! 4, bs ! 5, bs ! 6, bs ! 7]"
        "seg 8 24 bs = file_id" "seg 24 56 bs = blake3_hash P hb" "u64_from_le (seg 56 64 bs) = ps_grant_gen s"
      and grants: "parse_grants bs c 0 = Ok (ps_grants s)"
      by (auto simp: sidecar_parse_def c_def and_then_Ok_iff slice_at_Ok_iff byte_at_Ok_iff Let_def not_less)
    have gs: "n = c" "\<forall>g \<in> set (ps_grants s). good_grant g" "concat (ps_grants s) = seg 66 (length bs) bs"
      using grants parse_grants_Ok_iff [of 0 c bs "ps_grants s"] len by (simp_all add: n_def)
    have "[bs ! 4, bs ! 5, bs ! 6, bs ! 7] = seg 4 8 bs"
      using len by (simp add: seg_Cons)
    moreover have "u64_le (ps_grant_gen s) = seg 56 64 bs" "u16_le (of_nat n) = seg 64 66 bs"
      using len by (simp_all add: fields(5) [symmetric] gs(1) c_def to_from_le)
    ultimately have "hdr n = seg 0 66 bs"
      unfolding hdr_def fields(1,3,4) [symmetric] fields(2) using len by simp
    then have "bs = hdr n @ concat (ps_grants s)"
      using len by (simp add: gs(3))
    with gs len show "(\<forall>g \<in> set (ps_grants s). good_grant g) \<and>
      sidecar_serialize P file_id hb (ps_grant_gen s) (ps_grants s) = Ok bs"
      unfolding ser using length_good_grant by blast
  next
    assume "(\<forall>g \<in> set (ps_grants s). good_grant g) \<and>
      sidecar_serialize P file_id hb (ps_grant_gen s) (ps_grants s) = Ok bs"
    then have good: "\<forall>g \<in> set (ps_grants s). good_grant g" and n: "n \<le> 4096"
      and bs: "bs = hdr n @ concat (ps_grants s)"
      by (simp_all add: ser)
    have sum: "length (concat gs) = length gs * 1234" if "\<forall>g \<in> set gs. good_grant g" for gs
      using that by (induction gs) (simp_all add: length_good_grant)
    have len: "length bs = 66 + n * 1234"
      using good by (simp add: bs lh sum n_def)
    have unat_n: "unat (of_nat n :: u16) = n"
      using n by (intro unat_of_nat_id) simp
    have "parse_grants bs n 0 = Ok (ps_grants s)"
      using parse_grants_Ok_iff [of 0 n bs "ps_grants s"] good len lh by (simp add: n_def bs seg_to_end)
    moreover have "seg 0 4 bs = GRANT_SIDECAR_MAGIC" "bs ! 4 = 1" "bs ! 5 = 1" "bs ! 6 = 0" "bs ! 7 = 0"
      "seg 8 24 bs = file_id" "seg 24 56 bs = blake3_hash P hb" "seg 56 64 bs = u64_le (ps_grant_gen s)"
      "seg 64 66 bs = u16_le (of_nat n)"
      using assms by (simp_all add: bs hdr_def nth_append hashes_okD(1)) (simp_all add: seg_def hashes_okD(1))
    ultimately show "sidecar_parse P bs file_id hb = Ok s"
      using len n unat_n by (simp add: sidecar_parse_def Let_def)
  qed
qed

lemma no_panic_sidecar_parse [no_panic_intros]: "no_panic (sidecar_parse P bs fid hb)"
proof -
  have loop: "no_panic (parse_grants bs n i)" if "66 + (i + n) * 1234 \<le> length bs" for n i
    using that
  proof (induction n arbitrary: i)
    case (Suc n)
    then have "66 + i * 1234 + 1234 \<le> length bs" "66 + (i + 1 + n) * 1234 \<le> length bs"
      by (simp_all add: algebra_simps)
    with Suc.IH [of "i + 1"] show ?case
      by (auto simp: Let_def grant_from_bytes_def intro!: no_panic_intros)
  qed simp
  show ?thesis
    unfolding sidecar_parse_def Let_def by (intro no_panic_intros loop) auto
qed

section \<open>A grant gives the key\<close>

theorem grant_recovers:
  assumes P: "cipher_ok P" "hashes_ok P" "hkdf_ok P" "dh_ok P" "mlkem_ok P"
    and kp: "kp_ok P kp" and kw: "length kw = 32"
  obtains g r' where "seal_kw_to_recipient P kw (kp_public kp) hb r = Ok (g, r')" "good_grant g"
    "grant_key_id g = Ok (kp_key_id kp)" "recover_kw_as_recipient P g kp hb = Ok kw"
    "\<And>kp'. kp_key_id kp' \<noteq> kp_key_id kp \<Longrightarrow> recover_kw_as_recipient P g kp' hb
       = Err (Format ''grant key_id does not match this keypair'')"
proof -
  obtain sub r' where e: "encapsulate_to P (kp_public kp) hb kw r = Ok (record_image (kp_key_id kp, sub), r')"
    "valid_record (kp_key_id kp, sub)"
    "decapsulate_kw P sub (kp_x_sk kp) (kp_dk kp) (x_pk (kp_public kp)) (ek (kp_public kp)) (kp_key_id kp) hb = Ok kw"
    by (rule encapsulate_decapsulate [OF P kp kw])
  define g where "g = record_image (kp_key_id kp, sub)"
  have g: "parse_subrecord g = Ok (kp_key_id kp, sub)"
    unfolding g_def by (rule parse_record_image [OF e(2)])
  show thesis
  proof (rule that)
    show "seal_kw_to_recipient P kw (kp_public kp) hb r = Ok (g, r')"
      using length_record_image [OF e(2)] by (simp add: seal_kw_to_recipient_def e(1) grant_from_bytes_def g_def)
    show "good_grant g"
      unfolding g_def by (rule good_grant_image [OF e(2)])
    show "grant_key_id g = Ok (kp_key_id kp)"
      using record_image_reads(3) [OF e(2)] by (simp add: grant_key_id_def g_def del: slice_at_in)
    show "recover_kw_as_recipient P g kp hb = Ok kw"
      by (simp add: recover_kw_as_recipient_def g e(3))
    show "recover_kw_as_recipient P g kp' hb = Err (Format ''grant key_id does not match this keypair'')"
      if "kp_key_id kp' \<noteq> kp_key_id kp" for kp'
      using that by (auto simp: recover_kw_as_recipient_def g)
  qed
qed

end
