(* ===== verification/Discovery.thy ===== *)
theory Discovery
  imports Kem Paths Object_Head
begin

text \<open>
  \<open>dctl-crypto/src/kem/discovery.rs\<close>: the record by which a recipient finds an object shared with them:
  its path, size and hash, sealed under a fresh key that is wrapped to the recipient and bound to the
  head of the object.
\<close>

section \<open>The plaintext\<close>

record discovery_info =
  d_obj_suite :: byte
  d_file_id :: bytes
  d_size :: u64
  d_content_hash :: bytes
  d_path :: str
  d_ext :: bytes

definition build_disc_plaintext :: "discovery_info \<Rightarrow> bytes crypto" where
  "build_disc_plaintext disc =
     and_then (len_u16 ''disc path too long'' (d_path disc)) (\<lambda>path_len.
     if path_len = 0 then Err (Format ''disc path must be non-empty'') else
     and_then (len_u16 ''disc ext too long'' (d_ext disc)) (\<lambda>ext_len.
     Ok ([DISC_SCHEMA_V1, d_obj_suite disc] @ d_file_id disc @ u64_le (d_size disc)
       @ d_content_hash disc @ u16_le path_len @ d_path disc @ u16_le ext_len @ d_ext disc)))"

definition parse_disc_plaintext :: "prims \<Rightarrow> bytes \<Rightarrow> bytes \<Rightarrow> discovery_info crypto" where
  "parse_disc_plaintext P pt header_file_id =
     (if length pt < DISC_MIN_PLAINTEXT_LEN then Err (Format ''disc_plaintext too short'') else
      and_then (byte_at 0 pt) (\<lambda>schema.
      if schema \<noteq> DISC_SCHEMA_V1 then Err (Format ''unsupported disc_schema'') else
      and_then (byte_at 1 pt) (\<lambda>obj_suite.
      if obj_suite \<noteq> KEM_SUITE_X25519_MLKEM768 then Err (Format ''disc obj_suite mismatch'') else
      and_then (slice_at 2 (2 + FILE_ID_LEN) pt) (\<lambda>file_id.
      if file_id \<noteq> header_file_id
        then Err (Format ''disc_plaintext file_id != header.file_id'') else
      and_then (slice_at 18 26 pt) (\<lambda>size'.
      and_then (slice_at 26 58 pt) (\<lambda>content_hash.
      and_then (slice_at 58 60 pt) (\<lambda>pl.
      let path_len = unat (u16_from_le pl) in
      if path_len = 0 then Err (Format ''disc path_len must be >= 1'') else
      and_then (ok_or (Format ''disc path overruns'') (checked_add 60 path_len)) (\<lambda>p_end.
      if length pt < p_end + 2 then Err (Format ''disc truncated (ext_len)'') else
      and_then (slice_at 60 p_end pt) (\<lambda>raw_path.
      and_then (from_utf8 (Format ''disc path not UTF-8'') raw_path) (\<lambda>path.
      and_then (slice_at p_end (p_end + 2) pt) (\<lambda>el.
      let ext_len = unat (u16_from_le el); ext_start = p_end + 2 in
      and_then (ok_or (Format ''disc ext overruns'') (checked_add ext_start ext_len)) (\<lambda>ext_end.
      if ext_end \<noteq> length pt then Err (Format ''disc_plaintext length != 62 + P + E'') else
      and_then (slice_at ext_start ext_end pt) (\<lambda>ext.
      and_then (validate P path) (\<lambda>_.
      Ok \<lparr>d_obj_suite = obj_suite, d_file_id = file_id, d_size = u64_from_le size',
          d_content_hash = content_hash, d_path = path, d_ext = ext\<rparr>))))))))))))))"

section \<open>Sealing and opening\<close>

definition disc_aad :: "bytes \<Rightarrow> bytes" where
  "disc_aad header = DISC_AAD_PREFIX @ header"

definition seal_dgd1 ::
  "prims \<Rightarrow> drk1_public \<Rightarrow> bytes \<Rightarrow> discovery_info \<Rightarrow> rng \<Rightarrow> (bytes \<times> rng) crypto" where
  "seal_dgd1 P recipient head_bytes disc r =
     and_then (validate P (d_path disc)) (\<lambda>_.
     let recipient_key_id = drk1_key_id P recipient;
         head_hash = blake3_hash P head_bytes;
         header = DISCOVERY_MAGIC @ [DISCOVERY_VERSION, KEM_SUITE_X25519_MLKEM768, 0, 0]
           @ recipient_key_id @ d_file_id disc @ head_hash;
         (dw, r) = generate_key r in
     and_then (encapsulate_to P recipient head_bytes dw r) (\<lambda>(wrapped_dw, r).
     if length wrapped_dw \<noteq> RECIP_SUBRECORD_LEN then Err (Format ''wrapped_dw wrong size'') else
     and_then (build_disc_plaintext disc) (\<lambda>disc_plaintext.
     and_then (aead_encrypt P dw disc_plaintext (disc_aad header) r) (\<lambda>(sealed_body, r).
     Ok (header @ wrapped_dw @ sealed_body, r)))))"

definition open_dgd1 ::
  "prims \<Rightarrow> bytes \<Rightarrow> recipient_keypair \<Rightarrow> bytes option \<Rightarrow> discovery_info crypto" where
  "open_dgd1 P bs keypair head_bytes =
     (if length bs < DGD1_BODY_OFFSET + NONCE_LEN + TAG_LEN then Err (Format ''DGD1 too short'') else
      and_then (slice_at 0 4 bs) (\<lambda>magic.
      if magic \<noteq> DISCOVERY_MAGIC then Err (Format ''bad DGD1 magic'') else
      and_then (byte_at 4 bs) (\<lambda>version.
      if version \<noteq> DISCOVERY_VERSION then Err (Format ''unsupported DGD1 version'') else
      and_then (byte_at 5 bs) (\<lambda>suite.
      if suite \<noteq> KEM_SUITE_X25519_MLKEM768 then Err (Format ''unsupported DGD1 hybrid_suite'') else
      and_then (byte_at 6 bs) (\<lambda>r6. and_then (byte_at 7 bs) (\<lambda>r7.
      if r6 \<noteq> 0 \<or> r7 \<noteq> 0 then Err (Format ''DGD1 reserved bytes nonzero'') else
      and_then (slice_at 8 (8 + KEY_ID_LEN) bs) (\<lambda>recipient_key_id.
      if recipient_key_id \<noteq> kp_key_id keypair
        then Err (Format ''DGD1 recipient_key_id does not match this keypair'') else
      and_then (slice_at 40 (40 + FILE_ID_LEN) bs) (\<lambda>file_id.
      and_then (slice_at 56 (56 + HEAD_HASH_LEN) bs) (\<lambda>head_hash.
      and_then (slice_at DGD1_HEADER_LEN DGD1_BODY_OFFSET bs) (\<lambda>wrapped_dw.
      and_then (parse_subrecord wrapped_dw) (\<lambda>(sub_key_id, sub).
      if sub_key_id \<noteq> recipient_key_id
        then Err (Format ''DGD1 wrapped_dw key_id != recipient_key_id'') else
      and_then (ok_or (Format ''DGD1 open requires the object head'') head_bytes) (\<lambda>head_bytes.
      if blake3_hash P head_bytes \<noteq> head_hash then Err (Format ''DGD1 head_hash mismatch'') else
      and_then (parse_head head_bytes) (\<lambda>head.
      if h_file_id head \<noteq> file_id then Err (Format ''DGD1 head.file_id != header.file_id'') else
      and_then (decapsulate_kw P sub (kp_x_sk keypair) (kp_dk keypair) (x_pk (kp_public keypair))
        (ek (kp_public keypair)) (kp_key_id keypair) head_bytes) (\<lambda>dw.
      and_then (slice_at 0 DGD1_HEADER_LEN bs) (\<lambda>header.
      and_then (slice_at DGD1_BODY_OFFSET (length bs) bs) (\<lambda>body.
      and_then (aead_decrypt P dw body (disc_aad header)) (\<lambda>disc_plaintext.
      parse_disc_plaintext P disc_plaintext file_id)))))))))))))))))"

section \<open>The format of the plaintext\<close>

text \<open>What a discovery record of an object can hold.\<close>

definition valid_disc :: "prims \<Rightarrow> bytes \<Rightarrow> discovery_info \<Rightarrow> bool" where
  "valid_disc P fid d \<longleftrightarrow> d_obj_suite d = KEM_SUITE_X25519_MLKEM768 \<and> d_file_id d = fid \<and>
     length (d_content_hash d) = 32 \<and> valid_path P (d_path d) \<and> utf8_valid (d_path d) \<and>
     length (d_ext d) < 2 ^ 16"

lemma valid_path_length: "valid_path P p \<Longrightarrow> 0 < length p \<and> length p < 2 ^ 16"
  by (cases "p = []") (auto simp: valid_path_def proper_segment_def)

lemma parse_build_disc:
  assumes d: "valid_disc P fid d" and fid: "length fid = 16"
  obtains pt where "build_disc_plaintext d = Ok pt" "parse_disc_plaintext P pt fid = Ok d"
    "62 \<le> length pt" "length pt < 2 ^ 18"
proof -
  from d have len: "0 < length (d_path d)" "length (d_path d) < 65536" "length (d_ext d) < 65536"
    "length (d_content_hash d) = 32"
    using valid_path_length [of P "d_path d"] by (simp_all add: valid_disc_def)
  define pl el :: u16 where "pl = of_nat (length (d_path d))" and "el = of_nat (length (d_ext d))"
  have u: "unat pl = length (d_path d)" "unat el = length (d_ext d)"
    unfolding pl_def el_def using len by (simp_all add: unat_of_nat_id)
  then have pl0: "pl \<noteq> 0" using len(1) by auto
  define pt where "pt = [DISC_SCHEMA_V1, d_obj_suite d] @ d_file_id d @ u64_le (d_size d)
    @ d_content_hash d @ u16_le pl @ d_path d @ u16_le el @ d_ext d"
  have build: "build_disc_plaintext d = Ok pt"
    using pl0 len by (simp add: build_disc_plaintext_def pt_def len_u16_def flip: pl_def el_def)
  have f: "d_file_id d = fid" "d_obj_suite d = 1" using d by (simp_all add: valid_disc_def)
  have "validate P (d_path d) = Ok ()"
    using d by (simp add: validate_Ok_iff valid_disc_def)
  define front where "front = [1, 1] @ fid @ u64_le (d_size d) @ d_content_hash d"
  have front: "length front = 58" "pt = front @ u16_le pl @ d_path d @ u16_le el @ d_ext d"
    using len fid f by (simp_all add: front_def pt_def)
  have head: "pt ! 0 = 1" "pt ! 1 = 1" "seg 2 18 pt = fid" "seg 18 26 pt = u64_le (d_size d)"
    "seg 26 58 pt = d_content_hash d"
    using front(1) fid len by (simp_all add: front(2) nth_append) (simp_all add: front_def seg_def)
  define lp where "lp = length (d_path d)"
  have tail: "seg 58 60 pt = u16_le pl" "seg 60 (60 + lp) pt = d_path d"
    "seg (60 + lp) (60 + lp + 2) pt = u16_le el" "seg (60 + lp + 2) (60 + lp + 2 + length (d_ext d)) pt = d_ext d"
    using front(1) by (simp_all add: front(2) lp_def seg_def)
  have total: "length pt = 62 + lp + length (d_ext d)" "unat pl = lp"
    using front u by (simp_all add: lp_def)
  have rec: "\<lparr>d_obj_suite = 1, d_file_id = fid, d_size = d_size d, d_content_hash = d_content_hash d,
      d_path = d_path d, d_ext = d_ext d\<rparr> = d"
    using f by (cases d) simp
  have "parse_disc_plaintext P pt fid = Ok d"
    using \<open>validate P (d_path d) = Ok ()\<close> len u(2) fid d rec
    by (simp add: parse_disc_plaintext_def Let_def head [simplified] tail [simplified] total
        from_utf8_def valid_disc_def checked_add_def U64_MAX_def flip: lp_def)
  then show thesis
    using that [OF build] len fid f by (simp add: pt_def)
qed

text \<open>
  The recipient opens what was sealed for them against the head of the object it was sealed for, and
  only against it: any head of another hash, or none, is refused.
\<close>

lemma dgd1_roundtrip:
  assumes P: "cipher_ok P" "hashes_ok P" "hkdf_ok P" "dh_ok P" "mlkem_ok P" and kp: "kp_ok P kp"
    and head: "parse_head hb = Ok h" and d: "valid_disc P (h_file_id h) d"
  obtains bs r' where "seal_dgd1 P (kp_public kp) hb d r = Ok (bs, r')"
    "open_dgd1 P bs kp (Some hb) = Ok d"
    "\<And>hb'. blake3_hash P hb' \<noteq> blake3_hash P hb \<Longrightarrow>
       open_dgd1 P bs kp (Some hb') = Err (Format ''DGD1 head_hash mismatch'')"
proof -
  define fid where "fid = h_file_id h"
  have fid: "length fid = 16" "d_file_id d = fid"
    using build_parse_head(1) [OF head] d by (simp_all add: fid_def valid_head_def valid_disc_def)
  obtain pt where pt: "build_disc_plaintext d = Ok pt" "parse_disc_plaintext P pt fid = Ok d"
    "length pt < 2 ^ 18"
    by (rule parse_build_disc [OF d [folded fid_def] fid(1)])
  define dw r1 where "dw = fst (generate_key r)" and "r1 = snd (generate_key r)"
  have dw: "length dw = 32" by (simp add: dw_def generate_key_def)
  obtain sub r2 where e: "encapsulate_to P (kp_public kp) hb dw r1 = Ok (record_image (kp_key_id kp, sub), r2)"
    "valid_record (kp_key_id kp, sub)"
    "decapsulate_kw P sub (kp_x_sk kp) (kp_dk kp) (x_pk (kp_public kp)) (ek (kp_public kp)) (kp_key_id kp) hb = Ok dw"
    by (rule encapsulate_decapsulate [OF P kp dw])
  define hdr where "hdr = DISCOVERY_MAGIC @ [1, 1, 0, 0] @ kp_key_id kp @ fid @ blake3_hash P hb"
  obtain body r3 where b: "aead_encrypt P dw pt (disc_aad hdr) r2 = Ok (body, r3)"
    "length body = length pt + 40" "aead_decrypt P dw body (disc_aad hdr) = Ok pt"
    using pt(3) by (auto intro: aead_encrypt_ok [OF P(1) dw, of pt "disc_aad hdr" r2])
  define rec where "rec = record_image (kp_key_id kp, sub)"
  have rec: "length rec = 1234" "parse_subrecord rec = Ok (kp_key_id kp, sub)"
    unfolding rec_def using e(2) by (simp_all add: length_record_image parse_record_image)
  define bs where "bs = hdr @ rec @ body"
  have kid: "length (kp_key_id kp) = 32"
    using e(2) by (simp add: valid_record_def)
  have seal: "seal_dgd1 P (kp_public kp) hb d r = Ok (bs, r3)"
  proof -
    have "validate P (d_path d) = Ok ()"
      using d by (simp add: validate_Ok_iff valid_disc_def)
    moreover have "generate_key r = (dw, r1)" by (simp add: dw_def r1_def)
    ultimately show ?thesis
      using e(1) rec(1) pt(1) b(1)
      by (simp add: seal_dgd1_def Let_def kp_ok_fields(3) [OF kp, symmetric] rec_def fid(2) hdr_def bs_def)
  qed
  have hlen: "length hdr = 88"
    using fid kid hashes_okD(1) [OF P(2)] by (simp add: hdr_def)
  have fields: "seg 0 4 bs = DISCOVERY_MAGIC" "bs ! 4 = 1" "bs ! 5 = 1" "bs ! 6 = 0" "bs ! 7 = 0"
    "seg 8 40 bs = kp_key_id kp" "seg 40 56 bs = fid" "seg 56 88 bs = blake3_hash P hb"
    using fid kid hashes_okD(1) [OF P(2)]
    by (simp_all add: bs_def hdr_def nth_append) (simp_all add: seg_def)
  have parts: "seg 88 1322 bs = rec" "seg 0 88 bs = hdr" "seg 1322 (length bs) bs = body"
    using hlen rec(1) by (simp_all add: bs_def seg_to_end)
  have len: "length bs = 1322 + length body" using hlen rec(1) by (simp add: bs_def)
  have open': "open_dgd1 P bs kp (Some x) =
      (if blake3_hash P x \<noteq> blake3_hash P hb then Err (Format ''DGD1 head_hash mismatch'') else
       and_then (parse_head x) (\<lambda>head.
       if h_file_id head \<noteq> fid then Err (Format ''DGD1 head.file_id != header.file_id'') else
       and_then (decapsulate_kw P sub (kp_x_sk kp) (kp_dk kp) (x_pk (kp_public kp))
         (ek (kp_public kp)) (kp_key_id kp) x) (\<lambda>dw.
       and_then (aead_decrypt P dw body (disc_aad hdr)) (\<lambda>disc_plaintext.
       parse_disc_plaintext P disc_plaintext fid))))" for x
    using len b(2) parts(3) by (simp add: open_dgd1_def fields parts(1,2) rec(2) cong: if_cong)
  show thesis
  proof (rule that [OF seal])
    show "open_dgd1 P bs kp (Some hb) = Ok d"
      using head e(3) b(3) pt(2) by (simp add: open' fid_def)
    show "open_dgd1 P bs kp (Some hb') = Err (Format ''DGD1 head_hash mismatch'')"
      if "blake3_hash P hb' \<noteq> blake3_hash P hb" for hb'
      using that by (simp add: open')
  qed
qed

end
