(* ===== verification/Imported_Key.thy ===== *)
theory Imported_Key
  imports Kem
begin

text \<open>
  \<open>dctl-crypto/src/kem/imported.rs\<close>: keypairs made outside the vault's seed, kept in it as a sealed
  record from which the public half is recomputed when it is read back.
\<close>

definition generate_external :: "prims \<Rightarrow> rng \<Rightarrow> recipient_keypair \<times> rng" where
  "generate_external P r =
     (let (x_sk, r) = rng_fill X25519_SK_LEN r;
          (d, r) = rng_fill 32 r;
          (z, r) = rng_fill 32 r;
          (dk, _) = mlkem_generate P d z in
      (from_private P x_sk dk, r))"

definition derive_k_wrap :: "prims \<Rightarrow> bytes \<Rightarrow> bytes \<Rightarrow> bytes crypto" where
  "derive_k_wrap P root key_id = derive_subkey P root (IK_WRAP_LABEL @ key_id)"

definition body_aad :: "bytes \<Rightarrow> bytes" where
  "body_aad key_id = IK_AAD_PREFIX @ IMPORTED_KEY_MAGIC @ [KEM_SUITE_X25519_MLKEM768] @ key_id"

definition PT_DK :: nat where [simp]: "PT_DK = X25519_SK_LEN"
definition PT_X_PK :: nat where [simp]: "PT_X_PK = PT_DK + MLKEM768_DK_LEN"
definition PT_EK :: nat where [simp]: "PT_EK = PT_X_PK + X25519_PK_LEN"

definition serialize_dik1 ::
  "prims \<Rightarrow> bytes \<Rightarrow> recipient_keypair \<Rightarrow> rng \<Rightarrow> (bytes \<times> rng) crypto" where
  "serialize_dik1 P root keypair r =
     (let key_id = kp_key_id keypair in
      and_then (derive_k_wrap P root key_id) (\<lambda>k_wrap.
      let plaintext = kp_x_sk keypair @ kp_dk keypair @ x_pk (kp_public keypair) @ ek (kp_public keypair);
          aad = body_aad key_id in
      and_then (aead_encrypt P k_wrap plaintext aad r) (\<lambda>(sealed, r).
      if length sealed \<noteq> DIK1_LEN - DIK1_HEADER_LEN then Err (Format ''DIK1 sealed body wrong size'') else
      Ok (IMPORTED_KEY_MAGIC @ [IMPORTED_KEY_VERSION, KEM_SUITE_X25519_MLKEM768, 0, 0] @ key_id @ sealed,
          r))))"

definition parse_dik1 :: "prims \<Rightarrow> bytes \<Rightarrow> bytes \<Rightarrow> recipient_keypair crypto" where
  "parse_dik1 P root bs =
     (if length bs \<noteq> DIK1_LEN then Err (Format ''DIK1 wrong length'') else
      and_then (slice_at 0 4 bs) (\<lambda>magic.
      if magic \<noteq> IMPORTED_KEY_MAGIC then Err (Format ''bad DIK1 magic'') else
      and_then (byte_at 4 bs) (\<lambda>version.
      if version \<noteq> IMPORTED_KEY_VERSION then Err (Format ''unsupported DIK1 version'') else
      and_then (byte_at 5 bs) (\<lambda>suite.
      if suite \<noteq> KEM_SUITE_X25519_MLKEM768 then Err (Format ''unsupported DIK1 hybrid_suite'') else
      and_then (byte_at 6 bs) (\<lambda>r6. and_then (byte_at 7 bs) (\<lambda>r7.
      if r6 \<noteq> 0 \<or> r7 \<noteq> 0 then Err (Format ''DIK1 reserved bytes nonzero'') else
      and_then (slice_at 8 DIK1_HEADER_LEN bs) (\<lambda>header_key_id.
      and_then (derive_k_wrap P root header_key_id) (\<lambda>k_wrap.
      let aad = body_aad header_key_id in
      and_then (slice_at DIK1_HEADER_LEN (length bs) bs) (\<lambda>body.
      and_then (aead_decrypt P k_wrap body aad) (\<lambda>plaintext.
      if length plaintext \<noteq> DIK1_PLAINTEXT_LEN then Err (Format ''DIK1 plaintext wrong length'') else
      and_then (slice_at 0 PT_DK plaintext) (\<lambda>x_sk.
      and_then (slice_at PT_DK PT_X_PK plaintext) (\<lambda>dk.
      let keypair = from_private P x_sk dk in
      and_then (slice_at PT_X_PK PT_EK plaintext) (\<lambda>x.
      if x_pk (kp_public keypair) \<noteq> x then Err (Format ''DIK1 x_pk does not match X25519(x_sk, 9)'') else
      and_then (slice_at PT_EK DIK1_PLAINTEXT_LEN plaintext) (\<lambda>e.
      if ek (kp_public keypair) \<noteq> e then Err (Format ''DIK1 ek does not match the embedded ML-KEM dk'') else
      if kp_key_id keypair \<noteq> header_key_id then Err (Format ''DIK1 key_id != recompute(pubkeys)'') else
      Ok keypair))))))))))))))"

section \<open>The sealed record\<close>

lemma generate_external_ok:
  assumes "mlkem_ok P"
  shows "kp_ok P (fst (generate_external P r))"
  using assms by (auto simp: generate_external_def kp_ok_def from_private_def rng_fill_def mlkem_ok_def
      Let_def case_prod_beta)

lemma parse_dik1_ok:
  assumes "parse_dik1 P root bs = Ok kp"
  shows "kp_ok P kp" and "\<exists>body. bs = IMPORTED_KEY_MAGIC @ [1, 1, 0, 0] @ kp_key_id kp @ body"
proof -
  from assms obtain pt where len: "length bs = 3728" and lp: "length pt = 3648"
    and kp: "kp = from_private P (seg 0 32 pt) (seg 32 2432 pt)"
    and fields: "seg 0 4 bs = IMPORTED_KEY_MAGIC" "[1, 1, 0, 0] = [bs ! 4, bs ! 5, bs ! 6, bs ! 7]"
      "seg 8 40 bs = kp_key_id kp"
    by (auto simp: parse_dik1_def Let_def and_then_Ok_iff slice_at_Ok_iff byte_at_Ok_iff IMPORTED_KEY_VERSION_def)
  show "kp_ok P kp"
    using lp by (simp add: kp_ok_def kp from_private_def Let_def)
  have "[bs ! 4, bs ! 5, bs ! 6, bs ! 7] = seg 4 8 bs"
    using len by (simp add: seg_Cons)
  then have "bs = IMPORTED_KEY_MAGIC @ [1, 1, 0, 0] @ kp_key_id kp @ seg 40 3728 bs"
    unfolding fields(1,3) [symmetric] fields(2) using len by simp
  then show "\<exists>body. bs = IMPORTED_KEY_MAGIC @ [1, 1, 0, 0] @ kp_key_id kp @ body" ..
qed

lemma parse_serialize_dik1:
  assumes P: "cipher_ok P" "hashes_ok P" "hkdf_ok P" "dh_ok P" "mlkem_ok P" and kp: "kp_ok P kp"
  obtains bs r' where "serialize_dik1 P root kp r = Ok (bs, r')" "parse_dik1 P root bs = Ok kp"
proof -
  define pt where "pt = kp_x_sk kp @ kp_dk kp @ x_pk (kp_public kp) @ ek (kp_public kp)"
  have pub: "length (x_pk (kp_public kp)) = 32" "length (ek (kp_public kp)) = 1184"
    using kp_ok_valid [OF kp P(4,5)] by (simp_all add: valid_public_def)
  have lens: "length (kp_x_sk kp) = 32" "length (kp_dk kp) = 2400"
    using kp by (simp_all add: kp_ok_def)
  have kid: "length (kp_key_id kp) = 32"
    using hashes_okD(1) [OF P(2)] by (simp add: kp_ok_fields(3) [OF kp] drk1_key_id_def)
  have ptl: "length pt = 3648" using pub lens by (simp add: pt_def)
  obtain k where k: "derive_k_wrap P root (kp_key_id kp) = Ok k" "length k = 32"
    using derive_subkey_ok [OF P(3)] unfolding derive_k_wrap_def by blast
  obtain sealed r' where s: "aead_encrypt P k pt (body_aad (kp_key_id kp)) r = Ok (sealed, r')"
    "length sealed = 3688" "aead_decrypt P k sealed (body_aad (kp_key_id kp)) = Ok pt"
    using ptl by (auto intro: aead_encrypt_ok [OF P(1) k(2), of pt "body_aad (kp_key_id kp)" r])
  define bs where "bs = IMPORTED_KEY_MAGIC @ [1, 1, 0, 0] @ kp_key_id kp @ sealed"
  have "serialize_dik1 P root kp r = Ok (bs, r')"
    using k s by (simp add: serialize_dik1_def Let_def pt_def bs_def IMPORTED_KEY_VERSION_def)
  moreover have "seg 0 4 bs = IMPORTED_KEY_MAGIC" "bs ! 4 = 1" "bs ! 5 = 1" "bs ! 6 = 0" "bs ! 7 = 0"
    "seg 8 40 bs = kp_key_id kp" "seg 40 3728 bs = sealed" "length bs = 3728"
    using kid s(2) by (simp_all add: bs_def nth_append seg_def)
  moreover have "seg 0 32 pt = kp_x_sk kp" "seg 32 2432 pt = kp_dk kp" "seg 2432 2464 pt = x_pk (kp_public kp)"
    "seg 2464 3648 pt = ek (kp_public kp)"
    using lens pub by (simp_all add: pt_def seg_def)
  moreover have "from_private P (kp_x_sk kp) (kp_dk kp) = kp"
    using kp by (simp add: kp_ok_def)
  ultimately have "parse_dik1 P root bs = Ok kp"
    using k s ptl by (simp add: parse_dik1_def Let_def IMPORTED_KEY_VERSION_def)
  with \<open>serialize_dik1 P root kp r = Ok (bs, r')\<close> show thesis by (rule that)
qed

end
