(* ===== verification/Index_Keying.thy ===== *)
theory Index_Keying
  imports Primitives
begin

text \<open>
  \<open>dctl-index/src/keying.rs\<close> and \<open>record.rs\<close>: the keyed hash that stands for a path in the index, the
  parent of a path and the directories above it, and what the index records of a file.
\<close>

section \<open>Searching a string\<close>

fun find_byte :: "byte \<Rightarrow> bytes \<Rightarrow> nat option" where
  "find_byte c [] = None"
| "find_byte c (x # xs) = (if x = c then Some 0 else map_option Suc (find_byte c xs))"

definition rfind_byte :: "byte \<Rightarrow> bytes \<Rightarrow> nat option" where
  "rfind_byte c xs = map_option (\<lambda>i. length xs - 1 - i) (find_byte c (rev xs))"

lemma find_byte_None_iff [simp]: "find_byte c xs = None \<longleftrightarrow> c \<notin> set xs"
  by (induction xs) auto

lemma find_byte_absent [simp]: "c \<notin> set xs \<Longrightarrow> find_byte c xs = None"
  by simp

lemma find_byte_Some_iff:
  "find_byte c xs = Some i \<longleftrightarrow> i < length xs \<and> xs ! i = c \<and> c \<notin> set (take i xs)"
proof (induction xs arbitrary: i)
  case (Cons x xs)
  then show ?case by (cases i) auto
qed simp

lemma find_byte_append: "c \<notin> set a \<Longrightarrow> find_byte c (a @ c # b) = Some (length a)"
  by (induction a) auto

lemma rfind_byte_append: "c \<notin> set b \<Longrightarrow> rfind_byte c (a @ c # b) = Some (length a)"
  by (simp add: rfind_byte_def find_byte_append)

lemma rfind_byte_None_iff [simp]: "rfind_byte c xs = None \<longleftrightarrow> c \<notin> set xs"
  by (simp add: rfind_byte_def)

lemma rfind_byte_absent [simp]: "c \<notin> set xs \<Longrightarrow> rfind_byte c xs = None"
  by simp

section \<open>Keys and directories\<close>

definition SEPARATOR :: byte where
  [simp]: "SEPARATOR = 0x2F"

definition index_key :: "prims \<Rightarrow> bytes \<Rightarrow> str \<Rightarrow> bytes" where
  "index_key P keying_key path = blake3_keyed_hash P keying_key path"

definition parent_of :: "str \<Rightarrow> str" where
  "parent_of path = (case rfind_byte SEPARATOR path of Some at \<Rightarrow> take at path | None \<Rightarrow> [])"

function ancestors_from :: "str \<Rightarrow> nat \<Rightarrow> str list" where
  "ancestors_from path at =
     (case find_byte SEPARATOR (drop at path) of
        None \<Rightarrow> []
      | Some offset \<Rightarrow>
          let end' = at + offset in
          (if 0 < end' then [take end' path] else []) @ ancestors_from path (end' + 1))"
  by auto

termination
  by (relation "measure (\<lambda>(path, at). length path - at)") (auto simp: find_byte_Some_iff)

declare ancestors_from.simps [simp del]

definition ancestors_of :: "str \<Rightarrow> str list" where
  "ancestors_of path = ancestors_from path 0"

text \<open>The directories above a path are its proper non-empty prefixes that end before a separator.\<close>

lemma set_ancestors_from:
  "set (ancestors_from path at) =
   {take i path | i. at \<le> i \<and> 0 < i \<and> i < length path \<and> path ! i = SEPARATOR}"
proof (induction path at rule: ancestors_from.induct)
  case (1 path at)
  show ?case
  proof (cases "find_byte SEPARATOR (drop at path)")
    case None
    have "path ! i \<noteq> SEPARATOR" if "at \<le> i" "i < length path" for i
    proof
      assume "path ! i = SEPARATOR"
      with that have "SEPARATOR \<in> set (drop at path)"
        unfolding in_set_conv_nth by (intro exI [of _ "i - at"]) auto
      with None show False by simp
    qed
    then have "{take i path | i. at \<le> i \<and> 0 < i \<and> i < length path \<and> path ! i = SEPARATOR} = {}"
      by blast
    then show ?thesis by (subst ancestors_from.simps) (simp only: None, simp)
  next
    case (Some off)
    define e where "e = at + off"
    from Some have e: "e < length path" "path ! e = SEPARATOR" "SEPARATOR \<notin> set (take off (drop at path))"
      by (auto simp: e_def find_byte_Some_iff)
    have gap: "path ! i \<noteq> SEPARATOR" if "at \<le> i" "i < e" for i
    proof
      assume "path ! i = SEPARATOR"
      moreover have "take off (drop at path) ! (i - at) = path ! i" "i - at < length (take off (drop at path))"
        using that e(1) by (simp_all add: e_def)
      ultimately show False using e(3) nth_mem by metis
    qed
    have IH: "set (ancestors_from path (e + 1)) =
        {take i path | i. e + 1 \<le> i \<and> 0 < i \<and> i < length path \<and> path ! i = SEPARATOR}"
      unfolding e_def by (rule "1.IH" [OF Some refl])
    have "set (ancestors_from path at) = (if 0 < e then {take e path} else {}) \<union> set (ancestors_from path (e + 1))"
      using Some by (subst ancestors_from.simps) (simp add: Let_def e_def)
    also have "\<dots> = {take i path | i. at \<le> i \<and> 0 < i \<and> i < length path \<and> path ! i = SEPARATOR}" (is "?l = ?r")
    proof
      show "?l \<subseteq> ?r" unfolding IH using e by (auto simp: e_def)
      show "?r \<subseteq> ?l"
      proof
        fix x assume "x \<in> ?r"
        then obtain i where i: "x = take i path" "at \<le> i" "0 < i" "i < length path" "path ! i = SEPARATOR"
          by blast
        then have "i = e \<or> e + 1 \<le> i" using gap [of i] by linarith
        with i show "x \<in> ?l" unfolding IH by auto
      qed
    qed
    finally show ?thesis .
  qed
qed

lemma distinct_ancestors_from: "distinct (ancestors_from path at)"
proof (induction path at rule: ancestors_from.induct)
  case (1 path at)
  show ?case
  proof (cases "find_byte SEPARATOR (drop at path)")
    case (Some off)
    then have "at + off < length path" by (auto simp: find_byte_Some_iff)
    then have "take (at + off) path \<notin> set (ancestors_from path (at + off + 1))"
      by (auto simp: set_ancestors_from dest!: arg_cong [of _ _ length])
    then show ?thesis
      using Some "1.IH" [OF Some refl] by (subst ancestors_from.simps) (simp add: Let_def)
  qed (subst ancestors_from.simps, simp del: SEPARATOR_def)
qed

lemma set_ancestors_of:
  "set (ancestors_of path) = {take i path | i. 0 < i \<and> i < length path \<and> path ! i = SEPARATOR}"
  by (simp add: ancestors_of_def set_ancestors_from)

lemma distinct_ancestors_of: "distinct (ancestors_of path)"
  by (simp add: ancestors_of_def distinct_ancestors_from)

lemma ancestors_iff: "d \<in> set (ancestors_of path) \<longleftrightarrow> d \<noteq> [] \<and> (\<exists>r. path = d @ SEPARATOR # r)"
proof
  assume "d \<in> set (ancestors_of path)"
  then obtain i where "d = take i path" "0 < i" "i < length path" "path ! i = SEPARATOR"
    by (auto simp: set_ancestors_of)
  then show "d \<noteq> [] \<and> (\<exists>r. path = d @ SEPARATOR # r)"
    using id_take_nth_drop [of i path] by (intro conjI exI [of _ "drop (Suc i) path"]) auto
next
  assume "d \<noteq> [] \<and> (\<exists>r. path = d @ SEPARATOR # r)"
  then show "d \<in> set (ancestors_of path)"
    unfolding set_ancestors_of by (auto intro!: exI [of _ "length d"])
qed

text \<open>
  The directories above a path are those above its parent and the parent, so that a walk from the
  root by \<open>parent_of\<close> passes each.
\<close>

lemma parent_cases:
  obtains "SEPARATOR \<notin> set path" "parent_of path = []"
  | a b where "path = a @ SEPARATOR # b" "SEPARATOR \<notin> set b" "parent_of path = a"
proof (cases "SEPARATOR \<in> set path")
  case True
  then obtain a b where p: "path = a @ SEPARATOR # b" "SEPARATOR \<notin> set b"
    by (metis split_list_last)
  then have "parent_of path = a" by (simp add: parent_of_def rfind_byte_append del: SEPARATOR_def)
  with p that(2) show thesis by blast
qed (use that(1) in \<open>simp add: parent_of_def del: SEPARATOR_def\<close>)

lemma ancestors_parent:
  "set (ancestors_of path) =
   (if parent_of path = [] then {} else insert (parent_of path) (set (ancestors_of (parent_of path))))"
proof (cases rule: parent_cases [of path])
  case 1
  then have "d \<notin> set (ancestors_of path)" for d
    by (auto simp: ancestors_iff simp del: SEPARATOR_def)
  then have "set (ancestors_of path) = {}" by (intro equals0I) simp
  with 1 show ?thesis by simp
next
  case (2 a b)
  have after: "path ! i \<noteq> SEPARATOR" if "length a < i" "i < length path" for i
  proof -
    have "path ! i = b ! (i - length a - 1)" "i - length a - 1 < length b"
      using that by (simp_all add: 2(1) nth_append)
    with 2(2) show ?thesis by (metis nth_mem)
  qed
  have at: "path ! length a = SEPARATOR" "length a < length path" "take (length a) path = a"
    and before: "\<And>i. i < length a \<Longrightarrow> path ! i = a ! i \<and> take i path = take i a"
    by (simp_all add: 2(1) nth_append)
  show ?thesis
  proof (intro equalityI subsetI)
    fix x assume "x \<in> set (ancestors_of path)"
    then obtain i where i: "x = take i path" "0 < i" "i < length path" "path ! i = SEPARATOR"
      unfolding set_ancestors_of by blast
    then have "i \<le> length a" using after [of i] by linarith
    then consider "i = length a" | "i < length a" by linarith
    then show "x \<in> (if parent_of path = [] then {}
        else insert (parent_of path) (set (ancestors_of (parent_of path))))"
    proof cases
      case 1
      then show ?thesis using i at 2(3) by auto
    next
      case 2
      then show ?thesis
        using i before [of i] \<open>parent_of path = a\<close> unfolding set_ancestors_of by auto
    qed
  next
    fix x assume "x \<in> (if parent_of path = [] then {}
        else insert (parent_of path) (set (ancestors_of (parent_of path))))"
    then have "a \<noteq> []" "x = a \<or> (\<exists>i. x = take i a \<and> 0 < i \<and> i < length a \<and> a ! i = SEPARATOR)"
      unfolding 2(3) set_ancestors_of by (auto split: if_splits)
    then show "x \<in> set (ancestors_of path)"
    proof (elim disjE exE conjE)
      assume "a \<noteq> []" "x = a"
      then show ?thesis
        unfolding set_ancestors_of using at by (intro CollectI exI [of _ "length a"]) simp
    next
      fix i assume "x = take i a" "0 < i" "i < length a" "a ! i = SEPARATOR"
      then show ?thesis
        unfolding set_ancestors_of using at before [of i] by (intro CollectI exI [of _ i]) simp
    qed
  qed
qed

section \<open>Records\<close>

record index_record =
  ir_path :: str
  ir_object_key :: str
  ir_size :: u64
  ir_modified_unix :: "u64 option"
  ir_content_hash :: bytes

definition ir_unmeasured :: "index_record \<Rightarrow> bool" where
  "ir_unmeasured r \<longleftrightarrow> ir_size r = 0 \<and> ir_content_hash r = []"

record totals =
  tot_objects :: u64
  tot_bytes :: u64
  tot_unmeasured :: u64

definition measured_bytes :: "totals \<Rightarrow> u64 option" where
  "measured_bytes t = (if tot_unmeasured t = 0 then Some (tot_bytes t) else None)"

end
