(* ===== verification/Index.thy ===== *)
theory Index
  imports Index_Keying Utf8 "HOL-Library.AList" "HOL-Library.List_Lexorder"
begin

text \<open>
  \<open>dctl-index/src/index.rs\<close>: the encrypted index of a vault. SQLite is modelled by what its statements
  do to three tables of rows with a primary key; a statement can fail, and which do is a tape of the
  state, as randomness is. \<open>postcard\<close>, which writes records and totals as bytes, is an argument. The
  mutex around the connection makes every operation run alone, so operations are functions of the
  state. Opening the database file is I/O and left out but for the migration it runs.
\<close>

section \<open>The database\<close>

datatype index_error = Db | Serialize | Crypto

record postcard =
  record_to_bytes :: "index_record \<Rightarrow> bytes option"
  record_from_bytes :: "bytes \<Rightarrow> index_record option"
  totals_to_bytes :: "totals \<Rightarrow> bytes option"
  totals_from_bytes :: "bytes \<Rightarrow> totals option"

text \<open>Rows: the key, and the other columns. \<open>refs\<close> is SQLite's integer.\<close>

record db =
  db_records :: "(bytes \<times> bytes \<times> bytes) list" \<comment> \<open>key, parent, value\<close>
  db_dirs :: "(bytes \<times> bytes \<times> bytes \<times> int) list" \<comment> \<open>key, parent, value, refs\<close>
  db_totals :: "bytes option"
  db_user_version :: int

text \<open>The connection, with the tapes of randomness and of failing statements.\<close>

record conn =
  c_db :: db
  c_rng :: rng
  c_faults :: "nat \<Rightarrow> bool"

record index_keys =
  keying_key :: bytes
  enc_key :: bytes

type_synonym 'a idx = "(conn, index_error, 'a) io"

definition sql :: "(db \<Rightarrow> 'a \<times> db) \<Rightarrow> 'a idx" where
  "sql stmt = (\<lambda>c. let c' = c\<lparr>c_faults := \<lambda>n. c_faults c (n + 1)\<rparr> in
     if c_faults c 0 then (Err Db, c')
     else let (x, d) = stmt (c_db c) in (Ok x, c'\<lparr>c_db := d\<rparr>))"

definition query :: "(db \<Rightarrow> 'a) \<Rightarrow> 'a idx" where
  "query f = sql (\<lambda>d. (f d, d))"

definition execute :: "(db \<Rightarrow> db) \<Rightarrow> unit idx" where
  "execute f = sql (\<lambda>d. ((), f d))"

text \<open>
  A transaction, from its \<open>BEGIN\<close> on: its body says whether it committed. Dropped without a commit, or
  on an error, also of the commit itself, it leaves the tables as they were.
\<close>

definition transaction :: "('a \<times> bool) idx \<Rightarrow> 'a idx" where
  "transaction body = (\<lambda>c. case io_bind (execute id) (\<lambda>_. io_bind body (\<lambda>(x, committed).
       if committed then io_bind (execute id) (\<lambda>_. io_return (x, True)) else io_return (x, False))) c of
     (Err e, c') \<Rightarrow> (Err e, c'\<lparr>c_db := c_db c\<rparr>)
   | (Ok (x, committed), c') \<Rightarrow> (Ok x, if committed then c' else c'\<lparr>c_db := c_db c\<rparr>))"

definition seal_value :: "prims \<Rightarrow> bytes \<Rightarrow> bytes \<Rightarrow> bytes \<Rightarrow> bytes idx" where
  "seal_value P key plaintext aad = (\<lambda>c. case aead_encrypt P key plaintext aad (c_rng c) of
       Err _ \<Rightarrow> (Err Crypto, c)
     | Ok (blob, r) \<Rightarrow> (Ok blob, c\<lparr>c_rng := r\<rparr>))"

section \<open>Rows\<close>

definition decode :: "prims \<Rightarrow> postcard \<Rightarrow> bytes \<Rightarrow> bytes \<Rightarrow> bytes \<Rightarrow> index_error + index_record" where
  "decode P C ek key v =
     and_then (map_err (\<lambda>_. Crypto) (aead_decrypt P ek v key)) (\<lambda>plaintext.
     ok_or Serialize (record_from_bytes C plaintext))"

definition read :: "prims \<Rightarrow> postcard \<Rightarrow> bytes \<Rightarrow> bytes \<Rightarrow> index_record option idx" where
  "read P C ek key =
     io_bind (query (\<lambda>d. map_of (db_records d) key)) (\<lambda>row.
     case row of
       None \<Rightarrow> io_return None
     | Some (_, v) \<Rightarrow> io_lift (and_then (decode P C ek key v) (\<lambda>r. Ok (Some r))))"

definition bump_dir :: "prims \<Rightarrow> index_keys \<Rightarrow> str \<Rightarrow> int \<Rightarrow> unit idx" where
  "bump_dir P K dir delta =
     (let key = index_key P (keying_key K) dir in
      if 0 < delta then
        let parent = index_key P (keying_key K) (parent_of dir) in
        io_bind (seal_value P (enc_key K) dir key) (\<lambda>v.
        execute (db_dirs_update (\<lambda>rows. case map_of rows key of
            None \<Rightarrow> AList.update key (parent, v, delta) rows
          | Some (parent', v', refs) \<Rightarrow> AList.update key (parent', v', refs + delta) rows)))
      else
        io_bind (execute (db_dirs_update (\<lambda>rows. case map_of rows key of
            None \<Rightarrow> rows
          | Some (parent', v', refs) \<Rightarrow> AList.update key (parent', v', refs + delta) rows))) (\<lambda>_.
        execute (db_dirs_update (filter (\<lambda>(k, _, _, refs). \<not> (k = key \<and> refs \<le> 0))))))"

fun bump_dirs :: "prims \<Rightarrow> index_keys \<Rightarrow> str list \<Rightarrow> int \<Rightarrow> unit idx" where
  "bump_dirs P K [] delta = io_return ()"
| "bump_dirs P K (dir # dirs) delta =
     io_bind (bump_dir P K dir delta) (\<lambda>_. bump_dirs P K dirs delta)"

section \<open>Totals\<close>

definition TOTALS_DOMAIN :: str where
  "TOTALS_DOMAIN = 0 # lit ''totals''"

definition totals_default :: totals where
  "totals_default = \<lparr>tot_objects = 0, tot_bytes = 0, tot_unmeasured = 0\<rparr>"

definition read_totals :: "prims \<Rightarrow> postcard \<Rightarrow> index_keys \<Rightarrow> totals idx" where
  "read_totals P C K =
     (let key = index_key P (keying_key K) TOTALS_DOMAIN in
      io_bind (query db_totals) (\<lambda>row.
      case row of
        None \<Rightarrow> io_return totals_default
      | Some v \<Rightarrow>
          io_lift (and_then (map_err (\<lambda>_. Crypto) (aead_decrypt P (enc_key K) v key)) (\<lambda>plaintext.
            ok_or Serialize (totals_from_bytes C plaintext)))))"

definition write_totals :: "prims \<Rightarrow> postcard \<Rightarrow> index_keys \<Rightarrow> totals \<Rightarrow> unit idx" where
  "write_totals P C K t =
     (let key = index_key P (keying_key K) TOTALS_DOMAIN in
      io_bind (io_lift (ok_or Serialize (totals_to_bytes C t))) (\<lambda>plaintext.
      io_bind (seal_value P (enc_key K) plaintext key) (\<lambda>blob.
      execute (db_totals_update (\<lambda>_. Some blob)))))"

definition sat_add :: "u64 \<Rightarrow> u64 \<Rightarrow> u64" where
  "sat_add a b = of_nat (saturating_add (unat a) (unat b))"

definition sat_sub :: "u64 \<Rightarrow> u64 \<Rightarrow> u64" where
  "sat_sub a b = of_nat (saturating_sub (unat a) (unat b))"

definition totals_less :: "index_record option \<Rightarrow> totals \<Rightarrow> totals" where
  "totals_less was t = (case was of None \<Rightarrow> t | Some r \<Rightarrow>
     let t = t\<lparr>tot_objects := sat_sub (tot_objects t) 1\<rparr> in
     if ir_unmeasured r then t\<lparr>tot_unmeasured := sat_sub (tot_unmeasured t) 1\<rparr>
     else t\<lparr>tot_bytes := sat_sub (tot_bytes t) (ir_size r)\<rparr>)"

definition totals_plus :: "index_record option \<Rightarrow> totals \<Rightarrow> totals" where
  "totals_plus now t = (case now of None \<Rightarrow> t | Some r \<Rightarrow>
     let t = t\<lparr>tot_objects := sat_add (tot_objects t) 1\<rparr> in
     if ir_unmeasured r then t\<lparr>tot_unmeasured := sat_add (tot_unmeasured t) 1\<rparr>
     else t\<lparr>tot_bytes := sat_add (tot_bytes t) (ir_size r)\<rparr>)"

definition shift_totals ::
  "prims \<Rightarrow> postcard \<Rightarrow> index_keys \<Rightarrow> index_record option \<Rightarrow> index_record option \<Rightarrow> unit idx" where
  "shift_totals P C K was now =
     io_bind (read_totals P C K) (\<lambda>t. write_totals P C K (totals_plus now (totals_less was t)))"

section \<open>The operations\<close>

definition put :: "prims \<Rightarrow> postcard \<Rightarrow> index_keys \<Rightarrow> index_record \<Rightarrow> unit idx" where
  "put P C K r =
     (let key = index_key P (keying_key K) (ir_path r);
          parent = index_key P (keying_key K) (parent_of (ir_path r)) in
      io_bind (io_lift (ok_or Serialize (record_to_bytes C r))) (\<lambda>plaintext.
      io_bind (seal_value P (enc_key K) plaintext key) (\<lambda>blob.
      transaction (
        io_bind (read P C (enc_key K) key) (\<lambda>previous.
        io_bind (execute (db_records_update (AList.update key (parent, blob)))) (\<lambda>_.
        io_bind (if previous = None then bump_dirs P K (ancestors_of (ir_path r)) 1 else io_return ())
          (\<lambda>_.
        io_bind (shift_totals P C K previous (Some r)) (\<lambda>_.
        io_return ((), True)))))))))"

definition get :: "prims \<Rightarrow> postcard \<Rightarrow> index_keys \<Rightarrow> str \<Rightarrow> index_record option idx" where
  "get P C K path =
     (let key = index_key P (keying_key K) path in
      io_bind (query (\<lambda>d. map_of (db_records d) key)) (\<lambda>row.
      case row of
        None \<Rightarrow> io_return None
      | Some (_, v) \<Rightarrow> io_lift (and_then (decode P C (enc_key K) key v) (\<lambda>r. Ok (Some r)))))"

definition contains :: "prims \<Rightarrow> index_keys \<Rightarrow> str \<Rightarrow> bool idx" where
  "contains P K path =
     (let key = index_key P (keying_key K) path in
      io_bind (query (\<lambda>d. map_of (db_records d) key)) (\<lambda>found. io_return (found \<noteq> None)))"

definition contains_dir :: "prims \<Rightarrow> index_keys \<Rightarrow> str \<Rightarrow> bool idx" where
  "contains_dir P K dir =
     (let key = index_key P (keying_key K) dir in
      io_bind (query (\<lambda>d. map_of (db_dirs d) key)) (\<lambda>found. io_return (found \<noteq> None)))"

definition delete :: "prims \<Rightarrow> postcard \<Rightarrow> index_keys \<Rightarrow> str \<Rightarrow> bool idx" where
  "delete P C K path =
     (let key = index_key P (keying_key K) path in
      transaction (
        io_bind (read P C (enc_key K) key) (\<lambda>found.
        case found of
          None \<Rightarrow> io_return (False, False)
        | Some previous \<Rightarrow>
            io_bind (execute (db_records_update (AList.delete key))) (\<lambda>_.
            io_bind (bump_dirs P K (ancestors_of path) (-1)) (\<lambda>_.
            io_bind (shift_totals P C K (Some previous) None) (\<lambda>_.
            io_return (True, True)))))))"

definition count :: "nat idx" where
  "count = query (\<lambda>d. length (db_records d))"

definition totals_of :: "prims \<Rightarrow> postcard \<Rightarrow> index_keys \<Rightarrow> totals idx" where
  "totals_of P C K = read_totals P C K"

text \<open>
  The loops over rows: each row is decoded and handed to the callback \<open>f\<close>, which says whether to go
  on; the result is what the callback was given.
\<close>

fun visit :: "(bytes \<Rightarrow> bytes \<Rightarrow> index_error + 'a) \<Rightarrow> ('a \<Rightarrow> bool) \<Rightarrow> (bytes \<times> bytes) list
    \<Rightarrow> index_error + 'a list" where
  "visit dec f [] = Ok []"
| "visit dec f ((key, v) # rows) =
     and_then (dec key v) (\<lambda>x.
     if f x then and_then (visit dec f rows) (\<lambda>xs. Ok (x # xs)) else Ok [x])"

definition for_each ::
  "prims \<Rightarrow> postcard \<Rightarrow> index_keys \<Rightarrow> (index_record \<Rightarrow> bool) \<Rightarrow> index_record list idx" where
  "for_each P C K f =
     io_bind (query (\<lambda>d. map (\<lambda>(k, _, v). (k, v)) (sort_key fst (db_records d)))) (\<lambda>rows.
     io_lift (visit (decode P C (enc_key K)) f rows))"

definition all_records :: "prims \<Rightarrow> postcard \<Rightarrow> index_keys \<Rightarrow> index_record list idx" where
  "all_records P C K = for_each P C K (\<lambda>_. True)"

definition children ::
  "prims \<Rightarrow> postcard \<Rightarrow> index_keys \<Rightarrow> str \<Rightarrow> (index_record \<Rightarrow> bool) \<Rightarrow> index_record list idx" where
  "children P C K dir f =
     (let parent = index_key P (keying_key K) dir in
      io_bind (query (\<lambda>d. [(k, v). (k, p, v) \<leftarrow> db_records d, p = parent])) (\<lambda>rows.
      io_lift (visit (decode P C (enc_key K)) f rows)))"

definition decode_dir :: "prims \<Rightarrow> bytes \<Rightarrow> bytes \<Rightarrow> bytes \<Rightarrow> index_error + str" where
  "decode_dir P ek key v =
     and_then (map_err (\<lambda>_. Crypto) (aead_decrypt P ek v key)) (\<lambda>plaintext.
     if utf8_valid plaintext then Ok plaintext else Err Serialize)"

definition child_dirs :: "prims \<Rightarrow> index_keys \<Rightarrow> str \<Rightarrow> (str \<Rightarrow> bool) \<Rightarrow> str list idx" where
  "child_dirs P K dir f =
     (let parent = index_key P (keying_key K) dir in
      io_bind (query (\<lambda>d. [(k, v). (k, p, v, _) \<leftarrow> db_dirs d, p = parent])) (\<lambda>rows.
      io_lift (visit (decode_dir P (enc_key K)) f rows)))"

section \<open>Migration\<close>

record migrated_dir =
  md_path :: str
  md_parent :: bytes
  md_refs :: nat

record carried =
  ca_dirs :: "(bytes \<times> migrated_dir) list"
  ca_totals :: totals

definition absorb_dir :: "prims \<Rightarrow> bytes \<Rightarrow> str \<Rightarrow> (bytes \<times> migrated_dir) list \<Rightarrow> (bytes \<times> migrated_dir) list" where
  "absorb_dir P kk dir dirs =
     (let key = index_key P kk dir;
          entry = (case map_of dirs key of
            Some e \<Rightarrow> e
          | None \<Rightarrow> \<lparr>md_path = dir, md_parent = index_key P kk (parent_of dir), md_refs = 0\<rparr>) in
      AList.update key (entry\<lparr>md_refs := md_refs entry + 1\<rparr>) dirs)"

definition absorb :: "prims \<Rightarrow> bytes \<Rightarrow> index_record \<Rightarrow> carried \<Rightarrow> carried" where
  "absorb P kk r c =
     \<lparr>ca_dirs = fold (absorb_dir P kk) (ancestors_of (ir_path r)) (ca_dirs c),
      ca_totals = totals_plus (Some r) (ca_totals c)\<rparr>"

fun rewrite_rows ::
  "prims \<Rightarrow> postcard \<Rightarrow> index_keys \<Rightarrow> (bytes \<times> bytes) list \<Rightarrow> (bytes \<times> bytes \<times> bytes) list \<Rightarrow> carried
     \<Rightarrow> index_error + ((bytes \<times> bytes \<times> bytes) list \<times> carried)" where
  "rewrite_rows P C K [] out c = Ok (out, c)"
| "rewrite_rows P C K ((key, v) # rows) out c =
     and_then (decode P C (enc_key K) key v) (\<lambda>r.
     let parent = index_key P (keying_key K) (parent_of (ir_path r)) in
     rewrite_rows P C K rows (out @ [(key, parent, v)]) (absorb P (keying_key K) r c))"

definition rewrite_with_parents :: "prims \<Rightarrow> postcard \<Rightarrow> index_keys \<Rightarrow> carried idx" where
  "rewrite_with_parents P C K =
     io_bind (query (\<lambda>d. map (\<lambda>(k, _, v). (k, v)) (db_records d))) (\<lambda>rows.
     io_bind (io_lift (rewrite_rows P C K rows [] \<lparr>ca_dirs = [], ca_totals = totals_default\<rparr>))
       (\<lambda>(out, carried).
     io_bind (execute (db_records_update (\<lambda>_. out))) (\<lambda>_.
     io_return carried)))"

fun insert_dirs :: "prims \<Rightarrow> index_keys \<Rightarrow> (bytes \<times> migrated_dir) list \<Rightarrow> unit idx" where
  "insert_dirs P K [] = io_return ()"
| "insert_dirs P K ((key, dir) # dirs) =
     io_bind (seal_value P (enc_key K) (md_path dir) key) (\<lambda>v.
     io_bind (execute (db_dirs_update (\<lambda>rows. case map_of rows key of
         None \<Rightarrow> AList.update key (md_parent dir, v, int (md_refs dir)) rows
       | Some (parent', v', _) \<Rightarrow> AList.update key (parent', v', int (md_refs dir)) rows))) (\<lambda>_.
     insert_dirs P K dirs))"

definition SCHEMA_VERSION :: int where
  [simp]: "SCHEMA_VERSION = 1"

definition migrate :: "prims \<Rightarrow> postcard \<Rightarrow> index_keys \<Rightarrow> unit idx" where
  "migrate P C K =
     io_bind (query db_user_version) (\<lambda>version.
     if SCHEMA_VERSION \<le> version then io_return () else
     transaction (
       io_bind (rewrite_with_parents P C K) (\<lambda>carried.
       io_bind (write_totals P C K (ca_totals carried)) (\<lambda>_.
       io_bind (insert_dirs P K (ca_dirs carried)) (\<lambda>_.
       io_bind (execute (db_user_version_update (\<lambda>_. SCHEMA_VERSION))) (\<lambda>_.
       io_return ((), True)))))))"

definition index_derive_keys :: "prims \<Rightarrow> bytes \<Rightarrow> index_error + index_keys" where
  "index_derive_keys P index_subkey =
     and_then (map_err (\<lambda>_. Crypto) (derive_subkey P index_subkey (lit ''index-keying-v1''))) (\<lambda>kk.
     and_then (map_err (\<lambda>_. Crypto) (derive_subkey P index_subkey (lit ''index-encryption-v1''))) (\<lambda>ek.
     Ok \<lparr>keying_key = kk, enc_key = ek\<rparr>))"

end
