(* ===== verification/Errors.thy ===== *)
theory Errors
  imports Index
begin

text \<open>
  \<open>dctl-store/src/error.rs\<close> and \<open>dctl-core/src/error.rs\<close>: the errors of the object store and of the
  vault, their stable codes, and the kind by which a caller decides what an error means for it. The
  text of an error is the one of the source, less its interpolated values; the code and the kind do not
  depend on it.
\<close>

section \<open>Errors of the operating system\<close>

text \<open>The kinds of \<open>std::io::Error\<close> that the source tells apart, and the raw error number.\<close>

datatype io_kind = NotFound_io | BrokenPipe | TimedOut | ConnectionRefused | ConnectionAborted
  | ConnectionReset | HostUnreachable | NetworkUnreachable | NetworkDown | WouldBlock | Interrupted
  | UnexpectedEof | OtherKind

record io_error =
  ie_kind :: io_kind
  ie_raw_os_error :: "int option"

section \<open>Errors of the store\<close>

text \<open>A \<open>Duration\<close> is its number of nanoseconds.\<close>

type_synonym duration = nat

datatype store_error =
    S_NotFound str
  | S_BucketNotFound str
  | S_ChecksumMismatch str str
  | S_ShortWrite nat nat
  | S_InvalidKey str
  | S_RangeOutOfBounds nat
  | S_Io io_error
  | S_Backend string
  | S_RootChanged str string
  | S_Provider string u16 str "nat option"
  | S_Transport string str
  | S_Refused string str str
  | S_RunDeadline duration
  | S_Stalled u32 duration
  | S_Retried u32 store_error

fun store_code :: "store_error \<Rightarrow> nat" where
  "store_code (S_NotFound _) = 2001"
| "store_code (S_ChecksumMismatch _ _) = 2002"
| "store_code (S_InvalidKey _) = 2003"
| "store_code (S_RangeOutOfBounds _) = 2004"
| "store_code (S_Io _) = 2005"
| "store_code (S_Backend _) = 2006"
| "store_code (S_ShortWrite _ _) = 2007"
| "store_code (S_RootChanged _ _) = 2008"
| "store_code (S_Provider _ _ _ _) = 2009"
| "store_code (S_Transport _ _) = 2010"
| "store_code (S_RunDeadline _) = 2011"
| "store_code (S_Refused _ _ _) = 2012"
| "store_code (S_Stalled _ _) = 2013"
| "store_code (S_BucketNotFound _) = 2014"
| "store_code (S_Retried _ source) = store_code source"

fun attempts :: "store_error \<Rightarrow> u32 option" where
  "attempts (S_Retried n _) = Some n"
| "attempts _ = None"

fun cause :: "store_error \<Rightarrow> store_error" where
  "cause (S_Retried _ source) = cause source"
| "cause other = other"

section \<open>Codes of the other crates\<close>

text \<open>\<open>Panic\<close> is no error value of the source and has no code.\<close>

fun crypto_code :: "crypto_error \<Rightarrow> nat option" where
  "crypto_code (Kdf _) = Some 1001"
| "crypto_code (InvalidKdfParams _ _ _) = Some 1002"
| "crypto_code Aead = Some 1003"
| "crypto_code (Format _) = Some 1004"
| "crypto_code Hkdf = Some 1005"
| "crypto_code Panic = None"

fun index_code :: "index_error \<Rightarrow> nat" where
  "index_code Db = 3001"
| "index_code Serialize = 3002"
| "index_code Crypto = 3003"

section \<open>Errors of the vault\<close>

datatype core_error =
    Unlock
  | NoVault str
  | NotFound str
  | Integrity str
  | CryptoErr crypto_error
  | StoreErr store_error
  | IndexErr index_error

datatype error_kind = Transient | Permanent | Usage | Integrity_kind | Auth | NotFound_kind

fun core_code :: "core_error \<Rightarrow> nat option" where
  "core_code Unlock = Some 4101"
| "core_code (NoVault _) = Some 4102"
| "core_code (NotFound _) = Some 4201"
| "core_code (Integrity _) = Some 4301"
| "core_code (CryptoErr e) = crypto_code e"
| "core_code (StoreErr e) = Some (store_code e)"
| "core_code (IndexErr e) = Some (index_code e)"

fun crypto_kind :: "crypto_error \<Rightarrow> error_kind option" where
  "crypto_kind (InvalidKdfParams _ _ _) = Some Usage"
| "crypto_kind Aead = Some Integrity_kind"
| "crypto_kind (Kdf _) = Some Permanent"
| "crypto_kind (Format _) = Some Permanent"
| "crypto_kind Hkdf = Some Permanent"
| "crypto_kind Panic = None"

fun store_kind :: "store_error \<Rightarrow> error_kind" where
  "store_kind (S_NotFound _) = NotFound_kind"
| "store_kind (S_ChecksumMismatch _ _) = Integrity_kind"
| "store_kind (S_InvalidKey _) = Usage"
| "store_kind (S_RangeOutOfBounds _) = Usage"
| "store_kind (S_BucketNotFound _) = Usage"
| "store_kind (S_ShortWrite _ _) = Transient"
| "store_kind (S_Io _) = Transient"
| "store_kind (S_Backend _) = Transient"
| "store_kind (S_RootChanged _ _) = Transient"
| "store_kind (S_Provider _ _ _ _) = Transient"
| "store_kind (S_Transport _ _) = Transient"
| "store_kind (S_RunDeadline _) = Permanent"
| "store_kind (S_Stalled _ _) = Permanent"
| "store_kind (S_Refused _ _ _) = Permanent"
| "store_kind (S_Retried _ source) = store_kind source"

fun index_kind :: "index_error \<Rightarrow> error_kind" where
  "index_kind Db = Transient"
| "index_kind Serialize = Permanent"
| "index_kind Crypto = Integrity_kind"

fun core_kind :: "core_error \<Rightarrow> error_kind option" where
  "core_kind Unlock = Some Auth"
| "core_kind (NoVault _) = Some NotFound_kind"
| "core_kind (NotFound _) = Some NotFound_kind"
| "core_kind (Integrity _) = Some Integrity_kind"
| "core_kind (CryptoErr e) = crypto_kind e"
| "core_kind (StoreErr e) = Some (store_kind e)"
| "core_kind (IndexErr e) = Some (index_kind e)"

section \<open>Facts\<close>

text \<open>Wrapping an error in its number of attempts changes neither its code nor its kind.\<close>

lemma cause_not_retried: "attempts (cause e) = None"
  by (induction e) simp_all

lemma cause_id: "attempts e = None \<Longrightarrow> cause e = e"
  by (cases e) simp_all

lemma code_cause [simp]: "store_code (cause e) = store_code e"
  by (induction e) simp_all

lemma kind_cause [simp]: "store_kind (cause e) = store_kind e"
  by (induction e) simp_all

text \<open>The codes of the four crates lie in ranges of their own.\<close>

lemma store_code_range: "2000 < store_code e \<and> store_code e < 3000"
  by (induction e) simp_all

lemma crypto_code_range: "crypto_code e = Some c \<Longrightarrow> 1000 < c \<and> c < 2000"
  by (cases e) auto

lemma index_code_range: "3000 < index_code e \<and> index_code e < 4000"
  by (cases e) simp_all

text \<open>Two errors of one code have one kind: the code decides what the error means.\<close>

lemma store_code_kind_cause:
  "attempts d = None \<Longrightarrow> attempts e = None \<Longrightarrow> store_code d = store_code e \<Longrightarrow> store_kind d = store_kind e"
  by (cases d; cases e; simp)

lemma store_code_kind: "store_code d = store_code e \<Longrightarrow> store_kind d = store_kind e"
  using store_code_kind_cause [of "cause d" "cause e"] cause_not_retried by simp

text \<open>The thousands of a code name the crate.\<close>

fun crate :: "core_error \<Rightarrow> nat" where
  "crate (CryptoErr _) = 1"
| "crate (StoreErr _) = 2"
| "crate (IndexErr _) = 3"
| "crate _ = 4"

lemma code_crate:
  assumes "core_code e = Some c"
  shows "c div 1000 = crate e"
proof (cases e)
  case (CryptoErr x)
  with assms show ?thesis by (cases x) auto
next
  case (StoreErr x)
  with assms store_code_range [of x] show ?thesis
    by (auto intro!: div_nat_eqI)
next
  case (IndexErr x)
  with assms show ?thesis by (cases x) auto
qed (use assms in auto)

lemma core_code_kind:
  assumes "core_code d = core_code e" "core_code e \<noteq> None"
  shows "core_kind d = core_kind e"
proof -
  obtain c where c: "core_code d = Some c" "core_code e = Some c" using assms by auto
  then have crates: "crate d = crate e" using code_crate by metis
  show ?thesis
  proof (cases e)
    case (CryptoErr y)
    with crates obtain x where "d = CryptoErr x" by (cases d) auto
    with CryptoErr assms show ?thesis by (cases x; cases y) auto
  next
    case (StoreErr y)
    with crates obtain x where "d = StoreErr x" by (cases d) auto
    with StoreErr assms store_code_kind [of x y] show ?thesis by simp
  next
    case (IndexErr y)
    with crates obtain x where "d = IndexErr x" by (cases d) auto
    with IndexErr assms show ?thesis by (cases x; cases y) auto
  qed (use crates assms in \<open>cases d; simp\<close>)+
qed

end
