(* ===== verification/Retry.thy ===== *)
theory Retry
  imports Errors
begin

text \<open>
  \<open>dctl-store/src/retry\<close> and the run deadline and stall counter of \<open>dctl-store/src/deadline\<close>: which
  failures of a backend are tried again, after how long, and the loop that does it. Readings of the
  clock and of the entropy behind the jitter are tapes of the state; a sleep is recorded in it. The
  type of what an attempt does and of the state it works on is a parameter.
\<close>

section \<open>Durations\<close>

definition DURATION_MAX :: duration where
  "DURATION_MAX = 2 ^ 64 * 10 ^ 9 - 1"

definition duration_mul :: "duration \<Rightarrow> nat \<Rightarrow> duration option" where
  "duration_mul d n = (if d * n \<le> DURATION_MAX then Some (d * n) else None)"

definition duration_add :: "duration \<Rightarrow> duration \<Rightarrow> duration" where
  "duration_add a b = min (a + b) DURATION_MAX"

definition from_secs :: "nat \<Rightarrow> duration" where
  "from_secs s = s * 10 ^ 9"

definition from_millis :: "nat \<Rightarrow> duration" where
  "from_millis s = s * 10 ^ 6"

section \<open>The policy\<close>

definition NETWORK_MAX_ATTEMPTS :: u32 where [simp]: "NETWORK_MAX_ATTEMPTS = 6"
definition NETWORK_FIRST_BACKOFF :: duration where "NETWORK_FIRST_BACKOFF = from_millis 500"
definition NETWORK_MAX_BACKOFF :: duration where "NETWORK_MAX_BACKOFF = from_secs 8"
definition RETRY_AFTER_CAP :: duration where "RETRY_AFTER_CAP = from_secs 60"
definition NETWORK_TOTAL_BUDGET :: duration where "NETWORK_TOTAL_BUDGET = from_secs 120"
definition LOCAL_MAX_ATTEMPTS :: u32 where [simp]: "LOCAL_MAX_ATTEMPTS = 3"
definition LOCAL_FIRST_BACKOFF :: duration where "LOCAL_FIRST_BACKOFF = from_millis 100"
definition LOCAL_MAX_BACKOFF :: duration where "LOCAL_MAX_BACKOFF = from_millis 500"
definition LOCAL_TOTAL_BUDGET :: duration where "LOCAL_TOTAL_BUDGET = from_secs 1"
definition JITTER_FLOOR_NUMERATOR :: nat where [simp]: "JITTER_FLOOR_NUMERATOR = 1"
definition JITTER_FLOOR_DENOMINATOR :: nat where [simp]: "JITTER_FLOOR_DENOMINATOR = 2"
definition HTTP_SERVER_ERROR :: u16 where [simp]: "HTTP_SERVER_ERROR = 500"
definition HTTP_REQUEST_TIMEOUT :: u16 where [simp]: "HTTP_REQUEST_TIMEOUT = 408"
definition HTTP_TOO_MANY_REQUESTS :: u16 where [simp]: "HTTP_TOO_MANY_REQUESTS = 429"

record retry_policy =
  max_attempts :: u32
  first_backoff :: duration
  max_backoff :: duration
  retry_after_cap :: duration
  total_budget :: duration
  understands_http :: bool

definition policy_network :: retry_policy where
  "policy_network = \<lparr>max_attempts = NETWORK_MAX_ATTEMPTS, first_backoff = NETWORK_FIRST_BACKOFF,
     max_backoff = NETWORK_MAX_BACKOFF, retry_after_cap = RETRY_AFTER_CAP,
     total_budget = NETWORK_TOTAL_BUDGET, understands_http = True\<rparr>"

definition policy_local :: retry_policy where
  "policy_local = \<lparr>max_attempts = LOCAL_MAX_ATTEMPTS, first_backoff = LOCAL_FIRST_BACKOFF,
     max_backoff = LOCAL_MAX_BACKOFF, retry_after_cap = RETRY_AFTER_CAP,
     total_budget = LOCAL_TOTAL_BUDGET, understands_http = False\<rparr>"

definition policy_none :: retry_policy where
  "policy_none = policy_local\<lparr>max_attempts := 1\<rparr>"

definition for_backend :: "str \<Rightarrow> retry_policy" where
  "for_backend name =
     (if name = lit ''local'' then policy_local
      else if name \<in> {lit ''sftp'', lit ''b2'', lit ''s3'', lit ''r2''} then policy_network
      else policy_network)"

definition retries_status :: "retry_policy \<Rightarrow> u16 \<Rightarrow> bool" where
  "retries_status policy status \<longleftrightarrow> understands_http policy \<and>
     (HTTP_SERVER_ERROR \<le> status \<or> status = HTTP_REQUEST_TIMEOUT \<or> status = HTTP_TOO_MANY_REQUESTS)"

section \<open>What a failure shows\<close>

datatype reach = Silent | Answered | Unknown

record observed =
  o_status :: "u16 option"
  o_code :: "str option"
  o_retry_after :: "duration option"
  o_transient :: bool
  o_reach :: reach
  o_already_attempted :: "u32 option"

definition observed_terminal :: observed where
  "observed_terminal = \<lparr>o_status = None, o_code = None, o_retry_after = None, o_transient = False,
     o_reach = Unknown, o_already_attempted = None\<rparr>"

definition observed_transport :: observed where
  "observed_transport = \<lparr>o_status = None, o_code = None, o_retry_after = None, o_transient = True,
     o_reach = Silent, o_already_attempted = None\<rparr>"

definition observed_answered :: observed where
  "observed_answered = observed_terminal\<lparr>o_reach := Answered\<rparr>"

definition EAGAIN :: int where [simp]: "EAGAIN = 11"

definition is_transient_io :: "io_error \<Rightarrow> bool" where
  "is_transient_io e \<longleftrightarrow>
     ie_kind e \<in> {BrokenPipe, TimedOut, ConnectionRefused, ConnectionAborted, ConnectionReset,
       HostUnreachable, NetworkUnreachable, NetworkDown, WouldBlock, Interrupted, UnexpectedEof} \<or>
     ie_raw_os_error e = Some EAGAIN"

fun observed_of :: "store_error \<Rightarrow> observed" where
  "observed_of (S_Provider _ status code retry_after_secs) =
     \<lparr>o_status = Some status, o_code = Some code, o_retry_after = map_option from_secs retry_after_secs,
      o_transient = False, o_reach = Answered, o_already_attempted = None\<rparr>"
| "observed_of (S_Transport _ _) = observed_transport"
| "observed_of (S_Io source) = observed_answered\<lparr>o_transient := is_transient_io source\<rparr>"
| "observed_of (S_Retried n source) =
     (observed_of source)\<lparr>o_already_attempted := Some n, o_reach := Unknown\<rparr>"
| "observed_of (S_RunDeadline _) = observed_terminal"
| "observed_of (S_Stalled _ _) = observed_terminal"
| "observed_of (S_Backend _) = observed_terminal"
| "observed_of _ = observed_answered"

section \<open>The verdict\<close>

datatype verdict = After duration | Never

definition shl_one :: "nat \<Rightarrow> nat" where
  "shl_one n = (if n < 32 then 2 ^ n else 2 ^ 32 - 1)"

definition backoff :: "u32 \<Rightarrow> retry_policy \<Rightarrow> duration" where
  "backoff attempt policy =
     (let doubled = (case duration_mul (first_backoff policy) (shl_one (unat attempt - 1)) of
          Some d \<Rightarrow> d | None \<Rightarrow> max_backoff policy) in
      min doubled (max_backoff policy))"

definition verdict :: "observed \<Rightarrow> u32 \<Rightarrow> duration \<Rightarrow> retry_policy \<Rightarrow> verdict" where
  "verdict obs attempt waited policy =
     (if o_already_attempted obs \<noteq> None then Never
      else if max_attempts policy \<le> attempt then Never
      else if total_budget policy \<le> waited then Never else
      let delay = (case o_status obs of
            None \<Rightarrow> if o_transient obs then Some (backoff attempt policy) else None
          | Some status \<Rightarrow>
              if retries_status policy status
              then Some (case o_retry_after obs of None \<Rightarrow> backoff attempt policy
                  | Some after \<Rightarrow> min after (retry_after_cap policy))
              else None) in
      case delay of None \<Rightarrow> Never | Some d \<Rightarrow> After (min d (total_budget policy - waited)))"

definition jittered :: "duration \<Rightarrow> u64 \<Rightarrow> duration" where
  "jittered delay entropy =
     (let nanos = min delay U64_MAX;
          floor = nanos div JITTER_FLOOR_DENOMINATOR * JITTER_FLOOR_NUMERATOR;
          window = saturating_sub nanos floor in
      if window = 0 then delay
      else saturating_add floor (unat entropy mod saturating_add window 1))"

section \<open>The deadline of the run and the stall counter\<close>

record deadline_bound =
  db_limit :: duration
  db_ends_at :: nat

type_synonym run_deadline = "deadline_bound option"

datatype left = Unbounded | Remaining duration | Spent

definition left_at :: "run_deadline \<Rightarrow> nat \<Rightarrow> left" where
  "left_at deadline now = (case deadline of
     None \<Rightarrow> Unbounded
   | Some bound \<Rightarrow>
       if db_ends_at bound < now then Spent
       else if db_ends_at bound - now = 0 then Spent
       else Remaining (db_ends_at bound - now))"

definition exceeded :: "run_deadline \<Rightarrow> nat \<Rightarrow> store_error option" where
  "exceeded deadline now = (case (deadline, left_at deadline now) of
     (Some bound, Spent) \<Rightarrow> Some (S_RunDeadline (db_limit bound))
   | _ \<Rightarrow> None)"

definition shorten :: "run_deadline \<Rightarrow> nat \<Rightarrow> duration option \<Rightarrow> duration option" where
  "shorten deadline now patience = (case (patience, left_at deadline now) of
     (_, Spent) \<Rightarrow> Some 0
   | (None, Unbounded) \<Rightarrow> None
   | (Some wait, Unbounded) \<Rightarrow> Some wait
   | (None, Remaining left) \<Rightarrow> Some left
   | (Some wait, Remaining left) \<Rightarrow> Some (min wait left))"

record stall =
  st_idle :: duration
  st_limit :: u32

definition UNANSWERED_ATTEMPT_LIMIT :: u32 where [simp]: "UNANSWERED_ATTEMPT_LIMIT = 6"

definition stall_from_idle :: "duration option \<Rightarrow> stall option" where
  "stall_from_idle idle = map_option (\<lambda>i. \<lparr>st_idle = i, st_limit = UNANSWERED_ATTEMPT_LIMIT\<rparr>) idle"

text \<open>The counter is shared by all the operations of a run, so it is part of the state.\<close>

record 'w run_state =
  rs_world :: 'w
  rs_clock :: "nat \<Rightarrow> nat"
  rs_entropy :: "nat \<Rightarrow> u64"
  rs_unanswered :: u32
  rs_slept :: "duration list"

definition stall_answered :: "stall option \<Rightarrow> 'w run_state \<Rightarrow> 'w run_state" where
  "stall_answered stall s = (case stall of None \<Rightarrow> s | Some _ \<Rightarrow> s\<lparr>rs_unanswered := 0\<rparr>)"

definition stall_unanswered :: "stall option \<Rightarrow> 'w run_state \<Rightarrow> 'w run_state" where
  "stall_unanswered stall s =
     (case stall of None \<Rightarrow> s | Some _ \<Rightarrow> s\<lparr>rs_unanswered := rs_unanswered s + 1\<rparr>)"

definition stall_exhausted :: "stall option \<Rightarrow> 'w run_state \<Rightarrow> store_error option" where
  "stall_exhausted stall s = (case stall of None \<Rightarrow> None | Some st \<Rightarrow>
     if st_limit st \<le> rs_unanswered s then Some (S_Stalled (rs_unanswered s) (st_idle st)) else None)"

definition now :: "'w run_state \<Rightarrow> nat \<times> 'w run_state" where
  "now s = (rs_clock s 0, s\<lparr>rs_clock := \<lambda>n. rs_clock s (n + 1)\<rparr>)"

definition entropy :: "'w run_state \<Rightarrow> u64 \<times> 'w run_state" where
  "entropy s = (rs_entropy s 0, s\<lparr>rs_entropy := \<lambda>n. rs_entropy s (n + 1)\<rparr>)"

section \<open>The driver\<close>

definition record_attempts :: "store_error \<Rightarrow> u32 \<Rightarrow> store_error" where
  "record_attempts error n =
     (if n \<le> 1 \<or> (\<exists>k. attempts error = Some k) then error else S_Retried n error)"

definition note_reach :: "stall option \<Rightarrow> observed \<Rightarrow> 'w run_state \<Rightarrow> 'w run_state" where
  "note_reach stall obs s = (case o_reach obs of
     Silent \<Rightarrow> stall_unanswered stall s
   | Answered \<Rightarrow> stall_answered stall s
   | Unknown \<Rightarrow> s)"

definition choose_delay ::
  "run_deadline \<Rightarrow> observed \<Rightarrow> duration \<Rightarrow> 'w run_state \<Rightarrow> duration \<times> 'w run_state" where
  "choose_delay deadline obs scheduled s =
     (let (delay, s) = (if o_retry_after obs \<noteq> None then (scheduled, s)
            else let (e, s) = entropy s in (jittered scheduled e, s));
          (t, s) = now s in
      (case shorten deadline t (Some delay) of Some d \<Rightarrow> d | None \<Rightarrow> delay, s))"

text \<open>What follows a failed attempt: \<open>None\<close> when it is final, else the delay that is slept.\<close>

definition settle ::
  "retry_policy \<Rightarrow> run_deadline \<Rightarrow> stall option \<Rightarrow> u32 \<Rightarrow> duration \<Rightarrow> store_error \<Rightarrow> 'w run_state
     \<Rightarrow> duration option \<times> 'w run_state" where
  "settle policy deadline stall number waited error s =
     (let obs = observed_of error; s = note_reach stall obs s in
      case verdict obs number waited policy of
        Never \<Rightarrow> (None, s)
      | After scheduled \<Rightarrow>
          let (delay, s) = choose_delay deadline obs scheduled s in
          (Some delay, s\<lparr>rs_slept := rs_slept s @ [delay]\<rparr>))"

lemma verdict_After:
  assumes "verdict obs number waited policy = After d"
  shows "number < max_attempts policy" "waited < total_budget policy" "d \<le> total_budget policy - waited"
    "o_already_attempted obs = None"
  using assms by (auto simp: verdict_def Let_def split: if_splits option.splits)

lemma settle_retries:
  assumes "settle policy deadline stall number waited error s = (Some d, s')"
  shows "number < max_attempts policy"
  using assms verdict_After(1) by (auto simp: settle_def Let_def split: verdict.splits prod.splits)

function run_loop ::
  "retry_policy \<Rightarrow> run_deadline \<Rightarrow> stall option \<Rightarrow> (u32 \<Rightarrow> ('w, store_error, 'a) io) \<Rightarrow> u32 \<Rightarrow> duration
     \<Rightarrow> ('w run_state, store_error, 'a) io" where
  "run_loop policy deadline stall attempt number waited s =
     (let (t, s) = now s in
      case exceeded deadline t of Some e \<Rightarrow> (Err e, s) | None \<Rightarrow>
      case stall_exhausted stall s of Some e \<Rightarrow> (Err e, s) | None \<Rightarrow>
      case attempt number (rs_world s) of
        (Ok x, w) \<Rightarrow> (Ok x, stall_answered stall (s\<lparr>rs_world := w\<rparr>))
      | (Err error, w) \<Rightarrow>
          case settle policy deadline stall number waited error (s\<lparr>rs_world := w\<rparr>) of
            (None, s) \<Rightarrow> (Err (record_attempts error number), s)
          | (Some delay, s) \<Rightarrow>
              run_loop policy deadline stall attempt
                (if number = - 1 then number else number + 1) (duration_add waited delay) s)"
  by pat_completeness auto
termination
proof (relation "measure (\<lambda>(policy, _, _, _, number, _, _). unat (max_attempts policy) - unat number)", goal_cases)
  case 1
  then show ?case by simp
next
  case (2 policy deadline stall attempt number waited s)
  then have less: "number < max_attempts policy"
    using settle_retries by metis
  then have "number \<noteq> - 1" by (metis word_order.extremum_strict)
  then have "1 + number \<noteq> 0" by (metis add.commute eq_neg_iff_add_eq_0)
  then have "unat (number + 1) = unat number + 1"
    by (simp add: unatSuc add.commute [of number])
  with less \<open>number \<noteq> - 1\<close> show ?case by (simp add: word_less_nat_alt)
qed

declare run_loop.simps [simp del]

definition run ::
  "retry_policy \<Rightarrow> run_deadline \<Rightarrow> stall option \<Rightarrow> (u32 \<Rightarrow> ('w, store_error, 'a) io)
     \<Rightarrow> ('w run_state, store_error, 'a) io" where
  "run policy deadline stall attempt = run_loop policy deadline stall attempt 1 0"

section \<open>Delays\<close>

lemma jittered_eq:
  assumes "n = min d U64_MAX"
  shows "jittered d e = (if n - n div 2 = 0 then d
    else saturating_add (n div 2) (unat e mod saturating_add (n - n div 2) 1))"
  by (simp add: jittered_def Let_def saturating_sub_def flip: assms)

lemma saturating_add_bounds: "saturating_add a b \<le> a + b" "a \<le> U64_MAX \<Longrightarrow> a \<le> saturating_add a b"
  by (simp_all add: saturating_add_def)

lemma jittered_le: "jittered d e \<le> d"
proof -
  define n where "n = min d U64_MAX"
  define w where "w = n - n div 2"
  have w: "0 < saturating_add w 1" "saturating_add w 1 \<le> w + 1"
    by (simp_all add: saturating_add_def U64_MAX_def)
  have "unat e mod saturating_add w 1 < saturating_add w 1"
    by (rule mod_less_divisor [OF w(1)])
  moreover have "w + n div 2 = n" by (simp add: w_def)
  ultimately have "n div 2 + unat e mod saturating_add w 1 \<le> n" using w(2) by linarith
  with saturating_add_bounds(1) [of "n div 2" "unat e mod saturating_add w 1"] show ?thesis
    unfolding jittered_eq [OF n_def] w_def by (auto simp: n_def)
qed

lemma jittered_ge: "min d U64_MAX div 2 \<le> jittered d e"
proof -
  define n where "n = min d U64_MAX"
  have "n div 2 \<le> U64_MAX" "n div 2 \<le> d" by (auto simp: n_def)
  then show ?thesis
    unfolding jittered_eq [OF n_def] n_def [symmetric] using saturating_add_bounds(2) by auto
qed

lemma backoff_le: "backoff n policy \<le> max_backoff policy"
  by (simp add: backoff_def Let_def)

lemma shorten_le: "shorten deadline t (Some d) = Some d' \<Longrightarrow> d' \<le> d"
  by (auto simp: shorten_def split: left.splits)

lemma note_reach_simps [simp]:
  "rs_slept (note_reach stall obs s) = rs_slept s" "rs_world (note_reach stall obs s) = rs_world s"
  by (simp_all add: note_reach_def stall_unanswered_def stall_answered_def split: reach.splits option.splits)

lemma choose_delay_le:
  assumes "choose_delay deadline obs sched s = (d, s')"
  shows "d \<le> sched" "rs_slept s' = rs_slept s" "rs_world s' = rs_world s"
proof -
  obtain delay s1 where d: "(if o_retry_after obs \<noteq> None then (sched, s)
      else let (e, s) = entropy s in (jittered sched e, s)) = (delay, s1)" by fastforce
  then have 1: "delay \<le> sched" "rs_slept s1 = rs_slept s" "rs_world s1 = rs_world s"
    by (auto simp: entropy_def jittered_le split: if_splits)
  moreover have "(case shorten deadline (rs_clock s1 0) (Some delay) of Some d \<Rightarrow> d | None \<Rightarrow> delay) \<le> delay"
    using shorten_le by (auto split: option.splits)
  ultimately show "d \<le> sched" "rs_slept s' = rs_slept s" "rs_world s' = rs_world s"
    using assms unfolding choose_delay_def d by (auto simp: now_def)
qed

text \<open>A settled failure sleeps within what is left of the budget, and records it.\<close>

lemma settle_sleeps:
  assumes "settle policy deadline stall number waited error s = (Some d, s')"
  shows "d \<le> total_budget policy - waited" "rs_slept s' = rs_slept s @ [d]" "rs_world s' = rs_world s"
    "waited < total_budget policy"
proof -
  obtain sched where v: "verdict (observed_of error) number waited policy = After sched"
    using assms by (auto simp: settle_def Let_def split: verdict.splits)
  obtain s1 where "choose_delay deadline (observed_of error) sched (note_reach stall (observed_of error) s)
      = (d, s1)" "s' = s1\<lparr>rs_slept := rs_slept s1 @ [d]\<rparr>"
    using assms v by (auto simp: settle_def Let_def split: prod.splits)
  with choose_delay_le [OF this(1)] verdict_After(2,3) [OF v]
  show "d \<le> total_budget policy - waited" "rs_slept s' = rs_slept s @ [d]" "rs_world s' = rs_world s"
    "waited < total_budget policy"
    by simp_all
qed

lemma settle_final:
  assumes "settle policy deadline stall number waited error s = (None, s')"
  shows "rs_slept s' = rs_slept s" "rs_world s' = rs_world s"
  using assms by (auto simp: settle_def Let_def split: verdict.splits prod.splits)

text \<open>Only failures whose kind is transient, seen for the first time, are ever tried again.\<close>

lemma verdict_kind:
  assumes "verdict (observed_of e) n w policy = After d"
  shows "store_kind e = Transient" "attempts e = None"
proof -
  have "o_transient (observed_of e) \<or> o_status (observed_of e) \<noteq> None"
    using assms by (auto simp: verdict_def Let_def split: if_splits option.splits)
  with verdict_After(4) [OF assms] have "store_kind e = Transient \<and> attempts e = None"
    by (cases e) (simp_all add: observed_answered_def observed_terminal_def)
  then show "store_kind e = Transient" "attempts e = None" by simp_all
qed

lemma settle_kind:
  assumes "settle policy deadline stall number waited error s = (Some d, s')"
  shows "store_kind error = Transient" "attempts error = None"
  using assms verdict_kind by (auto simp: settle_def Let_def split: verdict.splits prod.splits)

section \<open>The loop\<close>

text \<open>The induction rule of the loop, over what it does in one round.\<close>

lemma run_loop_cases [consumes 1, case_names deadline stalled answered final again]:
  assumes "run_loop policy deadline stall attempt number waited s = (res, s')"
  obtains (deadline) limit where "res = Err (S_RunDeadline limit)" "rs_world s' = rs_world s" "rs_slept s' = rs_slept s"
    | (stalled) k idle where "res = Err (S_Stalled k idle)" "rs_world s' = rs_world s" "rs_slept s' = rs_slept s"
    | (answered) x w where "attempt number (rs_world s) = (Ok x, w)" "res = Ok x" "rs_world s' = w"
        "rs_slept s' = rs_slept s"
    | (final) e w where "attempt number (rs_world s) = (Err e, w)" "res = Err (record_attempts e number)"
        "rs_world s' = w" "rs_slept s' = rs_slept s"
    | (again) e w d s1 where "attempt number (rs_world s) = (Err e, w)" "rs_world s1 = w"
        "rs_slept s1 = rs_slept s @ [d]" "d \<le> total_budget policy - waited" "waited < total_budget policy"
        "number < max_attempts policy"
        "run_loop policy deadline stall attempt (number + 1) (duration_add waited d) s1 = (res, s')"
        "store_kind e = Transient" "attempts e = None"
proof -
  obtain t0 s0 where n: "now s = (t0, s0)" by fastforce
  then have s0: "rs_world s0 = rs_world s" "rs_slept s0 = rs_slept s" by (auto simp: now_def)
  show thesis
  proof (cases "exceeded deadline t0")
    case (Some e)
    then obtain limit where "e = S_RunDeadline limit"
      by (auto simp: exceeded_def split: option.splits left.splits)
    then show thesis
      using assms Some s0 n by (intro deadline [of limit]) (auto simp: run_loop.simps)
  next
    case no_deadline: None
    show thesis
    proof (cases "stall_exhausted stall s0")
      case (Some e)
      then obtain k idle where "e = S_Stalled k idle"
        by (auto simp: stall_exhausted_def split: option.splits if_splits)
      then show thesis
        using assms Some s0 n no_deadline by (intro stalled [of k idle]) (auto simp: run_loop.simps)
    next
      case None
      note go = no_deadline None n
      obtain r w where a: "attempt number (rs_world s) = (r, w)" by fastforce
      show thesis
      proof (cases r)
        case (Inr x)
        with assms go a s0 show thesis
          by (intro answered [of x w])
            (auto simp: run_loop.simps stall_answered_def split: option.splits)
      next
        case (Inl e)
        obtain next1 s1 where st: "settle policy deadline stall number waited e (s0\<lparr>rs_world := w\<rparr>) = (next1, s1)"
          by fastforce
        show thesis
        proof (cases next1)
          case None
          with settle_final [of policy deadline stall number waited e "s0\<lparr>rs_world := w\<rparr>" s1] st
          have "rs_world s1 = w" "rs_slept s1 = rs_slept s" using s0 by simp_all
          with assms go a s0 Inl st None show thesis
            by (intro final [of e w]) (auto simp: run_loop.simps)
        next
          case (Some d)
          note st = st [unfolded Some]
          have "number < max_attempts policy" using settle_retries [OF st] .
          then have "number \<noteq> - 1" by (metis word_order.extremum_strict)
          with assms go a s0 Inl st settle_sleeps [OF st] settle_kind [OF st] \<open>number < max_attempts policy\<close> show thesis
            by (intro again [of e w s1 d]) (auto simp: run_loop.simps [of policy deadline stall attempt number waited s])
        qed
      qed
    qed
  qed
qed

section \<open>What the loop promises\<close>

lemma run_loop_next: "number < max_attempts policy \<Longrightarrow> unat (number + 1) = unat number + 1"
proof -
  assume "number < max_attempts policy"
  then have "1 + number \<noteq> 0" by (metis add.commute eq_neg_iff_add_eq_0 word_order.extremum_strict)
  then show ?thesis by (simp add: unatSuc add.commute [of number])
qed

lemma cause_record_attempts [simp]: "cause (record_attempts e n) = cause e"
  by (simp add: record_attempts_def)

text \<open>An attempt that notes its number and its result.\<close>

definition logged ::
  "(u32 \<Rightarrow> ('w, store_error, 'a) io) \<Rightarrow> u32
     \<Rightarrow> ('w \<times> (u32 \<times> (store_error + 'a)) list, store_error, 'a) io" where
  "logged f n = (\<lambda>(w, log). (fst (f n w), snd (f n w), log @ [(n, fst (f n w))]))"

lemma logged_log: "logged f n s = (r, s') \<Longrightarrow> snd s' = snd s @ [(n, r)]"
  by (auto simp: logged_def split: prod.splits)

text \<open>What a log of attempts, numbered from \<open>n\<close> on, says of the result of the run.\<close>

definition cut_short :: "store_error \<Rightarrow> bool" where
  "cut_short e \<longleftrightarrow> (\<exists>limit. e = S_RunDeadline limit) \<or> (\<exists>k idle. e = S_Stalled k idle)"

definition log_explains :: "nat \<Rightarrow> (u32 \<times> (store_error + 'a)) list \<Rightarrow> store_error + 'a \<Rightarrow> bool" where
  "log_explains n log res \<longleftrightarrow>
     map fst log = map of_nat [n..<n + length log] \<and>
     (\<forall>(_, r) \<in> set (butlast log). \<exists>e. r = Err e \<and> store_kind e = Transient \<and> attempts e = None) \<and>
     (case res of
        Ok x \<Rightarrow> log \<noteq> [] \<and> snd (last log) = Ok x
      | Err e \<Rightarrow> cut_short e \<or> log \<noteq> [] \<and> (\<exists>e0. snd (last log) = Err e0 \<and> cause e = cause e0))"

lemma log_explains_one: "log_explains (unat n) [(n, Ok x)] (Ok x)"
  "cause e = cause e0 \<Longrightarrow> log_explains (unat n) [(n, Err e0)] (Err e)"
  by (auto simp: log_explains_def)

lemma log_explains_Cons:
  assumes "log_explains (n + 1) log res" "of_nat n = m" "store_kind e = Transient" "attempts e = None"
  shows "log_explains n ((m, Err e) # log) res"
proof -
  have "[n..<n + length ((m, Err e) # log)] = n # [n + 1..<n + 1 + length log]"
    using upt_conv_Cons [of n "n + 1 + length log"] by simp
  then show ?thesis
    using assms by (auto simp: log_explains_def split: sum.splits)
qed

lemma run_loop_log:
  assumes "run_loop policy deadline stall (logged f) number waited s = (res, s')"
    and "total_budget policy \<le> DURATION_MAX" "waited \<le> total_budget policy"
  shows "\<exists>log. snd (rs_world s') = snd (rs_world s) @ log \<and> log_explains (unat number) log res \<and>
      unat number + length log \<le> max (unat number) (unat (max_attempts policy)) + 1 \<and>
      length (rs_slept s') \<le> length (rs_slept s) + length log \<and>
      sum_list (rs_slept s') + waited \<le> sum_list (rs_slept s) + total_budget policy"
  using assms(1,3)
proof (induction "unat (max_attempts policy) - unat number" arbitrary: number waited s rule: less_induct)
  case less
  from less.prems(1) show ?case
  proof (cases rule: run_loop_cases)
    case (deadline limit)
    with less.prems show ?thesis
      by (intro exI [of _ "[]"]) (auto simp: log_explains_def cut_short_def)
  next
    case (stalled k idle)
    with less.prems show ?thesis
      by (intro exI [of _ "[]"]) (auto simp: log_explains_def cut_short_def)
  next
    case (answered x w')
    with less.prems logged_log [OF this(1)] show ?thesis
      by (intro exI [of _ "[(number, Ok x)]"]) (simp add: log_explains_one)
  next
    case (final e w')
    with less.prems logged_log [OF this(1)] show ?thesis
      by (intro exI [of _ "[(number, Err e)]"]) (simp add: log_explains_one)
  next
    case (again e w' d s1)
    note num = run_loop_next [OF again(6)]
    have wait: "duration_add waited d = waited + d" "waited + d \<le> total_budget policy"
      using again(4,5) assms(2) by (auto simp: duration_add_def)
    have "unat (max_attempts policy) - unat (number + 1) < unat (max_attempts policy) - unat number"
      using again(6) num by (simp add: word_less_nat_alt)
    from less.hyps [OF this again(7)] wait obtain log where log:
      "snd (rs_world s') = snd (rs_world s1) @ log" "log_explains (unat (number + 1)) log res"
      "unat (number + 1) + length log \<le> max (unat (number + 1)) (unat (max_attempts policy)) + 1"
      "length (rs_slept s') \<le> length (rs_slept s1) + length log"
      "sum_list (rs_slept s') + (waited + d) \<le> sum_list (rs_slept s1) + total_budget policy"
      by auto
    have "snd (rs_world s1) = snd (rs_world s) @ [(number, Err e)]"
      using logged_log [OF again(1)] again(2) by simp
    then have "snd (rs_world s') = snd (rs_world s) @ (number, Err e) # log"
      using log(1) by simp
    moreover have "log_explains (unat number) ((number, Err e) # log) res"
      using log(2) again(8,9) num by (intro log_explains_Cons) simp_all
    moreover have "unat number + length ((number, Err e) # log) \<le> max (unat number) (unat (max_attempts policy)) + 1"
      using log(3) num again(6) by (auto simp: word_less_nat_alt max_def split: if_splits)
    ultimately show ?thesis
      using log(4,5) again(3) by (intro exI [of _ "(number, Err e) # log"]) simp
  qed
qed

theorem run_log:
  assumes "run policy deadline stall (logged f) s = (res, s')" "total_budget policy \<le> DURATION_MAX"
  shows "\<exists>log. snd (rs_world s') = snd (rs_world s) @ log \<and> log_explains 1 log res \<and>
      length log \<le> max 1 (unat (max_attempts policy)) \<and>
      length (rs_slept s') \<le> length (rs_slept s) + length log \<and>
      sum_list (rs_slept s') \<le> sum_list (rs_slept s) + total_budget policy"
  using run_loop_log [OF assms(1) [unfolded run_def] assms(2)] by simp

lemma policy_budgets: "total_budget (for_backend name) \<le> DURATION_MAX"
  "unat (max_attempts (for_backend name)) \<le> 6"
  by (simp_all add: for_backend_def policy_local_def policy_network_def LOCAL_TOTAL_BUDGET_def
      NETWORK_TOTAL_BUDGET_def from_secs_def DURATION_MAX_def)

end
