(* ===== verification/Store.thy ===== *)
theory Store
  imports Errors
begin

text \<open>
  The \<open>Backend\<close> trait of \<open>dctl-store/src/backend.rs\<close>, as the vault uses it: what its operations promise
  of the objects they are called on. Any call can fail, and a call that changes the store can fail after
  it took effect, as a request whose answer is lost does; which do is a tape of the state. Pages of a
  listing have whatever size the provider chooses, another tape. Beside the objects the state holds
  the connection of the vault's index.
\<close>

section \<open>The state\<close>

record world =
  w_objects :: "(str \<times> bytes) list"
  w_faults :: "nat \<Rightarrow> (store_error \<times> bool) option" \<comment> \<open>the error, and whether the call took effect\<close>
  w_pages :: "nat \<Rightarrow> nat"
  w_index :: conn

type_synonym 'a vio = "(world, core_error, 'a) io"

section \<open>The operations\<close>

definition store_call ::
  "((str \<times> bytes) list \<Rightarrow> (store_error + 'a) \<times> (str \<times> bytes) list) \<Rightarrow> (world, store_error, 'a) io" where
  "store_call f = (\<lambda>w.
     let w' = w\<lparr>w_faults := \<lambda>n. w_faults w (n + 1)\<rparr>; (res, objects) = f (w_objects w) in
     case w_faults w 0 of
       Some (e, landed) \<Rightarrow> (Err e, if landed then w'\<lparr>w_objects := objects\<rparr> else w')
     | None \<Rightarrow> (res, w'\<lparr>w_objects := objects\<rparr>))"

text \<open>\<open>put\<close> is a verified write: what lands is what the digest of the caller names.\<close>

definition b_put :: "prims \<Rightarrow> str \<Rightarrow> bytes \<Rightarrow> bytes \<Rightarrow> (world, store_error, unit) io" where
  "b_put P key data expected = store_call (\<lambda>objects.
     if blake3_hash P data \<noteq> expected
       then (Err (S_ChecksumMismatch (hex_encode P expected) (hex_encode P (blake3_hash P data))), objects)
     else (Ok (), AList.update key data objects))"

definition b_get :: "str \<Rightarrow> (world, store_error, bytes) io" where
  "b_get key = store_call (\<lambda>objects. (ok_or (S_NotFound key) (map_of objects key), objects))"

definition b_get_range :: "str \<Rightarrow> nat \<Rightarrow> nat option \<Rightarrow> (world, store_error, bytes) io" where
  "b_get_range key offset len = store_call (\<lambda>objects.
     (and_then (ok_or (S_NotFound key) (map_of objects key)) (\<lambda>blob.
      let size = length blob in
      if size < offset then Err (S_RangeOutOfBounds size) else
      let available = size - offset;
          to_read = (case len of None \<Rightarrow> available | Some l \<Rightarrow> min l available) in
      Ok (take to_read (drop offset blob))), objects))"

definition b_head_size :: "str \<Rightarrow> (world, store_error, nat) io" where
  "b_head_size key = store_call (\<lambda>objects.
     (and_then (ok_or (S_NotFound key) (map_of objects key)) (\<lambda>blob. Ok (length blob)), objects))"

definition b_exists :: "str \<Rightarrow> (world, store_error, bool) io" where
  "b_exists key = store_call (\<lambda>objects. (Ok (map_of objects key \<noteq> None), objects))"

text \<open>Deleting an object that is not there succeeds.\<close>

definition b_delete :: "str \<Rightarrow> (world, store_error, unit) io" where
  "b_delete key = store_call (\<lambda>objects. (Ok (), AList.delete key objects))"

text \<open>A page: the keys after the cursor, in order, and the cursor of the next page if there is more.\<close>

definition page_of :: "nat \<Rightarrow> str list \<Rightarrow> str option \<Rightarrow> str list \<times> str option" where
  "page_of limit keys cursor =
     (let rest = (case cursor of None \<Rightarrow> keys | Some c \<Rightarrow> dropWhile (\<lambda>k. k \<le> c) keys);
          items = take (max 1 limit) rest in
      (items, if length items < length rest then Some (last items) else None))"

definition b_list_page :: "str \<Rightarrow> str option \<Rightarrow> (world, store_error, str list \<times> str option) io" where
  "b_list_page prefix cursor = (\<lambda>w.
     store_call (\<lambda>objects.
       (Ok (page_of (w_pages w 0)
          (sort (filter (\<lambda>k. take (length prefix) k = prefix) (map fst objects))) cursor), objects))
       (w\<lparr>w_pages := \<lambda>n. w_pages w (n + 1)\<rparr>))"

section \<open>Calling out of the vault\<close>

definition from_store :: "(world, store_error, 'a) io \<Rightarrow> 'a vio" where
  "from_store m = (\<lambda>w. case m w of (res, w') \<Rightarrow> (map_err StoreErr res, w'))"

definition from_crypto :: "'a crypto \<Rightarrow> 'a vio" where
  "from_crypto m = io_lift (map_err CryptoErr m)"

definition from_index :: "'a idx \<Rightarrow> 'a vio" where
  "from_index m = (\<lambda>w. case m (w_index w) of (res, c) \<Rightarrow> (map_err IndexErr res, w\<lparr>w_index := c\<rparr>))"

definition with_rng :: "(rng \<Rightarrow> ('a \<times> rng) crypto) \<Rightarrow> 'a vio" where
  "with_rng f = (\<lambda>w. case f (c_rng (w_index w)) of
     Err e \<Rightarrow> (Err (CryptoErr e), w)
   | Ok (x, r) \<Rightarrow> (Ok x, w\<lparr>w_index := (w_index w)\<lparr>c_rng := r\<rparr>\<rparr>))"

text \<open>The result as a value, for a \<open>match\<close> on it.\<close>

definition io_try :: "('s, 'e, 'a) io \<Rightarrow> ('s, 'f, 'e + 'a) io" where
  "io_try m = (\<lambda>s. case m s of (res, s') \<Rightarrow> (Ok res, s'))"

section \<open>What a call leaves alone\<close>

text \<open>The objects and the index of the world are all that the facts about a vault depend on.\<close>

abbreviation objects :: "world \<Rightarrow> str \<Rightarrow> bytes option" where
  "objects w \<equiv> map_of (w_objects w)"

lemma store_call_cases:
  assumes "store_call f w = (res, w')"
  obtains (fault) e landed where "w_faults w 0 = Some (e, landed)" "res = Err e"
      "w_objects w' = (if landed then snd (f (w_objects w)) else w_objects w)" "w_index w' = w_index w"
      "w_faults w' = (\<lambda>n. w_faults w (n + 1))"
    | (went) "w_faults w 0 = None" "res = fst (f (w_objects w))" "w_objects w' = snd (f (w_objects w))"
      "w_index w' = w_index w" "w_faults w' = (\<lambda>n. w_faults w (n + 1))"
  using assms by (auto simp: store_call_def Let_def split: option.splits prod.splits if_splits)

lemma from_store_Ok_iff: "from_store m w = (Ok x, w') \<longleftrightarrow> m w = (Ok x, w')"
  by (auto simp: from_store_def map_err_def split: prod.splits sum.splits)

lemma from_store_Err_iff: "from_store m w = (Err e, w') \<longleftrightarrow> (\<exists>d. e = StoreErr d \<and> m w = (Err d, w'))"
  by (auto simp: from_store_def map_err_def split: prod.splits sum.splits)

lemma from_crypto_Ok_iff [simp]: "from_crypto m w = (Ok x, w') \<longleftrightarrow> m = Ok x \<and> w' = w"
  by (cases m) (auto simp: from_crypto_def map_err_def)

lemma from_crypto_Ok [simp]: "from_crypto (Ok x) = io_return x"
  by (simp add: from_crypto_def map_err_def io_lift_def io_return_def)

lemma from_crypto_state: "snd (from_crypto m w) = w"
  by (simp add: from_crypto_def)

lemma from_index_Ok_iff:
  "from_index m w = (Ok x, w') \<longleftrightarrow> (\<exists>c. m (w_index w) = (Ok x, c) \<and> w' = w\<lparr>w_index := c\<rparr>)"
  by (auto simp: from_index_def map_err_def split: prod.splits sum.splits)

lemma from_index_Err_iff:
  "from_index m w = (Err e, w') \<longleftrightarrow>
    (\<exists>d c. e = IndexErr d \<and> m (w_index w) = (Err d, c) \<and> w' = w\<lparr>w_index := c\<rparr>)"
  by (auto simp: from_index_def map_err_def split: prod.splits sum.splits)

lemma with_rng_Ok_iff:
  "with_rng f w = (Ok x, w') \<longleftrightarrow>
    (\<exists>r. f (c_rng (w_index w)) = Ok (x, r) \<and> w' = w\<lparr>w_index := (w_index w)\<lparr>c_rng := r\<rparr>\<rparr>)"
  by (auto simp: with_rng_def split: prod.splits sum.splits)

lemma with_rng_Err_iff:
  "with_rng f w = (Err e, w') \<longleftrightarrow> (\<exists>d. e = CryptoErr d \<and> f (c_rng (w_index w)) = Err d \<and> w' = w)"
  by (auto simp: with_rng_def split: prod.splits sum.splits)

lemma io_try_iff [simp]: "io_try m s = (res, s') \<longleftrightarrow> (\<exists>r. res = Ok r \<and> m s = (r, s'))"
  by (auto simp: io_try_def split: prod.splits)

end
