(* ===== verification/Range_Reader.thy ===== *)
theory Range_Reader
  imports Store Object_Range Object_Stream
begin

text \<open>
  \<open>dctl-core/src/range.rs\<close> and the streaming loop of \<open>dctl-core/src/vault/read_stream.rs\<close>: reading the
  header of a stored object in at most three requests, windows and runs of its chunks in one request
  each, and the whole content chunk by chunk with the hashes that close the read.
\<close>

definition MAX_HEADER_PROBES :: nat where
  [simp]: "MAX_HEADER_PROBES = 3"

definition STREAM_WINDOW_CHUNKS :: nat where
  [simp]: "STREAM_WINDOW_CHUNKS = 8"

section \<open>The header\<close>

definition truncated :: "str \<Rightarrow> core_error" where
  "truncated path = Integrity (path @ lit '': object truncated inside its header'')"

fun probe_header :: "str \<Rightarrow> str \<Rightarrow> nat \<Rightarrow> nat \<Rightarrow> (bytes \<times> nat) vio" where
  "probe_header key path 0 want =
     io_fail (Integrity (path @ lit '': object header did not resolve''))"
| "probe_header key path (Suc probes) want =
     io_bind (from_store (b_get_range key 0 (Some want))) (\<lambda>prefix.
     io_bind (from_crypto (header_extent prefix)) (\<lambda>extent.
     case extent of
       Complete header_len \<Rightarrow> io_return (prefix, header_len)
     | Short need \<Rightarrow>
         if want \<le> length prefix then probe_header key path probes need
         else io_fail (truncated path)))"

definition fetch_header :: "str \<Rightarrow> str \<Rightarrow> (bytes \<times> nat) vio" where
  "fetch_header key path = probe_header key path MAX_HEADER_PROBES OBJECT_HEADER_PROBE_LEN"

section \<open>The reader\<close>

record range_reader =
  rr_key :: str
  rr_header :: range_header
  rr_header_bytes :: bytes
  rr_path :: str

definition content_blake3 :: "range_reader \<Rightarrow> bytes option" where
  "content_blake3 rd = map_option m_content_blake3 (rh_metadata (rr_header rd))"

definition fetch :: "range_reader \<Rightarrow> chunk_span \<Rightarrow> bytes vio" where
  "fetch rd sp =
     io_bind (from_store (b_get_range (rr_key rd) (sp_ciphertext_offset sp) (Some (sp_ciphertext_len sp))))
       (\<lambda>bytes.
     if length bytes \<noteq> sp_ciphertext_len sp
       then io_fail (Integrity (rr_path rd @ lit '': ranged read returned the wrong number of bytes''))
     else io_return bytes)"

definition span_is_empty :: "chunk_span \<Rightarrow> bool" where
  "span_is_empty sp \<longleftrightarrow> sp_chunk_count sp = 0"

definition read_range :: "prims \<Rightarrow> range_reader \<Rightarrow> nat \<Rightarrow> nat option \<Rightarrow> bytes vio" where
  "read_range P rd offset len =
     io_bind (from_crypto (span (rr_header rd) offset len)) (\<lambda>sp.
     if span_is_empty sp then io_return [] else
     io_bind (fetch rd sp) (\<lambda>ciphertext.
     from_crypto (read_window P (rr_header rd) sp ciphertext)))"

text \<open>The callback of \<open>read_chunks_inner\<close>, which keeps the chunks.\<close>

definition push_chunk :: "nat \<Rightarrow> bytes \<Rightarrow> ((nat \<times> bytes) list, crypto_error, unit) io" where
  "push_chunk index plaintext = (\<lambda>chunks. (Ok (), chunks @ [(index, plaintext)]))"

text \<open>The footer's hasher is the bytes it has absorbed; it is threaded through.\<close>

definition read_chunks_inner ::
  "prims \<Rightarrow> range_reader \<Rightarrow> nat \<Rightarrow> nat \<Rightarrow> bytes option \<Rightarrow> ((nat \<times> bytes) list \<times> bytes option) vio" where
  "read_chunks_inner P rd first n footer =
     io_bind (from_crypto (chunk_span (rr_header rd) first n)) (\<lambda>sp.
     if span_is_empty sp then io_return ([], footer) else
     io_bind (fetch rd sp) (\<lambda>ciphertext.
     let footer = map_option (\<lambda>h. h @ ciphertext) footer in
     case open_chunks P (rr_header rd) sp ciphertext push_chunk [] of
       (Err e, _) \<Rightarrow> io_fail (CryptoErr e)
     | (Ok _, chunks) \<Rightarrow> io_return (chunks, footer)))"

definition read_chunks :: "prims \<Rightarrow> range_reader \<Rightarrow> nat \<Rightarrow> nat \<Rightarrow> (nat \<times> bytes) list vio" where
  "read_chunks P rd first n =
     io_bind (read_chunks_inner P rd first n None) (\<lambda>(chunks, _). io_return chunks)"

definition read_chunks_folding ::
  "prims \<Rightarrow> range_reader \<Rightarrow> nat \<Rightarrow> nat \<Rightarrow> bytes \<Rightarrow> ((nat \<times> bytes) list \<times> bytes option) vio" where
  "read_chunks_folding P rd first n footer = read_chunks_inner P rd first n (Some footer)"

definition footer_fold :: "range_reader \<Rightarrow> bytes option" where
  "footer_fold rd = (if \<not> has_footer (rh_head (rr_header rd)) then None else Some (rr_header_bytes rd))"

definition payload_end :: "range_reader \<Rightarrow> nat crypto" where
  "payload_end rd =
     (case checked_sub (unat (h_chunk_count (rh_head (rr_header rd)))) 1 of
        None \<Rightarrow> Ok (rh_payload_start (rr_header rd))
      | Some final \<Rightarrow>
          and_then (chunk_span (rr_header rd) final 1) (\<lambda>sp.
          Ok (saturating_add (sp_ciphertext_offset sp) (sp_ciphertext_len sp))))"

definition confirm_footer :: "prims \<Rightarrow> range_reader \<Rightarrow> bytes \<Rightarrow> unit vio" where
  "confirm_footer P rd absorbed =
     io_bind (from_crypto (payload_end rd)) (\<lambda>at.
     io_bind (from_store (b_get_range (rr_key rd) at (Some FOOTER_LEN))) (\<lambda>stored.
     if length stored \<noteq> FOOTER_LEN
       then io_fail (Integrity (rr_path rd @ lit '': object declares a footer and holds less of it''))
     else if stored \<noteq> blake3_hash P absorbed
       then io_fail (Integrity (rr_path rd
         @ lit '': the object's footer does not match the bytes it served''))
     else io_return ()))"

definition confirm_object_length :: "range_reader \<Rightarrow> unit vio" where
  "confirm_object_length rd =
     (if unat (h_chunk_count (rh_head (rr_header rd))) = 0 then io_return () else
      io_bind (from_crypto (payload_end rd)) (\<lambda>end'.
      io_bind (from_store (b_head_size (rr_key rd))) (\<lambda>stored.
      if stored = end' \<or> stored = end' + FOOTER_LEN then io_return ()
      else io_fail (Integrity (rr_path rd
        @ lit '': stored object length disagrees with its authenticated geometry'')))))"

section \<open>Streaming\<close>

text \<open>The state of a streamed read is the world and what the writer works on.\<close>

type_synonym ('o, 'a) sio = "(world \<times> 'o, core_error, 'a) io"

definition on_world :: "'a vio \<Rightarrow> ('o, 'a) sio" where
  "on_world m = (\<lambda>(w, out). case m w of (res, w') \<Rightarrow> (res, (w', out)))"

definition io_err :: core_error where
  "io_err = StoreErr (S_Io \<lparr>ie_kind = OtherKind, ie_raw_os_error = None\<rparr>)"

definition write_all :: "'o writer \<Rightarrow> bytes \<Rightarrow> ('o, unit) sio" where
  "write_all wr bs = (\<lambda>(w, out). case wr bs out of (res, out') \<Rightarrow> (map_err (\<lambda>_. io_err) res, (w, out')))"

record streamed =
  sd_bytes :: nat
  sd_plaintext_hash :: bytes

text \<open>The chunks of one window: the hasher of the content, the bytes written, the next index.\<close>

fun write_chunks ::
  "'o writer \<Rightarrow> (nat \<times> bytes) list \<Rightarrow> bytes \<Rightarrow> nat \<Rightarrow> nat \<Rightarrow> ('o, bytes \<times> nat \<times> nat) sio" where
  "write_chunks wr [] hasher written next = io_return (hasher, written, next)"
| "write_chunks wr ((_, plaintext) # chunks) hasher written next =
     io_bind (write_all wr plaintext) (\<lambda>_.
     write_chunks wr chunks (hasher @ plaintext) (saturating_add written (length plaintext))
       (saturating_add next 1))"

lemma write_chunks_next:
  assumes "write_chunks wr chunks hasher written next s = (Ok (hasher', written', next'), s')"
    and "next < U64_MAX"
  shows "next \<le> next'" "chunks \<noteq> [] \<Longrightarrow> next < next'"
proof -
  have "min (next + length chunks) U64_MAX = next' " if
    "write_chunks wr chunks hasher written next s = (Ok (hasher', written', next'), s')" "next \<le> U64_MAX"
    for chunks hasher written "next" s
    using that
  proof (induction chunks arbitrary: hasher written "next" s)
    case (Cons c chunks)
    obtain i b where "c = (i, b)" by fastforce
    with Cons show ?case
      by (fastforce simp: io_bind_Ok_iff saturating_add_def)
  qed simp
  from this [OF assms(1)] assms(2) show "next \<le> next'" "chunks \<noteq> [] \<Longrightarrow> next < next'"
    by (auto simp: Suc_le_eq)
qed

text \<open>The loop over windows.\<close>

function stream_windows ::
  "prims \<Rightarrow> 'o writer \<Rightarrow> range_reader \<Rightarrow> str \<Rightarrow> bytes \<Rightarrow> bytes option \<Rightarrow> nat \<Rightarrow> nat
     \<Rightarrow> ('o, bytes \<times> bytes option \<times> nat) sio" where
  "stream_windows P wr rd normalized hasher footer written next s =
     (if unat (h_chunk_count (rh_head (rr_header rd))) \<le> next
        then (Ok (hasher, footer, written), s) else
      io_bind (on_world (case footer of
          Some absorbed \<Rightarrow> read_chunks_folding P rd next STREAM_WINDOW_CHUNKS absorbed
        | None \<Rightarrow> io_bind (read_chunks P rd next STREAM_WINDOW_CHUNKS) (\<lambda>chunks. io_return (chunks, None))))
        (\<lambda>(chunks, footer) s.
      if chunks = []
        then (Err (Integrity (normalized @ lit '': object stopped before its declared length'')), s) else
      io_bind (write_chunks wr chunks hasher written next) (\<lambda>(hasher, written, next) s.
      stream_windows P wr rd normalized hasher footer written next s) s) s)"
  by pat_completeness auto
termination
proof (relation "measure (\<lambda>(P, wr, rd, normalized, hasher, footer, written, next, s).
    unat (h_chunk_count (rh_head (rr_header rd))) - next)", goal_cases)
  case 1
  show ?case by simp
next
  case (2 P wr rd normalized hasher footer written "next" s)
  then show ?case
    using write_chunks_next(2) unat_u64_le_max [of "h_chunk_count (rh_head (rr_header rd))"]
    by fastforce
qed

declare stream_windows.simps [simp del]

definition flush_out :: "('o, unit, unit) io \<Rightarrow> ('o, unit) sio" where
  "flush_out fl = (\<lambda>(w, out). case fl out of (res, out') \<Rightarrow> (map_err (\<lambda>_. io_err) res, (w, out')))"

definition stream_reader_to ::
  "prims \<Rightarrow> 'o writer \<Rightarrow> ('o, unit, unit) io \<Rightarrow> range_reader \<Rightarrow> str \<Rightarrow> ('o, streamed) sio" where
  "stream_reader_to P wr fl rd normalized =
     (let expected = content_blake3 rd in
      io_bind (stream_windows P wr rd normalized [] (footer_fold rd) 0 0) (\<lambda>(hasher, footer, written).
      if written \<noteq> unat (h_plaintext_len (rh_head (rr_header rd)))
        then io_fail (Integrity (normalized @ lit '': streamed length is not the declared one'')) else
      let plaintext_hash = blake3_hash P hasher in
      if (case expected of None \<Rightarrow> False | Some e \<Rightarrow> plaintext_hash \<noteq> e)
        then io_fail (Integrity normalized) else
      io_bind (case footer of None \<Rightarrow> io_return () | Some absorbed \<Rightarrow> on_world (confirm_footer P rd absorbed)) (\<lambda>_.
      io_bind (flush_out fl) (\<lambda>_.
      io_return \<lparr>sd_bytes = written, sd_plaintext_hash = plaintext_hash\<rparr>))))"

end
