(* ===== verification/Names.thy ===== *)
theory Names
  imports Primitives Utf8
begin

text \<open>
  \<open>dctl-crypto/src/names.rs\<close>: the records by which a vault finds an object from its path without
  storing the path: the key of a record is a keyed hash of the path, and its sealed value repeats the
  path, so that a value moved under another key is refused.
\<close>

definition VALUE_FIXED_PREFIX :: nat where
  [simp]: "VALUE_FIXED_PREFIX = 16 + 8 + 2"

record name_keys =
  nk_hash_key :: bytes
  nk_value_key :: bytes

record name_record =
  nr_file_id :: bytes
  nr_metadata_gen :: u64
  nr_path :: str

definition name_keys_derive :: "prims \<Rightarrow> bytes \<Rightarrow> name_keys crypto" where
  "name_keys_derive P root =
     and_then (derive_subkey P root INFO_NAME_HASH) (\<lambda>hash_key.
     and_then (derive_subkey P root INFO_NAME_VALUE) (\<lambda>value_key.
     Ok \<lparr>nk_hash_key = hash_key, nk_value_key = value_key\<rparr>))"

definition name_hash_key :: "name_keys \<Rightarrow> bytes" where
  "name_hash_key k = (if length (nk_hash_key k) = KEY_LEN then nk_hash_key k else replicate KEY_LEN 0)"

definition name_value_key :: "name_keys \<Rightarrow> bytes crypto" where
  "name_value_key k =
     (if length (nk_value_key k) = KEY_LEN then Ok (nk_value_key k)
      else Err (Format ''name value-key length invariant''))"

definition record_key :: "prims \<Rightarrow> name_keys \<Rightarrow> str \<Rightarrow> str" where
  "record_key P k nfc_path =
     NAME_KEY_PREFIX @ hex_encode P (blake3_keyed_hash P (name_hash_key k) nfc_path)"

definition name_aad :: "bytes \<Rightarrow> bytes \<Rightarrow> bytes" where
  "name_aad vault_id key_bytes = NAME_AAD_PREFIX @ vault_id @ key_bytes"

definition seal_record ::
  "prims \<Rightarrow> name_keys \<Rightarrow> bytes \<Rightarrow> str \<Rightarrow> bytes \<Rightarrow> u64 \<Rightarrow> rng \<Rightarrow> (str \<times> bytes \<times> rng) crypto" where
  "seal_record P k vault_id nfc_path file_id metadata_gen r =
     (let key = record_key P k nfc_path in
      and_then (len_u16 ''name path too long'' nfc_path) (\<lambda>path_len.
      let pt = file_id @ u64_le metadata_gen @ u16_le path_len @ nfc_path;
          aad = name_aad vault_id key in
      and_then (name_value_key k) (\<lambda>vk.
      and_then (aead_encrypt P vk pt aad r) (\<lambda>(v, r).
      Ok (key, v, r)))))"

definition open_record ::
  "prims \<Rightarrow> name_keys \<Rightarrow> bytes \<Rightarrow> str \<Rightarrow> bytes \<Rightarrow> name_record crypto" where
  "open_record P k vault_id rec_key value =
     (let aad = name_aad vault_id rec_key in
      and_then (name_value_key k) (\<lambda>vk.
      and_then (aead_decrypt P vk value aad) (\<lambda>pt.
      if length pt < VALUE_FIXED_PREFIX then Err (Format ''name record too short'') else
      and_then (slice_at 0 16 pt) (\<lambda>file_id.
      and_then (slice_at 16 24 pt) (\<lambda>gen.
      and_then (slice_at 24 26 pt) (\<lambda>pl.
      if VALUE_FIXED_PREFIX + unat (u16_from_le pl) \<noteq> length pt
        then Err (Format ''name record length mismatch'') else
      and_then (slice_at VALUE_FIXED_PREFIX (length pt) pt) (\<lambda>raw.
      and_then (from_utf8 (Format ''name path not UTF-8'') raw) (\<lambda>path.
      if record_key P k path \<noteq> rec_key
        then Err (Format ''name record path does not match its key (corrupt/transplanted)'') else
      Ok \<lparr>nr_file_id = file_id, nr_metadata_gen = u64_from_le gen, nr_path = path\<rparr>))))))))"

section \<open>Records\<close>

lemma name_keys_derive_ok:
  assumes "hkdf_ok P"
  obtains k where "name_keys_derive P root = Ok k" "length (nk_hash_key k) = 32" "length (nk_value_key k) = 32"
proof -
  obtain a where "derive_subkey P root INFO_NAME_HASH = Ok a" "length a = 32"
    by (rule derive_subkey_ok [OF assms])
  moreover obtain b where "derive_subkey P root INFO_NAME_VALUE = Ok b" "length b = 32"
    by (rule derive_subkey_ok [OF assms])
  ultimately show thesis using that [of "\<lparr>nk_hash_key = a, nk_value_key = b\<rparr>"]
    by (simp add: name_keys_derive_def)
qed

lemma open_seal_record:
  assumes P: "cipher_ok P" and k: "length (nk_value_key k) = 32"
    and path: "utf8_valid path" "length path < 2 ^ 16" and fid: "length file_id = 16"
  obtains v r' where "seal_record P k vid path file_id gen r = Ok (record_key P k path, v, r')"
    "open_record P k vid (record_key P k path) v
      = Ok \<lparr>nr_file_id = file_id, nr_metadata_gen = gen, nr_path = path\<rparr>"
proof -
  define pl :: u16 where "pl = of_nat (length path)"
  have pl: "unat pl = length path"
    unfolding pl_def using path(2) by (intro unat_of_nat_id) simp
  define pt where "pt = file_id @ u64_le gen @ u16_le pl @ path"
  have len: "length pt = 26 + length path" using fid by (simp add: pt_def)
  obtain v r' where v: "aead_encrypt P (nk_value_key k) pt (name_aad vid (record_key P k path)) r = Ok (v, r')"
    "aead_decrypt P (nk_value_key k) v (name_aad vid (record_key P k path)) = Ok pt"
    using len path(2) by (auto intro: aead_encrypt_ok [OF P k, of pt "name_aad vid (record_key P k path)" r])
  have "len_u16 ''name path too long'' path = Ok pl"
    using path(2) by (simp add: len_u16_def pl_def)
  then have "seal_record P k vid path file_id gen r = Ok (record_key P k path, v, r')"
    unfolding seal_record_def Let_def using k v(1) by (simp add: name_value_key_def pt_def del: len_u16_Ok_iff)
  moreover have "seg 0 16 pt = file_id" "seg 16 24 pt = u64_le gen" "seg 24 26 pt = u16_le pl"
    "seg 26 (26 + length path) pt = path"
    using fid by (simp_all add: pt_def seg_def)
  then have "open_record P k vid (record_key P k path) v
      = Ok \<lparr>nr_file_id = file_id, nr_metadata_gen = gen, nr_path = path\<rparr>"
    using k v(2) len pl path(1) by (simp add: open_record_def Let_def name_value_key_def from_utf8_def)
  ultimately show thesis by (rule that)
qed

text \<open>A record that opens names the path whose key it was stored under.\<close>

lemma open_record_key:
  assumes "open_record P k vid rec_key value = Ok nr"
  shows "record_key P k (nr_path nr) = rec_key" "utf8_valid (nr_path nr)" "length (nr_file_id nr) = 16"
  using assms by (auto simp: open_record_def Let_def and_then_Ok_iff slice_at_Ok_iff)

lemma no_panic_open_record [no_panic_intros]: "no_panic (open_record P k vid rk v)"
  unfolding open_record_def Let_def name_value_key_def by (intro no_panic_intros) auto

end
