(* ===== verification/Vault.thy ===== *)
theory Vault
  imports Range_Reader Object_Recipient Sidecar Names Paths
begin

text \<open>
  \<open>dctl-core/src/vault\<close>, the operations on files: looking a path up, reading and verifying a file,
  storing one and deleting one. The backend and the index are in the world; the fields of \<open>Vault\<close> that
  never change are a record. Logging is left out, and the text of an error is the one of the source less
  its interpolated values.
\<close>

section \<open>Layout\<close>

definition ENVELOPE_OBJECT_KEY :: str where "ENVELOPE_OBJECT_KEY = lit ''system/envelope.bin''"
definition OBJECT_KEY_PREFIX :: str where "OBJECT_KEY_PREFIX = lit ''o/''"
definition RECIP_KEY_PREFIX :: str where "RECIP_KEY_PREFIX = lit ''r/''"
definition GRANT_KEY_PREFIX :: str where "GRANT_KEY_PREFIX = lit ''g/''"
definition IMPORTED_KEY_PREFIX :: str where "IMPORTED_KEY_PREFIX = lit ''k/''"
definition DISCOVERY_KEY_PREFIX :: str where "DISCOVERY_KEY_PREFIX = lit ''d/''"

definition strip_prefix :: "str \<Rightarrow> str \<Rightarrow> str option" where
  "strip_prefix p s = (if take (length p) s = p then Some (drop (length p) s) else None)"

section \<open>The vault\<close>

record vault =
  v_root_key :: bytes
  v_name_keys :: name_keys
  v_vault_id :: bytes
  v_index :: index_keys
  v_chunk_size :: u32
  v_identity :: recipient_keypair
  v_identity_key_id :: bytes
  v_imported :: "recipient_keypair list"

definition index_open :: "prims \<Rightarrow> postcard \<Rightarrow> bytes \<Rightarrow> index_keys idx" where
  "index_open P C index_subkey =
     io_bind (io_lift (index_derive_keys P index_subkey)) (\<lambda>K.
     io_bind (migrate P C K) (\<lambda>_. io_return K))"

definition assemble :: "prims \<Rightarrow> postcard \<Rightarrow> bytes \<Rightarrow> bytes \<Rightarrow> vault vio" where
  "assemble P C root_key vault_id =
     io_bind (from_crypto (derive_subkey P root_key INFO_INDEX)) (\<lambda>index_subkey.
     io_bind (from_index (index_open P C index_subkey)) (\<lambda>index.
     io_bind (from_crypto (name_keys_derive P root_key)) (\<lambda>name_keys.
     io_bind (from_crypto (derive_recipient P root_key RECIP_IDX_DEFAULT)) (\<lambda>identity.
     io_return \<lparr>v_root_key = root_key, v_name_keys = name_keys, v_vault_id = vault_id, v_index = index,
       v_chunk_size = DEFAULT_CHUNK_SIZE, v_identity = identity, v_identity_key_id = kp_key_id identity,
       v_imported = []\<rparr>))))"

definition root :: "vault \<Rightarrow> bytes vio" where
  "root v = (if length (v_root_key v) = 32 then io_return (v_root_key v)
     else io_fail (Integrity (lit ''root key length invariant'')))"

definition all_identities :: "vault \<Rightarrow> recipient_keypair list" where
  "all_identities v = v_identity v # v_imported v"

definition identity_key_ids :: "vault \<Rightarrow> bytes list" where
  "identity_key_ids v = map kp_key_id (all_identities v)"

section \<open>The size of chunks\<close>

definition MIN_CHUNK_SIZE :: u32 where [simp]: "MIN_CHUNK_SIZE = 4 * 1024"

definition clamp_chunk_size :: "nat option \<Rightarrow> u32" where
  "clamp_chunk_size requested = (case requested of
     None \<Rightarrow> DEFAULT_CHUNK_SIZE
   | Some requested \<Rightarrow>
       let requested = (if requested < 2 ^ 32 then of_nat requested else - 1) in
       if requested < MIN_CHUNK_SIZE then MIN_CHUNK_SIZE
       else if MAX_CHUNK_SIZE < requested then MAX_CHUNK_SIZE else requested)"

definition with_chunk_size :: "nat option \<Rightarrow> vault \<Rightarrow> vault" where
  "with_chunk_size requested v = v\<lparr>v_chunk_size := clamp_chunk_size requested\<rparr>"

section \<open>The time of a file\<close>

text \<open>Seconds are the bit pattern of an \<open>i64\<close>; \<open>now_unix\<close>, the reading of the clock, is an argument.\<close>

datatype modified = At u64 | Now | Unknown_time

fun resolve :: "u64 option \<Rightarrow> modified \<Rightarrow> u64 option" where
  "resolve now_unix (At seconds) = Some seconds"
| "resolve now_unix Now = now_unix"
| "resolve now_unix Unknown_time = None"

section \<open>Which object a path names\<close>

definition object_key_for :: "prims \<Rightarrow> bytes \<Rightarrow> str" where
  "object_key_for P file_id = OBJECT_KEY_PREFIX @ hex_encode P file_id"

definition require_object_identity :: "prims \<Rightarrow> str \<Rightarrow> head \<Rightarrow> unit vio" where
  "require_object_identity P object_key h =
     (let named = Option.bind (strip_prefix OBJECT_KEY_PREFIX object_key) (\<lambda>hex.
            Option.bind (hex_decode P hex) (\<lambda>raw. if length raw = 16 then Some raw else None)) in
      case named of
        Some expected \<Rightarrow> if expected = h_file_id h then io_return ()
          else io_fail (Integrity (lit ''the object stored at that key identifies itself as another''))
      | None \<Rightarrow> io_fail (Integrity (lit ''not a well-formed object key'')))"

definition lookup_object_key :: "prims \<Rightarrow> postcard \<Rightarrow> vault \<Rightarrow> str \<Rightarrow> str option vio" where
  "lookup_object_key P C v nfc_path =
     io_bind (from_index (get P C (v_index v) nfc_path)) (\<lambda>found.
     case found of
       Some r \<Rightarrow> io_return (Some (ir_object_key r))
     | None \<Rightarrow>
         let name_key = record_key P (v_name_keys v) nfc_path in
         io_bind (io_try (b_get name_key)) (\<lambda>got.
         case got of
           Err _ \<Rightarrow> io_return None
         | Ok val \<Rightarrow>
             (case open_record P (v_name_keys v) (v_vault_id v) name_key val of
                Ok nr \<Rightarrow> io_return (Some (object_key_for P (nr_file_id nr)))
              | Err _ \<Rightarrow> io_return None)))"

definition object_key_of :: "prims \<Rightarrow> postcard \<Rightarrow> vault \<Rightarrow> str \<Rightarrow> str option vio" where
  "object_key_of P C v path =
     io_bind (from_crypto (Paths.normalize P path)) (lookup_object_key P C v)"

definition object_exists :: "prims \<Rightarrow> postcard \<Rightarrow> vault \<Rightarrow> str \<Rightarrow> bool vio" where
  "object_exists P C v path =
     io_bind (from_crypto (Paths.normalize P path)) (\<lambda>normalized.
     io_bind (lookup_object_key P C v normalized) (\<lambda>found.
     case found of None \<Rightarrow> io_return False | Some object_key \<Rightarrow> from_store (b_exists object_key)))"

section \<open>The wrapping key of a shared object\<close>

definition not_a_recipient :: core_error where
  "not_a_recipient = CryptoErr (Format
     ''not a recipient: no inline sub-record and no sidecar grant for this identity'')"

definition not_a_shared_object :: core_error where
  "not_a_shared_object = CryptoErr (Format ''get_shared: object is not a kem_id=1 shared object'')"

definition unsupported_kem_id :: core_error where
  "unsupported_kem_id = CryptoErr (Format ''unsupported kem_id'')"

fun try_inline :: "prims \<Rightarrow> recipient_keypair list \<Rightarrow> bytes \<Rightarrow> bytes \<Rightarrow> bytes option crypto" where
  "try_inline P [] head_bytes block = Ok None"
| "try_inline P (i # ids) head_bytes block =
     and_then (recover_kw_from_block P i head_bytes block) (\<lambda>kw.
     case kw of Some k \<Rightarrow> Ok (Some k) | None \<Rightarrow> try_inline P ids head_bytes block)"

fun find_grant :: "bytes list \<Rightarrow> bytes \<Rightarrow> bytes option crypto" where
  "find_grant [] key_id = Ok None"
| "find_grant (g # gs) key_id =
     and_then (grant_key_id g) (\<lambda>i. if i = key_id then Ok (Some g) else find_grant gs key_id)"

fun try_grants :: "prims \<Rightarrow> recipient_keypair list \<Rightarrow> bytes list \<Rightarrow> bytes \<Rightarrow> bytes option crypto" where
  "try_grants P [] grants head_bytes = Ok None"
| "try_grants P (i # ids) grants head_bytes =
     and_then (find_grant grants (kp_key_id i)) (\<lambda>found.
     case found of
       Some grant \<Rightarrow> and_then (recover_kw_as_recipient P grant i head_bytes) (\<lambda>kw. Ok (Some kw))
     | None \<Rightarrow> try_grants P ids grants head_bytes)"

definition sidecar_key :: "prims \<Rightarrow> bytes \<Rightarrow> str" where
  "sidecar_key P file_id = GRANT_KEY_PREFIX @ hex_encode P file_id"

definition recover_object_kw_parts :: "prims \<Rightarrow> vault \<Rightarrow> bytes \<Rightarrow> bytes \<Rightarrow> bytes \<Rightarrow> bytes vio" where
  "recover_object_kw_parts P v head_bytes kem_wrap_block file_id =
     io_bind (from_crypto (try_inline P (all_identities v) head_bytes kem_wrap_block)) (\<lambda>kw.
     case kw of Some k \<Rightarrow> io_return k | None \<Rightarrow>
     io_bind (io_try (b_get (sidecar_key P file_id))) (\<lambda>got.
     case got of
       Err (S_NotFound _) \<Rightarrow> io_fail not_a_recipient
     | Err e \<Rightarrow> io_fail (StoreErr e)
     | Ok bytes \<Rightarrow>
         io_bind (from_crypto (sidecar_parse P bytes file_id head_bytes)) (\<lambda>parsed.
         io_bind (from_crypto (try_grants P (all_identities v) (ps_grants parsed) head_bytes)) (\<lambda>kw.
         case kw of Some k \<Rightarrow> io_return k | None \<Rightarrow> io_fail not_a_recipient))))"

definition recover_object_kw :: "prims \<Rightarrow> vault \<Rightarrow> bytes \<Rightarrow> bytes vio" where
  "recover_object_kw P v blob =
     (if length blob < OBJECT_HEAD_LEN + 2
        then io_fail (Integrity (lit ''object truncated (head/kem_ct_len)'')) else
      let head_bytes = take OBJECT_HEAD_LEN blob;
          kem_ct_len = unat (u16_from_le (seg OBJECT_HEAD_LEN (OBJECT_HEAD_LEN + 2) blob));
          block_start = OBJECT_HEAD_LEN + 2 in
      case checked_add block_start kem_ct_len of
        None \<Rightarrow> io_fail (Integrity (lit ''kem_ct_len overflow''))
      | Some block_end \<Rightarrow>
          if length blob < block_end then io_fail (Integrity (lit ''object truncated (kem_wrap)''))
          else recover_object_kw_parts P v head_bytes (seg block_start block_end blob)
            (seg 52 68 head_bytes))"

section \<open>Reading\<close>

definition check_content :: "prims \<Rightarrow> str \<Rightarrow> opened \<Rightarrow> bytes vio" where
  "check_content P what op = (case o_metadata op of
     Some md \<Rightarrow> if blake3_hash P (o_plaintext op) \<noteq> m_content_blake3 md then io_fail (Integrity what)
       else io_return (o_plaintext op)
   | None \<Rightarrow> io_return (o_plaintext op))"

definition get_file :: "prims \<Rightarrow> postcard \<Rightarrow> vault \<Rightarrow> str \<Rightarrow> bytes vio" where
  "get_file P C v raw =
     io_bind (from_crypto (Paths.normalize P raw)) (\<lambda>path.
     io_bind (lookup_object_key P C v path) (\<lambda>found.
     case found of None \<Rightarrow> io_fail (NotFound path) | Some object_key \<Rightarrow>
     io_bind (from_store (b_get object_key)) (\<lambda>object.
     io_bind (from_crypto (parse_head object)) (\<lambda>head.
     io_bind (require_object_identity P object_key head) (\<lambda>_.
     io_bind (if h_kem_id head = KEM_ID_NONE
         then io_bind (root v) (\<lambda>k. from_crypto (open_object P k object))
       else if h_kem_id head = KEM_ID_HYBRID
         then io_bind (recover_object_kw P v object) (\<lambda>kw. from_crypto (open_with_kw P kw object))
       else io_fail unsupported_kem_id) (check_content P path))))))"

definition get_shared :: "prims \<Rightarrow> vault \<Rightarrow> bytes \<Rightarrow> bytes vio" where
  "get_shared P v file_id =
     (let object_key = object_key_for P file_id in
      io_bind (from_store (b_get object_key)) (\<lambda>object.
      io_bind (from_crypto (parse_head object)) (\<lambda>head.
      io_bind (require_object_identity P object_key head) (\<lambda>_.
      if h_kem_id head \<noteq> KEM_ID_HYBRID then io_fail not_a_shared_object else
      io_bind (recover_object_kw P v object) (\<lambda>kw.
      io_bind (from_crypto (open_with_kw P kw object)) (\<lambda>op.
      check_content P (lit ''shared object '' @ hex_encode P file_id) op))))))"

definition open_range_reader :: "prims \<Rightarrow> postcard \<Rightarrow> vault \<Rightarrow> str \<Rightarrow> range_reader vio" where
  "open_range_reader P C v raw =
     io_bind (from_crypto (Paths.normalize P raw)) (\<lambda>path.
     io_bind (lookup_object_key P C v path) (\<lambda>found.
     case found of None \<Rightarrow> io_fail (NotFound path) | Some key \<Rightarrow>
     io_bind (fetch_header key path) (\<lambda>(prefix, header_len).
     io_bind (from_crypto (parse_head prefix)) (\<lambda>ranged_head.
     io_bind (require_object_identity P key ranged_head) (\<lambda>_.
     io_bind (if h_kem_id ranged_head = KEM_ID_NONE
         then io_bind (root v) (\<lambda>k. from_crypto (range_open P k (take header_len prefix)))
       else if h_kem_id ranged_head = KEM_ID_HYBRID
         then io_bind (recover_object_kw P v prefix) (\<lambda>kw.
           from_crypto (range_open_with_kw P kw (take header_len prefix)))
       else io_fail unsupported_kem_id) (\<lambda>header.
     io_return \<lparr>rr_key = key, rr_header = header, rr_header_bytes = take header_len prefix,
       rr_path = path\<rparr>))))))"

definition stream_file_to ::
  "prims \<Rightarrow> postcard \<Rightarrow> 'o writer \<Rightarrow> ('o, unit, unit) io \<Rightarrow> vault \<Rightarrow> str \<Rightarrow> ('o, streamed) sio" where
  "stream_file_to P C wr fl v path =
     io_bind (on_world (from_crypto (Paths.normalize P path))) (\<lambda>normalized.
     io_bind (on_world (open_range_reader P C v normalized)) (\<lambda>reader.
     stream_reader_to P wr fl reader normalized))"

text \<open>The sink takes everything and keeps nothing.\<close>

definition verify_file :: "prims \<Rightarrow> postcard \<Rightarrow> vault \<Rightarrow> str \<Rightarrow> unit vio" where
  "verify_file P C v path =
     io_bind (from_crypto (Paths.normalize P path)) (\<lambda>normalized.
     io_bind (open_range_reader P C v normalized) (\<lambda>reader.
     io_bind (confirm_object_length reader) (\<lambda>_ w.
     case stream_reader_to P (\<lambda>_ s. (Ok (), s)) (\<lambda>s. (Ok (), s)) reader normalized (w, ()) of
       (res, (w', _)) \<Rightarrow> (and_then res (\<lambda>_. Ok ()), w'))))"

section \<open>Storing and deleting\<close>

definition gc_superseded_object :: "str option \<Rightarrow> str \<Rightarrow> unit vio" where
  "gc_superseded_object previous current = (case previous of
     None \<Rightarrow> io_return ()
   | Some old \<Rightarrow> if old \<noteq> current then io_bind (io_try (b_delete old)) (\<lambda>_. io_return ()) else io_return ())"

text \<open>What is common to the two ways of storing, once the object is in place.\<close>

definition put_names :: "prims \<Rightarrow> postcard \<Rightarrow> vault \<Rightarrow> str option \<Rightarrow> bytes \<Rightarrow> index_record \<Rightarrow> unit vio" where
  "put_names P C v previous file_id r =
     io_bind (with_rng (\<lambda>g. and_then (seal_record P (v_name_keys v) (v_vault_id v) (ir_path r) file_id 0 g)
       (\<lambda>(key, val, g). Ok ((key, val), g)))) (\<lambda>(name_key, name_val).
     io_bind (from_store (b_put P name_key name_val (blake3_hash P name_val))) (\<lambda>_.
     io_bind (from_index (put P C (v_index v) r)) (\<lambda>_.
     gc_superseded_object previous (ir_object_key r))))"

text \<open>Storing an object that is sealed.\<close>

definition store_sealed ::
  "prims \<Rightarrow> postcard \<Rightarrow> vault \<Rightarrow> str \<Rightarrow> str option \<Rightarrow> u64 option \<Rightarrow> bytes \<Rightarrow> bytes \<Rightarrow> unit vio" where
  "store_sealed P C v path previous modified_unix data obj =
     (if length obj < 68 then io_fail (Integrity (lit ''sealed object shorter than head'')) else
      let file_id = seg 52 68 obj; object_key = object_key_for P file_id in
      io_bind (from_store (b_put P object_key obj (blake3_hash P obj))) (\<lambda>_.
      put_names P C v previous file_id
        \<lparr>ir_path = path, ir_object_key = object_key, ir_size = of_nat (length data),
         ir_modified_unix = modified_unix, ir_content_hash = blake3_hash P data\<rparr>))"

definition put_file ::
  "prims \<Rightarrow> postcard \<Rightarrow> vault \<Rightarrow> u64 option \<Rightarrow> str \<Rightarrow> bytes \<Rightarrow> modified \<Rightarrow> unit vio" where
  "put_file P C v now_unix raw data modified =
     io_bind (from_crypto (Paths.normalize P raw)) (\<lambda>path.
     io_bind (lookup_object_key P C v path) (\<lambda>previous.
     let modified_unix = resolve now_unix modified in
     io_bind (root v) (\<lambda>k.
     io_bind (with_rng (seal P k data (with_mtime modified_unix (metadata_new path)) (v_chunk_size v))) (\<lambda>obj.
     store_sealed P C v path previous modified_unix data obj))))"

definition delete_file :: "prims \<Rightarrow> postcard \<Rightarrow> vault \<Rightarrow> str \<Rightarrow> bool vio" where
  "delete_file P C v raw =
     io_bind (from_crypto (Paths.normalize P raw)) (\<lambda>path.
     io_bind (lookup_object_key P C v path) (\<lambda>found.
     case found of None \<Rightarrow> io_return False | Some object_key \<Rightarrow>
     io_bind (from_store (b_delete object_key)) (\<lambda>_.
     let name_key = record_key P (v_name_keys v) path in
     io_bind (from_store (b_delete name_key)) (\<lambda>_.
     io_bind (from_index (delete P C (v_index v) path)) (\<lambda>_.
     io_return True)))))"

section \<open>Listing\<close>

definition starts_with :: "str \<Rightarrow> str \<Rightarrow> bool" where
  "starts_with s p \<longleftrightarrow> take (length p) s = p"

definition list_records :: "prims \<Rightarrow> postcard \<Rightarrow> vault \<Rightarrow> str \<Rightarrow> index_record list vio" where
  "list_records P C v prefix =
     io_bind (from_index (for_each P C (v_index v) (\<lambda>_. True))) (\<lambda>rs.
     io_return (sort_key ir_path (filter (\<lambda>r. starts_with (ir_path r) prefix) rs)))"

definition children_of :: "prims \<Rightarrow> postcard \<Rightarrow> vault \<Rightarrow> str \<Rightarrow> index_record list vio" where
  "children_of P C v dir =
     io_bind (from_index (children P C (v_index v) dir (\<lambda>_. True))) (\<lambda>rs. io_return (sort_key ir_path rs))"

definition child_dirs_of :: "prims \<Rightarrow> vault \<Rightarrow> str \<Rightarrow> str list vio" where
  "child_dirs_of P v dir =
     io_bind (from_index (child_dirs P (v_index v) dir (\<lambda>_. True))) (\<lambda>ds. io_return (sort ds))"

definition has_dir :: "prims \<Rightarrow> vault \<Rightarrow> str \<Rightarrow> bool vio" where
  "has_dir P v dir = from_index (contains_dir P (v_index v) dir)"

definition vault_totals :: "prims \<Rightarrow> postcard \<Rightarrow> vault \<Rightarrow> totals vio" where
  "vault_totals P C v = from_index (totals_of P C (v_index v))"

definition vault_record :: "prims \<Rightarrow> postcard \<Rightarrow> vault \<Rightarrow> str \<Rightarrow> index_record option vio" where
  "vault_record P C v path =
     io_bind (from_crypto (Paths.normalize P path)) (\<lambda>path. from_index (get P C (v_index v) path))"

end
