(* ===== verification/Kdf.thy ===== *)
theory Kdf
  imports Primitives
begin

text \<open>
  \<open>dctl-crypto/src/kdf\<close>: the cost of the password hash, the bounds that an envelope's cost is held to
  before any memory is allocated for it, and the keys derived from a passphrase or a recovery phrase.
  \<open>calibrate\<close>, which times the hash in floating point, is not modelled.
\<close>

record cost =
  m_cost :: u32
  t_cost :: u32
  p_lanes :: u32

definition cost_PRODUCTION :: cost where
  "cost_PRODUCTION = \<lparr>m_cost = DEFAULT_ARGON2_M_COST, t_cost = DEFAULT_ARGON2_T_COST,
     p_lanes = DEFAULT_ARGON2_P_LANES\<rparr>"

definition cost_TEST :: cost where
  "cost_TEST = \<lparr>m_cost = TEST_ARGON2_M_COST, t_cost = TEST_ARGON2_T_COST, p_lanes = TEST_ARGON2_P_LANES\<rparr>"

definition CARGO_DEBUG_PROFILE :: str where
  "CARGO_DEBUG_PROFILE = lit ''debug''"

definition writes_production_cost :: "str option \<Rightarrow> bool" where
  "writes_production_cost profile \<longleftrightarrow> profile \<noteq> Some CARGO_DEBUG_PROFILE"

definition cost_shipped :: "str option \<Rightarrow> cost" where
  "cost_shipped profile = (if writes_production_cost profile then cost_PRODUCTION else cost_TEST)"

definition validate_params :: "u32 \<Rightarrow> u32 \<Rightarrow> u32 \<Rightarrow> unit crypto" where
  "validate_params m t p =
     (let m_ok = ARGON2_MIN_M_COST \<le> m \<and> m \<le> ARGON2_MAX_M_COST;
          t_ok = 1 \<le> t \<and> t \<le> ARGON2_MAX_T_COST;
          p_ok = 1 \<le> p \<and> p \<le> ARGON2_MAX_P_LANES in
      if m_ok \<and> t_ok \<and> p_ok then Ok () else Err (InvalidKdfParams m t p))"

definition cost_validate :: "cost \<Rightarrow> unit crypto" where
  "cost_validate c = validate_params (m_cost c) (t_cost c) (p_lanes c)"

definition argon2id :: "prims \<Rightarrow> bytes \<Rightarrow> bytes \<Rightarrow> cost \<Rightarrow> bytes crypto" where
  "argon2id P secret salt c =
     and_then (cost_validate c) (\<lambda>_.
     ok_or (Kdf ''argon2'') (argon2_hash P secret salt (m_cost c) (t_cost c) (p_lanes c)))"

definition normalize_passphrase :: "prims \<Rightarrow> str \<Rightarrow> bytes" where
  "normalize_passphrase P passphrase = nfc P passphrase"

definition derive_kek :: "prims \<Rightarrow> str \<Rightarrow> bytes option \<Rightarrow> bytes \<Rightarrow> cost \<Rightarrow> bytes crypto" where
  "derive_kek P passphrase factor salt c =
     (let input = normalize_passphrase P passphrase;
          input = (case factor of None \<Rightarrow> input | Some f \<Rightarrow> input @ blake3_hash P f) in
      argon2id P input salt c)"

definition mnemonic_parse :: "prims \<Rightarrow> str \<Rightarrow> bytes crypto" where
  "mnemonic_parse P mnemonic = ok_or (Kdf ''invalid mnemonic'') (bip39_seed P mnemonic)"

definition validate_mnemonic :: "prims \<Rightarrow> str \<Rightarrow> unit crypto" where
  "validate_mnemonic P mnemonic = and_then (mnemonic_parse P mnemonic) (\<lambda>_. Ok ())"

definition derive_kek_from_mnemonic :: "prims \<Rightarrow> str \<Rightarrow> bytes \<Rightarrow> cost \<Rightarrow> bytes crypto" where
  "derive_kek_from_mnemonic P mnemonic salt c =
     and_then (mnemonic_parse P mnemonic) (\<lambda>seed. argon2id P seed salt c)"

definition generate_mnemonic :: "prims \<Rightarrow> rng \<Rightarrow> (str \<times> rng) crypto" where
  "generate_mnemonic P r =
     (let (entropy, r) = rng_fill RECOVERY_MNEMONIC_ENTROPY_BYTES r in
      and_then (ok_or (Kdf ''mnemonic generation'') (bip39_phrase P entropy)) (\<lambda>m. Ok (m, r)))"

definition generate_salt :: "rng \<Rightarrow> bytes \<times> rng" where
  "generate_salt r = rng_fill DEFAULT_SALT_LEN r"

section \<open>Bounds\<close>

text \<open>The hash runs only at a cost within the bounds; what an attacker writes into an envelope cannot
  make it allocate more.\<close>

lemma argon2id_bounds:
  assumes "argon2id P secret salt c = Ok k"
  shows "8 \<le> m_cost c" "m_cost c \<le> 1048576" "1 \<le> t_cost c" "t_cost c \<le> 16" "1 \<le> p_lanes c" "p_lanes c \<le> 8"
  using assms by (auto simp: argon2id_def cost_validate_def validate_params_def and_then_Ok_iff split: if_splits)

lemma argon2id_outside:
  assumes "\<not> (8 \<le> m_cost c \<and> m_cost c \<le> 1048576 \<and> 1 \<le> t_cost c \<and> t_cost c \<le> 16 \<and> 1 \<le> p_lanes c \<and> p_lanes c \<le> 8)"
  shows "argon2id P secret salt c = Err (InvalidKdfParams (m_cost c) (t_cost c) (p_lanes c))"
  using assms by (auto simp: argon2id_def cost_validate_def validate_params_def Let_def)

lemma shipped_valid: "cost_validate (cost_shipped profile) = Ok ()"
  by (simp add: cost_shipped_def cost_PRODUCTION_def cost_TEST_def cost_validate_def validate_params_def)

lemma release_ships_production: "cost_shipped (Some (lit ''release'')) = cost_PRODUCTION" "cost_shipped None = cost_PRODUCTION"
  by (simp_all add: cost_shipped_def writes_production_cost_def CARGO_DEBUG_PROFILE_def)

text \<open>Normalization-equivalent passphrases derive the same key.\<close>

lemma derive_kek_nfc: "nfc P p = nfc P q \<Longrightarrow> derive_kek P p f salt c = derive_kek P q f salt c"
  by (simp add: derive_kek_def normalize_passphrase_def)

end
