(* ===== verification/Vault_Keys.thy ===== *)
theory Vault_Keys
  imports Vault Envelope Imported_Key Kdf
begin

text \<open>
  \<open>dctl-core/src/vault\<close>, the keys of a vault: \<open>init.rs\<close> creates one, \<open>unlock.rs\<close> opens it with its
  password or its recovery phrase, \<open>rekey.rs\<close> replaces the password, and \<open>imported.rs\<close> keeps key pairs
  made elsewhere and reads them back.
\<close>

section \<open>Imported identities\<close>

definition imported_key :: "prims \<Rightarrow> bytes \<Rightarrow> str" where
  "imported_key P key_id = IMPORTED_KEY_PREFIX @ hex_encode P key_id"

definition import_keypair_material :: "prims \<Rightarrow> vault \<Rightarrow> recipient_keypair \<Rightarrow> bytes vio" where
  "import_keypair_material P v keypair =
     (let key_id = kp_key_id keypair in
      io_bind (root v) (\<lambda>k.
      io_bind (with_rng (serialize_dik1 P k keypair)) (\<lambda>dik1.
      io_bind (from_store (b_put P (imported_key P key_id) dik1 (blake3_hash P dik1))) (\<lambda>_.
      io_return key_id))))"

definition import_keypair :: "prims \<Rightarrow> vault \<Rightarrow> bytes vio" where
  "import_keypair P v =
     io_bind (with_rng (\<lambda>r. Ok (generate_external P r))) (import_keypair_material P v)"

definition key_matches_path :: "prims \<Rightarrow> str \<Rightarrow> bytes \<Rightarrow> bool" where
  "key_matches_path P key key_id =
     (case Option.bind (strip_prefix IMPORTED_KEY_PREFIX key) (hex_decode P) of
        None \<Rightarrow> False | Some bytes \<Rightarrow> bytes = key_id)"

text \<open>The entries of one page; an entry that is gone, malformed or misplaced is skipped.\<close>

fun load_items ::
  "prims \<Rightarrow> vault \<Rightarrow> str list \<Rightarrow> recipient_keypair list \<Rightarrow> recipient_keypair list vio" where
  "load_items P v [] out = io_return out"
| "load_items P v (key # items) out =
     io_bind (io_try (b_get key)) (\<lambda>got.
     case got of
       Err (S_NotFound _) \<Rightarrow> load_items P v items out
     | Err e \<Rightarrow> io_fail (StoreErr e)
     | Ok bytes \<Rightarrow>
         io_bind (root v) (\<lambda>k.
         case parse_dik1 P k bytes of
           Ok keypair \<Rightarrow>
             load_items P v items (if key_matches_path P key (kp_key_id keypair) then out @ [keypair] else out)
         | Err _ \<Rightarrow> load_items P v items out))"

lemma load_items_objects:
  "load_items P v items out w = (res, w') \<Longrightarrow> w_objects w' = w_objects w"
proof (induction items arbitrary: out w)
  case (Cons key items)
  obtain r w1 where g: "b_get key w = (r, w1)" by fastforce
  from g [unfolded b_get_def] have w1: "w_objects w1 = w_objects w"
    by (cases rule: store_call_cases) (simp_all split: if_splits)
  show ?case
  proof (cases r)
    case (Inl e)
    with Cons g w1 show ?thesis
      by (auto simp: io_bind_def io_try_def io_fail_def split: store_error.splits)
  next
    case (Inr blob)
    with Cons g w1 show ?thesis
      by (auto simp: io_bind_def io_try_def root_def split: sum.splits if_splits)
  qed
qed simp

text \<open>The loop over the pages. Each page starts after the last key of the one before.\<close>

abbreviation keys_after :: "world \<Rightarrow> str option \<Rightarrow> str list" where
  "keys_after w cursor \<equiv>
     filter (\<lambda>k. case cursor of None \<Rightarrow> True | Some c \<Rightarrow> c < k) (map fst (w_objects w))"

lemma page_of_next:
  assumes "page_of limit (sort ks) cursor = (items, Some c)"
  shows "c \<in> set ks \<and> (case cursor of None \<Rightarrow> True | Some d \<Rightarrow> d < c)"
proof -
  define rest where "rest = (case cursor of None \<Rightarrow> sort ks | Some c \<Rightarrow> dropWhile (\<lambda>k. k \<le> c) (sort ks))"
  have items: "items = take (max 1 limit) rest" "length items < length rest" "c = last items"
    using assms by (auto simp: page_of_def rest_def Let_def split: if_splits)
  then have "items \<noteq> []" by (cases rest) (auto simp: max_def split: if_splits)
  with items have c: "c \<in> set rest"
    by (metis in_set_takeD last_in_set)
  have "\<forall>k \<in> set rest. k \<in> set ks \<and> (case cursor of None \<Rightarrow> True | Some d \<Rightarrow> d < k)"
  proof (cases cursor)
    case (Some d)
    have "d < k" if k: "k \<in> set (dropWhile (\<lambda>k. k \<le> d) (sort ks))" for k
    proof -
      obtain h t where ht: "dropWhile (\<lambda>k. k \<le> d) (sort ks) = h # t"
        using k by (cases "dropWhile (\<lambda>k. k \<le> d) (sort ks)") auto
      then have "\<not> h \<le> d" by (metis hd_dropWhile list.discI list.sel(1))
      moreover have "sorted (h # t)"
        using ht by (metis sorted_dropWhile sorted_sort)
      then have "h \<le> k" using k ht by auto
      ultimately show ?thesis by simp
    qed
    then show ?thesis
      using Some by (auto simp: rest_def dest: set_dropWhileD)
  qed (simp add: rest_def)
  with c show ?thesis by blast
qed

lemma keys_after_less:
  assumes "c \<in> set (map fst (w_objects w))" "case cursor of None \<Rightarrow> True | Some d \<Rightarrow> d < c"
    and "w_objects w' = w_objects w"
  shows "length (keys_after w' (Some c)) < length (keys_after w cursor)"
proof -
  have "filter (\<lambda>k. c < k) xs = filter (\<lambda>k. c < k) (filter (\<lambda>k. case cursor of None \<Rightarrow> True | Some d \<Rightarrow> d < k) xs)" for xs
    using assms(2) by (auto simp: filter_filter intro!: filter_cong split: option.splits)
  then have "keys_after w' (Some c) = filter (\<lambda>k. c < k) (keys_after w cursor)"
    using assms(3) by simp
  moreover have "c \<in> set (keys_after w cursor)" using assms(1,2) by auto
  ultimately show ?thesis
    using length_filter_less [of c "keys_after w cursor" "(<) c"] by simp
qed

lemma list_page_next:
  assumes "from_store (b_list_page prefix cursor) w = (Ok (items, next), w')"
  shows "w_objects w' = w_objects w"
    "next = Some c \<Longrightarrow> c \<in> set (map fst (w_objects w)) \<and> (case cursor of None \<Rightarrow> True | Some d \<Rightarrow> d < c)"
proof -
  let ?ks = "filter (\<lambda>k. take (length prefix) k = prefix) (map fst (w_objects w))"
  have run: "store_call (\<lambda>objects. (Ok (page_of (w_pages w 0)
      (sort (filter (\<lambda>k. take (length prefix) k = prefix) (map fst objects))) cursor), objects))
      (w\<lparr>w_pages := \<lambda>n. w_pages w (n + 1)\<rparr>) = (Ok (items, next), w')"
    using assms by (simp add: from_store_Ok_iff b_list_page_def)
  then show "w_objects w' = w_objects w"
    by (cases rule: store_call_cases) simp_all
  from run have "page_of (w_pages w 0) (sort ?ks) cursor = (items, next)"
    by (cases rule: store_call_cases) simp_all
  then show "c \<in> set (map fst (w_objects w)) \<and> (case cursor of None \<Rightarrow> True | Some d \<Rightarrow> d < c)" if "next = Some c"
    using page_of_next [of "w_pages w 0" ?ks cursor items c] that by auto
qed

function load_pages ::
  "prims \<Rightarrow> vault \<Rightarrow> str option \<Rightarrow> recipient_keypair list \<Rightarrow> recipient_keypair list vio" where
  "load_pages P v cursor out w =
     (case from_store (b_list_page IMPORTED_KEY_PREFIX cursor) w of
        (Err e, w) \<Rightarrow> (Err e, w)
      | (Ok (items, next), w) \<Rightarrow>
          (case load_items P v items out w of
             (Err e, w) \<Rightarrow> (Err e, w)
           | (Ok out, w) \<Rightarrow>
               (case next of None \<Rightarrow> (Ok out, w) | Some c \<Rightarrow> load_pages P v (Some c) out w)))"
  by pat_completeness auto
termination
proof (relation "measure (\<lambda>(P, v, cursor, out, w). length (keys_after w cursor))", goal_cases)
  case 1
  show ?case by simp
next
  case (2 P v cursor out w res w1 page items nxt res' w2 out' c)
  then have p: "from_store (b_list_page IMPORTED_KEY_PREFIX cursor) w = (Ok (items, nxt), w1)"
    and l: "load_items P v items out w1 = (Ok out', w2)" and c: "nxt = Some c"
    by simp_all
  from keys_after_less [of c w cursor w2] list_page_next [OF p] c load_items_objects [OF l]
  show ?case by simp
qed

declare load_pages.simps [simp del]

definition load_imported_identities :: "prims \<Rightarrow> vault \<Rightarrow> recipient_keypair list vio" where
  "load_imported_identities P v = load_pages P v None []"

section \<open>Creating a vault\<close>

record new_vault =
  nv_vault :: vault
  nv_recovery_phrase :: str

definition wrap :: "prims \<Rightarrow> bytes \<Rightarrow> bytes \<Rightarrow> bytes \<Rightarrow> byte \<Rightarrow> bytes \<Rightarrow> cost \<Rightarrow> slot vio" where
  "wrap P kek root_key vault_id ty salt cost = with_rng
     (wrap_slot P kek root_key vault_id ty KDF_ID_ARGON2ID (m_cost cost) (t_cost cost) (p_lanes cost) salt [])"

text \<open>One slot for the password and one for the phrase, under salts of their own.\<close>

definition init_slots :: "prims \<Rightarrow> str \<Rightarrow> cost \<Rightarrow> bytes \<Rightarrow> bytes \<Rightarrow> str \<Rightarrow> slot list vio" where
  "init_slots P password cost root_key vault_id recovery_phrase =
     io_bind (with_rng (\<lambda>r. Ok (generate_salt r))) (\<lambda>password_salt.
     io_bind (with_rng (\<lambda>r. Ok (generate_salt r))) (\<lambda>phrase_salt.
     io_bind (from_crypto (derive_kek P password None password_salt cost)) (\<lambda>password_kek.
     io_bind (from_crypto (derive_kek_from_mnemonic P recovery_phrase phrase_salt cost)) (\<lambda>phrase_kek.
     io_bind (wrap P password_kek root_key vault_id SLOT_TYPE_PASSWORD password_salt cost) (\<lambda>s1.
     io_bind (wrap P phrase_kek root_key vault_id SLOT_TYPE_MNEMONIC phrase_salt cost) (\<lambda>s2.
     io_return [s1, s2]))))))"

definition write_envelope :: "prims \<Rightarrow> bytes \<Rightarrow> slot list \<Rightarrow> unit vio" where
  "write_envelope P vault_id slots =
     io_bind (from_crypto (serialize \<lparr>e_vault_id = vault_id, e_slots = slots\<rparr>)) (\<lambda>bytes.
     from_store (b_put P ENVELOPE_OBJECT_KEY bytes (blake3_hash P bytes)))"

definition init_with_cost :: "prims \<Rightarrow> postcard \<Rightarrow> str \<Rightarrow> cost \<Rightarrow> new_vault vio" where
  "init_with_cost P C password cost =
     io_bind (with_rng (\<lambda>r. Ok (generate_key r))) (\<lambda>root_key.
     io_bind (with_rng (\<lambda>r. Ok (generate_vault_id r))) (\<lambda>vault_id.
     io_bind (with_rng (generate_mnemonic P)) (\<lambda>recovery_phrase.
     io_bind (init_slots P password cost root_key vault_id recovery_phrase) (\<lambda>slots.
     io_bind (write_envelope P vault_id slots) (\<lambda>_.
     io_bind (assemble P C root_key vault_id) (\<lambda>v.
     io_return \<lparr>nv_vault = v, nv_recovery_phrase = recovery_phrase\<rparr>))))))"

text \<open>The cost is the one the binary was built to ship.\<close>

definition init :: "prims \<Rightarrow> postcard \<Rightarrow> str option \<Rightarrow> str \<Rightarrow> new_vault vio" where
  "init P C profile password = init_with_cost P C password (cost_shipped profile)"

section \<open>Unlocking\<close>

datatype unlock_key = Password str | RecoveryPhrase str

fun key_slot_type :: "unlock_key \<Rightarrow> byte" where
  "key_slot_type (Password _) = SLOT_TYPE_PASSWORD"
| "key_slot_type (RecoveryPhrase _) = SLOT_TYPE_MNEMONIC"

definition slot_kek :: "prims \<Rightarrow> unlock_key \<Rightarrow> slot \<Rightarrow> bytes option" where
  "slot_kek P key s =
     (if slot_type s \<noteq> key_slot_type key then None else
      let cost = \<lparr>m_cost = slot_m_cost s, t_cost = slot_t_cost s, p_lanes = slot_p_lanes s\<rparr> in
      case (case key of
          Password password \<Rightarrow> derive_kek P password None (slot_salt s) cost
        | RecoveryPhrase phrase \<Rightarrow> derive_kek_from_mnemonic P phrase (slot_salt s) cost) of
        Ok kek \<Rightarrow> Some kek
      | Err _ \<Rightarrow> None)"

fun recover_root :: "prims \<Rightarrow> unlock_key \<Rightarrow> bytes \<Rightarrow> slot list \<Rightarrow> bytes option" where
  "recover_root P key vault_id [] = None"
| "recover_root P key vault_id (s # slots) =
     (if slot_flags s \<noteq> 0 \<or> slot_wrap_algo s \<noteq> WRAP_ALGO_XCHACHA20_POLY1305
         \<or> slot_kdf_id s \<noteq> KDF_ID_ARGON2ID then recover_root P key vault_id slots else
      case slot_kek P key s of
        None \<Rightarrow> recover_root P key vault_id slots
      | Some kek \<Rightarrow>
          (case unwrap_slot P s kek vault_id of
             Ok root_key \<Rightarrow> Some root_key
           | Err _ \<Rightarrow> recover_root P key vault_id slots))"

definition unlock :: "prims \<Rightarrow> postcard \<Rightarrow> unlock_key \<Rightarrow> vault vio" where
  "unlock P C key =
     io_bind (io_try (b_get ENVELOPE_OBJECT_KEY)) (\<lambda>got.
     case got of
       Err (S_NotFound _) \<Rightarrow> io_fail (NoVault ENVELOPE_OBJECT_KEY)
     | Err other \<Rightarrow> io_fail (StoreErr other)
     | Ok bytes \<Rightarrow>
         (case parse bytes of Err _ \<Rightarrow> io_fail Unlock | Ok env \<Rightarrow>
         case recover_root P key (e_vault_id env) (e_slots env) of
           None \<Rightarrow> io_fail Unlock
         | Some root_key \<Rightarrow>
             io_bind (assemble P C root_key (e_vault_id env)) (\<lambda>v.
             io_bind (load_imported_identities P v) (\<lambda>imported.
             io_return (v\<lparr>v_imported := imported\<rparr>)))))"

section \<open>Changing the password\<close>

fun replace_password :: "slot \<Rightarrow> slot list \<Rightarrow> bool \<Rightarrow> slot list \<times> bool" where
  "replace_password replacement [] replaced = ([], replaced)"
| "replace_password replacement (s # slots) replaced =
     (if slot_type s \<noteq> SLOT_TYPE_PASSWORD
        then (let (ss, r) = replace_password replacement slots replaced in (s # ss, r))
      else if \<not> replaced
        then (let (ss, r) = replace_password replacement slots True in (replacement # ss, r))
      else replace_password replacement slots replaced)"

definition change_password :: "prims \<Rightarrow> str option \<Rightarrow> vault \<Rightarrow> str \<Rightarrow> unit vio" where
  "change_password P profile v new_password =
     io_bind (io_try (b_get ENVELOPE_OBJECT_KEY)) (\<lambda>got.
     case got of Err _ \<Rightarrow> io_fail Unlock | Ok bytes \<Rightarrow>
     case parse bytes of Err _ \<Rightarrow> io_fail Unlock | Ok stored \<Rightarrow>
     if e_vault_id stored \<noteq> v_vault_id v then io_fail Unlock else
     let cost = cost_shipped profile in
     io_bind (with_rng (\<lambda>r. Ok (generate_salt r))) (\<lambda>salt.
     io_bind (from_crypto (derive_kek P new_password None salt cost)) (\<lambda>kek.
     io_bind (root v) (\<lambda>root_key.
     io_bind (wrap P kek root_key (v_vault_id v) SLOT_TYPE_PASSWORD salt cost) (\<lambda>replacement.
     let (slots, replaced) = replace_password replacement (e_slots stored) False;
         slots = (if \<not> replaced then slots @ [replacement] else slots) in
     write_envelope P (v_vault_id v) slots)))))"

end
