(* ===== verification/Index_Refinement.thy ===== *)
theory Index_Refinement
  imports Index
begin

text \<open>
  What the index promises: it is a finite map from paths to records. The tables represent such a map
  when every row decodes to the record of the path its key hashes, every directory row counts the
  records below it, and the totals are those of the map. Each operation either fails on a failing
  statement and leaves the tables alone, or does to the map what its name says.
\<close>

section \<open>Specifications of database code\<close>

text \<open>
  From every connection whose tables are \<open>d\<close>, the code succeeds with \<open>Q\<close>, or it stops at a failing
  statement. It consumes the tape of failures from the front.
\<close>

definition later :: "conn \<Rightarrow> conn \<Rightarrow> bool" where
  "later c c' \<longleftrightarrow> (\<exists>k. c_faults c' = (\<lambda>n. c_faults c (n + k)))"

definition spec :: "'a idx \<Rightarrow> db \<Rightarrow> ('a \<Rightarrow> db \<Rightarrow> bool) \<Rightarrow> bool" where
  "spec m d Q \<longleftrightarrow> (\<forall>c. c_db c = d \<longrightarrow> (case m c of
     (Ok x, c') \<Rightarrow> Q x (c_db c') \<and> later c c'
   | (Err e, c') \<Rightarrow> e = Db \<and> (\<exists>n. c_faults c n)))"

lemma later_refl [simp]: "c_faults c' = c_faults c \<Longrightarrow> later c c'"
  unfolding later_def by (intro exI [of _ 0]) simp

lemma later_trans: "later a b \<Longrightarrow> later b c \<Longrightarrow> later a c"
  unfolding later_def by (auto simp: add.assoc)

lemma later_faults: "later c c' \<Longrightarrow> c_faults c' n \<Longrightarrow> \<exists>n. c_faults c n"
  unfolding later_def by auto

lemma spec_return [intro]: "Q x d \<Longrightarrow> spec (io_return x) d Q"
  by (simp add: spec_def)

lemma spec_lift: "m = Ok x \<Longrightarrow> Q x d \<Longrightarrow> spec (io_lift m) d Q"
  by (simp add: spec_def)

lemma spec_weaken: "spec m d Q \<Longrightarrow> (\<And>x d'. Q x d' \<Longrightarrow> Q' x d') \<Longrightarrow> spec m d Q'"
  unfolding spec_def by (fastforce split: prod.splits sum.splits)

lemma spec_Ok: "spec m d Q \<Longrightarrow> c_db c = d \<Longrightarrow> m c = (Ok x, c') \<Longrightarrow> Q x (c_db c') \<and> later c c'"
  by (auto simp: spec_def)

lemma spec_Err: "spec m d Q \<Longrightarrow> c_db c = d \<Longrightarrow> m c = (Err e, c') \<Longrightarrow> e = Db \<and> (\<exists>n. c_faults c n)"
  by (auto simp: spec_def)

lemma spec_bind:
  assumes "spec m d (\<lambda>x d'. spec (k x) d' Q)"
  shows "spec (io_bind m k) d Q"
  unfolding spec_def
proof (intro allI impI)
  fix c :: conn assume c: "c_db c = d"
  obtain res c1 where m: "m c = (res, c1)" by fastforce
  show "case io_bind m k c of (Ok x, c') \<Rightarrow> Q x (c_db c') \<and> later c c'
    | (Err e, c') \<Rightarrow> e = Db \<and> (\<exists>n. c_faults c n)"
  proof (cases res)
    case (Inl e)
    then show ?thesis using spec_Err [OF assms c, of e c1] m by (simp add: io_bind_Err)
  next
    case (Inr x)
    with m have k: "spec (k x) (c_db c1) Q" and l: "later c c1"
      using spec_Ok [OF assms c, of x c1] by simp_all
    obtain res2 c2 where k2: "k x c1 = (res2, c2)" by fastforce
    show ?thesis
      using m Inr k2 spec_Ok [OF k refl, of _ c2] spec_Err [OF k refl, of _ c2] later_trans [OF l]
        later_faults [OF l] by (cases res2) (auto simp: io_bind_Ok)
  qed
qed

lemma spec_sql: "Q (fst (stmt d)) (snd (stmt d)) \<Longrightarrow> spec (sql stmt) d Q"
  by (auto simp: spec_def sql_def Let_def case_prod_beta) (auto simp: later_def intro: exI [of _ 1])

lemma spec_query: "Q (f d) d \<Longrightarrow> spec (query f) d Q"
  by (simp add: query_def spec_sql)

lemma spec_execute: "Q () (f d) \<Longrightarrow> spec (execute f) d Q"
  by (simp add: execute_def spec_sql)

lemma spec_seal_value:
  assumes "cipher_ok P" "length key = 32" "length pt < 2 ^ 32"
    and "\<And>b. aead_decrypt P key b aad = Ok pt \<Longrightarrow> Q b d"
  shows "spec (seal_value P key pt aad) d Q"
  unfolding spec_def
proof (intro allI impI)
  fix c :: conn assume "c_db c = d"
  moreover obtain b r' where "aead_encrypt P key pt aad (c_rng c) = Ok (b, r')" "aead_decrypt P key b aad = Ok pt"
    by (rule aead_encrypt_ok [OF assms(1-3), of aad "c_rng c"])
  ultimately show "case seal_value P key pt aad c of
      (Ok x, c') \<Rightarrow> Q x (c_db c') \<and> later c c'
    | (Err e, c') \<Rightarrow> e = Db \<and> (\<exists>n. c_faults c n)"
    using assms(4) by (auto simp: seal_value_def)
qed

lemma spec_transaction:
  assumes "spec body d (\<lambda>(x, committed) d'. Q x (if committed then d' else d))"
  shows "spec (transaction body) d Q"
proof -
  define run where "run = io_bind (execute id) (\<lambda>_. io_bind body (\<lambda>(x, committed).
    if committed then io_bind (execute id) (\<lambda>_. io_return (x, True)) else io_return (x, False)))"
  have "spec run d (\<lambda>(x, committed) d'. Q x (if committed then d' else d))"
    unfolding run_def
    by (intro spec_bind spec_execute, simp, rule spec_weaken [OF assms])
      (auto split: if_splits intro!: spec_bind spec_execute spec_return)
  note run = spec_Ok [OF this] spec_Err [OF this]
  have result: "transaction body c = (case run c of (Err e, c') \<Rightarrow> (Err e, c'\<lparr>c_db := c_db c\<rparr>)
      | (Ok (x, committed), c') \<Rightarrow> (Ok x, if committed then c' else c'\<lparr>c_db := c_db c\<rparr>))" for c
    by (simp add: transaction_def run_def)
  show ?thesis
    unfolding spec_def
  proof (intro allI impI)
    fix c :: conn assume c: "c_db c = d"
    obtain res c' where c': "run c = (res, c')" by fastforce
    show "case transaction body c of (Ok x, c') \<Rightarrow> Q x (c_db c') \<and> later c c'
      | (Err e, c') \<Rightarrow> e = Db \<and> (\<exists>n. c_faults c n)"
    proof (cases res)
      case (Inl e)
      then show ?thesis using run(2) [OF c, of e c'] c' by (simp add: result)
    next
      case (Inr y)
      then show ?thesis
        using run(1) [OF c, of y c'] c' c by (cases y) (auto simp: result later_def)
    qed
  qed
qed

text \<open>A transaction that fails leaves the tables as they were, whatever its body does.\<close>

lemma transaction_Err: "transaction body c = (Err e, c') \<Longrightarrow> c_db c' = c_db c"
  by (auto simp: transaction_def split: prod.splits sum.splits if_splits)

lemma seal_value_db: "c_db (snd (seal_value P key pt aad c)) = c_db c"
  by (auto simp: seal_value_def split: sum.splits)

section \<open>The map that the tables represent\<close>

type_synonym index_map = "str \<Rightarrow> index_record option"

text \<open>
  The paths in use, all UTF-8 as every \<open>str\<close> is, with the directories above them, on which the keyed
  hash has no collision.
\<close>

definition paths_ok :: "prims \<Rightarrow> index_keys \<Rightarrow> str set \<Rightarrow> bool" where
  "paths_ok P K S \<longleftrightarrow> inj_on (index_key P (keying_key K)) S \<and> [] \<in> S \<and> (\<forall>p \<in> S. parent_of p \<in> S) \<and>
     (\<forall>p \<in> S. utf8_valid p \<and> length p < 2 ^ 32)"

definition map_ok :: "str set \<Rightarrow> index_map \<Rightarrow> bool" where
  "map_ok S m \<longleftrightarrow> finite (dom m) \<and> (\<forall>p r. m p = Some r \<longrightarrow> p \<in> S \<and> ir_path r = p)"

definition records_rep ::
  "prims \<Rightarrow> postcard \<Rightarrow> index_keys \<Rightarrow> index_map \<Rightarrow> (bytes \<times> bytes \<times> bytes) list \<Rightarrow> bool" where
  "records_rep P C K m rows \<longleftrightarrow> distinct (map fst rows) \<and>
     (\<forall>(k, p, v) \<in> set rows. \<exists>q r. m q = Some r \<and> k = index_key P (keying_key K) q \<and>
        p = index_key P (keying_key K) (parent_of q) \<and> decode P C (enc_key K) k v = Ok r) \<and>
     (\<forall>q \<in> dom m. index_key P (keying_key K) q \<in> fst ` set rows)"

definition dirs_rep ::
  "prims \<Rightarrow> index_keys \<Rightarrow> str set \<Rightarrow> (str \<Rightarrow> nat) \<Rightarrow> (bytes \<times> bytes \<times> bytes \<times> int) list \<Rightarrow> bool" where
  "dirs_rep P K S R rows \<longleftrightarrow> distinct (map fst rows) \<and>
     (\<forall>(k, p, v, n) \<in> set rows. \<exists>q \<in> S. k = index_key P (keying_key K) q \<and>
        p = index_key P (keying_key K) (parent_of q) \<and> aead_decrypt P (enc_key K) v k = Ok q \<and>
        n = int (R q) \<and> 0 < R q) \<and>
     (\<forall>q \<in> S. 0 < R q \<longrightarrow> index_key P (keying_key K) q \<in> fst ` set rows)"

text \<open>How many of the recorded paths lie below a directory.\<close>

definition below :: "index_map \<Rightarrow> str \<Rightarrow> nat" where
  "below m d = card {p \<in> dom m. d \<in> set (ancestors_of p)}"

definition measured_sum :: "index_map \<Rightarrow> nat" where
  "measured_sum m = (\<Sum>p \<in> {p \<in> dom m. \<not> ir_unmeasured (the (m p))}. unat (ir_size (the (m p))))"

definition totals_match :: "index_map \<Rightarrow> totals \<Rightarrow> bool" where
  "totals_match m t \<longleftrightarrow> unat (tot_objects t) = card (dom m) \<and> unat (tot_bytes t) = measured_sum m \<and>
     unat (tot_unmeasured t) = card {p \<in> dom m. ir_unmeasured (the (m p))}"

definition totals_row :: "prims \<Rightarrow> postcard \<Rightarrow> index_keys \<Rightarrow> bytes option \<Rightarrow> totals \<Rightarrow> bool" where
  "totals_row P C K row t \<longleftrightarrow> (case row of None \<Rightarrow> t = totals_default
     | Some v \<Rightarrow> \<exists>pt. aead_decrypt P (enc_key K) v (index_key P (keying_key K) TOTALS_DOMAIN) = Ok pt \<and>
         totals_from_bytes C pt = Some t)"

definition index_rep :: "prims \<Rightarrow> postcard \<Rightarrow> index_keys \<Rightarrow> str set \<Rightarrow> index_map \<Rightarrow> db \<Rightarrow> bool" where
  "index_rep P C K S m d \<longleftrightarrow> map_ok S m \<and> records_rep P C K m (db_records d) \<and>
     dirs_rep P K S (below m) (db_dirs d) \<and>
     (\<exists>t. totals_row P C K (db_totals d) t \<and> totals_match m t) \<and> db_user_version d = 1"

text \<open>What is relied on of \<open>postcard\<close>, and of a record for it to fit.\<close>

definition totals_ok :: "postcard \<Rightarrow> bool" where
  "totals_ok C \<longleftrightarrow> (\<forall>t. \<exists>b. totals_to_bytes C t = Some b \<and> totals_from_bytes C b = Some t \<and> length b < 2 ^ 32)"

definition record_ok :: "postcard \<Rightarrow> index_record \<Rightarrow> bool" where
  "record_ok C r \<longleftrightarrow> (\<exists>b. record_to_bytes C r = Some b \<and> record_from_bytes C b = Some r \<and> length b < 2 ^ 32)"

definition env_ok :: "prims \<Rightarrow> postcard \<Rightarrow> index_keys \<Rightarrow> str set \<Rightarrow> bool" where
  "env_ok P C K S \<longleftrightarrow> cipher_ok P \<and> length (enc_key K) = 32 \<and> totals_ok C \<and> paths_ok P K S"

text \<open>The map fits the counters of the totals.\<close>

definition fits :: "index_map \<Rightarrow> bool" where
  "fits m \<longleftrightarrow> card (dom m) \<le> U64_MAX \<and> measured_sum m \<le> U64_MAX"

subsection \<open>Rows\<close>

lemma paths_okD:
  assumes "paths_ok P K S"
  shows "p \<in> S \<Longrightarrow> q \<in> S \<Longrightarrow> index_key P (keying_key K) p = index_key P (keying_key K) q \<longleftrightarrow> p = q"
    "p \<in> S \<Longrightarrow> parent_of p \<in> S" "[] \<in> S" "p \<in> S \<Longrightarrow> utf8_valid p" "p \<in> S \<Longrightarrow> length p < 2 ^ 32"
  using assms by (auto simp: paths_ok_def inj_on_def)

lemma length_parent: "parent_of path \<noteq> [] \<Longrightarrow> length (parent_of path) < length path"
  by (cases rule: parent_cases [of path]) auto

lemma ancestors_in:
  assumes "paths_ok P K S"
  shows "p \<in> S \<Longrightarrow> set (ancestors_of p) \<subseteq> S"
proof (induction "length p" arbitrary: p rule: less_induct)
  case less
  then show ?case
    using less.hyps [of "parent_of p"] length_parent [of p] paths_okD(2) [OF assms, of p]
    by (subst ancestors_parent) auto
qed

lemma map_of_unique: "distinct (map fst rows) \<Longrightarrow> (k, x) \<in> set rows \<longleftrightarrow> map_of rows k = Some x"
  by (metis map_of_SomeD map_of_is_SomeI)

text \<open>What a lookup by the key of a path finds.\<close>

lemma records_rep_lookup:
  assumes rows: "records_rep P C K m rows" and S: "paths_ok P K S" "map_ok S m" "q \<in> S"
  shows "(case map_of rows (index_key P (keying_key K) q) of
      None \<Rightarrow> m q = None
    | Some (p, v) \<Rightarrow> \<exists>r. m q = Some r \<and> p = index_key P (keying_key K) (parent_of q) \<and>
        decode P C (enc_key K) (index_key P (keying_key K) q) v = Ok r)"
proof (cases "map_of rows (index_key P (keying_key K) q)")
  case None
  then have "index_key P (keying_key K) q \<notin> fst ` set rows" by (simp add: map_of_eq_None_iff)
  with rows have "m q = None" by (auto simp: records_rep_def)
  with None show ?thesis by simp
next
  case (Some x)
  obtain p v where x: "x = (p, v)" by fastforce
  from Some have "(index_key P (keying_key K) q, p, v) \<in> set rows" by (simp add: x map_of_SomeD)
  with rows obtain q' r where q': "m q' = Some r" "index_key P (keying_key K) q = index_key P (keying_key K) q'"
    "p = index_key P (keying_key K) (parent_of q')" "decode P C (enc_key K) (index_key P (keying_key K) q) v = Ok r"
    unfolding records_rep_def by blast
  moreover have "q' = q"
    using S q' paths_okD(1) [OF S(1,3), of q'] by (auto simp: map_ok_def)
  ultimately show ?thesis using Some x by simp
qed

lemma dirs_rep_lookup:
  assumes rows: "dirs_rep P K S R rows" and S: "paths_ok P K S" "q \<in> S"
  shows "(case map_of rows (index_key P (keying_key K) q) of
      None \<Rightarrow> R q = 0
    | Some (p, v, n) \<Rightarrow> 0 < R q \<and> n = int (R q) \<and> p = index_key P (keying_key K) (parent_of q) \<and>
        aead_decrypt P (enc_key K) v (index_key P (keying_key K) q) = Ok q)"
proof (cases "map_of rows (index_key P (keying_key K) q)")
  case None
  then have "index_key P (keying_key K) q \<notin> fst ` set rows" by (simp add: map_of_eq_None_iff)
  with rows S(2) have "R q = 0" by (auto simp: dirs_rep_def)
  with None show ?thesis by simp
next
  case (Some x)
  obtain p v n where x: "x = (p, v, n)" by (metis prod.exhaust)
  from Some have "(index_key P (keying_key K) q, p, v, n) \<in> set rows" by (simp add: x map_of_SomeD)
  with rows obtain q' where "q' \<in> S" "index_key P (keying_key K) q = index_key P (keying_key K) q'"
    "p = index_key P (keying_key K) (parent_of q')"
    "aead_decrypt P (enc_key K) v (index_key P (keying_key K) q) = Ok q'" "n = int (R q')" "0 < R q'"
    unfolding dirs_rep_def by fastforce
  moreover from this have "q' = q" using S paths_okD(1) [OF S(1,2), of q'] by simp
  ultimately show ?thesis using Some x by simp
qed

text \<open>Replacing and deleting rows.\<close>

lemma records_rep_update:
  assumes rows: "records_rep P C K m rows" and S: "paths_ok P K S" "map_ok S m" "q \<in> S"
    and v: "decode P C (enc_key K) (index_key P (keying_key K) q) v = Ok r"
  shows "records_rep P C K (m(q \<mapsto> r)) (AList.update (index_key P (keying_key K) q)
    (index_key P (keying_key K) (parent_of q), v) rows)" (is "records_rep _ _ _ _ ?rows")
proof -
  define key where "key = index_key P (keying_key K)"
  have d: "distinct (map fst rows)" using rows by (simp add: records_rep_def)
  then have d': "distinct (map fst ?rows)" by (rule distinct_update)
  have 1: "\<exists>q' r'. (m(q \<mapsto> r)) q' = Some r' \<and> k = key q' \<and> p = key (parent_of q') \<and> decode P C (enc_key K) k w = Ok r'"
    if "(k, p, w) \<in> set ?rows" for k p w
  proof (cases "k = key q")
    case True
    with that map_of_unique [OF d'] have "(p, w) = (key (parent_of q), v)"
      by (simp add: update_conv key_def)
    with True v show ?thesis unfolding key_def by (intro exI [of _ q] exI [of _ r]) simp
  next
    case False
    with that map_of_unique [OF d'] have "map_of rows k = Some (p, w)"
      by (simp add: update_conv key_def)
    then have "(k, p, w) \<in> set rows" by (rule map_of_SomeD)
    with rows obtain q' r' where "m q' = Some r'" "k = key q'" "p = key (parent_of q')" "decode P C (enc_key K) k w = Ok r'"
      unfolding records_rep_def key_def by blast
    with False show ?thesis by (intro exI [of _ q'] exI [of _ r']) auto
  qed
  have "fst ` set ?rows = insert (key q) (fst ` set rows)"
    unfolding dom_map_of_conv_image_fst [symmetric] by (simp add: update_conv' key_def)
  then have 2: "\<forall>q' \<in> dom (m(q \<mapsto> r)). key q' \<in> fst ` set ?rows"
    using rows unfolding records_rep_def key_def by simp
  show ?thesis
    unfolding records_rep_def key_def [symmetric]
  proof (intro conjI ballI, unfold key_def)
    show "distinct (map fst ?rows)" by (rule d')
    show "index_key P (keying_key K) qa \<in> fst ` set ?rows" if "qa \<in> dom (m(q \<mapsto> r))" for qa
      using 2 that unfolding key_def by blast
    show "case x of (k, p, v) \<Rightarrow> \<exists>qa ra. (m(q \<mapsto> r)) qa = Some ra \<and> k = index_key P (keying_key K) qa \<and>
        p = index_key P (keying_key K) (parent_of qa) \<and> decode P C (enc_key K) k v = Ok ra"
      if "x \<in> set ?rows" for x
      using 1 that unfolding key_def by (cases x) simp
  qed
qed

lemma records_rep_delete:
  assumes rows: "records_rep P C K m rows" and S: "paths_ok P K S" "map_ok S m" "q \<in> S"
  shows "records_rep P C K (m(q := None)) (AList.delete (index_key P (keying_key K) q) rows)"
proof -
  define key where "key = index_key P (keying_key K)"
  have keys: "key q' \<noteq> key q" if "m q' \<noteq> None" "q' \<noteq> q" for q'
    using that S paths_okD(1) [OF S(1), of q' q] by (auto simp: map_ok_def key_def)
  have set': "set (AList.delete (key q) rows) = {x \<in> set rows. fst x \<noteq> key q}"
    by (auto simp: AList.delete_eq)
  show ?thesis
    unfolding records_rep_def key_def [symmetric]
  proof (intro conjI ballI)
    show "distinct (map fst (AList.delete (key q) rows))"
      using rows by (simp add: distinct_delete records_rep_def)
    show "case x of (k, p, v) \<Rightarrow> \<exists>qa ra. (m(q := None)) qa = Some ra \<and> k = key qa \<and>
        p = key (parent_of qa) \<and> decode P C (enc_key K) k v = Ok ra"
      if x: "x \<in> set (AList.delete (key q) rows)" for x
    proof -
      obtain k p v where kpv: "x = (k, p, v)" by (metis prod.exhaust)
      then have "(k, p, v) \<in> set rows" "k \<noteq> key q" using x by (simp_all add: set')
      with rows obtain qa ra where "m qa = Some ra" "k = key qa" "p = key (parent_of qa)"
        "decode P C (enc_key K) k v = Ok ra"
        unfolding records_rep_def key_def by blast
      with \<open>k \<noteq> key q\<close> kpv show ?thesis by (auto intro!: exI [of _ qa])
    qed
    show "key q' \<in> fst ` set (AList.delete (key q) rows)" if "q' \<in> dom (m(q := None))" for q'
    proof -
      from that have "q' \<noteq> q" "m q' \<noteq> None" by (auto split: if_splits)
      then have "key q' \<in> fst ` set rows" "key q' \<noteq> key q"
        using rows keys by (auto simp: records_rep_def key_def)
      then show ?thesis unfolding set' by force
    qed
  qed
qed

lemma set_update_distinct:
  "distinct (map fst rows) \<Longrightarrow> set (AList.update k x rows) = insert (k, x) {y \<in> set rows. fst y \<noteq> k}"
  by (induction rows) (auto split: if_splits, force+)

text \<open>One directory's row, set to a count or removed at none.\<close>

lemma dirs_rep_set:
  assumes rows: "dirs_rep P K S R rows" and S: "paths_ok P K S" "q \<in> S"
    and dist: "distinct (map fst rows')"
    and set': "set rows' = (if n = 0 then {} else
        {(index_key P (keying_key K) q, index_key P (keying_key K) (parent_of q), v, int n)})
      \<union> {y \<in> set rows. fst y \<noteq> index_key P (keying_key K) q}"
    and v: "0 < n \<Longrightarrow> aead_decrypt P (enc_key K) v (index_key P (keying_key K) q) = Ok q"
  shows "dirs_rep P K S (R(q := n)) rows'"
proof -
  define key where "key = index_key P (keying_key K)"
  have inj: "key q' = key q \<longleftrightarrow> q' = q" if "q' \<in> S" for q'
    using paths_okD(1) [OF S(1) that S(2)] by (simp add: key_def)
  show ?thesis
    unfolding dirs_rep_def key_def [symmetric]
  proof (intro conjI ballI impI)
    show "distinct (map fst rows')" by (rule dist)
    show "case x of (k, p, v, i) \<Rightarrow> \<exists>q' \<in> S. k = key q' \<and> p = key (parent_of q') \<and>
        aead_decrypt P (enc_key K) v k = Ok q' \<and> i = int ((R(q := n)) q') \<and> 0 < (R(q := n)) q'"
      if x: "x \<in> set rows'" for x
    proof (cases "fst x = key q")
      case True
      with x have "0 < n" "x = (key q, key (parent_of q), v, int n)"
        by (auto simp: set' key_def split: if_splits)
      then show ?thesis using v S(2) by (auto simp: key_def)
    next
      case False
      obtain k p w i where kpw: "x = (k, p, w, i)" by (metis prod.exhaust)
      with False x have "(k, p, w, i) \<in> set rows" by (auto simp: set' key_def split: if_splits)
      with rows obtain q' where "q' \<in> S" "k = key q'" "p = key (parent_of q')"
        "aead_decrypt P (enc_key K) w k = Ok q'" "i = int (R q')" "0 < R q'"
        unfolding dirs_rep_def key_def by fastforce
      with False kpw show ?thesis by (auto intro!: bexI [of _ q'])
    qed
    show "key q' \<in> fst ` set rows'" if "q' \<in> S" "0 < (R(q := n)) q'" for q'
    proof (cases "q' = q")
      case True
      with that(2) show ?thesis by (simp add: set' key_def)
    next
      case False
      with that rows have "key q' \<in> fst ` set rows" "key q' \<noteq> key q"
        using inj by (auto simp: dirs_rep_def key_def)
      then show ?thesis unfolding set' key_def by force
    qed
  qed
qed

lemma bump_dir_up:
  assumes env: "env_ok P C K S" and rows: "dirs_rep P K S R (db_dirs d)" and q: "q \<in> S"
  shows "spec (bump_dir P K q 1) d
    (\<lambda>_ d'. \<exists>rows'. d' = d\<lparr>db_dirs := rows'\<rparr> \<and> dirs_rep P K S (R(q := R q + 1)) rows')"
proof -
  from env have P: "cipher_ok P" "length (enc_key K) = 32" and S: "paths_ok P K S"
    by (simp_all add: env_ok_def)
  define key where "key = index_key P (keying_key K)"
  note look = dirs_rep_lookup [OF rows S q, folded key_def]
  have d: "distinct (map fst (db_dirs d))" using rows by (simp add: dirs_rep_def)
  have upd: "dirs_rep P K S (R(q := R q + 1))
      (AList.update (key q) (key (parent_of q), v, int (R q + 1)) (db_dirs d))"
    if "aead_decrypt P (enc_key K) v (key q) = Ok q" for v
    using dirs_rep_set [OF rows S q distinct_update [OF d], of "key q" "(key (parent_of q), v, int (R q + 1))" "R q + 1" v]
      set_update_distinct [OF d] that by (simp add: key_def)
  show ?thesis
    unfolding bump_dir_def Let_def key_def [symmetric]
  proof (simp only: zero_less_one if_True, intro spec_bind spec_seal_value [OF P] spec_execute)
    show "length q < 2 ^ 32" using paths_okD(5) [OF S q] .
    fix v assume v: "aead_decrypt P (enc_key K) v (key q) = Ok q"
    show "\<exists>rows'. db_dirs_update (\<lambda>rows. case map_of rows (key q) of
          None \<Rightarrow> AList.update (key q) (key (parent_of q), v, 1) rows
        | Some (parent', v', refs) \<Rightarrow> AList.update (key q) (parent', v', refs + 1) rows) d
        = d\<lparr>db_dirs := rows'\<rparr> \<and> dirs_rep P K S (R(q := R q + 1)) rows'"
    proof (cases "map_of (db_dirs d) (key q)")
      case None
      then show ?thesis using look upd [OF v] by (cases d) (auto intro!: exI)
    next
      case (Some x)
      then obtain v' where "x = (key (parent_of q), v', int (R q))" "aead_decrypt P (enc_key K) v' (key q) = Ok q"
        using look by (cases x) auto
      then show ?thesis using Some upd [of v'] by (cases d) (auto intro!: exI simp: add.commute)
    qed
  qed
qed

lemma bump_dir_down:
  assumes env: "env_ok P C K S" and rows: "dirs_rep P K S R (db_dirs d)" and q: "q \<in> S" and pos: "0 < R q"
  shows "spec (bump_dir P K q (-1)) d
    (\<lambda>_ d'. \<exists>rows'. d' = d\<lparr>db_dirs := rows'\<rparr> \<and> dirs_rep P K S (R(q := R q - 1)) rows')"
proof -
  from env have S: "paths_ok P K S" by (simp add: env_ok_def)
  define key where "key = index_key P (keying_key K)"
  have d: "distinct (map fst (db_dirs d))" using rows by (simp add: dirs_rep_def)
  obtain v where row: "map_of (db_dirs d) (key q) = Some (key (parent_of q), v, int (R q))"
    and v: "aead_decrypt P (enc_key K) v (key q) = Ok q"
    using dirs_rep_lookup [OF rows S q, folded key_def] pos by (auto split: option.splits)
  define rows1 where "rows1 = AList.update (key q) (key (parent_of q), v, int (R q) + -1) (db_dirs d)"
  define rows2 where "rows2 = filter (\<lambda>(k, _, _, refs). \<not> (k = key q \<and> refs \<le> 0)) rows1"
  have d1: "distinct (map fst rows1)" unfolding rows1_def by (rule distinct_update [OF d])
  have "set rows2 = (if R q - 1 = 0 then {} else {(key q, key (parent_of q), v, int (R q - 1))})
      \<union> {y \<in> set (db_dirs d). fst y \<noteq> key q}"
    using pos by (auto simp: rows2_def rows1_def set_update_distinct [OF d] of_nat_diff)
  then have "dirs_rep P K S (R(q := R q - 1)) rows2"
    using dirs_rep_set [OF rows S q, of rows2 "R q - 1" v] v d1
    by (simp add: key_def rows2_def distinct_map_filter)
  moreover have "db_dirs_update (\<lambda>rows. case map_of rows (key q) of None \<Rightarrow> rows
        | Some (parent', v', refs) \<Rightarrow> AList.update (key q) (parent', v', refs + -1) rows) d
      = d\<lparr>db_dirs := rows1\<rparr>"
    using row by (simp add: rows1_def)
  ultimately show ?thesis
    unfolding bump_dir_def Let_def key_def [symmetric]
    by (simp, intro spec_bind spec_execute) (auto simp: rows2_def intro!: exI)
qed

lemma bump_dirs_up:
  assumes env: "env_ok P C K S" and rows: "dirs_rep P K S R (db_dirs d)"
    and qs: "set qs \<subseteq> S" "distinct qs"
  shows "spec (bump_dirs P K qs 1) d (\<lambda>_ d'. \<exists>rows'. d' = d\<lparr>db_dirs := rows'\<rparr> \<and>
    dirs_rep P K S (\<lambda>q. R q + (if q \<in> set qs then 1 else 0)) rows')"
  using rows qs
proof (induction qs arbitrary: R d)
  case Nil
  then show ?case
    unfolding bump_dirs.simps by (intro spec_return exI [of _ "db_dirs d"]) simp
next
  case (Cons q qs)
  have "spec (bump_dirs P K qs 1) d' (\<lambda>_ d''. \<exists>rows'. d'' = d\<lparr>db_dirs := rows'\<rparr> \<and>
      dirs_rep P K S (\<lambda>x. R x + (if x \<in> set (q # qs) then 1 else 0)) rows')"
    if "d' = d\<lparr>db_dirs := rows1\<rparr>" "dirs_rep P K S (R(q := R q + 1)) rows1" for d' rows1
  proof -
    have eq: "(\<lambda>x. (R(q := R q + 1)) x + (if x \<in> set qs then 1 else 0))
        = (\<lambda>x. R x + (if x \<in> set (q # qs) then 1 else 0))"
      using Cons.prems(3) by auto
    have "spec (bump_dirs P K qs 1) d' (\<lambda>_ d''. \<exists>rows'. d'' = d'\<lparr>db_dirs := rows'\<rparr> \<and>
        dirs_rep P K S (\<lambda>x. (R(q := R q + 1)) x + (if x \<in> set qs then 1 else 0)) rows')"
      by (rule Cons.IH) (use Cons.prems that in \<open>auto simp: fun_upd_def\<close>)
    then show ?thesis unfolding eq that(1) by simp
  qed
  then show ?case
    using Cons.prems by (auto intro!: spec_bind spec_weaken [OF bump_dir_up [OF env]])
qed

lemma bump_dirs_down:
  assumes env: "env_ok P C K S" and rows: "dirs_rep P K S R (db_dirs d)"
    and qs: "set qs \<subseteq> S" "distinct qs" "\<forall>q \<in> set qs. 0 < R q"
  shows "spec (bump_dirs P K qs (-1)) d (\<lambda>_ d'. \<exists>rows'. d' = d\<lparr>db_dirs := rows'\<rparr> \<and>
    dirs_rep P K S (\<lambda>q. R q - (if q \<in> set qs then 1 else 0)) rows')"
  using rows qs
proof (induction qs arbitrary: R d)
  case Nil
  then show ?case
    unfolding bump_dirs.simps by (intro spec_return exI [of _ "db_dirs d"]) simp
next
  case (Cons q qs)
  have "spec (bump_dirs P K qs (-1)) d' (\<lambda>_ d''. \<exists>rows'. d'' = d\<lparr>db_dirs := rows'\<rparr> \<and>
      dirs_rep P K S (\<lambda>x. R x - (if x \<in> set (q # qs) then 1 else 0)) rows')"
    if "d' = d\<lparr>db_dirs := rows1\<rparr>" "dirs_rep P K S (R(q := R q - 1)) rows1" for d' rows1
  proof -
    have eq: "(\<lambda>x. (R(q := R q - 1)) x - (if x \<in> set qs then 1 else 0))
        = (\<lambda>x. R x - (if x \<in> set (q # qs) then 1 else 0))"
      using Cons.prems(3) by auto
    have "spec (bump_dirs P K qs (-1)) d' (\<lambda>_ d''. \<exists>rows'. d'' = d'\<lparr>db_dirs := rows'\<rparr> \<and>
        dirs_rep P K S (\<lambda>x. (R(q := R q - 1)) x - (if x \<in> set qs then 1 else 0)) rows')"
      by (rule Cons.IH) (use Cons.prems that in \<open>auto simp: fun_upd_def\<close>)
    then show ?thesis unfolding eq that(1) by simp
  qed
  then show ?case
    using Cons.prems by (auto intro!: spec_bind spec_weaken [OF bump_dir_down [OF env]])
qed

subsection \<open>Totals\<close>

lemma unat_sat_add: "unat a + unat b \<le> U64_MAX \<Longrightarrow> unat (sat_add a b) = unat a + unat b"
  unfolding sat_add_def saturating_add_def by (subst unat_of_nat_id) (simp_all add: U64_MAX_def)

lemma unat_sat_sub: "unat (sat_sub a b) = unat a - unat b"
  unfolding sat_sub_def saturating_sub_def
  using unat_u64_le_max [of a] by (simp add: unat_of_nat_id U64_MAX_def)

lemma measured_sum_upd:
  assumes "finite (dom m)" "m p = None"
  shows "measured_sum (m(p \<mapsto> r)) = measured_sum m + (if ir_unmeasured r then 0 else unat (ir_size r))"
proof -
  define A where "A = {q \<in> dom m. \<not> ir_unmeasured (the (m q))}"
  have A: "p \<notin> A" "finite A" using assms by (auto simp: A_def)
  have eq: "{q \<in> dom (m(p \<mapsto> r)). \<not> ir_unmeasured (the ((m(p \<mapsto> r)) q))} = (if ir_unmeasured r then A else insert p A)"
    using assms(2) by (auto simp: A_def)
  have "(\<Sum>q \<in> A. unat (ir_size (the ((m(p \<mapsto> r)) q)))) = (\<Sum>q \<in> A. unat (ir_size (the (m q))))"
    using A(1) by (intro sum.cong) auto
  then show ?thesis
    using A unfolding measured_sum_def eq A_def [symmetric] by (cases "ir_unmeasured r") simp_all
qed

lemma unmeasured_upd:
  assumes "finite (dom m)" "m p = None"
  shows "card {q \<in> dom (m(p \<mapsto> r)). ir_unmeasured (the ((m(p \<mapsto> r)) q))}
    = card {q \<in> dom m. ir_unmeasured (the (m q))} + (if ir_unmeasured r then 1 else 0)"
proof -
  define A where "A = {q \<in> dom m. ir_unmeasured (the (m q))}"
  have A: "p \<notin> A" "finite A" using assms by (auto simp: A_def)
  have eq: "{q \<in> dom (m(p \<mapsto> r)). ir_unmeasured (the ((m(p \<mapsto> r)) q))} = (if ir_unmeasured r then insert p A else A)"
    using assms(2) by (auto simp: A_def)
  show ?thesis
    using A unfolding eq A_def [symmetric] by (cases "ir_unmeasured r") simp_all
qed

lemma unmeasured_le: "finite (dom m) \<Longrightarrow> card {q \<in> dom m. ir_unmeasured (the (m q))} \<le> card (dom m)"
  by (intro card_mono) auto

lemma totals_match_plus:
  assumes t: "totals_match m t" and m: "finite (dom m)" "m p = None" "fits (m(p \<mapsto> r))"
  shows "totals_match (m(p \<mapsto> r)) (totals_plus (Some r) t)"
proof -
  have card: "card (dom (m(p \<mapsto> r))) = card (dom m) + 1"
    using m(1,2) by (simp add: domIff)
  note upd = measured_sum_upd [OF m(1,2), of r] unmeasured_upd [OF m(1,2), of r]
  have le: "card (dom m) + 1 \<le> U64_MAX"
    "measured_sum m + (if ir_unmeasured r then 0 else unat (ir_size r)) \<le> U64_MAX"
    using m(3) unfolding fits_def card upd(1) by simp_all
  have "unat (1 :: u64) = 1" by simp
  with t le unmeasured_le [OF m(1)] have
    "unat (sat_add (tot_objects t) 1) = card (dom m) + 1"
    "ir_unmeasured r \<Longrightarrow> unat (sat_add (tot_unmeasured t) 1) = card {q \<in> dom m. ir_unmeasured (the (m q))} + 1"
    "\<not> ir_unmeasured r \<Longrightarrow> unat (sat_add (tot_bytes t) (ir_size r)) = measured_sum m + unat (ir_size r)"
    unfolding totals_match_def by (subst unat_sat_add; simp)+
  then show ?thesis
    using t unfolding totals_match_def card upd by (simp add: totals_plus_def Let_def)
qed

lemma totals_match_less:
  assumes t: "totals_match m t" and m: "finite (dom m)"
  shows "totals_match (m(p := None)) (totals_less (m p) t)"
proof (cases "m p")
  case None
  then show ?thesis using t by (simp add: totals_less_def fun_upd_idem)
next
  case (Some r)
  define m' where "m' = m(p := None)"
  have m': "finite (dom m')" "m' p = None" "m = m'(p \<mapsto> r)"
    using m Some by (auto simp: m'_def)
  have card: "card (dom m) = card (dom m') + 1"
    unfolding m'(3) using m'(1,2) by (simp add: domIff)
  note upd = measured_sum_upd [OF m'(1,2), of r, folded m'(3)] unmeasured_upd [OF m'(1,2), of r, folded m'(3)]
  have "unat (1 :: u64) = 1" by simp
  then show ?thesis
    using t unfolding totals_match_def card upd m'_def [symmetric] Some
    by (simp add: totals_less_def Let_def unat_sat_sub)
qed

lemma read_totals_spec:
  assumes "totals_row P C K (db_totals d) t"
  shows "spec (read_totals P C K) d (\<lambda>x d'. x = t \<and> d' = d)"
  using assms unfolding read_totals_def Let_def
  by (intro spec_bind spec_query) (auto simp: totals_row_def split: option.splits intro!: spec_return spec_lift)

lemma write_totals_spec:
  assumes env: "env_ok P C K S"
  shows "spec (write_totals P C K t) d (\<lambda>_ d'. \<exists>row. d' = d\<lparr>db_totals := row\<rparr> \<and> totals_row P C K row t)"
proof -
  from env have P: "cipher_ok P" "length (enc_key K) = 32" by (simp_all add: env_ok_def)
  obtain b where b: "totals_to_bytes C t = Some b" "totals_from_bytes C b = Some t" "length b < 2 ^ 32"
    using env unfolding env_ok_def totals_ok_def by blast
  show ?thesis
    unfolding write_totals_def Let_def
    by (rule spec_bind, rule spec_lift [of _ b], simp add: b, rule spec_bind, rule spec_seal_value [OF P b(3)],
        rule spec_execute) (use b in \<open>auto simp: totals_row_def intro!: exI\<close>)
qed

lemma shift_totals_spec:
  assumes env: "env_ok P C K S" and row: "totals_row P C K (db_totals d) t"
  shows "spec (shift_totals P C K was now) d (\<lambda>_ d'. \<exists>row. d' = d\<lparr>db_totals := row\<rparr> \<and>
    totals_row P C K row (totals_plus now (totals_less was t)))"
  unfolding shift_totals_def
  by (intro spec_bind spec_weaken [OF read_totals_spec [OF row]]) (use write_totals_spec [OF env] in blast)

section \<open>The operations\<close>

lemma below_upd:
  assumes "finite (dom m)" "m p = None"
  shows "below (m(p \<mapsto> r)) = (\<lambda>d. below m d + (if d \<in> set (ancestors_of p) then 1 else 0))"
proof
  fix d
  define A where "A = {q \<in> dom m. d \<in> set (ancestors_of q)}"
  have A: "p \<notin> A" "finite A" using assms by (auto simp: A_def)
  have "{q \<in> dom (m(p \<mapsto> r)). d \<in> set (ancestors_of q)}
      = (if d \<in> set (ancestors_of p) then insert p A else A)"
    by (auto simp: A_def)
  with A show "below (m(p \<mapsto> r)) d = below m d + (if d \<in> set (ancestors_of p) then 1 else 0)"
    unfolding below_def A_def [symmetric] by simp
qed

lemma below_same: "m p \<noteq> None \<Longrightarrow> below (m(p \<mapsto> r)) = below m"
  unfolding below_def by (intro ext arg_cong [where f = card]) auto

lemma below_pos: "finite (dom m) \<Longrightarrow> m p \<noteq> None \<Longrightarrow> d \<in> set (ancestors_of p) \<Longrightarrow> 0 < below m d"
  unfolding below_def by (subst card_gt_0_iff) auto

lemma below_pos_iff: "finite (dom m) \<Longrightarrow> 0 < below m d \<longleftrightarrow> (\<exists>p \<in> dom m. d \<in> set (ancestors_of p))"
  unfolding below_def by (subst card_gt_0_iff) auto

lemma index_repD:
  assumes "index_rep P C K S m d"
  shows "map_ok S m" "records_rep P C K m (db_records d)" "dirs_rep P K S (below m) (db_dirs d)"
    "\<exists>t. totals_row P C K (db_totals d) t \<and> totals_match m t" "db_user_version d = 1"
  using assms by (simp_all add: index_rep_def)

lemma read_spec:
  assumes env: "env_ok P C K S" and rep: "index_rep P C K S m d" and q: "q \<in> S"
  shows "spec (read P C (enc_key K) (index_key P (keying_key K) q)) d (\<lambda>x d'. x = m q \<and> d' = d)"
proof -
  from env have S: "paths_ok P K S" by (simp add: env_ok_def)
  show ?thesis
    using records_rep_lookup [OF index_repD(2) [OF rep] S index_repD(1) [OF rep] q]
    unfolding read_def
    by (intro spec_bind spec_query) (auto split: option.splits intro!: spec_return spec_lift)
qed

text \<open>\<open>put\<close> is an update of the map.\<close>

theorem put_refines:
  assumes env: "env_ok P C K S" and rep: "index_rep P C K S m d"
    and r: "ir_path r \<in> S" "record_ok C r" and fits: "fits (m(ir_path r \<mapsto> r))"
  shows "spec (put P C K r) d (\<lambda>_. index_rep P C K S (m(ir_path r \<mapsto> r)))"
proof -
  from env have P: "cipher_ok P" "length (enc_key K) = 32" and S: "paths_ok P K S"
    by (simp_all add: env_ok_def)
  define p where "p = ir_path r"
  define key where "key = index_key P (keying_key K) p"
  have p: "p \<in> S" using r(1) by (simp add: p_def)
  obtain b where b: "record_to_bytes C r = Some b" "record_from_bytes C b = Some r" "length b < 2 ^ 32"
    using r(2) by (auto simp: record_ok_def)
  note rep_D = index_repD [OF rep]
  have m: "finite (dom m)" using rep_D(1) by (simp add: map_ok_def)
  obtain t where t: "totals_row P C K (db_totals d) t" "totals_match m t" using rep_D(4) by blast
  have map': "map_ok S (m(p \<mapsto> r))"
    using rep_D(1) r(1) by (auto simp: map_ok_def p_def)
  have match: "totals_match (m(p \<mapsto> r)) (totals_plus (Some r) (totals_less (m p) t))"
  proof -
    have "totals_match (m(p := None)) (totals_less (m p) t)" by (rule totals_match_less [OF t(2) m])
    moreover have "(m(p := None))(p \<mapsto> r) = m(p \<mapsto> r)" by simp
    ultimately show ?thesis
      using totals_match_plus [of "m(p := None)" _ p r] m fits by (simp add: p_def)
  qed
  have body: "spec (io_bind (read P C (enc_key K) key) (\<lambda>previous.
        io_bind (execute (db_records_update (AList.update key
          (index_key P (keying_key K) (parent_of p), blob)))) (\<lambda>_.
        io_bind (if previous = None then bump_dirs P K (ancestors_of p) 1 else io_return ()) (\<lambda>_.
        io_bind (shift_totals P C K previous (Some r)) (\<lambda>_. io_return ((), True)))))) d
      (\<lambda>(x, committed) d'. index_rep P C K S (m(p \<mapsto> r)) (if committed then d' else d))"
    if blob: "aead_decrypt P (enc_key K) blob key = Ok b" for blob
  proof -
    have "decode P C (enc_key K) key blob = Ok r" using b(2) blob by (simp add: decode_def)
    then have recs: "records_rep P C K (m(p \<mapsto> r)) (AList.update key
        (index_key P (keying_key K) (parent_of p), blob) (db_records d))"
      unfolding key_def by (intro records_rep_update [OF rep_D(2) S rep_D(1) p])
    define d1 where "d1 = db_records_update (AList.update key
        (index_key P (keying_key K) (parent_of p), blob)) d"
    have dirs: "spec (if m p = None then bump_dirs P K (ancestors_of p) 1 else io_return ()) d1
        (\<lambda>_ d2. \<exists>rows. d2 = d1\<lparr>db_dirs := rows\<rparr> \<and> dirs_rep P K S (below (m(p \<mapsto> r))) rows)"
    proof (cases "m p = None")
      case True
      have "dirs_rep P K S (below m) (db_dirs d1)" using rep_D(3) by (simp add: d1_def)
      then show ?thesis
        using bump_dirs_up [OF env _ ancestors_in [OF S p] distinct_ancestors_of] True
        by (simp add: below_upd [OF m])
    next
      case False
      then show ?thesis
        using rep_D(3) below_same [of m p r]
        by (simp only: if_False) (intro spec_return exI [of _ "db_dirs d1"], simp add: d1_def)
    qed
    have shift: "spec (shift_totals P C K (m p) (Some r)) d2 (\<lambda>_ d3.
        index_rep P C K S (m(p \<mapsto> r)) d3)"
      if "d2 = d1\<lparr>db_dirs := rows\<rparr>" "dirs_rep P K S (below (m(p \<mapsto> r))) rows" for d2 rows
    proof -
      have "totals_row P C K (db_totals d2) t" using t(1) that by (simp add: d1_def)
      from shift_totals_spec [OF env this] show ?thesis
      proof (rule spec_weaken)
        fix x d3 assume "\<exists>row. d3 = d2\<lparr>db_totals := row\<rparr> \<and>
          totals_row P C K row (totals_plus (Some r) (totals_less (m p) t))"
        then show "index_rep P C K S (m(p \<mapsto> r)) d3"
          using map' recs that match rep_D(5) by (auto simp: index_rep_def d1_def)
      qed
    qed
    show ?thesis
      by (rule spec_bind, rule spec_weaken [OF read_spec [OF env rep p, folded key_def]],
          elim conjE, hypsubst, rule spec_bind, rule spec_execute, fold d1_def,
          rule spec_bind, rule spec_weaken [OF dirs], elim exE conjE,
          rule spec_bind, rule spec_weaken [OF shift], assumption, assumption, rule spec_return, simp)
  qed
  show ?thesis
    unfolding put_def Let_def p_def [symmetric] key_def [symmetric]
    by (rule spec_bind, rule spec_lift [of _ b], simp add: b, rule spec_bind, rule spec_seal_value [OF P b(3)],
        rule spec_transaction, rule body)
qed

text \<open>\<open>delete\<close> removes the path and says whether it was there.\<close>

theorem delete_refines:
  assumes env: "env_ok P C K S" and rep: "index_rep P C K S m d" and p: "p \<in> S"
  shows "spec (delete P C K p) d (\<lambda>x d'. x = (m p \<noteq> None) \<and> index_rep P C K S (m(p := None)) d')"
proof -
  from env have S: "paths_ok P K S" by (simp add: env_ok_def)
  define key where "key = index_key P (keying_key K) p"
  note rep_D = index_repD [OF rep]
  have m: "finite (dom m)" using rep_D(1) by (simp add: map_ok_def)
  obtain t where t: "totals_row P C K (db_totals d) t" "totals_match m t" using rep_D(4) by blast
  have some: "spec (io_bind (execute (db_records_update (AList.delete key))) (\<lambda>_.
      io_bind (bump_dirs P K (ancestors_of p) (-1)) (\<lambda>_.
      io_bind (shift_totals P C K (Some r) None) (\<lambda>_. io_return (True, True))))) d
      (\<lambda>(x, committed) d'. x = (m p \<noteq> None) \<and> index_rep P C K S (m(p := None)) (if committed then d' else d))"
    if r: "m p = Some r" for r
  proof -
    define d1 where "d1 = db_records_update (AList.delete key) d"
    have recs: "records_rep P C K (m(p := None)) (db_records d1)"
      using records_rep_delete [OF rep_D(2) S rep_D(1) p] by (simp add: d1_def key_def)
    have pos: "\<forall>q \<in> set (ancestors_of p). 0 < below m q"
      using below_pos [OF m] r by auto
    have less: "(\<lambda>q. below m q - (if q \<in> set (ancestors_of p) then 1 else 0)) = below (m(p := None))"
    proof -
      define m' where "m' = m(p := None)"
      have "m = m'(p \<mapsto> r)" using r by (auto simp: m'_def)
      moreover have "finite (dom m')" "m' p = None" using m by (auto simp: m'_def)
      ultimately show ?thesis using below_upd [of m' p r] by (auto simp: m'_def)
    qed
    have "dirs_rep P K S (below m) (db_dirs d1)" using rep_D(3) by (simp add: d1_def)
    note dirs = bump_dirs_down [OF env this ancestors_in [OF S p] distinct_ancestors_of pos, unfolded less]
    have shift: "spec (shift_totals P C K (Some r) None) d2 (\<lambda>_. index_rep P C K S (m(p := None)))"
      if "d2 = d1\<lparr>db_dirs := rows\<rparr>" "dirs_rep P K S (below (m(p := None))) rows" for d2 rows
    proof -
      have "totals_row P C K (db_totals d2) t" using t(1) that by (simp add: d1_def)
      from shift_totals_spec [OF env this] show ?thesis
      proof (rule spec_weaken)
        fix x d3 assume d3: "\<exists>row. d3 = d2\<lparr>db_totals := row\<rparr> \<and>
          totals_row P C K row (totals_plus None (totals_less (Some r) t))"
        have "totals_match (m(p := None)) (totals_plus None (totals_less (Some r) t))"
          using totals_match_less [OF t(2) m, of p] r by (simp add: totals_plus_def)
        moreover have "map_ok S (m(p := None))" using rep_D(1) by (auto simp: map_ok_def)
        ultimately show "index_rep P C K S (m(p := None)) d3"
          using recs that d3 rep_D(5) by (auto simp: index_rep_def d1_def)
      qed
    qed
    show ?thesis
      by (rule spec_bind, rule spec_execute, fold d1_def, rule spec_bind, rule spec_weaken [OF dirs],
          elim exE conjE, rule spec_bind, rule spec_weaken [OF shift], assumption, assumption,
          rule spec_return, simp add: r)
  qed
  show ?thesis
    unfolding delete_def Let_def key_def [symmetric]
  proof (rule spec_transaction, rule spec_bind, rule spec_weaken [OF read_spec [OF env rep p, folded key_def]],
      elim conjE, hypsubst, cases "m p")
    case None
    then show "spec (case m p of None \<Rightarrow> io_return (False, False)
      | Some previous \<Rightarrow> io_bind (execute (db_records_update (AList.delete key))) (\<lambda>_.
          io_bind (bump_dirs P K (ancestors_of p) (-1)) (\<lambda>_.
          io_bind (shift_totals P C K (Some previous) None) (\<lambda>_. io_return (True, True))))) d
      (\<lambda>(x, committed) d'. x = (m p \<noteq> None) \<and> index_rep P C K S (m(p := None)) (if committed then d' else d))"
      using rep by (simp only: option.case) (rule spec_return, simp add: fun_upd_idem)
  next
    case (Some r)
    then show "spec (case m p of None \<Rightarrow> io_return (False, False)
      | Some previous \<Rightarrow> io_bind (execute (db_records_update (AList.delete key))) (\<lambda>_.
          io_bind (bump_dirs P K (ancestors_of p) (-1)) (\<lambda>_.
          io_bind (shift_totals P C K (Some previous) None) (\<lambda>_. io_return (True, True))))) d
      (\<lambda>(x, committed) d'. x = (m p \<noteq> None) \<and> index_rep P C K S (m(p := None)) (if committed then d' else d))"
      using some [OF Some] by simp
  qed
qed

text \<open>A \<open>put\<close> or \<open>delete\<close> that fails, for whatever reason, leaves every table as it was.\<close>

lemma put_atomic: "put P C K r c = (Err e, c') \<Longrightarrow> c_db c' = c_db c"
  unfolding put_def Let_def
  by (auto simp: io_bind_Err_iff io_lift_def dest!: transaction_Err)
    (metis seal_value_db snd_conv)+

lemma delete_atomic: "delete P C K p c = (Err e, c') \<Longrightarrow> c_db c' = c_db c"
  by (simp add: delete_def Let_def transaction_Err)

text \<open>The queries.\<close>

theorem get_refines:
  assumes "env_ok P C K S" "index_rep P C K S m d" "p \<in> S"
  shows "spec (get P C K p) d (\<lambda>x d'. x = m p \<and> d' = d)"
  using read_spec [OF assms] by (simp add: get_def read_def Let_def)

theorem contains_refines:
  assumes env: "env_ok P C K S" and rep: "index_rep P C K S m d" and p: "p \<in> S"
  shows "spec (contains P K p) d (\<lambda>x d'. x = (m p \<noteq> None) \<and> d' = d)"
proof -
  from env have S: "paths_ok P K S" by (simp add: env_ok_def)
  show ?thesis
    using records_rep_lookup [OF index_repD(2) [OF rep] S index_repD(1) [OF rep] p]
    unfolding contains_def Let_def
    by (intro spec_bind spec_query spec_return) (auto split: option.splits)
qed

theorem contains_dir_refines:
  assumes env: "env_ok P C K S" and rep: "index_rep P C K S m d" and q: "q \<in> S"
  shows "spec (contains_dir P K q) d (\<lambda>x d'. x = (\<exists>p \<in> dom m. q \<in> set (ancestors_of p)) \<and> d' = d)"
proof -
  from env have S: "paths_ok P K S" by (simp add: env_ok_def)
  have "finite (dom m)" using index_repD(1) [OF rep] by (simp add: map_ok_def)
  note pos = below_pos_iff [OF this, of q]
  show ?thesis
    using dirs_rep_lookup [OF index_repD(3) [OF rep] S q] pos
    unfolding contains_dir_def Let_def
    by (intro spec_bind spec_query spec_return) (auto split: option.splits)
qed

text \<open>The rows, one for each recorded path.\<close>

lemma records_rep_rows:
  assumes rows: "records_rep P C K m rows" and S: "paths_ok P K S" "map_ok S m"
  obtains ps where "distinct ps" "set ps = dom m" "length ps = length rows"
    "list_all2 (\<lambda>(k, p, v) q. k = index_key P (keying_key K) q \<and>
       p = index_key P (keying_key K) (parent_of q) \<and> decode P C (enc_key K) k v = Ok (the (m q))) rows ps"
proof -
  define key where "key = index_key P (keying_key K)"
  define good where "good = (\<lambda>(k, p, v) q. k = key q \<and> p = key (parent_of q) \<and>
    decode P C (enc_key K) k v = Ok (the (m q)))"
  have "\<forall>x \<in> set rows. \<exists>q \<in> dom m. good x q"
    using rows unfolding records_rep_def good_def key_def by fastforce
  then obtain f where f: "\<And>x. x \<in> set rows \<Longrightarrow> f x \<in> dom m \<and> good x (f x)" by metis
  have keys: "map fst rows = map key (map f rows)"
    using f by (auto simp: good_def)
  have inj: "inj_on key (dom m)"
    using S unfolding paths_ok_def map_ok_def key_def by (auto intro: inj_on_subset)
  have "distinct (map f rows)"
  proof -
    have "distinct (map key (map f rows))" using rows keys by (simp add: records_rep_def)
    then show ?thesis by (simp only: distinct_map)
  qed
  moreover have "set (map f rows) = dom m"
  proof
    show "set (map f rows) \<subseteq> dom m" using f by auto
    show "dom m \<subseteq> set (map f rows)"
    proof
      fix q assume q: "q \<in> dom m"
      then have "key q \<in> fst ` set rows" using rows by (auto simp: records_rep_def key_def)
      then obtain x where x: "x \<in> set rows" "fst x = key q" by auto
      then have "key (f x) = key q" "f x \<in> dom m" using f [of x] by (auto simp: good_def)
      then have "f x = q" using inj q by (auto simp: inj_on_def)
      with x show "q \<in> set (map f rows)" by auto
    qed
  qed
  moreover have "list_all2 good rows (map f rows)"
    using f by (simp add: list_all2_conv_all_nth)
  ultimately show thesis using that [of "map f rows"] by (simp add: good_def key_def)
qed

theorem count_refines:
  assumes env: "env_ok P C K S" and rep: "index_rep P C K S m d"
  shows "spec count d (\<lambda>x d'. x = card (dom m) \<and> d' = d)"
proof -
  from env have S: "paths_ok P K S" by (simp add: env_ok_def)
  obtain ps where "distinct ps" "set ps = dom m" "length ps = length (db_records d)"
    by (rule records_rep_rows [OF index_repD(2) [OF rep] S index_repD(1) [OF rep]])
  then have "length (db_records d) = card (dom m)" by (metis distinct_card)
  then show ?thesis by (simp add: count_def spec_query)
qed

theorem totals_refines:
  assumes "index_rep P C K S m d"
  shows "spec (totals_of P C K) d (\<lambda>t d'. totals_match m t \<and> d' = d)"
proof -
  obtain t where "totals_row P C K (db_totals d) t" "totals_match m t"
    using index_repD(4) [OF assms] by blast
  then show ?thesis
    unfolding totals_of_def by (intro spec_weaken [OF read_totals_spec]) auto
qed

text \<open>A loop that decodes good rows hands over their records up to the first that stops it.\<close>

fun visited :: "('a \<Rightarrow> bool) \<Rightarrow> 'a list \<Rightarrow> 'a list" where
  "visited f [] = []"
| "visited f (x # xs) = (if f x then x # visited f xs else [x])"

lemma upto_True [simp]: "visited (\<lambda>_. True) xs = xs"
  by (induction xs) simp_all

lemma visit_good:
  "list_all2 (\<lambda>(k, v) x. dec k v = Ok x) rows xs \<Longrightarrow> visit dec f rows = Ok (visited f xs)"
  by (induction rows xs rule: list_all2_induct) auto

lemma list_all2_filter_map:
  assumes "list_all2 (\<lambda>(k, p, v) q. k = key q \<and> p = par q \<and> dec k v = Ok (g q)) rows qs"
  shows "list_all2 (\<lambda>(k, v) x. dec k v = Ok x) [(k, v). (k, p, v) \<leftarrow> rows, p = z]
    (map g (filter (\<lambda>q. par q = z) qs))"
  using assms by (induction rows qs rule: list_all2_induct) auto

lemma list_all2_rows_map:
  assumes "list_all2 (\<lambda>(k, p, v) q. k = key q \<and> p = par q \<and> dec k v = Ok (g q)) rows qs"
  shows "list_all2 (\<lambda>(k, v) x. dec k v = Ok x) (map (\<lambda>(k, _, v). (k, v)) rows) (map g qs)"
  using assms by (induction rows qs rule: list_all2_induct) auto

theorem children_refines:
  assumes env: "env_ok P C K S" and rep: "index_rep P C K S m d" and q: "q \<in> S"
  shows "spec (children P C K q f) d (\<lambda>x d'. d' = d \<and>
    (\<exists>rs. distinct rs \<and> set rs = {r \<in> ran m. parent_of (ir_path r) = q} \<and> x = visited f rs))"
proof -
  from env have S: "paths_ok P K S" by (simp add: env_ok_def)
  define key where "key = index_key P (keying_key K)"
  note map' = index_repD(1) [OF rep]
  obtain ps where ps: "distinct ps" "set ps = dom m"
    "list_all2 (\<lambda>(k, p, v) q. k = key q \<and> p = key (parent_of q) \<and>
       decode P C (enc_key K) k v = Ok (the (m q))) (db_records d) ps"
    by (rule records_rep_rows [OF index_repD(2) [OF rep] S map', folded key_def], rule that)
  define sel where "sel = filter (\<lambda>p. key (parent_of p) = key q) ps"
  have "key (parent_of p) = key q \<longleftrightarrow> parent_of p = q" if "p \<in> dom m" for p
  proof -
    have "p \<in> S" using that map' by (auto simp: map_ok_def)
    then show ?thesis unfolding key_def by (intro paths_okD(1) [OF S _ q] paths_okD(2) [OF S])
  qed
  then have sel: "set sel = {p \<in> dom m. parent_of p = q}" "distinct sel"
    using ps(1,2) by (auto simp: sel_def)
  have path: "ir_path (the (m p)) = p" if "p \<in> dom m" for p
    using that map' by (auto simp: map_ok_def)
  have "inj_on (\<lambda>p. the (m p)) (dom m)" using path by (rule inj_on_inverseI)
  then have "distinct (map (\<lambda>p. the (m p)) sel)"
    unfolding distinct_map using sel by (auto intro: inj_on_subset)
  moreover have "set (map (\<lambda>p. the (m p)) sel) = {r \<in> ran m. parent_of (ir_path r) = q}"
  proof -
    have "parent_of (ir_path r) = q \<and> r \<in> ran m \<longleftrightarrow> (\<exists>p \<in> set sel. r = the (m p))" for r
    proof
      assume r: "parent_of (ir_path r) = q \<and> r \<in> ran m"
      then obtain p where p: "m p = Some r" by (auto simp: ran_def)
      with path [of p] r have "p \<in> set sel" unfolding sel(1) by auto
      with p show "\<exists>p \<in> set sel. r = the (m p)" by force
    next
      assume "\<exists>p \<in> set sel. r = the (m p)"
      then obtain p where "p \<in> dom m" "parent_of p = q" "r = the (m p)" unfolding sel(1) by blast
      with path [of p] show "parent_of (ir_path r) = q \<and> r \<in> ran m" by (auto intro: ranI)
    qed
    then show ?thesis by auto
  qed
  moreover have "visit (decode P C (enc_key K)) f [(k, v). (k, p, v) \<leftarrow> db_records d, p = key q]
      = Ok (visited f (map (\<lambda>p. the (m p)) sel))"
    unfolding sel_def by (rule visit_good [OF list_all2_filter_map [OF ps(3)]])
  ultimately show ?thesis
    unfolding children_def Let_def key_def [symmetric]
    by (intro spec_bind spec_query spec_lift) auto
qed

theorem all_refines:
  assumes env: "env_ok P C K S" and rep: "index_rep P C K S m d"
  shows "spec (all_records P C K) d (\<lambda>rs d'. d' = d \<and> distinct rs \<and> set rs = ran m)"
proof -
  from env have S: "paths_ok P K S" by (simp add: env_ok_def)
  note map' = index_repD(1) [OF rep]
  define rows where "rows = sort_key fst (db_records d)"
  have "distinct (map fst rows)"
  proof -
    have "distinct (map fst (db_records d))" using index_repD(2) [OF rep] by (simp add: records_rep_def)
    then show ?thesis by (simp add: rows_def distinct_map)
  qed
  then have rows: "records_rep P C K m rows"
    using index_repD(2) [OF rep] by (simp add: records_rep_def rows_def)
  obtain ps where ps: "distinct ps" "set ps = dom m"
    "list_all2 (\<lambda>(k, p, v) q. k = index_key P (keying_key K) q \<and>
       p = index_key P (keying_key K) (parent_of q) \<and> decode P C (enc_key K) k v = Ok (the (m q))) rows ps"
    by (rule records_rep_rows [OF rows S map'], rule that)
  have "list_all2 (\<lambda>(k, v) x. decode P C (enc_key K) k v = Ok x) (map (\<lambda>(k, _, v). (k, v)) rows)
      (map (\<lambda>p. the (m p)) ps)"
    by (rule list_all2_rows_map [OF ps(3)])
  then have "visit (decode P C (enc_key K)) (\<lambda>_. True) (map (\<lambda>(k, _, v). (k, v)) rows)
      = Ok (map (\<lambda>p. the (m p)) ps)"
    by (simp add: visit_good)
  moreover have "ir_path (the (m p)) = p" if "p \<in> dom m" for p
    using that map' by (auto simp: map_ok_def)
  then have "inj_on (\<lambda>p. the (m p)) (dom m)" by (rule inj_on_inverseI)
  then have "distinct (map (\<lambda>p. the (m p)) ps)"
    using ps by (simp add: distinct_map)
  moreover have "set (map (\<lambda>p. the (m p)) ps) = ran m"
    using ps(2) by (force simp: ran_def)
  ultimately show ?thesis
    unfolding all_records_def for_each_def rows_def by (intro spec_bind spec_query spec_lift) auto
qed

theorem child_dirs_refines:
  assumes env: "env_ok P C K S" and rep: "index_rep P C K S m d" and q: "q \<in> S"
  shows "spec (child_dirs P K q f) d (\<lambda>x d'. d' = d \<and>
    (\<exists>ds. distinct ds \<and> set ds = {e. parent_of e = q \<and> (\<exists>p \<in> dom m. e \<in> set (ancestors_of p))} \<and>
       x = visited f ds))"
proof -
  from env have S: "paths_ok P K S" by (simp add: env_ok_def)
  define key where "key = index_key P (keying_key K)"
  note rows = index_repD(3) [OF rep]
  have fin: "finite (dom m)" and sub: "\<And>p. p \<in> dom m \<Longrightarrow> set (ancestors_of p) \<subseteq> S"
    using index_repD(1) [OF rep] ancestors_in [OF S] by (auto simp: map_ok_def)
  define sel where "sel = [(k, v). (k, p, v, _) \<leftarrow> db_dirs d, p = key q]"
  have row: "\<exists>e \<in> S. k = key e \<and> parent_of e = q \<and> decode_dir P (enc_key K) k v = Ok e \<and> 0 < below m e"
    if kv: "(k, v) \<in> set sel" for k v
  proof -
    from kv obtain n where "(k, key q, v, n) \<in> set (db_dirs d)" by (auto simp: sel_def split: if_splits)
    with rows obtain e where e: "e \<in> S" "k = key e" "key q = key (parent_of e)"
      "aead_decrypt P (enc_key K) v k = Ok e" "0 < below m e"
      unfolding dirs_rep_def key_def by fastforce
    moreover from this have "parent_of e = q"
      using paths_okD(1) [OF S q paths_okD(2) [OF S e(1)]] by (simp add: key_def)
    ultimately show ?thesis using paths_okD(4) [OF S e(1)] by (auto simp: decode_dir_def)
  qed
  then have "\<forall>x \<in> set sel. \<exists>e. e \<in> S \<and> fst x = key e \<and> parent_of e = q \<and>
      decode_dir P (enc_key K) (fst x) (snd x) = Ok e \<and> 0 < below m e" by fastforce
  then obtain g where g: "\<And>x. x \<in> set sel \<Longrightarrow> g x \<in> S \<and> fst x = key (g x) \<and> parent_of (g x) = q \<and>
      decode_dir P (enc_key K) (fst x) (snd x) = Ok (g x) \<and> 0 < below m (g x)" by metis
  have visit: "visit (decode_dir P (enc_key K)) f sel = Ok (visited f (map g sel))"
    using g by (intro visit_good) (auto simp: list_all2_conv_all_nth split: prod.splits dest!: nth_mem)
  have keys: "map fst sel = map key (map g sel)" using g by simp
  have "distinct (map fst sel)"
  proof -
    have "map fst [(k, v). (k, p, v, _) \<leftarrow> rows, p = key q] = map fst (filter (\<lambda>(k, p, v, n). p = key q) rows)"
      for rows :: "(bytes \<times> bytes \<times> bytes \<times> int) list"
      by (induction rows) auto
    then have "map fst sel = map fst (filter (\<lambda>(k, p, v, n). p = key q) (db_dirs d))"
      by (simp only: sel_def)
    moreover have "distinct (map fst (db_dirs d))" using rows by (simp add: dirs_rep_def)
    ultimately show ?thesis by (simp add: distinct_map_filter)
  qed
  then have "distinct (map g sel)" unfolding keys by (simp only: distinct_map)
  moreover have "set (map g sel) = {e. parent_of e = q \<and> (\<exists>p \<in> dom m. e \<in> set (ancestors_of p))}"
  proof (intro equalityI subsetI)
    fix e assume "e \<in> set (map g sel)"
    then show "e \<in> {e. parent_of e = q \<and> (\<exists>p \<in> dom m. e \<in> set (ancestors_of p))}"
      using g by (auto simp: below_pos_iff [OF fin])
  next
    fix e assume "e \<in> {e. parent_of e = q \<and> (\<exists>p \<in> dom m. e \<in> set (ancestors_of p))}"
    then have e: "parent_of e = q" "e \<in> S" "0 < below m e"
      using sub by (auto simp: below_pos_iff [OF fin])
    then have "key e \<in> fst ` set (db_dirs d)" using rows by (simp add: dirs_rep_def key_def)
    then obtain p v n where x: "(key e, p, v, n) \<in> set (db_dirs d)" by force
    with rows obtain e' where "e' \<in> S" "key e = key e'" "p = key (parent_of e')"
      unfolding dirs_rep_def key_def by fastforce
    then have "p = key q"
      using paths_okD(1) [OF S e(2), of e'] e(1) by (simp add: key_def)
    with x have "(key e, v) \<in> set sel" by (force simp: sel_def)
    moreover from g [OF this] have "g (key e, v) = e"
      using paths_okD(1) [OF S e(2), of "g (key e, v)"] by (simp add: key_def)
    ultimately show "e \<in> set (map g sel)" by force
  qed
  ultimately have "\<exists>ds. distinct ds \<and> set ds = {e. parent_of e = q \<and> (\<exists>p \<in> dom m. e \<in> set (ancestors_of p))} \<and>
      visited f (map g sel) = visited f ds" by blast
  then show ?thesis
    unfolding child_dirs_def Let_def key_def [symmetric]
    by (intro spec_bind spec_query, fold sel_def, intro spec_lift [OF visit] conjI refl)
qed

section \<open>Migration\<close>

text \<open>A database of version 0: records under the right keys, no parents, no directories, no totals.\<close>

definition old_rep :: "prims \<Rightarrow> postcard \<Rightarrow> index_keys \<Rightarrow> str set \<Rightarrow> index_map \<Rightarrow> db \<Rightarrow> bool" where
  "old_rep P C K S m d \<longleftrightarrow> map_ok S m \<and> distinct (map fst (db_records d)) \<and>
     (\<forall>(k, _, v) \<in> set (db_records d). \<exists>q r. m q = Some r \<and> k = index_key P (keying_key K) q \<and>
        decode P C (enc_key K) k v = Ok r) \<and>
     (\<forall>q \<in> dom m. index_key P (keying_key K) q \<in> fst ` set (db_records d)) \<and>
     db_dirs d = [] \<and> db_user_version d = 0"

text \<open>What is carried counts the directories of the records read so far and their totals.\<close>

definition carried_rep :: "prims \<Rightarrow> bytes \<Rightarrow> str set \<Rightarrow> (str \<Rightarrow> nat) \<Rightarrow> (bytes \<times> migrated_dir) list \<Rightarrow> bool" where
  "carried_rep P kk S R dirs \<longleftrightarrow> distinct (map fst dirs) \<and>
     (\<forall>(k, e) \<in> set dirs. \<exists>q \<in> S. k = index_key P kk q \<and> md_path e = q \<and>
        md_parent e = index_key P kk (parent_of q) \<and> md_refs e = R q \<and> 0 < R q) \<and>
     (\<forall>q \<in> S. 0 < R q \<longrightarrow> index_key P kk q \<in> fst ` set dirs)"

lemma absorb_dir_rep:
  assumes rep: "carried_rep P kk S R dirs" and inj: "inj_on (index_key P kk) S" and q: "q \<in> S"
  shows "carried_rep P kk S (R(q := R q + 1)) (absorb_dir P kk q dirs)"
proof -
  define key where "key = index_key P kk"
  have inj': "key q' = key q \<longleftrightarrow> q' = q" if "q' \<in> S" for q'
    using inj that q by (auto simp: inj_on_def key_def)
  have d: "distinct (map fst dirs)" using rep by (simp add: carried_rep_def)
  define e' where "e' = \<lparr>md_path = q, md_parent = key (parent_of q), md_refs = R q + 1\<rparr>"
  have "absorb_dir P kk q dirs = AList.update (key q) e' dirs"
  proof (cases "map_of dirs (key q)")
    case None
    then have "key q \<notin> fst ` set dirs" by (simp add: map_of_eq_None_iff)
    then have "R q = 0" using rep q by (auto simp: carried_rep_def key_def)
    then show ?thesis using None by (simp add: absorb_dir_def Let_def e'_def flip: key_def)
  next
    case (Some e)
    then have "(key q, e) \<in> set dirs" by (rule map_of_SomeD)
    then obtain q' where "q' \<in> S" "key q = key q'" "md_path e = q'" "md_parent e = key (parent_of q')" "md_refs e = R q'"
      using rep unfolding carried_rep_def key_def by blast
    then show ?thesis
      using Some inj' [of q'] by (cases e) (simp add: absorb_dir_def Let_def e'_def flip: key_def)
  qed
  then have set': "set (absorb_dir P kk q dirs) = insert (key q, e') {y \<in> set dirs. fst y \<noteq> key q}"
    and dist: "distinct (map fst (absorb_dir P kk q dirs))"
    using set_update_distinct [OF d] distinct_update [OF d] by simp_all
  show ?thesis
    unfolding carried_rep_def key_def [symmetric]
  proof (intro conjI ballI impI dist)
    show "case x of (k, e) \<Rightarrow> \<exists>qa \<in> S. k = key qa \<and> md_path e = qa \<and> md_parent e = key (parent_of qa) \<and>
        md_refs e = (R(q := R q + 1)) qa \<and> 0 < (R(q := R q + 1)) qa"
      if x: "x \<in> set (absorb_dir P kk q dirs)" for x
    proof (cases "x = (key q, e')")
      case True
      then show ?thesis using q by (auto simp: e'_def)
    next
      case False
      with x have "x \<in> set dirs" "fst x \<noteq> key q" unfolding set' by auto
      then obtain k e where ke: "x = (k, e)" "(k, e) \<in> set dirs" "k \<noteq> key q" by (metis fst_conv surj_pair)
      then obtain qa where "qa \<in> S" "k = key qa" "md_path e = qa" "md_parent e = key (parent_of qa)"
        "md_refs e = R qa" "0 < R qa"
        using rep unfolding carried_rep_def key_def by blast
      with ke show ?thesis by auto
    qed
    show "key qa \<in> fst ` set (absorb_dir P kk q dirs)" if "qa \<in> S" "0 < (R(q := R q + 1)) qa" for qa
    proof (cases "qa = q")
      case False
      with that rep have "key qa \<in> fst ` set dirs" "key qa \<noteq> key q"
        using inj' by (auto simp: carried_rep_def key_def)
      then show ?thesis unfolding set' by force
    qed (simp add: set')
  qed
qed

lemma absorb_dirs_rep:
  assumes "carried_rep P kk S R dirs" "inj_on (index_key P kk) S" "set qs \<subseteq> S" "distinct qs"
  shows "carried_rep P kk S (\<lambda>q. R q + (if q \<in> set qs then 1 else 0)) (fold (absorb_dir P kk) qs dirs)"
  using assms
proof (induction qs arbitrary: R dirs)
  case (Cons q qs)
  have eq: "(\<lambda>x. (R(q := R q + 1)) x + (if x \<in> set qs then 1 else 0))
      = (\<lambda>x. R x + (if x \<in> set (q # qs) then 1 else 0))"
    using Cons.prems(4) by auto
  have "carried_rep P kk S (R(q := R q + 1)) (absorb_dir P kk q dirs)"
    using Cons.prems by (intro absorb_dir_rep) auto
  from Cons.IH [OF this] Cons.prems show ?case unfolding eq by simp
qed simp

lemma fits_mono:
  assumes "fits m" "m' \<subseteq>\<^sub>m m" "finite (dom m)"
  shows "fits m'"
proof -
  have dom: "dom m' \<subseteq> dom m" and eq: "\<And>p. p \<in> dom m' \<Longrightarrow> m p = m' p"
    using assms(2) by (auto simp: map_le_def dom_def)
  have "card (dom m') \<le> card (dom m)" by (rule card_mono [OF assms(3) dom])
  moreover have "measured_sum m' \<le> measured_sum m"
  proof -
    have "measured_sum m' = (\<Sum>p \<in> {p \<in> dom m'. \<not> ir_unmeasured (the (m p))}. unat (ir_size (the (m p))))"
      unfolding measured_sum_def by (intro sum.cong Collect_cong conj_cong refl) (simp_all add: eq)
    also have "\<dots> \<le> measured_sum m"
      unfolding measured_sum_def using dom assms(3) by (intro sum_mono2) auto
    finally show ?thesis .
  qed
  ultimately show ?thesis using assms(1) by (simp add: fits_def)
qed

definition carries :: "prims \<Rightarrow> index_keys \<Rightarrow> str set \<Rightarrow> index_map \<Rightarrow> carried \<Rightarrow> bool" where
  "carries P K S m c \<longleftrightarrow> carried_rep P (keying_key K) S (below m) (ca_dirs c) \<and> totals_match m (ca_totals c)"

lemma absorb_carries:
  assumes c: "carries P K S m c" and S: "paths_ok P K S" and m: "finite (dom m)" "m (ir_path r) = None"
    and r: "ir_path r \<in> S" "fits (m(ir_path r \<mapsto> r))"
  shows "carries P K S (m(ir_path r \<mapsto> r)) (absorb P (keying_key K) r c)"
  using absorb_dirs_rep [of P "keying_key K" S "below m" "ca_dirs c" "ancestors_of (ir_path r)"]
    totals_match_plus [OF _ m r(2), of "ca_totals c"] c S ancestors_in [OF S r(1)] distinct_ancestors_of
  by (simp add: carries_def absorb_def below_upd [OF m] paths_ok_def)

lemma rewrite_rows_carries:
  assumes S: "paths_ok P K S" and m: "map_ok S m" "fits m"
    and rows: "list_all2 (\<lambda>(k, v) q. k = index_key P (keying_key K) q \<and> decode P C (enc_key K) k v = Ok (the (m q))) rows ps"
    and ps: "distinct ps" "set ps \<subseteq> dom m"
    and c: "carries P K S m0 c" "m0 \<subseteq>\<^sub>m m" "dom m0 \<inter> set ps = {}"
  shows "\<exists>c'. rewrite_rows P C K rows out c = Ok (out @ map2 (\<lambda>(k, v) q. (k, index_key P (keying_key K) (parent_of q), v)) rows ps, c') \<and>
    carries P K S (m0 ++ (m |` set ps)) c'"
  using rows ps c
proof (induction rows ps arbitrary: out c m0 rule: list_all2_induct)
  case Nil
  then show ?case by simp
next
  case (Cons x rows q ps)
  obtain k v where x: "x = (k, v)" by fastforce
  obtain r where r: "m q = Some r" using Cons.prems(2) by auto
  then have path: "ir_path r = q" "q \<in> S" using m(1) by (auto simp: map_ok_def)
  have dec: "decode P C (enc_key K) k v = Ok r"
    using Cons.hyps(1) r unfolding x prod.case by (elim conjE) (simp only: option.sel)
  have le: "m0(q \<mapsto> r) \<subseteq>\<^sub>m m" using Cons.prems(4) r by (auto simp: map_le_def)
  have fin: "finite (dom m)" using m(1) by (simp add: map_ok_def)
  then have fin0: "finite (dom m0)"
    using Cons.prems(4) by (metis finite_subset map_le_implies_dom_le)
  have carr: "carries P K S (m0(q \<mapsto> r)) (absorb P (keying_key K) r c)"
    using absorb_carries [OF Cons.prems(3) S fin0, of r] fits_mono [OF m(2) le fin] Cons.prems(5) path
    by (auto simp: domIff)
  have disj: "dom (m0(q \<mapsto> r)) \<inter> set ps = {}"
    using Cons.prems(1,5) by auto
  have eq: "m0(q \<mapsto> r) ++ (m |` set ps) = m0 ++ (m |` set (q # ps))"
    using r Cons.prems(1) by (auto simp: map_add_def restrict_map_def fun_eq_iff split: option.splits)
  have "\<exists>c'. rewrite_rows P C K rows (out @ [(k, index_key P (keying_key K) (parent_of q), v)])
        (absorb P (keying_key K) r c)
      = Ok ((out @ [(k, index_key P (keying_key K) (parent_of q), v)])
          @ map2 (\<lambda>(k, v) q. (k, index_key P (keying_key K) (parent_of q), v)) rows ps, c') \<and>
      carries P K S (m0 ++ (m |` set (q # ps))) c'"
    unfolding eq [symmetric] by (rule Cons.IH [OF _ _ carr le disj]) (use Cons.prems(1,2) in simp_all)
  then show ?case by (simp add: x dec path Let_def)
qed

lemma insert_dirs_spec:
  assumes env: "env_ok P C K S" and rows: "dirs_rep P K S R0 (db_dirs d)"
    and es: "\<forall>(k, e) \<in> set es. \<exists>q \<in> S. k = index_key P (keying_key K) q \<and> md_path e = q \<and>
        md_parent e = index_key P (keying_key K) (parent_of q) \<and> md_refs e = R q \<and> 0 < R q"
  shows "spec (insert_dirs P K es) d (\<lambda>_ d'. \<exists>rows'. d' = d\<lparr>db_dirs := rows'\<rparr> \<and>
    dirs_rep P K S (\<lambda>q. if q \<in> S \<and> index_key P (keying_key K) q \<in> fst ` set es then R q else R0 q) rows')"
  using rows es
proof (induction es arbitrary: R0 d)
  case Nil
  then show ?case by (simp only: insert_dirs.simps) (intro spec_return exI [of _ "db_dirs d"], simp)
next
  case (Cons x es)
  from env have P: "cipher_ok P" "length (enc_key K) = 32" and S: "paths_ok P K S"
    by (simp_all add: env_ok_def)
  define key where "key = index_key P (keying_key K)"
  obtain k e where x: "x = (k, e)" by fastforce
  with Cons.prems(2) obtain q where q: "q \<in> S" "k = key q" "md_path e = q" "md_parent e = key (parent_of q)"
    "md_refs e = R q" "0 < R q" by (auto simp: key_def)
  have d: "distinct (map fst (db_dirs d))" using Cons.prems(1) by (simp add: dirs_rep_def)
  note look = dirs_rep_lookup [OF Cons.prems(1) S q(1), folded key_def]
  have upd: "dirs_rep P K S (R0(q := R q))
      (AList.update (key q) (key (parent_of q), v, int (R q)) (db_dirs d))"
    if "aead_decrypt P (enc_key K) v (key q) = Ok q" for v
    using dirs_rep_set [OF Cons.prems(1) S q(1) distinct_update [OF d], of "key q" "(key (parent_of q), v, int (R q))" "R q" v]
      set_update_distinct [OF d] that q(6) by (simp add: key_def)
  have eq: "(\<lambda>x. if x \<in> S \<and> key x \<in> fst ` set es then R x else (R0(q := R q)) x)
      = (\<lambda>x. if x \<in> S \<and> key x \<in> fst ` set ((k, e) # es) then R x else R0 x)"
    using paths_okD(1) [OF S _ q(1)] q(1,2) by (auto simp: key_def fun_eq_iff)
  have step: "spec (insert_dirs P K es) d1 (\<lambda>_ d'. \<exists>rows'. d' = d\<lparr>db_dirs := rows'\<rparr> \<and>
      dirs_rep P K S (\<lambda>x. if x \<in> S \<and> key x \<in> fst ` set ((k, e) # es) then R x else R0 x) rows')"
    if "d1 = d\<lparr>db_dirs := rows1\<rparr>" "dirs_rep P K S (R0(q := R q)) rows1" for d1 rows1
  proof -
    have "spec (insert_dirs P K es) d1 (\<lambda>_ d'. \<exists>rows'. d' = d1\<lparr>db_dirs := rows'\<rparr> \<and>
        dirs_rep P K S (\<lambda>x. if x \<in> S \<and> key x \<in> fst ` set es then R x else (R0(q := R q)) x) rows')"
      unfolding key_def by (rule Cons.IH) (use that Cons.prems(2) in \<open>auto simp: fun_upd_def\<close>)
    then show ?thesis unfolding eq that(1) by simp
  qed
  show ?case
    unfolding x insert_dirs.simps q(3) key_def [symmetric]
  proof (intro spec_bind spec_seal_value [OF P] spec_execute)
    show "length q < 2 ^ 32" using paths_okD(5) [OF S q(1)] .
    fix v assume v: "aead_decrypt P (enc_key K) v k = Ok q"
    show "spec (insert_dirs P K es) (db_dirs_update (\<lambda>rows. case map_of rows k of
          None \<Rightarrow> AList.update k (md_parent e, v, int (md_refs e)) rows
        | Some (parent', v', _) \<Rightarrow> AList.update k (parent', v', int (md_refs e)) rows) d)
      (\<lambda>_ d'. \<exists>rows'. d' = d\<lparr>db_dirs := rows'\<rparr> \<and>
        dirs_rep P K S (\<lambda>x. if x \<in> S \<and> key x \<in> fst ` set ((k, e) # es) then R x else R0 x) rows')"
    proof (cases "map_of (db_dirs d) (key q)")
      case None
      then show ?thesis
        using v q by (intro step [OF _ upd [of v]]) (cases d, simp_all)
    next
      case (Some y)
      then obtain v' where "y = (key (parent_of q), v', int (R0 q))" "aead_decrypt P (enc_key K) v' (key q) = Ok q"
        using look by (cases y) auto
      then show ?thesis
        using Some q by (intro step [OF _ upd [of v']]) (cases d, simp_all)
    qed
  qed
qed

text \<open>
  Migration of a database of version 0 makes the tables represent the same map, and a second run
  changes nothing.
\<close>

theorem migrate_refines:
  assumes env: "env_ok P C K S" and old: "old_rep P C K S m d" and fits: "fits m"
  shows "spec (migrate P C K) d (\<lambda>_. index_rep P C K S m)"
proof -
  from env have S: "paths_ok P K S" by (simp add: env_ok_def)
  define key where "key = index_key P (keying_key K)"
  from old have m: "map_ok S m" and dist: "distinct (map fst (db_records d))"
    and good: "\<forall>(k, _, v) \<in> set (db_records d). \<exists>q r. m q = Some r \<and> k = key q \<and> decode P C (enc_key K) k v = Ok r"
    and all: "\<forall>q \<in> dom m. key q \<in> fst ` set (db_records d)"
    and dirs: "db_dirs d = []" and ver: "db_user_version d = 0"
    by (simp_all add: old_rep_def key_def)
  have fin: "finite (dom m)" using m by (simp add: map_ok_def)
  define new where "new = map (\<lambda>(k, _, v). (k, key (parent_of (ir_path (case decode P C (enc_key K) k v of Ok r \<Rightarrow> r))), v)) (db_records d)"
  have keys: "map fst new = map fst (db_records d)" by (auto simp: new_def)
  have newrep: "records_rep P C K m new"
    unfolding records_rep_def key_def [symmetric]
  proof (intro conjI ballI)
    show "distinct (map fst new)" using dist by (simp add: keys)
    show "key q \<in> fst ` set new" if "q \<in> dom m" for q
      using all that keys by (metis image_set)
    show "case x of (k, p, v) \<Rightarrow> \<exists>q r. m q = Some r \<and> k = key q \<and> p = key (parent_of q) \<and>
        decode P C (enc_key K) k v = Ok r" if x: "x \<in> set new" for x
    proof -
      from x obtain k p0 v where y: "(k, p0, v) \<in> set (db_records d)"
        "x = (k, key (parent_of (ir_path (case decode P C (enc_key K) k v of Ok r \<Rightarrow> r))), v)"
        by (auto simp: new_def)
      then obtain q r where "m q = Some r" "k = key q" "decode P C (enc_key K) k v = Ok r"
        using good by blast
      moreover from this have "ir_path r = q" using m by (auto simp: map_ok_def)
      ultimately show ?thesis using y(2) by auto
    qed
  qed
  obtain ps where ps: "distinct ps" "set ps = dom m"
    "list_all2 (\<lambda>(k, p, v) q. k = key q \<and> p = key (parent_of q) \<and> decode P C (enc_key K) k v = Ok (the (m q))) new ps"
    by (rule records_rep_rows [OF newrep S m, folded key_def], rule that)
  define kvs where "kvs = map (\<lambda>(k, _, v). (k, v)) (db_records d)"
  have kvs: "kvs = map (\<lambda>(k, _, v). (k, v)) new" by (auto simp: kvs_def new_def)
  have rows: "list_all2 (\<lambda>(k, v) q. k = key q \<and> decode P C (enc_key K) k v = Ok (the (m q))) kvs ps"
    using ps(3) unfolding kvs by (induction new ps rule: list_all2_induct) auto
  have out: "map2 (\<lambda>(k, v) q. (k, key (parent_of q), v)) kvs ps = new"
    using ps(3) unfolding kvs by (induction new ps rule: list_all2_induct) auto
  define c0 where "c0 = \<lparr>ca_dirs = [], ca_totals = totals_default\<rparr>"
  have "carries P K S Map.empty c0"
    by (simp add: carries_def carried_rep_def c0_def totals_match_def totals_default_def below_def measured_sum_def)
  moreover have "Map.empty ++ (m |` set ps) = m"
    by (auto simp: ps(2) restrict_map_def fun_eq_iff domIff)
  ultimately obtain c where c: "rewrite_rows P C K kvs [] c0 = Ok (new, c)" "carries P K S m c"
    using rewrite_rows_carries [OF S m fits rows [unfolded key_def] ps(1), of Map.empty c0 "[]"] ps(2)
      out [unfolded key_def] by auto
  define d1 where "d1 = d\<lparr>db_records := new\<rparr>"
  have dirs': "dirs_rep P K S (\<lambda>_. 0) (db_dirs d1)" by (simp add: d1_def dirs dirs_rep_def)
  have carried: "\<forall>(k, e) \<in> set (ca_dirs c). \<exists>q \<in> S. k = index_key P (keying_key K) q \<and> md_path e = q \<and>
      md_parent e = index_key P (keying_key K) (parent_of q) \<and> md_refs e = below m q \<and> 0 < below m q"
    "\<forall>q \<in> S. 0 < below m q \<longrightarrow> index_key P (keying_key K) q \<in> fst ` set (ca_dirs c)"
    using c(2) by (simp_all add: carries_def carried_rep_def)
  have R: "dirs_rep P K S (\<lambda>q. if q \<in> S \<and> index_key P (keying_key K) q \<in> fst ` set (ca_dirs c)
      then below m q else 0) rows' \<Longrightarrow> dirs_rep P K S (below m) rows'" for rows'
    using carried(2) unfolding dirs_rep_def by (auto split: if_splits)
  have finish: "spec (io_bind (insert_dirs P K (ca_dirs c)) (\<lambda>_.
        io_bind (execute (db_user_version_update (\<lambda>_. SCHEMA_VERSION))) (\<lambda>_. io_return ((), True)))) d2
      (\<lambda>(x, committed) d'. index_rep P C K S m (if committed then d' else d))"
    if d2: "d2 = d1\<lparr>db_totals := row\<rparr>" "totals_row P C K row (ca_totals c)" for d2 row
  proof -
    have "dirs_rep P K S (\<lambda>_. 0) (db_dirs d2)" using dirs' d2 by simp
    note ins = insert_dirs_spec [OF env this carried(1)]
    show ?thesis
      by (rule spec_bind, rule spec_weaken [OF ins], elim exE conjE, rule spec_bind, rule spec_execute,
          rule spec_return, drule R)
        (use d2 m newrep c(2) in \<open>auto simp: index_rep_def d1_def carries_def\<close>)
  qed
  have rewrite: "spec (rewrite_with_parents P C K) d (\<lambda>x d'. x = c \<and> d' = d1)"
    unfolding rewrite_with_parents_def
    by (rule spec_bind, rule spec_query, fold kvs_def c0_def, rule spec_bind, rule spec_lift [OF c(1)],
        simp only: prod.case, rule spec_bind, rule spec_execute, rule spec_return) (simp add: d1_def)
  have "spec (transaction (io_bind (rewrite_with_parents P C K) (\<lambda>carried.
       io_bind (write_totals P C K (ca_totals carried)) (\<lambda>_.
       io_bind (insert_dirs P K (ca_dirs carried)) (\<lambda>_.
       io_bind (execute (db_user_version_update (\<lambda>_. SCHEMA_VERSION))) (\<lambda>_.
       io_return ((), True))))))) d (\<lambda>_. index_rep P C K S m)"
    by (rule spec_transaction, rule spec_bind, rule spec_weaken [OF rewrite], elim conjE, hypsubst,
        rule spec_bind, rule spec_weaken [OF write_totals_spec [OF env]], elim exE conjE, rule finish)
  then show ?thesis
    unfolding migrate_def by (intro spec_bind spec_query) (simp add: ver)
qed

text \<open>A current database is not migrated again.\<close>

theorem migrate_idle:
  assumes "index_rep P C K S m d"
  shows "spec (migrate P C K) d (\<lambda>_ d'. d' = d)"
  unfolding migrate_def using index_repD(5) [OF assms]
  by (intro spec_bind spec_query) (auto intro: spec_return)

end
