(* ===== verification/Store_Logic.thy ===== *)
theory Store_Logic
  imports Store Index_Refinement
begin

text \<open>
  A calculus for computations of the vault, on top of the one for the index: what they do to the
  objects and the tables, on success and on failure, when an error can only come from a call or a
  statement that failed.
\<close>

section \<open>Specifications\<close>

type_synonym shelf = "(str \<times> bytes) list \<times> db"

definition shelf :: "world \<Rightarrow> shelf" where
  "shelf w = (w_objects w, c_db (w_index w))"

definition noisy :: "world \<Rightarrow> bool" where
  "noisy w \<longleftrightarrow> (\<exists>n. w_faults w n \<noteq> None) \<or> (\<exists>n. c_faults (w_index w) n)"

definition later_world :: "world \<Rightarrow> world \<Rightarrow> bool" where
  "later_world w w' \<longleftrightarrow> (\<exists>k. w_faults w' = (\<lambda>n. w_faults w (n + k))) \<and> later (w_index w) (w_index w')"

text \<open>
  A computation meets a specification when, from every world with the objects and tables \<open>d\<close>, it ends in
  a value and a state that satisfy \<open>Q\<close>, or in an error and a state that satisfies \<open>R\<close>.
\<close>

definition vspec :: "'a vio \<Rightarrow> shelf \<Rightarrow> ('a \<Rightarrow> shelf \<Rightarrow> bool) \<Rightarrow> (shelf \<Rightarrow> bool) \<Rightarrow> bool" where
  "vspec m d Q R \<longleftrightarrow> (\<forall>w. shelf w = d \<longrightarrow> (case m w of
     (Ok x, w') \<Rightarrow> Q x (shelf w') \<and> later_world w w'
   | (Err e, w') \<Rightarrow> R (shelf w') \<and> noisy w))"

lemma later_world_refl [simp]:
  "w_faults w' = w_faults w \<Longrightarrow> c_faults (w_index w') = c_faults (w_index w) \<Longrightarrow> later_world w w'"
  unfolding later_world_def by (auto intro: exI [of _ 0])

lemma later_world_trans: "later_world a b \<Longrightarrow> later_world b c \<Longrightarrow> later_world a c"
  unfolding later_world_def by (auto simp: add.assoc intro: later_trans)

lemma later_world_noisy: "later_world w w' \<Longrightarrow> noisy w' \<Longrightarrow> noisy w"
  unfolding later_world_def noisy_def by (auto dest: later_faults)

lemma vspec_Ok: "vspec m d Q R \<Longrightarrow> shelf w = d \<Longrightarrow> m w = (Ok x, w') \<Longrightarrow> Q x (shelf w') \<and> later_world w w'"
  by (auto simp: vspec_def)

lemma vspec_Err: "vspec m d Q R \<Longrightarrow> shelf w = d \<Longrightarrow> m w = (Err e, w') \<Longrightarrow> R (shelf w') \<and> noisy w"
  by (auto simp: vspec_def)

lemma vspec_quiet:
  assumes "vspec m (shelf w) Q R" "\<not> noisy w"
  obtains x w' where "m w = (Ok x, w')" "Q x (shelf w')" "\<not> noisy w'"
proof (cases "m w")
  case (Pair res w')
  with vspec_Ok [OF assms(1) refl] vspec_Err [OF assms(1) refl] assms(2) later_world_noisy that
  show thesis by (cases res) blast+
qed

lemma vspec_weaken:
  assumes "vspec m d Q R" "\<And>x d'. Q x d' \<Longrightarrow> Q' x d'" "\<And>d'. R d' \<Longrightarrow> R' d'"
  shows "vspec m d Q' R'"
  unfolding vspec_def
proof (intro allI impI)
  fix w :: world assume w: "shelf w = d"
  obtain res w' where m: "m w = (res, w')" by fastforce
  with vspec_Ok [OF assms(1) w] vspec_Err [OF assms(1) w] assms(2,3)
  show "case m w of (Ok x, w') \<Rightarrow> Q' x (shelf w') \<and> later_world w w'
    | (Err e, w') \<Rightarrow> R' (shelf w') \<and> noisy w"
    by (cases res) simp_all
qed

lemma vspec_return: "Q x d \<Longrightarrow> vspec (io_return x) d Q R"
  by (simp add: vspec_def)

lemma vspec_bind:
  assumes "vspec m d (\<lambda>x d'. vspec (k x) d' Q R) R"
  shows "vspec (io_bind m k) d Q R"
  unfolding vspec_def
proof (intro allI impI)
  fix w :: world assume w: "shelf w = d"
  obtain res w1 where m: "m w = (res, w1)" by fastforce
  show "case io_bind m k w of (Ok x, w') \<Rightarrow> Q x (shelf w') \<and> later_world w w'
    | (Err e, w') \<Rightarrow> R (shelf w') \<and> noisy w"
  proof (cases res)
    case (Inl e)
    then show ?thesis using vspec_Err [OF assms w, of e w1] m by (simp add: io_bind_Err)
  next
    case (Inr x)
    with m have k: "vspec (k x) (shelf w1) Q R" and l: "later_world w w1"
      using vspec_Ok [OF assms w, of x w1] by simp_all
    obtain res2 w2 where k2: "k x w1 = (res2, w2)" by fastforce
    show ?thesis
      using m Inr k2 vspec_Ok [OF k refl, of _ w2] vspec_Err [OF k refl, of _ w2]
        later_world_trans [OF l] later_world_noisy [OF l]
      by (cases res2) (auto simp: io_bind_Ok)
  qed
qed

lemma vspec_crypto: "m = Ok x \<Longrightarrow> Q x d \<Longrightarrow> vspec (from_crypto m) d Q R"
  by (simp add: vspec_return)

lemma vspec_rng:
  assumes "\<And>r. \<exists>x r'. f r = Ok (x, r') \<and> Q x d"
  shows "vspec (with_rng f) d Q R"
  unfolding vspec_def
proof (intro allI impI)
  fix w :: world assume "shelf w = d"
  moreover obtain x r' where "f (c_rng (w_index w)) = Ok (x, r')" "Q x d" using assms by blast
  ultimately show "case with_rng f w of (Ok x, w') \<Rightarrow> Q x (shelf w') \<and> later_world w w'
    | (Err e, w') \<Rightarrow> R (shelf w') \<and> noisy w"
    by (simp add: with_rng_def shelf_def)
qed

section \<open>Calls of the store\<close>

lemma vspec_call:
  assumes "fst (f objs) = Ok x" "Q x (snd (f objs), db)" "R (objs, db)" "R (snd (f objs), db)"
  shows "vspec (from_store (store_call f)) (objs, db) Q R"
  unfolding vspec_def
proof (intro allI impI)
  fix w :: world assume w: "shelf w = (objs, db)"
  obtain res w' where c: "store_call f w = (res, w')" by fastforce
  from c show "case from_store (store_call f) w of (Ok x, w') \<Rightarrow> Q x (shelf w') \<and> later_world w w'
    | (Err e, w') \<Rightarrow> R (shelf w') \<and> noisy w"
  proof (cases rule: store_call_cases)
    case (fault e landed)
    with assms(3,4) w c show ?thesis
      by (auto simp: from_store_def shelf_def noisy_def map_err_def)
  next
    case went
    have "later_world w w'"
      unfolding later_world_def went(4,5) by (auto intro: exI [of _ 1])
    with went assms(1,2) w c show ?thesis by (auto simp: from_store_def shelf_def map_err_def)
  qed
qed

text \<open>A call whose result is looked at: any error, or what the call makes of the objects.\<close>

lemma vspec_try_call:
  assumes "\<And>e. Q (Err e) (objs, db)" "\<And>e. Q (Err e) (snd (f objs), db)" "Q (fst (f objs)) (snd (f objs), db)"
  shows "vspec (io_try (store_call f)) (objs, db) Q R"
  unfolding vspec_def
proof (intro allI impI)
  fix w :: world assume w: "shelf w = (objs, db)"
  obtain res w' where c: "store_call f w = (res, w')" by fastforce
  from c show "case io_try (store_call f) w of (Ok x, w') \<Rightarrow> Q x (shelf w') \<and> later_world w w'
    | (Err e, w') \<Rightarrow> R (shelf w') \<and> noisy w"
  proof (cases rule: store_call_cases)
    case (fault e landed)
    have "later_world w w'"
      unfolding later_world_def fault(4,5) by (auto intro: exI [of _ 1])
    with fault assms(1,2) w c show ?thesis by (auto simp: io_try_def shelf_def)
  next
    case went
    have "later_world w w'"
      unfolding later_world_def went(4,5) by (auto intro: exI [of _ 1])
    with went assms(3) w c show ?thesis by (auto simp: io_try_def shelf_def)
  qed
qed

lemma vspec_get:
  "map_of objs key = Some blob \<Longrightarrow> Q blob (objs, db) \<Longrightarrow> R (objs, db) \<Longrightarrow>
    vspec (from_store (b_get key)) (objs, db) Q R"
  unfolding b_get_def by (rule vspec_call) simp_all

lemma vspec_get_range:
  "map_of objs key = Some blob \<Longrightarrow> offset \<le> length blob \<Longrightarrow>
    Q (take (case len of None \<Rightarrow> length blob - offset | Some l \<Rightarrow> min l (length blob - offset))
      (drop offset blob)) (objs, db) \<Longrightarrow> R (objs, db) \<Longrightarrow>
    vspec (from_store (b_get_range key offset len)) (objs, db) Q R"
  unfolding b_get_range_def by (rule vspec_call) (simp_all add: not_less Let_def)

lemma vspec_head_size:
  "map_of objs key = Some blob \<Longrightarrow> Q (length blob) (objs, db) \<Longrightarrow> R (objs, db) \<Longrightarrow>
    vspec (from_store (b_head_size key)) (objs, db) Q R"
  unfolding b_head_size_def by (rule vspec_call) simp_all

lemma vspec_exists:
  "Q (map_of objs key \<noteq> None) (objs, db) \<Longrightarrow> R (objs, db) \<Longrightarrow>
    vspec (from_store (b_exists key)) (objs, db) Q R"
  unfolding b_exists_def by (rule vspec_call) simp_all

lemma vspec_put:
  "Q () (AList.update key data objs, db) \<Longrightarrow> R (objs, db) \<Longrightarrow> R (AList.update key data objs, db) \<Longrightarrow>
    vspec (from_store (b_put P key data (blake3_hash P data))) (objs, db) Q R"
  unfolding b_put_def by (rule vspec_call) simp_all

lemma vspec_delete:
  "Q () (AList.delete key objs, db) \<Longrightarrow> R (objs, db) \<Longrightarrow> R (AList.delete key objs, db) \<Longrightarrow>
    vspec (from_store (b_delete key)) (objs, db) Q R"
  unfolding b_delete_def by (rule vspec_call) simp_all

lemma vspec_try_get:
  "(\<And>e. Q (Err e) (objs, db)) \<Longrightarrow> (\<And>blob. map_of objs key = Some blob \<Longrightarrow> Q (Ok blob) (objs, db)) \<Longrightarrow>
    vspec (io_try (b_get key)) (objs, db) Q R"
  unfolding b_get_def by (rule vspec_try_call) (auto simp: ok_or_def split: option.splits)

lemma vspec_try_delete:
  "(\<And>res. Q res (objs, db)) \<Longrightarrow> (\<And>res. Q res (AList.delete key objs, db)) \<Longrightarrow>
    vspec (io_try (b_delete key)) (objs, db) Q R"
  unfolding b_delete_def by (rule vspec_try_call) auto

section \<open>Statements of the index\<close>

lemma vspec_index:
  assumes "spec m db Q'" "\<And>x db'. Q' x db' \<Longrightarrow> Q x (objs, db')" "R (objs, db)"
    and "\<And>c e c'. m c = (Err e, c') \<Longrightarrow> c_db c' = c_db c"
  shows "vspec (from_index m) (objs, db) Q R"
  unfolding vspec_def
proof (intro allI impI)
  fix w :: world assume "shelf w = (objs, db)"
  then have w: "w_objects w = objs" "c_db (w_index w) = db" by (simp_all add: shelf_def)
  obtain res c' where c: "m (w_index w) = (res, c')" by fastforce
  show "case from_index m w of (Ok x, w') \<Rightarrow> Q x (shelf w') \<and> later_world w w'
    | (Err e, w') \<Rightarrow> R (shelf w') \<and> noisy w"
  proof (cases res)
    case (Inl e)
    with c spec_Err [OF assms(1) w(2), of e c'] assms(3) assms(4) [of "w_index w" e c'] w show ?thesis
      by (auto simp: from_index_def map_err_def shelf_def noisy_def)
  next
    case (Inr x)
    with c spec_Ok [OF assms(1) w(2), of x c'] assms(2) w show ?thesis
      by (auto simp: from_index_def map_err_def shelf_def later_world_def intro: exI [of _ 0])
  qed
qed

lemma get_db: "c_db (snd (get P C K p c)) = c_db c"
  by (auto simp: get_def io_bind_def query_def sql_def Let_def io_return_def io_lift_def
      split: option.splits)

end
