(* ===== verification/Vault_Restore.thy ===== *)
theory Vault_Restore
  imports Vault_Keys Store_Logic
begin

text \<open>
  \<open>dctl-core/src/vault/restore.rs\<close>: rebuilding the index from the backend. The name records are listed
  page by page; each that opens is put back into the index, with the size, the time and the hash that
  the header of its object declares, or without them when the object cannot be described.
\<close>

record rebuilt =
  rb_files :: u64
  rb_measured :: u64
  rb_unmeasured :: u64

definition rebuilt_default :: rebuilt where
  "rebuilt_default = \<lparr>rb_files = 0, rb_measured = 0, rb_unmeasured = 0\<rparr>"

record described =
  d_size :: u64
  d_modified_unix :: "u64 option"
  d_content_hash :: bytes

definition unmeasured :: described where
  "unmeasured = \<lparr>d_size = 0, d_modified_unix = None, d_content_hash = []\<rparr>"

definition describe :: "prims \<Rightarrow> vault \<Rightarrow> str \<Rightarrow> str \<Rightarrow> described vio" where
  "describe P v key path =
     io_bind (fetch_header key path) (\<lambda>(prefix, header_len).
     io_bind (from_crypto (parse_head prefix)) (\<lambda>described_head.
     io_bind (require_object_identity P key described_head) (\<lambda>_.
     io_bind (if h_kem_id described_head = KEM_ID_NONE
         then io_bind (root v) (\<lambda>k. from_crypto (range_open P k (take header_len prefix)))
       else if h_kem_id described_head = KEM_ID_HYBRID
         then io_bind (recover_object_kw P v prefix) (\<lambda>kw.
           from_crypto (range_open_with_kw P kw (take header_len prefix)))
       else io_fail unsupported_kem_id) (\<lambda>header.
     let size = h_plaintext_len (rh_head header) in
     case rh_metadata header of
       None \<Rightarrow> io_return (unmeasured\<lparr>d_size := size\<rparr>)
     | Some meta \<Rightarrow> io_return \<lparr>d_size = size, d_modified_unix = recorded_mtime meta,
         d_content_hash = m_content_blake3 meta\<rparr>))))"

text \<open>One name record. A record that does not open is skipped.\<close>

definition rebuild_item :: "prims \<Rightarrow> postcard \<Rightarrow> vault \<Rightarrow> str \<Rightarrow> rebuilt \<Rightarrow> rebuilt vio" where
  "rebuild_item P C v name_key rebuilt =
     io_bind (from_store (b_get name_key)) (\<lambda>val.
     case open_record P (v_name_keys v) (v_vault_id v) name_key val of
       Err _ \<Rightarrow> io_return rebuilt
     | Ok nr \<Rightarrow>
         let object_key = object_key_for P (nr_file_id nr) in
         io_bind (io_try (describe P v object_key (nr_path nr))) (\<lambda>got.
         let (described, rebuilt) = (case got of
               Ok described \<Rightarrow> (described, rebuilt\<lparr>rb_measured := rb_measured rebuilt + 1\<rparr>)
             | Err _ \<Rightarrow> (unmeasured, rebuilt\<lparr>rb_unmeasured := rb_unmeasured rebuilt + 1\<rparr>)) in
         io_bind (from_index (put P C (v_index v)
           \<lparr>ir_path = nr_path nr, ir_object_key = object_key, ir_size = d_size described,
            ir_modified_unix = d_modified_unix described, ir_content_hash = d_content_hash described\<rparr>)) (\<lambda>_.
         io_return (rebuilt\<lparr>rb_files := rb_files rebuilt + 1\<rparr>))))"

fun rebuild_items :: "prims \<Rightarrow> postcard \<Rightarrow> vault \<Rightarrow> str list \<Rightarrow> rebuilt \<Rightarrow> rebuilt vio" where
  "rebuild_items P C v [] rebuilt = io_return rebuilt"
| "rebuild_items P C v (item # items) rebuilt =
     io_bind (rebuild_item P C v item rebuilt) (rebuild_items P C v items)"

text \<open>
  Describing an object changes neither the objects nor the tables, whatever comes of it; the loop changes
  no object, so that each page starts after the one before.
\<close>

definition reads_only :: "'a vio \<Rightarrow> bool" where
  "reads_only m \<longleftrightarrow> (\<forall>w. shelf (snd (m w)) = shelf w \<and> later_world w (snd (m w)))"

lemma reads_onlyD: "reads_only m \<Longrightarrow> m w = (res, w') \<Longrightarrow> shelf w' = shelf w \<and> later_world w w'"
  unfolding reads_only_def by (metis snd_conv)

lemma reads_only_Pair: "reads_only (Pair x)"
  by (simp add: reads_only_def)

lemma reads_only_return: "reads_only (io_return x)"
  by (simp add: reads_only_def)

lemma reads_only_fail: "reads_only (io_fail e)"
  by (simp add: reads_only_def io_fail_def)

lemma reads_only_crypto: "reads_only (from_crypto m)"
  by (simp add: reads_only_def from_crypto_state)

lemma reads_only_bind:
  assumes "reads_only m" "\<And>x. reads_only (k x)"
  shows "reads_only (io_bind m k)"
  unfolding reads_only_def
proof
  fix w :: world
  obtain r w1 where m: "m w = (r, w1)" by fastforce
  note m' = reads_onlyD [OF assms(1) m]
  show "shelf (snd (io_bind m k w)) = shelf w \<and> later_world w (snd (io_bind m k w))"
  proof (cases r)
    case (Inl e)
    with m m' show ?thesis by (simp add: io_bind_Err)
  next
    case (Inr x)
    with m m' assms(2) [of x, unfolded reads_only_def, rule_format, of w1] show ?thesis
      by (auto simp: io_bind_Ok intro: later_world_trans)
  qed
qed

lemma reads_only_try: "reads_only m \<Longrightarrow> reads_only (io_try m)"
  unfolding reads_only_def io_try_def by (auto split: prod.splits) (metis snd_conv)+

lemma reads_only_call:
  assumes "\<And>objs. snd (f objs) = objs"
  shows "reads_only (from_store (store_call f))" "reads_only (io_try (store_call f))"
proof -
  have "shelf (snd (store_call f w)) = shelf w \<and> later_world w (snd (store_call f w))" for w
  proof -
    obtain r w1 where c: "store_call f w = (r, w1)" by fastforce
    then have "shelf w1 = shelf w \<and> later_world w w1"
      by (cases rule: store_call_cases)
        (auto simp: assms shelf_def later_world_def intro: exI [of _ 1])
    with c show ?thesis by simp
  qed
  then show "reads_only (from_store (store_call f))" "reads_only (io_try (store_call f))"
    unfolding reads_only_def from_store_def io_try_def by (auto split: prod.splits) (metis snd_conv)+
qed

lemma reads_only_get: "reads_only (from_store (b_get key))" "reads_only (io_try (b_get key))"
  unfolding b_get_def by (rule reads_only_call, simp)+

lemma reads_only_get_range: "reads_only (from_store (b_get_range key offset len))"
  unfolding b_get_range_def by (rule reads_only_call) simp

lemma reads_only_root: "reads_only (root v)"
  by (simp add: root_def reads_only_return reads_only_fail)

lemmas reads_only_intros = reads_only_Pair reads_only_return reads_only_fail reads_only_crypto reads_only_bind reads_only_get
  reads_only_get_range reads_only_root reads_only_try

lemma reads_only_probe: "reads_only (probe_header key path probes want)"
  by (induction key path probes want rule: probe_header.induct)
    (auto intro!: reads_only_intros split: header_extent.split)

lemma reads_only_identity: "reads_only (require_object_identity P key h)"
  by (auto simp: require_object_identity_def Let_def intro!: reads_only_intros split: option.split)

lemma reads_only_recover: "reads_only (recover_object_kw P v blob)"
  unfolding recover_object_kw_def recover_object_kw_parts_def Let_def
  by (auto intro!: reads_only_intros split: option.split sum.split store_error.split)

lemma reads_only_describe: "reads_only (describe P v key path)"
  unfolding describe_def fetch_header_def
  by (auto intro!: reads_only_intros reads_only_probe reads_only_identity reads_only_recover simp: Let_def split: option.split)

lemma bind_objects:
  assumes "\<And>w r w'. m w = (r, w') \<Longrightarrow> w_objects w' = w_objects w"
    "\<And>x w r w'. k x w = (r, w') \<Longrightarrow> w_objects w' = w_objects w"
    "io_bind m k w = (r, w')"
  shows "w_objects w' = (w_objects w :: (str \<times> bytes) list)"
  using assms by (auto simp: io_bind_def split: prod.splits sum.splits)

lemma rebuild_item_objects: "rebuild_item P C v item rb w = (res, w') \<Longrightarrow> w_objects w' = w_objects w"
  unfolding rebuild_item_def
proof (erule bind_objects [rotated -1], goal_cases)
  case (1 w r w')
  with reads_onlyD [OF reads_only_get(1)] show ?case by (simp add: shelf_def)
next
  case (2 val w r w')
  show ?case
  proof (cases "open_record P (v_name_keys v) (v_vault_id v) item val")
    case (Inr nr)
    from 2 [unfolded Inr Let_def sum.case] show ?thesis
    proof (rule bind_objects [rotated -1], goal_cases)
      case (1 w r w')
      with reads_onlyD [OF reads_only_try [OF reads_only_describe]] show ?case by (simp add: shelf_def)
    next
      case (2 got w r w')
      then show ?case
        by (auto simp: io_bind_def from_index_def split: prod.splits sum.splits)
    qed
  qed (use 2 in simp)
qed

lemma rebuild_items_objects: "rebuild_items P C v items rb w = (res, w') \<Longrightarrow> w_objects w' = w_objects w"
proof (induction items arbitrary: rb w res w')
  case (Cons item items)
  show ?case
    by (rule bind_objects [OF _ _ Cons.prems [unfolded rebuild_items.simps]])
      (rule rebuild_item_objects, assumption, rule Cons.IH, assumption)
qed simp

text \<open>The loop over the pages.\<close>

function rebuild_pages ::
  "prims \<Rightarrow> postcard \<Rightarrow> vault \<Rightarrow> str option \<Rightarrow> rebuilt \<Rightarrow> rebuilt vio" where
  "rebuild_pages P C v cursor rebuilt w =
     (case from_store (b_list_page NAME_KEY_PREFIX cursor) w of
        (Err e, w) \<Rightarrow> (Err e, w)
      | (Ok (items, next), w) \<Rightarrow>
          (case rebuild_items P C v items rebuilt w of
             (Err e, w) \<Rightarrow> (Err e, w)
           | (Ok rebuilt, w) \<Rightarrow>
               (case next of None \<Rightarrow> (Ok rebuilt, w) | Some c \<Rightarrow> rebuild_pages P C v (Some c) rebuilt w)))"
  by pat_completeness auto
termination
proof (relation "measure (\<lambda>(P, C, v, cursor, rb, w). length (keys_after w cursor))", goal_cases)
  case 1
  show ?case by simp
next
  case (2 P C v cursor rb w res w1 page items nxt res' w2 rb' c)
  then have p: "from_store (b_list_page NAME_KEY_PREFIX cursor) w = (Ok (items, nxt), w1)"
    and l: "rebuild_items P C v items rb w1 = (Ok rb', w2)" and c: "nxt = Some c"
    by simp_all
  from keys_after_less [of c w cursor w2] list_page_next [OF p] c rebuild_items_objects [OF l]
  show ?case by simp
qed

declare rebuild_pages.simps [simp del]

definition rebuild_index :: "prims \<Rightarrow> postcard \<Rightarrow> vault \<Rightarrow> rebuilt vio" where
  "rebuild_index P C v = rebuild_pages P C v None rebuilt_default"

end
