(* ===== verification/Reader_Correct.thy ===== *)
theory Reader_Correct
  imports Store_Logic Range_Reader
begin

text \<open>
  What the range reader returns of an object that opens: its header in at most three requests, every
  window and every run of chunks as the content has them, and the whole content when it is streamed.
  An error is only ever a request that failed.
\<close>

section \<open>The header\<close>

lemma vspec_get_part:
  assumes "map_of objs key = Some blob" "offset \<le> length blob"
    and "Q (take l (drop offset blob)) (objs, db)" "R (objs, db)"
  shows "vspec (from_store (b_get_range key offset (Some l))) (objs, db) Q R"
proof -
  have "take (case Some l of None \<Rightarrow> length blob - offset | Some l \<Rightarrow> min l (length blob - offset)) (drop offset blob)
      = take l (drop offset blob)" by (simp add: min_def)
  then show ?thesis
    using vspec_get_range [where R = R and Q = Q, OF assms(1,2) _ assms(4), of "Some l"] assms(3) by simp
qed

lemma probe_header_Suc:
  assumes blob: "map_of objs key = Some blob" and R: "R (objs, db)"
    and step: "header_extent (take want blob) = Ok ext"
    and whole: "\<And>n. ext = Complete n \<Longrightarrow> Q (take want blob, n) (objs, db)"
    and again: "\<And>n. ext = Short n \<Longrightarrow> want \<le> length blob \<and> vspec (probe_header key path probes n) (objs, db) Q R"
  shows "vspec (probe_header key path (Suc probes) want) (objs, db) Q R"
  unfolding probe_header.simps
proof (rule vspec_bind, rule vspec_get_part [where R = R, OF blob _ _ R])
  show "vspec (io_bind (from_crypto (header_extent (take want (drop 0 blob)))) (\<lambda>extent. case extent of
            Complete header_len \<Rightarrow> io_return (take want (drop 0 blob), header_len)
          | Short need \<Rightarrow> if want \<le> length (take want (drop 0 blob))
              then probe_header key path probes need else io_fail (truncated path))) (objs, db) Q R"
  proof (rule vspec_bind, rule vspec_crypto)
    show "header_extent (take want (drop 0 blob)) = Ok ext" using step by simp
    show "vspec (case ext of Complete header_len \<Rightarrow> io_return (take want (drop 0 blob), header_len)
          | Short need \<Rightarrow> if want \<le> length (take want (drop 0 blob))
              then probe_header key path probes need else io_fail (truncated path)) (objs, db) Q R"
      using whole again by (cases ext) (auto simp: vspec_return)
  qed
qed simp

lemma fetch_header_exact:
  assumes shape: "header_shape h kw w n m" and blob: "blob = full_header h kw w n m @ rest"
    and obj: "map_of objs key = Some blob" and R: "R (objs, db)"
    and Q: "\<And>k. length (full_header h kw w n m) \<le> k \<Longrightarrow>
      Q (take k blob, length (full_header h kw w n m)) (objs, db)"
  shows "vspec (fetch_header key path) (objs, db) Q R"
proof -
  define l where "l = length (full_header h kw w n m)"
  have l: "l = 170 + length kw + length m" unfolding l_def by (rule length_full_header [OF shape])
  have L: "l \<le> length blob" by (simp add: blob l_def)
  have ext: "header_extent (take k blob) = Ok
    (if k < 70 then Short 70 else if k < 146 + length kw then Short (146 + length kw)
     else if k < l then Short l else Complete l)" if "k \<le> length blob" for k
    using header_extent_prefix [OF shape, of k rest] that by (simp add: blob l_def)
  have ext': "header_extent (take k blob) = header_extent (take (min k (length blob)) blob)" for k
    by (simp add: min_def)
  note step = probe_header_Suc [where R = R and Q = Q, OF obj R]
  have whole: "vspec (probe_header key path (Suc p) l) (objs, db) Q R" for p
    using L l Q by (intro step [of _ "Complete l"]) (simp_all add: ext l_def [symmetric])
  have middle: "vspec (probe_header key path (Suc (Suc p)) (146 + length kw)) (objs, db) Q R" for p
  proof (cases "146 + length kw < l")
    case True
    with L l whole show ?thesis by (intro step [of _ "Short l"]) (simp_all add: ext del: probe_header.simps)
  next
    case False
    with l have "length m = 0" "146 + length kw \<le> length blob" using L by auto
    then show ?thesis using False l Q L shape
      by (intro step [of _ "Complete l"]) (simp_all add: ext l_def [symmetric])
  qed
  show ?thesis
    unfolding fetch_header_def
  proof -
    consider "4096 < 146 + length kw" "4096 \<le> length blob" | "146 + length kw \<le> 4096" "4096 < l" | "l \<le> 4096"
      using L l by linarith
    then show "vspec (probe_header key path MAX_HEADER_PROBES OBJECT_HEADER_PROBE_LEN) (objs, db) Q R"
    proof cases
      case 1
      then show ?thesis
        using middle [of 0] l unfolding MAX_HEADER_PROBES_def numeral_3_eq_3
        by (intro step [of _ "Short (146 + length kw)"]) (simp_all add: ext OBJECT_HEADER_PROBE_LEN_def del: probe_header.simps)
    next
      case 2
      then show ?thesis
        using whole [of 1] l L unfolding MAX_HEADER_PROBES_def numeral_3_eq_3
        by (intro step [of _ "Short l"]) (simp_all add: ext OBJECT_HEADER_PROBE_LEN_def del: probe_header.simps)
    next
      case 3
      have "header_extent (take 4096 blob) = Ok (Complete l)"
        using 3 l L by (subst ext') (simp add: ext)
      then show ?thesis
        using 3 Q unfolding MAX_HEADER_PROBES_def numeral_3_eq_3
        by (intro step [of _ "Complete l"]) (simp_all add: l_def OBJECT_HEADER_PROBE_LEN_def)
    qed
  qed
qed

section \<open>A reader of a stored object\<close>

text \<open>
  The reader holds the header of the object and knows its content; what follows the chunks is the
  footer, if the header declares one.
\<close>

definition reader_on :: "prims \<Rightarrow> range_reader \<Rightarrow> bytes list \<Rightarrow> bytes list \<Rightarrow> bytes \<Rightarrow> bool" where
  "reader_on P rd cts pts blob \<longleftrightarrow>
     ranged_object P (rr_header rd) cts pts blob \<and>
     length (concat pts) = unat (h_plaintext_len (rh_head (rr_header rd))) \<and>
     length (rr_header_bytes rd) = rh_payload_start (rr_header rd) \<and>
     blob = rr_header_bytes rd @ concat cts @
       footer_for P (rh_head (rr_header rd)) (rr_header_bytes rd @ concat cts)"

text \<open>What the metadata of the object says of its content; the reader checks it.\<close>

definition reader_content :: "prims \<Rightarrow> range_reader \<Rightarrow> bytes \<Rightarrow> bool" where
  "reader_content P rd pt \<longleftrightarrow> (case content_blake3 rd of None \<Rightarrow> True | Some h \<Rightarrow> h = blake3_hash P pt)"

lemma fetch_exact:
  assumes obj: "map_of objs (rr_key rd) = Some blob" and R: "R (objs, db)"
    and sp: "sp_ciphertext_offset sp + sp_ciphertext_len sp \<le> length blob"
    and Q: "Q (seg (sp_ciphertext_offset sp) (sp_ciphertext_offset sp + sp_ciphertext_len sp) blob) (objs, db)"
  shows "vspec (fetch rd sp) (objs, db) Q R"
  unfolding fetch_def
  by (rule vspec_bind, rule vspec_get_part [where R = R, OF obj _ _ R])
    (use sp Q in \<open>auto simp: seg_def vspec_return\<close>)

theorem read_range_exact:
  assumes on: "reader_on P rd cts pts blob" and obj: "map_of objs (rr_key rd) = Some blob"
    and R: "R (objs, db)"
    and Q: "Q ((case len of None \<Rightarrow> id | Some l \<Rightarrow> take l) (drop offset (concat pts))) (objs, db)"
  shows "vspec (read_range P rd offset len) (objs, db) Q R"
proof -
  obtain sp where sp: "span (rr_header rd) offset len = Ok sp"
    "sp_ciphertext_offset sp + sp_ciphertext_len sp \<le> length blob"
    "read_window P (rr_header rd) sp (seg (sp_ciphertext_offset sp)
        (sp_ciphertext_offset sp + sp_ciphertext_len sp) blob)
      = Ok ((case len of None \<Rightarrow> id | Some l \<Rightarrow> take l) (drop offset (concat pts)))"
    using on by (auto simp: reader_on_def intro: ranged_read [of P "rr_header rd" cts pts blob offset len])
  have "(case len of None \<Rightarrow> id | Some l \<Rightarrow> take l) (drop offset (concat pts)) = []" if "span_is_empty sp"
    using sp(1,3) that
    by (auto simp: span_def span_is_empty_def Let_def read_window_def open_chunks_def io_return_def and_then_Ok_iff
        split: if_splits)
  then show ?thesis
    unfolding read_range_def using Q
    by (intro vspec_bind vspec_crypto [OF sp(1)])
      (auto intro!: vspec_return vspec_bind fetch_exact [OF obj _ sp(2)] vspec_crypto [OF sp(3)] R
        simp del: from_crypto_Ok)
qed

section \<open>Runs of chunks\<close>

lemma emit_push: "emit_from push_chunk i pts chunks = (Ok (), chunks @ enumerate i pts)"
  by (induction pts arbitrary: i chunks) (simp_all add: push_chunk_def io_bind_Ok)

lemma chunk_span_min:
  "f < unat (h_chunk_count (rh_head rh)) \<Longrightarrow>
    chunk_span rh f c = chunk_span rh f (min c (unat (h_chunk_count (rh_head rh)) - f))"
  by (cases "c = 0") (simp_all add: chunk_span_def Let_def min_def)

lemma read_chunks_inner_exact:
  assumes on: "reader_on P rd cts pts blob" and obj: "map_of objs (rr_key rd) = Some blob"
    and R: "R (objs, db)" and f: "f < length cts" "0 < c"
    and Q: "Q (enumerate f (take c (drop f pts)),
        map_option (\<lambda>h. h @ concat (take c (drop f cts))) footer) (objs, db)"
  shows "vspec (read_chunks_inner P rd f c footer) (objs, db) Q R"
proof -
  define rh n where "rh = rr_header rd" and "n = unat (h_chunk_count (rh_head rh))"
  have obj': "ranged_object P rh cts pts blob" and n: "length cts = n" "length pts = n"
    using on decrypts_length [of P "rh_dek rh" "rh_head rh" "rh_head_bytes rh" 0 cts pts]
    by (auto simp: reader_on_def ranged_object_def Let_def rh_def n_def)
  define c' where "c' = min c (n - f)"
  have c': "f + c' \<le> n" "0 < c'" "take c (drop f cts) = take c' (drop f cts)"
    "take c (drop f pts) = take c' (drop f pts)"
    using f n by (auto simp: c'_def min_def)
  obtain co cl wl where sp: "chunk_span rh f c' = Ok \<lparr>sp_first_chunk = f, sp_chunk_count = c',
      sp_ciphertext_offset = co, sp_ciphertext_len = cl, sp_window_offset = 0, sp_window_len = wl\<rparr>"
    "co + cl \<le> length blob" "seg co (co + cl) blob = concat (take c' (drop f cts))"
    "cl = length (concat (take c' (drop f cts)))"
    by (rule chunk_span_Ok [OF obj' _ c'(2), folded n_def, OF c'(1)])
  define s where "s = \<lparr>sp_first_chunk = f, sp_chunk_count = c',
      sp_ciphertext_offset = co, sp_ciphertext_len = cl, sp_window_offset = 0, sp_window_len = wl\<rparr>"
  have span: "chunk_span (rr_header rd) f c = Ok s"
    using chunk_span_min [of f rh c] sp(1) f n by (simp add: s_def n_def rh_def c'_def)
  have open': "open_chunks P (rr_header rd) s (seg co (co + cl) blob) push_chunk []
      = (Ok (), enumerate f (take c (drop f pts)))"
    using open_chunks_emit [OF obj', of f c' s push_chunk] c' sp(3,4) n_def
    by (simp add: s_def rh_def emit_push)
  have q: "Q (enumerate f (take c (drop f pts)), map_option (\<lambda>h. h @ seg co (co + cl) blob) footer) (objs, db)"
    using Q sp(3) c'(3) by simp
  show ?thesis
    unfolding read_chunks_inner_def
  proof (rule vspec_bind, rule vspec_crypto [OF span])
    have "vspec (io_bind (fetch rd s) (\<lambda>ciphertext.
        let footer = map_option (\<lambda>h. h @ ciphertext) footer in
        case open_chunks P (rr_header rd) s ciphertext push_chunk [] of
          (Err e, _) \<Rightarrow> io_fail (CryptoErr e)
        | (Ok _, chunks) \<Rightarrow> io_return (chunks, footer))) (objs, db) Q R"
    proof (rule vspec_bind, rule fetch_exact [where R = R, OF obj R])
      show "sp_ciphertext_offset s + sp_ciphertext_len s \<le> length blob" using sp(2) by (simp add: s_def)
      show "vspec (let footer = map_option (\<lambda>h. h @ seg (sp_ciphertext_offset s)
              (sp_ciphertext_offset s + sp_ciphertext_len s) blob) footer in
          case open_chunks P (rr_header rd) s (seg (sp_ciphertext_offset s)
              (sp_ciphertext_offset s + sp_ciphertext_len s) blob) push_chunk [] of
            (Err e, _) \<Rightarrow> io_fail (CryptoErr e)
          | (Ok _, chunks) \<Rightarrow> io_return (chunks, footer)) (objs, db) Q R"
        using open' q by (simp add: s_def vspec_return)
    qed
    then show "vspec (if span_is_empty s then io_return ([], footer) else io_bind (fetch rd s) (\<lambda>ciphertext.
        let footer = map_option (\<lambda>h. h @ ciphertext) footer in
        case open_chunks P (rr_header rd) s ciphertext push_chunk [] of
          (Err e, _) \<Rightarrow> io_fail (CryptoErr e)
        | (Ok _, chunks) \<Rightarrow> io_return (chunks, footer))) (objs, db) Q R"
      using c'(2) by (simp add: span_is_empty_def s_def)
  qed
qed

section \<open>Streaming\<close>

text \<open>Specifications of a streamed read, which works on the world and on what was written.\<close>

definition sspec ::
  "(bytes, 'a) sio \<Rightarrow> shelf \<Rightarrow> bytes \<Rightarrow> ('a \<Rightarrow> shelf \<Rightarrow> bytes \<Rightarrow> bool) \<Rightarrow> (shelf \<Rightarrow> bytes \<Rightarrow> bool) \<Rightarrow> bool" where
  "sspec m d out Q R \<longleftrightarrow> (\<forall>w. shelf w = d \<longrightarrow> (case m (w, out) of
     (Ok x, (w', out')) \<Rightarrow> Q x (shelf w') out' \<and> later_world w w'
   | (Err e, (w', out')) \<Rightarrow> R (shelf w') out' \<and> noisy w))"

lemma sspec_Ok:
  "sspec m d out Q R \<Longrightarrow> shelf w = d \<Longrightarrow> m (w, out) = (Ok x, w', out') \<Longrightarrow>
    Q x (shelf w') out' \<and> later_world w w'"
  by (auto simp: sspec_def)

lemma sspec_Err:
  "sspec m d out Q R \<Longrightarrow> shelf w = d \<Longrightarrow> m (w, out) = (Err e, w', out') \<Longrightarrow> R (shelf w') out' \<and> noisy w"
  by (auto simp: sspec_def)

lemma sspec_return: "Q x d out \<Longrightarrow> sspec (io_return x) d out Q R"
  by (simp add: sspec_def)

lemma sspec_bind:
  assumes "sspec m d out (\<lambda>x d' out'. sspec (k x) d' out' Q R) R"
  shows "sspec (io_bind m k) d out Q R"
  unfolding sspec_def
proof (intro allI impI)
  fix w :: world assume w: "shelf w = d"
  obtain res w1 out1 where m: "m (w, out) = (res, w1, out1)" by (metis prod_cases3)
  show "case io_bind m k (w, out) of (Ok x, (w', out')) \<Rightarrow> Q x (shelf w') out' \<and> later_world w w'
    | (Err e, (w', out')) \<Rightarrow> R (shelf w') out' \<and> noisy w"
  proof (cases res)
    case (Inl e)
    then show ?thesis using sspec_Err [OF assms w, of e w1 out1] m by (simp add: io_bind_Err)
  next
    case (Inr x)
    with m have k: "sspec (k x) (shelf w1) out1 Q R" and l: "later_world w w1"
      using sspec_Ok [OF assms w, of x w1 out1] by simp_all
    obtain res2 w2 out2 where k2: "k x (w1, out1) = (res2, w2, out2)" by (metis prod_cases3)
    show ?thesis
      using m Inr k2 sspec_Ok [OF k refl, of _ w2 out2] sspec_Err [OF k refl, of _ w2 out2]
        later_world_trans [OF l] later_world_noisy [OF l]
      by (cases res2) (auto simp: io_bind_Ok)
  qed
qed

lemma sspec_world:
  assumes "vspec m d (\<lambda>x d'. Q x d' out) (\<lambda>d'. R d' out)"
  shows "sspec (on_world m) d out Q R"
  unfolding sspec_def
proof (intro allI impI)
  fix w :: world assume w: "shelf w = d"
  obtain res w1 where m: "m w = (res, w1)" by fastforce
  with vspec_Ok [OF assms w, of _ w1] vspec_Err [OF assms w, of _ w1]
  show "case on_world m (w, out) of (Ok x, (w', out')) \<Rightarrow> Q x (shelf w') out' \<and> later_world w w'
    | (Err e, (w', out')) \<Rightarrow> R (shelf w') out' \<and> noisy w"
    by (cases res) (simp_all add: on_world_def)
qed

lemma sspec_weaken:
  assumes "sspec m d out Q R" "\<And>x d' out'. Q x d' out' \<Longrightarrow> Q' x d' out'" "\<And>d' out'. R d' out' \<Longrightarrow> R' d' out'"
  shows "sspec m d out Q' R'"
  unfolding sspec_def
proof (intro allI impI)
  fix w :: world assume w: "shelf w = d"
  obtain res w1 out1 where m: "m (w, out) = (res, w1, out1)" by (metis prod_cases3)
  with sspec_Ok [OF assms(1) w] sspec_Err [OF assms(1) w] assms(2,3)
  show "case m (w, out) of (Ok x, (w', out')) \<Rightarrow> Q' x (shelf w') out' \<and> later_world w w'
    | (Err e, (w', out')) \<Rightarrow> R' (shelf w') out' \<and> noisy w"
    by (cases res) simp_all
qed

text \<open>A writer that keeps everything takes the chunks as they are.\<close>

lemma write_chunks_append:
  assumes "written + length (concat (map snd chunks)) \<le> U64_MAX" "i + length chunks \<le> U64_MAX"
  shows "write_chunks append_writer chunks hasher written i (w, out) =
    (Ok (hasher @ concat (map snd chunks), written + length (concat (map snd chunks)), i + length chunks),
      (w, out @ concat (map snd chunks)))"
  using assms
proof (induction chunks arbitrary: hasher written i out)
  case (Cons c chunks)
  obtain j b where "c = (j, b)" by fastforce
  with Cons show ?case
    by (simp add: io_bind_def write_all_def append_writer_def map_err_def saturating_add_def)
qed simp

definition with_footer :: "range_reader \<Rightarrow> bytes \<Rightarrow> bytes option" where
  "with_footer rd cts = map_option (\<lambda>h. h @ cts) (footer_fold rd)"

lemma stream_windows_unfold:
  "stream_windows P wr rd normalized hasher footer written i =
     (if unat (h_chunk_count (rh_head (rr_header rd))) \<le> i then io_return (hasher, footer, written) else
      io_bind (on_world (case footer of
          Some absorbed \<Rightarrow> read_chunks_folding P rd i STREAM_WINDOW_CHUNKS absorbed
        | None \<Rightarrow> io_bind (read_chunks P rd i STREAM_WINDOW_CHUNKS) (\<lambda>chunks. io_return (chunks, None))))
        (\<lambda>(chunks, footer).
      if chunks = []
        then io_fail (Integrity (normalized @ lit '': object stopped before its declared length'')) else
      io_bind (write_chunks wr chunks hasher written i) (\<lambda>(hasher, written, i).
      stream_windows P wr rd normalized hasher footer written i)))"
  by (rule ext, subst stream_windows.simps)
    (auto simp: io_return_def io_fail_def io_bind_def split: prod.splits sum.splits)

lemma read_window_chunks:
  assumes "reader_on P rd cts pts blob" "map_of objs (rr_key rd) = Some blob" "R (objs, db)"
    and "f < length cts" "0 < c" "\<forall>b. footer = Some b \<longrightarrow> footer_fold rd \<noteq> None"
    and "Q (enumerate f (take c (drop f pts)),
      map_option (\<lambda>h. h @ concat (take c (drop f cts))) footer) (objs, db)"
  shows "vspec (case footer of Some absorbed \<Rightarrow> read_chunks_folding P rd f c absorbed
      | None \<Rightarrow> io_bind (read_chunks P rd f c) (\<lambda>chunks. io_return (chunks, None))) (objs, db) Q R"
proof (cases footer)
  case None
  have "vspec (io_bind (io_bind (read_chunks_inner P rd f c None) (\<lambda>(chunks, _). io_return chunks))
      (\<lambda>chunks. io_return (chunks, None))) (objs, db) Q R"
    by (intro vspec_bind read_chunks_inner_exact [where R = R, OF assms(1-5)])
      (use assms(7) None in \<open>simp add: vspec_return\<close>)
  then show ?thesis using None by (simp add: read_chunks_def)
next
  case (Some absorbed)
  then show ?thesis
    using read_chunks_inner_exact [where R = R and Q = Q, OF assms(1-5), of "Some absorbed"] assms(7)
    by (simp add: read_chunks_folding_def)
qed

lemma stream_windows_exact:
  assumes on: "reader_on P rd cts pts blob" and obj: "map_of objs (rr_key rd) = Some blob"
    and k: "k \<le> length cts"
  shows "sspec (stream_windows P append_writer rd normalized (concat (take k pts))
      (with_footer rd (concat (take k cts))) (length (concat (take k pts))) k) (objs, db) (concat (take k pts))
      (\<lambda>r d' out'. r = (concat pts, with_footer rd (concat cts), length (concat pts)) \<and> d' = (objs, db) \<and>
        out' = concat pts)
      (\<lambda>d' out'. d' = (objs, db) \<and> (\<exists>j. out' = concat (take j pts)))"
  using k
proof (induction "length cts - k" arbitrary: k rule: less_induct)
  case less
  define rh n where "rh = rr_header rd" and "n = unat (h_chunk_count (rh_head rh))"
  have n: "length cts = n" "length pts = n" "n \<le> U64_MAX"
    and pt: "length (concat pts) \<le> U64_MAX"
    using on decrypts_length [of P "rh_dek rh" "rh_head rh" "rh_head_bytes rh" 0 cts pts]
      unat_u64_le_max [of "h_chunk_count (rh_head rh)"] unat_u64_le_max [of "h_plaintext_len (rh_head rh)"]
    by (auto simp: reader_on_def ranged_object_def Let_def rh_def n_def)
  show ?case
  proof (cases "n \<le> k")
    case True
    with less.prems n show ?thesis
      by (subst stream_windows_unfold) (simp add: n_def [symmetric] rh_def [symmetric] sspec_return)
  next
    case False
    define k' where "k' = min (k + 8) n"
    have k': "k < k'" "k' \<le> n" using False by (auto simp: k'_def)
    have win: "take k xs @ take 8 (drop k xs) = take k' xs" if "length xs = n" for xs :: "bytes list"
      using that by (simp add: k'_def take_add [symmetric] min_def)
    have cat: "concat (take k xs) @ concat (take 8 (drop k xs)) = concat (take k' xs)"
      if "length xs = n" for xs :: "bytes list"
      using win [OF that] by (metis concat_append)
    have lens: "k + length (take 8 (drop k pts)) = k'" "take 8 (drop k pts) \<noteq> []"
      using n False less.prems by (auto simp: k'_def)
    have some: "enumerate k (take 8 (drop k pts)) \<noteq> []"
      using lens(2) by (metis length_enumerate length_0_conv)
    have total: "length (concat (take k pts)) + length (concat (take 8 (drop k pts))) = length (concat (take k' pts))"
      using cat [OF n(2)] by (metis length_append)
    have le: "length (concat (take k' pts)) \<le> length (concat pts)"
      by (metis append_take_drop_id concat_append length_append le_add1)
    have foot: "map_option (\<lambda>h. h @ concat (take 8 (drop k cts))) (with_footer rd (concat (take k cts)))
        = with_footer rd (concat (take k' cts))"
      using cat [OF n(1)] by (simp add: with_footer_def option.map_comp o_def)
    have cc: "\<not> unat (h_chunk_count (rh_head (rr_header rd))) \<le> k"
      using False by (simp add: n_def rh_def)
    let ?R = "\<lambda>d' out'. d' = (objs, db) \<and> (\<exists>j. out' = concat (take j pts))"
    let ?Q = "\<lambda>r d' out'. r = (concat pts, with_footer rd (concat cts), length (concat pts)) \<and>
      d' = (objs, db) \<and> out' = concat pts"
    have written: "sspec (write_chunks append_writer (enumerate k (take 8 (drop k pts))) (concat (take k pts))
          (length (concat (take k pts))) k) (objs, db) (concat (take k pts))
        (\<lambda>r d' out'. r = (concat (take k' pts), length (concat (take k' pts)), k') \<and>
          d' = (objs, db) \<and> out' = concat (take k' pts)) ?R"
      unfolding sspec_def
      using write_chunks_append [of "length (concat (take k pts))" "enumerate k (take 8 (drop k pts))" k
          "concat (take k pts)"] total le pt lens(1) k'(2) n(3) cat [OF n(2)]
      by (auto simp: length_enumerate)
    show ?thesis
    proof (subst stream_windows_unfold, simp only: cc if_False, rule sspec_bind, rule sspec_world,
        rule read_window_chunks [OF on obj])
      show "k < length cts" using False n by simp
      show "\<forall>b. with_footer rd (concat (take k cts)) = Some b \<longrightarrow> footer_fold rd \<noteq> None"
        by (auto simp: with_footer_def)
      have "sspec (io_bind (write_chunks append_writer (enumerate k (take 8 (drop k pts))) (concat (take k pts))
          (length (concat (take k pts))) k) (\<lambda>(hasher, written, i). stream_windows P append_writer rd normalized
            hasher (with_footer rd (concat (take k' cts))) written i)) (objs, db) (concat (take k pts)) ?Q ?R"
      proof (rule sspec_bind, rule sspec_weaken [OF written])
        fix r d' out'
        assume "r = (concat (take k' pts), length (concat (take k' pts)), k') \<and> d' = (objs, db) \<and>
          out' = concat (take k' pts)"
        with less.hyps [of k'] k' n(1) show "sspec (case r of (hasher, written, i) \<Rightarrow>
            stream_windows P append_writer rd normalized hasher (with_footer rd (concat (take k' cts))) written i)
            d' out' ?Q ?R"
          by simp
      qed
      then show "sspec (case (enumerate k (take STREAM_WINDOW_CHUNKS (drop k pts)), map_option
            (\<lambda>h. h @ concat (take STREAM_WINDOW_CHUNKS (drop k cts))) (with_footer rd (concat (take k cts)))) of
          (chunks, footer) \<Rightarrow> if chunks = []
            then io_fail (Integrity (normalized @ lit '': object stopped before its declared length''))
            else io_bind (write_chunks append_writer chunks (concat (take k pts)) (length (concat (take k pts))) k)
              (\<lambda>(hasher, written, i). stream_windows P append_writer rd normalized hasher footer written i))
          (objs, db) (concat (take k pts)) ?Q ?R"
        using some by (simp add: foot del: enumerate_simps)
    qed auto
  qed
qed

lemma payload_end_exact:
  assumes on: "reader_on P rd cts pts blob"
  shows "payload_end rd = Ok (length (rr_header_bytes rd @ concat cts))"
proof -
  define rh n where "rh = rr_header rd" and "n = unat (h_chunk_count (rh_head rh))"
  have obj: "ranged_object P rh cts pts blob" and n: "length cts = n"
    and len: "length (rr_header_bytes rd) = rh_payload_start rh" "length blob \<le> U64_MAX"
      "length (rr_header_bytes rd @ concat cts) \<le> length blob"
    using on by (auto simp: reader_on_def ranged_object_def Let_def rh_def n_def)
  show ?thesis
  proof (cases n)
    case 0
    with n len show ?thesis
      by (simp add: payload_end_def checked_sub_def rh_def [symmetric] n_def [symmetric])
  next
    case (Suc f)
    obtain co cl wl where sp: "chunk_span rh f 1 = Ok \<lparr>sp_first_chunk = f, sp_chunk_count = 1,
        sp_ciphertext_offset = co, sp_ciphertext_len = cl, sp_window_offset = 0, sp_window_len = wl\<rparr>"
      "cl = length (concat (take 1 (drop f cts)))" "co = rh_payload_start rh + length (concat (take f cts))"
      by (rule chunk_span_Ok [OF obj, of f 1, folded n_def]) (use Suc in auto)
    have "concat cts = concat (take f cts) @ concat (take 1 (drop f cts))"
      using take_drop_concat [of cts f 1] n Suc by simp
    then have "co + cl = length (rr_header_bytes rd @ concat cts)"
      using sp(2,3) len(1) by simp
    with sp(1) len(2,3) Suc show ?thesis
      by (simp add: payload_end_def checked_sub_def saturating_add_def rh_def [symmetric] n_def [symmetric])
  qed
qed

lemma confirm_footer_exact:
  assumes on: "reader_on P rd cts pts blob" and obj: "map_of objs (rr_key rd) = Some blob"
    and hash: "\<And>x. length (blake3_hash P x) = 32"
    and foot: "with_footer rd (concat cts) = Some absorbed" and R: "R (objs, db)" and Q: "Q () (objs, db)"
  shows "vspec (confirm_footer P rd absorbed) (objs, db) Q R"
proof -
  let ?e = "length (rr_header_bytes rd @ concat cts)"
  have a: "absorbed = rr_header_bytes rd @ concat cts" and "has_footer (rh_head (rr_header rd))"
    using foot by (auto simp: with_footer_def footer_fold_def split: if_splits)
  then have blob: "blob = (rr_header_bytes rd @ concat cts) @ blake3_hash P absorbed"
    using on by (simp add: reader_on_def footer_for_def has_footer_def)
  have stored: "take FOOTER_LEN (drop ?e blob) = blake3_hash P absorbed"
    using hash by (simp add: blob)
  show ?thesis
    unfolding confirm_footer_def
  proof (rule vspec_bind, rule vspec_crypto [OF payload_end_exact [OF on]], rule vspec_bind,
      rule vspec_get_part [where R = R, OF obj _ _ R])
    show "?e \<le> length blob" by (simp add: blob)
    show "vspec (if length (take FOOTER_LEN (drop ?e blob)) \<noteq> FOOTER_LEN
        then io_fail (Integrity (rr_path rd @ lit '': object declares a footer and holds less of it''))
        else if take FOOTER_LEN (drop ?e blob) \<noteq> blake3_hash P absorbed
        then io_fail (Integrity (rr_path rd @ lit '': the object's footer does not match the bytes it served''))
        else io_return ()) (objs, db) Q R"
      unfolding stored using hash Q by (simp add: vspec_return)
  qed
qed

text \<open>
  A streamed read of an object that opens writes its whole content and confirms the hash of the content
  and the footer. When a request fails, what was written is the content up to some chunk.
\<close>

theorem stream_reader_exact:
  assumes on: "reader_on P rd cts pts blob" and obj: "map_of objs (rr_key rd) = Some blob"
    and hash: "\<And>x. length (blake3_hash P x) = 32" and content: "reader_content P rd (concat pts)"
  shows "sspec (stream_reader_to P append_writer (\<lambda>s. (Ok (), s)) rd normalized) (objs, db) []
      (\<lambda>sd d' out'. sd = \<lparr>sd_bytes = length (concat pts), sd_plaintext_hash = blake3_hash P (concat pts)\<rparr> \<and>
        d' = (objs, db) \<and> out' = concat pts)
      (\<lambda>d' out'. d' = (objs, db) \<and> (\<exists>j. out' = concat (take j pts)))"
    (is "sspec _ _ _ ?Q ?R")
proof -
  have len: "length (concat pts) = unat (h_plaintext_len (rh_head (rr_header rd)))"
    using on by (simp add: reader_on_def)
  have expected: "\<not> (case content_blake3 rd of None \<Rightarrow> False | Some e \<Rightarrow> blake3_hash P (concat pts) \<noteq> e)"
    using content by (simp add: reader_content_def split: option.splits)
  have all: "\<exists>j. concat pts = concat (take j pts)" by (intro exI [of _ "length pts"]) simp
  have flush: "sspec (flush_out (\<lambda>s. (Ok (), s))) d out (\<lambda>_ d' out'. d' = d \<and> out' = out) R" for d out R
    by (simp add: sspec_def flush_out_def map_err_def)
  have foot: "sspec (case with_footer rd (concat cts) of None \<Rightarrow> io_return ()
      | Some absorbed \<Rightarrow> on_world (confirm_footer P rd absorbed)) (objs, db) (concat pts)
      (\<lambda>_ d' out'. d' = (objs, db) \<and> out' = concat pts) ?R"
    using all
    by (cases "with_footer rd (concat cts)")
      (auto intro: sspec_return sspec_world confirm_footer_exact [OF on obj hash])
  have start: "footer_fold rd = with_footer rd (concat (take 0 cts))"
    by (cases "footer_fold rd") (simp_all add: with_footer_def)
  have loop: "sspec (stream_windows P append_writer rd normalized [] (footer_fold rd) 0 0) (objs, db) []
      (\<lambda>r d' out'. r = (concat pts, with_footer rd (concat cts), length (concat pts)) \<and> d' = (objs, db) \<and>
        out' = concat pts) ?R"
    using stream_windows_exact [OF on obj, of 0 normalized] by (simp add: start)
  have rest: "sspec (if length (concat pts) \<noteq> unat (h_plaintext_len (rh_head (rr_header rd)))
        then io_fail (Integrity (normalized @ lit '': streamed length is not the declared one''))
        else if (case content_blake3 rd of None \<Rightarrow> False | Some e \<Rightarrow> blake3_hash P (concat pts) \<noteq> e)
        then io_fail (Integrity normalized)
        else io_bind (case with_footer rd (concat cts) of None \<Rightarrow> io_return ()
            | Some absorbed \<Rightarrow> on_world (confirm_footer P rd absorbed)) (\<lambda>_.
          io_bind (flush_out (\<lambda>s. (Ok (), s))) (\<lambda>_.
          io_return \<lparr>sd_bytes = length (concat pts), sd_plaintext_hash = blake3_hash P (concat pts)\<rparr>)))
      (objs, db) (concat pts) ?Q ?R"
    using len expected
    by (simp, intro sspec_bind sspec_weaken [OF foot] sspec_weaken [OF flush [where R = ?R]])
      (auto intro: sspec_return)
  show ?thesis
    unfolding stream_reader_to_def Let_def
    by (intro sspec_bind sspec_weaken [OF loop]) (use rest in auto)
qed

section \<open>Reading into a sink\<close>

text \<open>A read into a sink goes as the read that keeps what it writes.\<close>

definition forgets :: "(bytes, 'a) sio \<Rightarrow> (unit, 'a) sio \<Rightarrow> bool" where
  "forgets m m' \<longleftrightarrow> (\<forall>w out. m' (w, ()) = (case m (w, out) of (res, (w', _)) \<Rightarrow> (res, (w', ()))))"

lemma forgetsD: "forgets m m' \<Longrightarrow> m (w, out) = (res, w1, out1) \<Longrightarrow> m' (w, ()) = (res, w1, ())"
  unfolding forgets_def by (drule spec [of _ w], drule spec [of _ out]) simp

lemma forgets_return: "forgets (io_return x) (io_return x)" "forgets (io_fail e) (io_fail e)"
  by (simp_all add: forgets_def)

lemma forgets_world: "forgets (on_world m) (on_world m)"
  by (simp add: forgets_def on_world_def split: prod.splits)

lemma forgets_bind:
  assumes "forgets m m'" "\<And>x. forgets (k x) (k' x)"
  shows "forgets (io_bind m k) (io_bind m' k')"
  unfolding forgets_def
proof (intro allI)
  fix w :: world and out :: bytes
  obtain res w1 out1 where m: "m (w, out) = (res, w1, out1)" by (metis prod_cases3)
  note m' = forgetsD [OF assms(1) m]
  show "io_bind m' k' (w, ()) = (case io_bind m k (w, out) of (res, w', _) \<Rightarrow> (res, w', ()))"
  proof (cases res)
    case (Inr x)
    then show ?thesis
      using m m' assms(2) [of x, unfolded forgets_def, THEN spec, THEN spec, of w1 out1] by (simp add: io_bind_Ok)
  qed (use m m' in \<open>simp add: io_bind_Err\<close>)
qed

abbreviation sink :: "unit writer" where
  "sink \<equiv> (\<lambda>_ s. (Ok (), s))"

lemma forgets_write: "forgets (write_all append_writer bs) (write_all sink bs)"
  "forgets (flush_out (\<lambda>s. (Ok (), s))) (flush_out (\<lambda>s. (Ok (), s)))"
  by (simp_all add: forgets_def write_all_def append_writer_def flush_out_def)

lemma forgets_chunks:
  "forgets (write_chunks append_writer chunks hasher written i) (write_chunks sink chunks hasher written i)"
  by (induction chunks arbitrary: hasher written i)
    (auto intro!: forgets_return forgets_bind forgets_write)

lemma forgets_windows:
  "forgets (stream_windows P append_writer rd normalized hasher footer written i)
    (stream_windows P sink rd normalized hasher footer written i)"
proof (induction "unat (h_chunk_count (rh_head (rr_header rd))) - i" arbitrary: hasher footer written i
    rule: less_induct)
  case less
  let ?cc = "unat (h_chunk_count (rh_head (rr_header rd)))"
  let ?fetch = "on_world (case footer of
          Some absorbed \<Rightarrow> read_chunks_folding P rd i STREAM_WINDOW_CHUNKS absorbed
        | None \<Rightarrow> io_bind (read_chunks P rd i STREAM_WINDOW_CHUNKS) (\<lambda>chunks. io_return (chunks, None)))"
  let ?fail = "Integrity (normalized @ lit '': object stopped before its declared length'')"
  show ?case
  proof (cases "?cc \<le> i")
    case True
    then show ?thesis by (subst (1 2) stream_windows_unfold) (simp add: forgets_return)
  next
    case False
    show ?thesis
      unfolding forgets_def
    proof (intro allI)
      fix w :: world and out :: bytes
      obtain r1 w1 out1 where f: "?fetch (w, out) = (r1, w1, out1)" by (metis prod_cases3)
      then have f': "?fetch (w, ()) = (r1, w1, ())" by (auto simp: on_world_def split: prod.splits)
      show "stream_windows P sink rd normalized hasher footer written i (w, ()) =
        (case stream_windows P append_writer rd normalized hasher footer written i (w, out) of
          (res, w', _) \<Rightarrow> (res, w', ()))"
      proof (cases r1)
        case (Inl e)
        then show ?thesis
          using False f f' by (subst (1 2) stream_windows_unfold) (simp add: io_bind_Err)
      next
        case (Inr y)
        obtain chunks footer' where y: "y = (chunks, footer')" by fastforce
        show ?thesis
        proof (cases "chunks = []")
          case True
          then show ?thesis
            using False f f' Inr y by (subst (1 2) stream_windows_unfold) (simp add: io_bind_Ok)
        next
          case some: False
          obtain r2 w2 out2 where c: "write_chunks append_writer chunks hasher written i (w1, out1) = (r2, w2, out2)"
            by (metis prod_cases3)
          note c' = forgetsD [OF forgets_chunks c]
          show ?thesis
          proof (cases r2)
            case (Inl e)
            then show ?thesis
              using False f f' Inr y some c c'
              by (subst (1 2) stream_windows_unfold) (simp add: io_bind_Ok io_bind_Err)
          next
            case r2: (Inr z)
            obtain hasher' written' i' where z: "z = (hasher', written', i')" by (metis prod_cases3)
            have "i < i'"
              using write_chunks_next(2) [OF c [unfolded r2 z] _ some] False
                unat_u64_le_max [of "h_chunk_count (rh_head (rr_header rd))"] by simp
            with False have "?cc - i' < ?cc - i" by simp
            from less.hyps [OF this, of hasher' footer' written'] show ?thesis
              using False f f' Inr y some c c' r2 z
              by (subst (1 2) stream_windows_unfold) (simp add: io_bind_Ok forgets_def)
          qed
        qed
      qed
    qed
  qed
qed

lemma forgets_stream:
  "forgets (stream_reader_to P append_writer (\<lambda>s. (Ok (), s)) rd normalized)
    (stream_reader_to P sink (\<lambda>s. (Ok (), s)) rd normalized)"
  unfolding stream_reader_to_def Let_def
  by (rule forgets_bind [OF forgets_windows])
    (auto split: option.split intro!: forgets_bind forgets_return forgets_write forgets_world)

end
