(* ===== verification/Vault_Correct.thy ===== *)
theory Vault_Correct
  imports Vault Reader_Correct
begin

text \<open>
  What a vault promises: it is a map from paths to contents. Reading returns what was stored last;
  storing and deleting do what they say or, when a request fails on the way, leave every other file and
  a readable old or new version of this one; nothing else is ever returned.
\<close>

section \<open>Rules\<close>

text \<open>A computation of which the error is already explained.\<close>

definition lax :: "'a vio \<Rightarrow> shelf \<Rightarrow> ('a \<Rightarrow> shelf \<Rightarrow> bool) \<Rightarrow> (shelf \<Rightarrow> bool) \<Rightarrow> bool" where
  "lax m d Q R \<longleftrightarrow> (\<forall>w. shelf w = d \<longrightarrow> (case m w of
     (Ok x, w') \<Rightarrow> Q x (shelf w') \<and> later_world w w'
   | (Err e, w') \<Rightarrow> R (shelf w')))"

lemma lax_vspec: "vspec m d Q R \<Longrightarrow> lax m d Q R"
  unfolding lax_def vspec_def by (fastforce split: prod.splits sum.splits)

lemma lax_Ok: "lax m d Q R \<Longrightarrow> shelf w = d \<Longrightarrow> m w = (Ok x, w') \<Longrightarrow> Q x (shelf w') \<and> later_world w w'"
  by (auto simp: lax_def)

lemma lax_Err: "lax m d Q R \<Longrightarrow> shelf w = d \<Longrightarrow> m w = (Err e, w') \<Longrightarrow> R (shelf w')"
  by (auto simp: lax_def)

lemma lax_fail: "R d \<Longrightarrow> lax (io_fail e) d Q R"
  by (simp add: lax_def io_fail_def)

lemma lax_return: "Q x d \<Longrightarrow> lax (io_return x) d Q R"
  by (rule lax_vspec) (rule vspec_return)

text \<open>Calls with what follows them.\<close>

lemma vspec_get_bind:
  assumes "map_of objs key = Some blob" "vspec (k blob) (objs, db) Q R" "R (objs, db)"
  shows "vspec (io_bind (from_store (b_get key)) k) (objs, db) Q R"
  by (rule vspec_bind, rule vspec_get [where R = R, OF assms(1) _ assms(3)]) (rule assms(2))

lemma vspec_put_bind:
  assumes "vspec (k ()) (AList.update key data objs, db) Q R" "R (objs, db)" "R (AList.update key data objs, db)"
  shows "vspec (io_bind (from_store (b_put P key data (blake3_hash P data))) k) (objs, db) Q R"
  by (rule vspec_bind, rule vspec_put [where R = R, OF _ assms(2,3)]) (rule assms(1))

lemma vspec_delete_bind:
  assumes "vspec (k ()) (AList.delete key objs, db) Q R" "R (objs, db)" "R (AList.delete key objs, db)"
  shows "vspec (io_bind (from_store (b_delete key)) k) (objs, db) Q R"
  by (rule vspec_bind, rule vspec_delete [where R = R, OF _ assms(2,3)]) (rule assms(1))

lemma vspec_index_bind:
  assumes "spec m db Q'" "\<And>x db'. Q' x db' \<Longrightarrow> vspec (k x) (objs, db') Q R" "R (objs, db)"
    and "\<And>c e c'. m c = (Err e, c') \<Longrightarrow> c_db c' = c_db c"
  shows "vspec (io_bind (from_index m) k) (objs, db) Q R"
  by (rule vspec_bind, rule vspec_index [where R = R, OF assms(1) _ assms(3)]) (use assms(2,4) in auto)

lemma vspec_root: "length (v_root_key v) = 32 \<Longrightarrow> Q (v_root_key v) d \<Longrightarrow> vspec (root v) d Q R"
  by (simp add: root_def vspec_return)

section \<open>Keys\<close>

lemma key_prefixes [simp]:
  "object_key_for P f \<noteq> record_key P k p" "record_key P k p \<noteq> object_key_for P f"
  by (simp_all add: object_key_for_def record_key_def OBJECT_KEY_PREFIX_def NAME_KEY_PREFIX_def lit_def)

lemma object_key_inj: "hex_ok P \<Longrightarrow> object_key_for P f = object_key_for P g \<longleftrightarrow> f = g"
  by (auto simp: object_key_for_def hex_ok_def) (metis option.inject)

lemma strip_object_key: "strip_prefix OBJECT_KEY_PREFIX (object_key_for P f) = Some (hex_encode P f)"
  by (simp add: strip_prefix_def object_key_for_def)

lemma require_identity_ok:
  assumes "hex_ok P" "length (h_file_id h) = 16"
  shows "require_object_identity P (object_key_for P (h_file_id h)) h = io_return ()"
  using assms by (simp add: require_object_identity_def strip_object_key hex_ok_def)

section \<open>What the objects and the index stand for\<close>

text \<open>The object at a key opens to a content, which its metadata confirms, and is the one the key names.\<close>

definition stores :: "prims \<Rightarrow> vault \<Rightarrow> (str \<Rightarrow> bytes option) \<Rightarrow> str \<Rightarrow> bytes \<Rightarrow> bool" where
  "stores P v om key pt \<longleftrightarrow> (\<exists>blob x h. om key = Some blob \<and> length blob \<le> U64_MAX \<and>
     open_object P (v_root_key v) blob = Ok x \<and> parse_head blob = Ok h \<and>
     key = object_key_for P (h_file_id h) \<and> o_plaintext x = pt \<and>
     (\<forall>md. o_metadata x = Some md \<longrightarrow> m_content_blake3 md = blake3_hash P pt))"

definition name_target :: "prims \<Rightarrow> vault \<Rightarrow> (str \<Rightarrow> bytes option) \<Rightarrow> str \<Rightarrow> str option" where
  "name_target P v om p =
     (case om (record_key P (v_name_keys v) p) of None \<Rightarrow> None
      | Some val \<Rightarrow> (case open_record P (v_name_keys v) (v_vault_id v) (record_key P (v_name_keys v) p) val of
          Err _ \<Rightarrow> None | Ok nr \<Rightarrow> Some (object_key_for P (nr_file_id nr))))"

definition resolves :: "prims \<Rightarrow> vault \<Rightarrow> index_map \<Rightarrow> (str \<Rightarrow> bytes option) \<Rightarrow> str \<Rightarrow> str option" where
  "resolves P v im om p =
     (case im p of Some r \<Rightarrow> Some (ir_object_key r) | None \<Rightarrow> name_target P v om p)"

text \<open>No object belongs to two paths, whether by the index or by a name record.\<close>

definition owned :: "prims \<Rightarrow> vault \<Rightarrow> str set \<Rightarrow> index_map \<Rightarrow> (str \<Rightarrow> bytes option) \<Rightarrow> bool" where
  "owned P v S im om \<longleftrightarrow> (\<exists>owner. \<forall>p \<in> S.
     (\<forall>r. im p = Some r \<longrightarrow> owner (ir_object_key r) = p \<and> (\<exists>f. ir_object_key r = object_key_for P f)) \<and>
     (\<forall>k. name_target P v om p = Some k \<longrightarrow> owner k = p))"

text \<open>
  The files of the vault: a path with a content resolves to an object with that content; a path without
  one resolves to nothing, or to an object that is gone, as an interrupted deletion leaves it.
\<close>

definition files_ok :: "prims \<Rightarrow> vault \<Rightarrow> str set \<Rightarrow> index_map \<Rightarrow> (str \<rightharpoonup> bytes) \<Rightarrow> (str \<Rightarrow> bytes option) \<Rightarrow> bool" where
  "files_ok P v S im m om \<longleftrightarrow> (\<forall>p \<in> S. case m p of
     Some pt \<Rightarrow> (\<exists>k. resolves P v im om p = Some k \<and> stores P v om k pt)
   | None \<Rightarrow> (\<forall>k. resolves P v im om p = Some k \<longrightarrow> om k = None))"

definition vault_rep ::
  "prims \<Rightarrow> postcard \<Rightarrow> vault \<Rightarrow> str set \<Rightarrow> index_map \<Rightarrow> (str \<rightharpoonup> bytes) \<Rightarrow> shelf \<Rightarrow> bool" where
  "vault_rep P C v S im m d \<longleftrightarrow> index_rep P C (v_index v) S im (snd d) \<and>
     owned P v S im (map_of (fst d)) \<and> files_ok P v S im m (map_of (fst d))"

text \<open>What is relied on: of the primitives, of the keys of the vault, and of the paths in use.\<close>

definition vault_env :: "prims \<Rightarrow> postcard \<Rightarrow> vault \<Rightarrow> str set \<Rightarrow> bool" where
  "vault_env P C v S \<longleftrightarrow> env_ok P C (v_index v) S \<and> cipher_tidy P \<and> hashes_ok P \<and> hex_ok P \<and>
     length (v_root_key v) = 32 \<and> length (nk_value_key (v_name_keys v)) = 32 \<and>
     v_chunk_size v \<noteq> 0 \<and> v_chunk_size v \<le> MAX_CHUNK_SIZE \<and>
     inj_on (record_key P (v_name_keys v)) S \<and>
     (\<forall>p \<in> S. length p < 2 ^ 16 \<and> (\<forall>f n t h. length f = 16 \<longrightarrow> length h \<le> 32 \<longrightarrow>
       record_ok C \<lparr>ir_path = p, ir_object_key = object_key_for P f, ir_size = n, ir_modified_unix = t,
         ir_content_hash = h\<rparr>))"

lemma vault_envD:
  assumes "vault_env P C v S"
  shows "env_ok P C (v_index v) S" "cipher_ok P" "cipher_tidy P" "hashes_ok P" "hex_ok P"
    "length (v_root_key v) = 32" "length (nk_value_key (v_name_keys v)) = 32"
    "inj_on (record_key P (v_name_keys v)) S" "v_chunk_size v \<noteq> 0" "v_chunk_size v \<le> MAX_CHUNK_SIZE"
  using assms by (simp_all add: vault_env_def env_ok_def)

lemma vault_env_path:
  assumes "vault_env P C v S" "p \<in> S"
  shows "utf8_valid p" "length p < 2 ^ 16"
  using assms by (auto simp: vault_env_def env_ok_def paths_ok_def)

lemma name_target_upd:
  assumes "k \<noteq> record_key P (v_name_keys v) p"
  shows "name_target P v (om(k := x)) p = name_target P v om p"
  using assms by (simp add: name_target_def)

lemma resolves_upd:
  assumes "k \<noteq> record_key P (v_name_keys v) p"
  shows "resolves P v im (om(k := x)) p = resolves P v im om p"
  using assms by (simp add: resolves_def name_target_upd split: option.split)

lemma stores_upd: "k \<noteq> key \<Longrightarrow> stores P v (om(k := x)) key pt = stores P v om key pt"
  by (simp add: stores_def)

lemma stores_object: "stores P v om key pt \<Longrightarrow> (\<exists>blob. om key = Some blob) \<and> (\<exists>f. key = object_key_for P f)"
  by (auto simp: stores_def)

section \<open>Looking a path up\<close>

text \<open>
  A lookup finds what the path resolves to. It says that there is nothing when the name record could not
  be read, whatever is there.
\<close>

lemma get_rng: "c_rng (snd (get P C K p c)) = c_rng c"
  by (auto simp: get_def io_bind_def query_def sql_def Let_def io_return_def io_lift_def
      split: option.splits)

lemma lookup_outcome:
  assumes env: "vault_env P C v S" and rep: "index_rep P C (v_index v) S im db" and p: "p \<in> S"
    and w: "shelf w = (objs, db)" and run: "lookup_object_key P C v p w = (res, w')"
  shows "shelf w' = shelf w" "later_world w w'" "c_rng (w_index w') = c_rng (w_index w)"
    "case res of Err _ \<Rightarrow> noisy w
     | Ok x \<Rightarrow> x = resolves P v im (map_of objs) p \<or> x = None \<and> im p = None \<and> noisy w"
proof -
  let ?n = "record_key P (v_name_keys v) p"
  let ?o = "\<lambda>val. case open_record P (v_name_keys v) (v_vault_id v) ?n val of
      Ok nr \<Rightarrow> Some (object_key_for P (nr_file_id nr)) | Err _ \<Rightarrow> None"
  obtain r1 c1 where c1: "get P C (v_index v) p (w_index w) = (r1, c1)" by fastforce
  define w1 where "w1 = w\<lparr>w_index := c1\<rparr>"
  have "c_db c1 = c_db (w_index w)" "c_rng c1 = c_rng (w_index w)"
    using get_db [of P C "v_index v" p "w_index w"] get_rng [of P C "v_index v" p "w_index w"] c1 by simp_all
  then have s1: "shelf w1 = shelf w" "c_rng (w_index w1) = c_rng (w_index w)"
    by (simp_all add: shelf_def w1_def)
  have "shelf w' = shelf w \<and> later_world w w' \<and> c_rng (w_index w') = c_rng (w_index w) \<and>
    (case res of Err _ \<Rightarrow> noisy w
     | Ok x \<Rightarrow> x = resolves P v im (map_of objs) p \<or> x = None \<and> im p = None \<and> noisy w)"
  proof (cases r1)
    case (Inl e)
    then have f: "from_index (get P C (v_index v) p) w = (Err (IndexErr e), w1)"
      using c1 by (simp add: from_index_def map_err_def w1_def)
    obtain f' where "c_faults (w_index w) = f'" by simp
    have "later (w_index w) c1"
      using c1 by (auto simp: get_def io_bind_def query_def sql_def Let_def later_def io_return_def io_lift_def
          intro: exI [of _ 0] exI [of _ 1] split: option.splits if_splits)
    with f s1 run spec_Err [OF get_refines [OF vault_envD(1) [OF env] rep p], of "w_index w" e c1] c1 Inl w
    show ?thesis
      by (auto simp: lookup_object_key_def io_bind_Err later_world_def noisy_def shelf_def w1_def
          intro: exI [of _ 0])
  next
    case (Inr x)
    then have f: "from_index (get P C (v_index v) p) w = (Ok x, w1)"
      using c1 by (simp add: from_index_def map_err_def w1_def)
    have x: "x = im p" and l1: "later_world w w1"
      using spec_Ok [OF get_refines [OF vault_envD(1) [OF env] rep p], of "w_index w" x c1] c1 Inr w
      by (auto simp: shelf_def later_world_def w1_def intro: exI [of _ 0])
    show ?thesis
    proof (cases "im p")
      case (Some r)
      with f x run s1 l1 show ?thesis
        by (auto simp: lookup_object_key_def io_bind_Ok resolves_def)
    next
      case None
      obtain r2 w2 where c: "b_get ?n w1 = (r2, w2)" by fastforce
      have run': "res = Ok (case r2 of Err _ \<Rightarrow> None | Ok val \<Rightarrow> ?o val) \<and> w' = w2"
        using run f x None c
        by (auto simp: lookup_object_key_def io_bind_def io_try_def Let_def io_return_def
            split: sum.splits)
      from c [unfolded b_get_def] show ?thesis
      proof (cases rule: store_call_cases)
        case (fault e landed)
        have "later_world w1 w2" "noisy w1"
          using fault by (auto simp: later_world_def noisy_def intro: exI [of _ 1])
        with fault run' s1 later_world_trans [OF l1] later_world_noisy [OF l1] None show ?thesis
          by (auto simp: shelf_def split: if_splits)
      next
        case went
        have "later_world w1 w2"
          using went by (auto simp: later_world_def intro: exI [of _ 1])
        with went run' s1 later_world_trans [OF l1] None w show ?thesis
          by (auto simp: shelf_def resolves_def name_target_def ok_or_def split: option.splits)
      qed
    qed
  qed
  then show "shelf w' = shelf w" "later_world w w'" "c_rng (w_index w') = c_rng (w_index w)"
    "case res of Err _ \<Rightarrow> noisy w
     | Ok x \<Rightarrow> x = resolves P v im (map_of objs) p \<or> x = None \<and> im p = None \<and> noisy w" by simp_all
qed

lemma lookup_bind:
  assumes env: "vault_env P C v S" and rep: "index_rep P C (v_index v) S im db" and p: "p \<in> S"
    and found: "vspec (k (resolves P v im (map_of objs) p)) (objs, db) Q R"
    and lost: "im p = None \<Longrightarrow> lax (k None) (objs, db) Q R" and R: "R (objs, db)"
  shows "vspec (io_bind (lookup_object_key P C v p) k) (objs, db) Q R"
  unfolding vspec_def
proof (intro allI impI)
  fix w :: world assume w: "shelf w = (objs, db)"
  obtain res w1 where l: "lookup_object_key P C v p w = (res, w1)" by fastforce
  note out = lookup_outcome [OF env rep p w l]
  show "case io_bind (lookup_object_key P C v p) k w of (Ok x, w') \<Rightarrow> Q x (shelf w') \<and> later_world w w'
    | (Err e, w') \<Rightarrow> R (shelf w') \<and> noisy w"
  proof (cases res)
    case (Inl e)
    with l out R w show ?thesis by (simp add: io_bind_Err)
  next
    case (Inr x)
    obtain r2 w2 where k2: "k x w1 = (r2, w2)" by fastforce
    have step: "io_bind (lookup_object_key P C v p) k w = (r2, w2)"
      using l k2 Inr by (simp add: io_bind_Ok)
    show ?thesis
    proof (cases "x = resolves P v im (map_of objs) p")
      case True
      with vspec_Ok [OF found, of w1 _ w2] vspec_Err [OF found, of w1 _ w2] k2 out(1,2) w step
        later_world_trans [OF out(2)] later_world_noisy [OF out(2)]
      show ?thesis by (cases r2) auto
    next
      case False
      with out(4) Inr have "x = None" "im p = None" "noisy w" by auto
      with lost k2 out(1,2) w step later_world_trans [OF out(2)]
      show ?thesis by (cases r2) (force simp: lax_def)+
    qed
  qed
qed

lemma lax_lookup_bind:
  assumes env: "vault_env P C v S" and rep: "index_rep P C (v_index v) S im db" and p: "p \<in> S"
    and found: "lax (k (resolves P v im (map_of objs) p)) (objs, db) Q R"
    and lost: "im p = None \<Longrightarrow> lax (k None) (objs, db) Q R" and R: "R (objs, db)"
  shows "lax (io_bind (lookup_object_key P C v p) k) (objs, db) Q R"
  unfolding lax_def
proof (intro allI impI)
  fix w :: world assume w: "shelf w = (objs, db)"
  obtain res w1 where l: "lookup_object_key P C v p w = (res, w1)" by fastforce
  note out = lookup_outcome [OF env rep p w l]
  show "case io_bind (lookup_object_key P C v p) k w of (Ok x, w') \<Rightarrow> Q x (shelf w') \<and> later_world w w'
    | (Err e, w') \<Rightarrow> R (shelf w')"
  proof (cases res)
    case (Inl e)
    with l out R w show ?thesis by (simp add: io_bind_Err)
  next
    case (Inr x)
    obtain r2 w2 where k2: "k x w1 = (r2, w2)" by fastforce
    have step: "io_bind (lookup_object_key P C v p) k w = (r2, w2)"
      using l k2 Inr by (simp add: io_bind_Ok)
    have "lax (k x) (objs, db) Q R" using out(4) Inr found lost by auto
    with k2 out(1) w step later_world_trans [OF out(2)] show ?thesis
      by (cases r2) (force simp: lax_def)+
  qed
qed

section \<open>Reading\<close>

lemma opened_head:
  assumes "open_object P key blob = Ok x" "parse_head blob = Ok h"
  shows "h_kem_id h = KEM_ID_NONE" "length (h_file_id h) = 16" "valid_head h"
  using assms build_parse_head(1) [OF assms(2)] by (auto simp: open_object_def and_then_Ok_iff valid_head_def)

lemma files_okD:
  assumes "files_ok P v S im m om" "p \<in> S" "m p = Some pt"
  obtains blob x h where "resolves P v im om p = Some (object_key_for P (h_file_id h))"
    "om (object_key_for P (h_file_id h)) = Some blob" "open_object P (v_root_key v) blob = Ok x"
    "parse_head blob = Ok h" "o_plaintext x = pt" "length blob \<le> U64_MAX"
    "\<And>md. o_metadata x = Some md \<Longrightarrow> m_content_blake3 md = blake3_hash P pt"
proof -
  from assms have "\<exists>k. resolves P v im om p = Some k \<and> stores P v om k pt"
    unfolding files_ok_def by fastforce
  then show thesis using that unfolding stores_def by blast
qed

lemma check_content_ok:
  assumes "o_plaintext x = pt" "\<And>md. o_metadata x = Some md \<Longrightarrow> m_content_blake3 md = blake3_hash P pt"
  shows "check_content P what x = io_return pt"
  using assms by (auto simp: check_content_def split: option.splits)

lemma root_open:
  "length (v_root_key v) = 32 \<Longrightarrow> open_object P (v_root_key v) blob = Ok x \<Longrightarrow>
    io_bind (root v) (\<lambda>k. from_crypto (open_object P k blob)) = io_return x"
  by (simp only: root_def simp_thms if_True io_bind_unit from_crypto_Ok)

theorem get_file_exact:
  assumes env: "vault_env P C v S" and rep: "vault_rep P C v S im m (objs, db)"
    and p: "Paths.normalize P raw = Ok p" "p \<in> S" and m: "m p = Some pt"
  shows "vspec (get_file P C v raw) (objs, db) (\<lambda>x d'. x = pt \<and> d' = (objs, db)) (\<lambda>d'. d' = (objs, db))"
    (is "vspec _ _ ?Q ?R")
proof -
  have rep': "index_rep P C (v_index v) S im db" "files_ok P v S im m (map_of objs)"
    using rep by (simp_all add: vault_rep_def)
  obtain blob x h where k: "resolves P v im (map_of objs) p = Some (object_key_for P (h_file_id h))"
    "map_of objs (object_key_for P (h_file_id h)) = Some blob" "open_object P (v_root_key v) blob = Ok x"
    "parse_head blob = Ok h" "o_plaintext x = pt"
    "\<And>md. o_metadata x = Some md \<Longrightarrow> m_content_blake3 md = blake3_hash P pt"
    by (rule files_okD [OF rep'(2) p(2) m]) (rule that; assumption)
  note h = opened_head [OF k(3,4)]
  have rest: "vspec (io_bind (from_crypto (parse_head blob)) (\<lambda>head.
      io_bind (require_object_identity P (object_key_for P (h_file_id h)) head) (\<lambda>_.
      io_bind (if h_kem_id head = KEM_ID_NONE
         then io_bind (root v) (\<lambda>k. from_crypto (open_object P k blob))
       else if h_kem_id head = KEM_ID_HYBRID
         then io_bind (recover_object_kw P v blob) (\<lambda>kw. from_crypto (open_with_kw P kw blob))
       else io_fail unsupported_kem_id) (check_content P p)))) (objs, db) ?Q ?R"
    using vspec_return [of ?Q pt "(objs, db)" ?R]
    by (simp only: k(4) h(1) root_open [OF vault_envD(6) [OF env] k(3)] check_content_ok [OF k(5,6)]
        require_identity_ok [OF vault_envD(5) [OF env] h(2)] from_crypto_Ok io_bind_unit simp_thms if_True)
  show ?thesis
    unfolding get_file_def
    by (rule vspec_bind, rule vspec_crypto [OF p(1)], rule lookup_bind [OF env rep'(1) p(2)],
        simp only: k(1) option.case, rule vspec_get_bind, rule k(2), rule rest)
      (simp_all add: lax_fail)
qed

lemma lax_bind:
  assumes "lax m d (\<lambda>x d'. lax (k x) d' Q R) R"
  shows "lax (io_bind m k) d Q R"
  unfolding lax_def
proof (intro allI impI)
  fix w :: world assume w: "shelf w = d"
  obtain res w1 where m: "m w = (res, w1)" by fastforce
  show "case io_bind m k w of (Ok x, w') \<Rightarrow> Q x (shelf w') \<and> later_world w w' | (Err e, w') \<Rightarrow> R (shelf w')"
  proof (cases res)
    case (Inl e)
    with m assms w show ?thesis by (auto simp: io_bind_Err lax_def)
  next
    case (Inr x)
    have k: "lax (k x) (shelf w1) Q R" and l: "later_world w w1"
      using m Inr lax_Ok [OF assms w, of x w1] by simp_all
    obtain r2 w2 where k2: "k x w1 = (r2, w2)" by fastforce
    with m Inr lax_Err [OF k refl, of _ w2]
      lax_Ok [OF k refl, of _ w2] later_world_trans [OF l] show ?thesis
      by (cases r2) (simp_all add: io_bind_Ok)
  qed
qed

lemma lax_get_missing:
  assumes "map_of objs key = None" "R (objs, db)"
  shows "lax (from_store (b_get key)) (objs, db) Q R"
  unfolding lax_def
proof (intro allI impI)
  fix w :: world assume w: "shelf w = (objs, db)"
  obtain res w1 where c: "store_call (\<lambda>objs. (ok_or (S_NotFound key) (map_of objs key), objs)) w = (res, w1)"
    by fastforce
  from c have "\<exists>e. res = Err e \<and> shelf w1 = (objs, db)"
    by (cases rule: store_call_cases) (use w assms(1) in \<open>auto simp: shelf_def ok_or_def\<close>)
  with c assms(2) show "case from_store (b_get key) w of (Ok x, w') \<Rightarrow> Q x (shelf w') \<and> later_world w w'
    | (Err e, w') \<Rightarrow> R (shelf w')"
    by (auto simp: from_store_def b_get_def map_err_def)
qed

theorem get_file_absent:
  assumes env: "vault_env P C v S" and rep: "vault_rep P C v S im m (objs, db)"
    and p: "Paths.normalize P raw = Ok p" "p \<in> S" and m: "m p = None"
  shows "lax (get_file P C v raw) (objs, db) (\<lambda>_ _. False) (\<lambda>d'. d' = (objs, db))"
proof -
  have rep': "index_rep P C (v_index v) S im db" "files_ok P v S im m (map_of objs)"
    using rep by (simp_all add: vault_rep_def)
  have gone: "map_of objs k = None" if "resolves P v im (map_of objs) p = Some k" for k
    using rep'(2) p(2) m that unfolding files_ok_def by fastforce
  show ?thesis
    unfolding get_file_def
    by (rule lax_bind, rule lax_vspec, rule vspec_crypto [OF p(1)], rule lax_lookup_bind [OF env rep'(1) p(2)])
      (auto intro!: lax_bind lax_fail lax_get_missing gone split: option.split)
qed

section \<open>Reading in parts\<close>

definition reads :: "prims \<Rightarrow> (str \<Rightarrow> bytes option) \<Rightarrow> range_reader \<Rightarrow> bytes \<Rightarrow> bool" where
  "reads P om rd pt \<longleftrightarrow> (\<exists>blob cts pts. om (rr_key rd) = Some blob \<and> reader_on P rd cts pts blob \<and>
     concat pts = pt \<and> reader_content P rd pt)"

text \<open>The header of a stored object, fetched and opened.\<close>

lemma header_bind:
  assumes env: "vault_env P C v S" and obj: "map_of objs (object_key_for P (h_file_id h)) = Some blob"
    "open_object P (v_root_key v) blob = Ok x" "parse_head blob = Ok h" "length blob \<le> U64_MAX"
    and K: "\<And>rh hb cts pts. \<lbrakk>rh_metadata rh = o_metadata x; ranged_object P rh cts pts blob;
        concat pts = o_plaintext x; length (o_plaintext x) = unat (h_plaintext_len (rh_head rh));
        rh_payload_start rh = length hb;
        blob = hb @ concat cts @ footer_for P (rh_head rh) (hb @ concat cts)\<rbrakk> \<Longrightarrow>
      vspec (K hb rh) (objs, db) Q R"
    and R: "R (objs, db)"
  shows "vspec (io_bind (fetch_header (object_key_for P (h_file_id h)) path) (\<lambda>(prefix, header_len).
      io_bind (from_crypto (parse_head prefix)) (\<lambda>head.
      io_bind (require_object_identity P (object_key_for P (h_file_id h)) head) (\<lambda>_.
      io_bind (if h_kem_id head = KEM_ID_NONE
         then io_bind (root v) (\<lambda>k. from_crypto (range_open P k (take header_len prefix)))
       else if h_kem_id head = KEM_ID_HYBRID
         then io_bind (recover_object_kw P v prefix) (\<lambda>kw.
           from_crypto (range_open_with_kw P kw (take header_len prefix)))
       else io_fail unsupported_kem_id) (K (take header_len prefix)))))) (objs, db) Q R"
proof -
  obtain h' w n mm rest rh cts pts where o: "header_shape h' [] w n mm"
    "blob = full_header h' [] w n mm @ rest" "rh_metadata rh = o_metadata x"
    "\<And>k. \<lbrakk>length (full_header h' [] w n mm) \<le> k; k \<le> length blob\<rbrakk> \<Longrightarrow> range_open P (v_root_key v) (take k blob) = Ok rh"
    "ranged_object P rh cts pts blob" "concat pts = o_plaintext x"
    "length (o_plaintext x) = unat (h_plaintext_len (rh_head rh))"
    "rh_head rh = h'" "rh_payload_start rh = length (full_header h' [] w n mm)"
    "rest = concat cts @ footer_for P h' (full_header h' [] w n mm @ concat cts)"
    by (rule opened_ranged [OF vault_envD(3) [OF env] obj(2,4)]) (rule that; assumption)
  define L where "L = length (full_header h' [] w n mm)"
  have L: "68 \<le> L" "L \<le> length blob" using length_full_header [OF o(1)] by (simp_all add: L_def o(2))
  have heads: "parse_head (take j blob) = Ok h'" if "L \<le> j" for j
    using parse_head_prefix [OF o(1), of j rest] L(1) that by (simp add: o(2))
  from heads [of "length blob"] L obj(3) have hh: "h' = h" by simp
  note head = opened_head [OF obj(2,3)]
  have opened: "vspec (K (take L blob) rh) (objs, db) Q R"
    by (rule K [OF o(3,5-7)]) (use o(2,8-10) in \<open>simp_all add: L_def\<close>)
  have rest: "vspec (io_bind (from_crypto (parse_head (take j blob))) (\<lambda>head.
      io_bind (require_object_identity P (object_key_for P (h_file_id h)) head) (\<lambda>_.
      io_bind (if h_kem_id head = KEM_ID_NONE
         then io_bind (root v) (\<lambda>k. from_crypto (range_open P k (take L (take j blob))))
       else if h_kem_id head = KEM_ID_HYBRID
         then io_bind (recover_object_kw P v (take j blob)) (\<lambda>kw.
           from_crypto (range_open_with_kw P kw (take L (take j blob))))
       else io_fail unsupported_kem_id) (K (take L (take j blob)))))) (objs, db) Q R" if j: "L \<le> j" for j
  proof -
    have cut: "take L (take j blob) = take L blob" using j by (simp add: min_absorb1)
    have "range_open P (v_root_key v) (take L blob) = Ok rh" using o(4) [of L] L by (simp add: L_def)
    then show ?thesis
      using opened
      by (simp only: heads [OF j] hh head(1) root_def vault_envD(6) [OF env] cut simp_thms if_True
          require_identity_ok [OF vault_envD(5) [OF env] head(2)] from_crypto_Ok io_bind_unit)
  qed
  show ?thesis
    by (rule vspec_bind, rule fetch_header_exact [where R = R, OF o(1,2) obj(1) R], simp only: prod.case L_def [symmetric])
      (erule rest)
qed

theorem open_range_reader_exact:
  assumes env: "vault_env P C v S" and rep: "vault_rep P C v S im m (objs, db)"
    and p: "Paths.normalize P raw = Ok p" "p \<in> S" and m: "m p = Some pt"
  shows "vspec (open_range_reader P C v raw) (objs, db)
      (\<lambda>rd d'. reads P (map_of objs) rd pt \<and> d' = (objs, db)) (\<lambda>d'. d' = (objs, db))"
    (is "vspec _ _ ?Q ?R")
proof -
  have rep': "index_rep P C (v_index v) S im db" "files_ok P v S im m (map_of objs)"
    using rep by (simp_all add: vault_rep_def)
  obtain blob x h where k: "resolves P v im (map_of objs) p = Some (object_key_for P (h_file_id h))"
    "map_of objs (object_key_for P (h_file_id h)) = Some blob" "open_object P (v_root_key v) blob = Ok x"
    "parse_head blob = Ok h" "o_plaintext x = pt" "length blob \<le> U64_MAX"
    "\<And>md. o_metadata x = Some md \<Longrightarrow> m_content_blake3 md = blake3_hash P pt"
    by (rule files_okD [OF rep'(2) p(2) m]) (rule that; assumption)
  let ?rd = "\<lambda>hb rh. \<lparr>rr_key = object_key_for P (h_file_id h), rr_header = rh, rr_header_bytes = hb, rr_path = p\<rparr>"
  show ?thesis
    unfolding open_range_reader_def
  proof (rule vspec_bind, rule vspec_crypto [OF p(1)], rule lookup_bind [OF env rep'(1) p(2)],
      simp only: k(1) option.case, rule header_bind [where K = "\<lambda>hb rh. io_return (?rd hb rh)", OF env k(2-4,6)], goal_cases)
    case (1 rh hb cts pts)
    have "reader_on P (?rd hb rh) cts pts blob"
      using 1(2,4-6) by (simp add: reader_on_def 1(3))
    moreover have "reader_content P (?rd hb rh) pt"
      using k(7) 1(1) by (simp add: reader_content_def content_blake3_def split: option.split)
    ultimately have "reads P (map_of objs) (?rd hb rh) pt"
      using k(2,5) 1(3) unfolding reads_def by auto
    then show ?case by (auto intro: vspec_return)
  qed (simp_all add: lax_fail)
qed

theorem stream_file_exact:
  assumes env: "vault_env P C v S" and rep: "vault_rep P C v S im m (objs, db)"
    and p: "Paths.normalize P raw = Ok p" "Paths.normalize P p = Ok p" "p \<in> S" and m: "m p = Some pt"
  shows "sspec (stream_file_to P C append_writer (\<lambda>s. (Ok (), s)) v raw) (objs, db) []
      (\<lambda>sd d' out. sd = \<lparr>sd_bytes = length pt, sd_plaintext_hash = blake3_hash P pt\<rparr> \<and> d' = (objs, db) \<and> out = pt)
      (\<lambda>d' out. d' = (objs, db) \<and> (\<exists>rest. pt = out @ rest))"
  unfolding stream_file_to_def
proof (rule sspec_bind, rule sspec_world, rule vspec_crypto [OF p(1)], rule sspec_bind, rule sspec_world,
    rule vspec_weaken [OF open_range_reader_exact [OF env rep p(2,3) m]])
  fix rd d' assume "reads P (map_of objs) rd pt \<and> d' = (objs, db)"
  then obtain blob cts pts where r: "map_of objs (rr_key rd) = Some blob" "reader_on P rd cts pts blob"
    "concat pts = pt" "reader_content P rd pt" "d' = (objs, db)" unfolding reads_def by blast
  have cut: "\<exists>rest. pt = concat (take j pts) @ rest" for j
    by (metis append_take_drop_id concat_append r(3))
  have hash: "\<And>x. length (blake3_hash P x) = 32" using vault_envD(4) [OF env] by (simp add: hashes_ok_def)
  show "sspec (stream_reader_to P append_writer (\<lambda>s. (Ok (), s)) rd p) d' []
      (\<lambda>sd d' out. sd = \<lparr>sd_bytes = length pt, sd_plaintext_hash = blake3_hash P pt\<rparr> \<and> d' = (objs, db) \<and> out = pt)
      (\<lambda>d' out. d' = (objs, db) \<and> (\<exists>rest. pt = out @ rest))"
    unfolding r(5)
    by (rule sspec_weaken [OF stream_reader_exact [OF r(2,1) hash r(4) [folded r(3)]]]) (auto simp: r(3) cut)
qed auto

section \<open>Verifying\<close>

text \<open>
  Verifying a file succeeds unless a request fails: its stored length is the one its header declares, and
  it streams.
\<close>

lemma confirm_length_exact:
  assumes on: "reader_on P rd cts pts blob" and obj: "map_of objs (rr_key rd) = Some blob"
    and hash: "\<And>x. length (blake3_hash P x) = 32" and R: "R (objs, db)" and Q: "Q () (objs, db)"
  shows "vspec (confirm_object_length rd) (objs, db) Q R"
proof -
  have len: "length blob = length (rr_header_bytes rd @ concat cts) \<or>
      length blob = length (rr_header_bytes rd @ concat cts) + FOOTER_LEN"
    using on hash by (auto simp: reader_on_def footer_for_def)
  show ?thesis
    unfolding confirm_object_length_def payload_end_exact [OF on] from_crypto_Ok io_bind_unit
    by (cases "unat (h_chunk_count (rh_head (rr_header rd))) = 0")
      (use len Q R in \<open>auto intro!: vspec_return vspec_bind vspec_head_size [where R = R, OF obj] simp del: FOOTER_LEN_def\<close>)
qed

theorem verify_file_exact:
  assumes env: "vault_env P C v S" and rep: "vault_rep P C v S im m (objs, db)"
    and p: "Paths.normalize P raw = Ok p" "Paths.normalize P p = Ok p" "p \<in> S" and m: "m p = Some pt"
  shows "vspec (verify_file P C v raw) (objs, db) (\<lambda>_ d'. d' = (objs, db)) (\<lambda>d'. d' = (objs, db))"
    (is "vspec _ _ ?Q ?R")
proof -
  have hash: "\<And>x. length (blake3_hash P x) = 32" using vault_envD(4) [OF env] by (simp add: hashes_ok_def)
  have rest: "vspec (\<lambda>w. case stream_reader_to P sink (\<lambda>s. (Ok (), s)) rd p (w, ()) of
       (res, (w', _)) \<Rightarrow> (and_then res (\<lambda>_. Ok ()), w')) (objs, db) ?Q ?R"
    if on: "reader_on P rd cts pts blob" and obj: "map_of objs (rr_key rd) = Some blob"
      and content: "reader_content P rd (concat pts)" for rd cts pts blob
    unfolding vspec_def
  proof (intro allI impI)
    fix w :: world assume w: "shelf w = (objs, db)"
    obtain res w1 out1 where s: "stream_reader_to P append_writer (\<lambda>s. (Ok (), s)) rd p (w, []) = (res, w1, out1)"
      by (metis prod_cases3)
    note s' = forgetsD [OF forgets_stream s]
    from sspec_Ok [OF stream_reader_exact [OF on obj hash content] w, of p _ w1 out1]
      sspec_Err [OF stream_reader_exact [OF on obj hash content] w, of p _ w1 out1] s s'
    show "case (case stream_reader_to P sink (\<lambda>s. (Ok (), s)) rd p (w, ()) of
        (res, (w', _)) \<Rightarrow> (and_then res (\<lambda>_. Ok ()), w')) of
      (Ok x, w') \<Rightarrow> ?Q x (shelf w') \<and> later_world w w' | (Err e, w') \<Rightarrow> ?R (shelf w') \<and> noisy w"
      by (cases res) simp_all
  qed
  show ?thesis
    unfolding verify_file_def
  proof (rule vspec_bind, rule vspec_crypto [OF p(1)], rule vspec_bind,
      rule vspec_weaken [OF open_range_reader_exact [OF env rep p(2,3) m]])
    fix rd d' assume "reads P (map_of objs) rd pt \<and> d' = (objs, db)"
    then obtain blob cts pts where r: "map_of objs (rr_key rd) = Some blob" "reader_on P rd cts pts blob"
      "reader_content P rd (concat pts)" "d' = (objs, db)" unfolding reads_def by blast
    show "vspec (io_bind (confirm_object_length rd) (\<lambda>_ w.
        case stream_reader_to P sink (\<lambda>s. (Ok (), s)) rd p (w, ()) of
          (res, (w', _)) \<Rightarrow> (and_then res (\<lambda>_. Ok ()), w'))) d' ?Q ?R"
      unfolding r(4)
      by (rule vspec_bind, rule confirm_length_exact [OF r(2,1) hash]) (simp_all add: rest [OF r(2,1,3)])
  qed auto
qed

end
