(* ===== verification/Index_Runs.thy ===== *)
theory Index_Runs
  imports Index_Refinement
begin

text \<open>
  The life of an index: the states a connection goes through from a fresh database on, by operations
  that succeed and operations that fail at any statement. Beside the connection runs the map that the
  successful operations have built; every reachable database represents it.
\<close>

definition fresh_db :: db where
  "fresh_db = \<lparr>db_records = [], db_dirs = [], db_totals = None, db_user_version = 0\<rparr>"

inductive index_reachable ::
  "prims \<Rightarrow> postcard \<Rightarrow> index_keys \<Rightarrow> str set \<Rightarrow> index_map \<Rightarrow> conn \<Rightarrow> bool"
  for P C K S where
  opened: "c_db c = fresh_db \<Longrightarrow> migrate P C K c = (Ok (), c') \<Longrightarrow> index_reachable P C K S Map.empty c'"
| reopened: "index_reachable P C K S m c \<Longrightarrow> c_db c' = c_db c \<Longrightarrow> migrate P C K c' = (res, c'')
    \<Longrightarrow> index_reachable P C K S m c''"
| put: "index_reachable P C K S m c \<Longrightarrow> ir_path r \<in> S \<Longrightarrow> record_ok C r \<Longrightarrow> fits (m(ir_path r \<mapsto> r))
    \<Longrightarrow> put P C K r c = (Ok (), c') \<Longrightarrow> index_reachable P C K S (m(ir_path r \<mapsto> r)) c'"
| put_failed: "index_reachable P C K S m c \<Longrightarrow> put P C K r c = (Err e, c') \<Longrightarrow> index_reachable P C K S m c'"
| delete: "index_reachable P C K S m c \<Longrightarrow> p \<in> S \<Longrightarrow> delete P C K p c = (Ok found, c')
    \<Longrightarrow> index_reachable P C K S (m(p := None)) c'"
| delete_failed: "index_reachable P C K S m c \<Longrightarrow> delete P C K p c = (Err e, c')
    \<Longrightarrow> index_reachable P C K S m c'"

lemma fresh_old_rep: "old_rep P C K S Map.empty fresh_db"
  by (simp add: old_rep_def map_ok_def fresh_db_def)

lemma fits_empty: "fits Map.empty"
  by (simp add: fits_def measured_sum_def)

text \<open>Reopening a migrated index reads the version and no more, also when the read fails.\<close>

lemma migrate_migrated:
  assumes "db_user_version (c_db c) = 1" "migrate P C K c = (res, c')"
  shows "c_db c' = c_db c"
  using assms by (auto simp: migrate_def io_bind_def query_def sql_def io_return_def Let_def split: if_splits)

lemma migrate_atomic: "migrate P C K c = (Err e, c') \<Longrightarrow> c_db c' = c_db c"
  by (auto simp: migrate_def io_bind_def query_def sql_def io_return_def Let_def
      dest: transaction_Err split: if_splits)

theorem reachable_rep:
  assumes env: "env_ok P C K S" and reach: "index_reachable P C K S m c"
  shows "index_rep P C K S m (c_db c)"
  using reach
proof induction
  case (opened c c')
  then show ?case
    using spec_Ok [OF migrate_refines [OF env fresh_old_rep fits_empty]] by blast
next
  case (reopened m c c' res c'')
  then have "db_user_version (c_db c') = 1" by (simp add: index_rep_def)
  from migrate_migrated [OF this] reopened show ?case by fastforce
next
  case (put m c r c')
  then show ?case
    using spec_Ok [OF put_refines [OF env put.IH put.hyps(2-4)] refl] by blast
next
  case (put_failed m c r e c')
  then show ?case by (simp add: put_atomic)
next
  case (delete m c p found c')
  then show ?case
    using spec_Ok [OF delete_refines [OF env delete.IH delete.hyps(2)] refl] by blast
next
  case (delete_failed m c p e c')
  then show ?case by (simp add: delete_atomic)
qed

end
