(* ===== verification/Vault_Keys_Correct.thy ===== *)
theory Vault_Keys_Correct
  imports Vault_Keys Vault_Correct Index_Runs
begin

text \<open>
  What the keys of a vault promise: whoever has the password or the recovery phrase opens the vault that
  was created, nobody else does, a change of the password replaces it and leaves every other way in, and
  the key pairs that were imported are read back, whatever the size of the pages they are listed in.
\<close>

section \<open>The hash and the phrase\<close>

text \<open>
  What the two third-party crates document: Argon2id computes a key at any cost with at least eight
  blocks a lane and a salt of at least eight bytes; a phrase made from 32 bytes parses.
\<close>

definition argon_ok :: "prims \<Rightarrow> bool" where
  "argon_ok P \<longleftrightarrow> (\<forall>secret salt m t p. length secret < 2 ^ 32 \<longrightarrow> 8 \<le> length salt \<longrightarrow>
     8 * unat p \<le> unat m \<longrightarrow> 1 \<le> p \<longrightarrow> 1 \<le> t \<longrightarrow>
     (\<exists>k. argon2_hash P secret salt m t p = Some k \<and> length k = KEY_LEN))"

definition bip39_ok :: "prims \<Rightarrow> bool" where
  "bip39_ok P \<longleftrightarrow> (\<forall>e. length e = 32 \<longrightarrow> (\<exists>phrase seed. bip39_phrase P e = Some phrase \<and>
     bip39_seed P phrase = Some seed \<and> length seed = 64))"

definition cost_ok :: "cost \<Rightarrow> bool" where
  "cost_ok c \<longleftrightarrow> cost_validate c = Ok () \<and> 8 * unat (p_lanes c) \<le> unat (m_cost c)"

lemma shipped_cost_ok: "cost_ok (cost_shipped profile)"
  using shipped_valid [of profile]
  by (auto simp: cost_ok_def cost_shipped_def cost_PRODUCTION_def cost_TEST_def)

lemma argon2id_ok:
  assumes "argon_ok P" "cost_ok c" "length secret < 2 ^ 32" "8 \<le> length salt"
  obtains k where "argon2id P secret salt c = Ok k" "length k = 32"
proof -
  have "1 \<le> p_lanes c" "1 \<le> t_cost c"
    using assms(2) by (auto simp: cost_ok_def cost_validate_def validate_params_def Let_def split: if_splits)
  with assms obtain k where "argon2_hash P secret salt (m_cost c) (t_cost c) (p_lanes c) = Some k"
    "length k = 32" unfolding argon_ok_def cost_ok_def KEY_LEN_def by blast
  with assms(2) that show thesis by (simp add: argon2id_def cost_ok_def)
qed

section \<open>Slots\<close>

definition seals :: "prims \<Rightarrow> unlock_key \<Rightarrow> bytes \<Rightarrow> bytes \<Rightarrow> slot \<Rightarrow> bool" where
  "seals P key root_key vid s \<longleftrightarrow> valid_slot s \<and> slot_type s = key_slot_type key \<and> slot_flags s = 0 \<and>
     slot_wrap_algo s = WRAP_ALGO_XCHACHA20_POLY1305 \<and> slot_kdf_id s = KDF_ID_ARGON2ID \<and>
     (\<exists>kek. slot_kek P key s = Some kek \<and> unwrap_slot P s kek vid = Ok root_key)"

lemma recover_root_seals: "seals P key rk vid s \<Longrightarrow> recover_root P key vid (s # ss) = Some rk"
  by (auto simp: seals_def)

text \<open>Only the slots of the key's own type matter.\<close>

lemma recover_root_filter:
  "recover_root P key vid (filter (\<lambda>s. slot_type s = key_slot_type key) ss) = recover_root P key vid ss"
  by (induction ss) (auto simp: slot_kek_def split: option.splits sum.splits)

lemma recover_root_None:
  assumes "\<And>s kek. s \<in> set ss \<Longrightarrow> slot_kek P key s = Some kek \<Longrightarrow> commitment P kek \<noteq> Ok (slot_commit s)"
  shows "recover_root P key vid ss = None"
  using assms
proof (induction ss)
  case (Cons s ss)
  have "unwrap_slot P s kek vid \<noteq> Ok rk" if "slot_kek P key s = Some kek" for kek rk
    using Cons.prems [of s kek] that by (auto simp: unwrap_slot_def and_then_Ok_iff)
  with Cons show ?case by (auto split: option.splits sum.splits)
qed simp

lemma recover_root_Some:
  assumes "recover_root P key vid ss = Some rk"
  obtains s kek where "s \<in> set ss" "slot_type s = key_slot_type key" "slot_kek P key s = Some kek"
    "unwrap_slot P s kek vid = Ok rk"
  using assms
proof (induction ss)
  case (Cons s ss)
  then show ?case
    by (auto simp: slot_kek_def split: if_splits option.splits sum.splits)
qed simp

text \<open>A slot wrapped under the key derived from what is typed opens for it.\<close>

lemma wrap_spec:
  assumes P: "cipher_ok P" "hkdf_ok P" and len: "length kek = 32" "length rk = 32" "length salt < 256"
    and ty: "ty = key_slot_type key"
    and kek: "\<And>s. slot_type s = ty \<Longrightarrow> slot_salt s = salt \<Longrightarrow> slot_m_cost s = m_cost cost \<Longrightarrow>
      slot_t_cost s = t_cost cost \<Longrightarrow> slot_p_lanes s = p_lanes cost \<Longrightarrow> slot_kek P key s = Some kek"
    and Q: "\<And>s. seals P key rk vid s \<Longrightarrow> Q s d"
  shows "vspec (wrap P kek rk vid ty salt cost) d Q R"
  unfolding wrap_def
proof (rule vspec_rng)
  fix r
  obtain s r' where s: "wrap_slot P kek rk vid ty KDF_ID_ARGON2ID (m_cost cost) (t_cost cost) (p_lanes cost) salt [] r
      = Ok (s, r')" "unwrap_slot P s kek vid = Ok rk" "valid_slot s" "slot_type s = ty"
    "slot_kdf_id s = KDF_ID_ARGON2ID" "slot_m_cost s = m_cost cost" "slot_t_cost s = t_cost cost"
    "slot_p_lanes s = p_lanes cost" "slot_salt s = salt"
    by (rule unwrap_wrap_slot [OF P len(1,2,3), of "[]" vid ty KDF_ID_ARGON2ID "m_cost cost" "t_cost cost"
          "p_lanes cost" r]) simp_all
  have "slot_flags s = 0" "slot_wrap_algo s = WRAP_ALGO_XCHACHA20_POLY1305"
    using s(1) by (auto simp: wrap_slot_def Let_def and_then_Ok_iff)
  with s kek [of s] ty have "seals P key rk vid s" by (simp add: seals_def)
  with Q s(1) show "\<exists>x r'. wrap_slot P kek rk vid ty KDF_ID_ARGON2ID (m_cost cost) (t_cost cost)
      (p_lanes cost) salt [] r = Ok (x, r') \<and> Q x d" by blast
qed

lemma password_kek:
  assumes "slot_type s = SLOT_TYPE_PASSWORD" "slot_salt s = salt" "slot_m_cost s = m_cost cost"
    "slot_t_cost s = t_cost cost" "slot_p_lanes s = p_lanes cost" "derive_kek P pw None salt cost = Ok kek"
  shows "slot_kek P (Password pw) s = Some kek"
  using assms by (cases cost) (simp add: slot_kek_def)

lemma phrase_kek:
  assumes "slot_type s = SLOT_TYPE_MNEMONIC" "slot_salt s = salt" "slot_m_cost s = m_cost cost"
    "slot_t_cost s = t_cost cost" "slot_p_lanes s = p_lanes cost"
    "derive_kek_from_mnemonic P phrase salt cost = Ok kek"
  shows "slot_kek P (RecoveryPhrase phrase) s = Some kek"
  using assms by (cases cost) (simp add: slot_kek_def)

section \<open>What is derived from the root key\<close>

definition derived :: "prims \<Rightarrow> bytes \<Rightarrow> bytes \<Rightarrow> vault \<Rightarrow> bool" where
  "derived P root_key vid v \<longleftrightarrow> v_root_key v = root_key \<and> v_vault_id v = vid \<and>
     and_then (map_err (\<lambda>_. Crypto) (derive_subkey P root_key INFO_INDEX)) (index_derive_keys P) = Ok (v_index v) \<and>
     name_keys_derive P root_key = Ok (v_name_keys v) \<and>
     derive_recipient P root_key RECIP_IDX_DEFAULT = Ok (v_identity v) \<and>
     v_identity_key_id v = kp_key_id (v_identity v) \<and> v_chunk_size v = DEFAULT_CHUNK_SIZE"

text \<open>The keys are a function of the root key: two vaults with one root key and identity agree.\<close>

lemma derived_unique:
  assumes "derived P rk vid v" "derived P rk vid v'" "v_imported v = v_imported v'"
  shows "v = v'"
  using assms by (simp add: derived_def)

lemma derived_lengths:
  assumes "derived P rk vid v" "hkdf_ok P"
  shows "length (enc_key (v_index v)) = 32" "length (nk_value_key (v_name_keys v)) = 32"
proof -
  have len: "length k = 32" if "derive_subkey P a b = Ok k" for a b k
    by (rule derive_subkey_ok [OF assms(2), of a b]) (use that in simp)
  show "length (enc_key (v_index v)) = 32" "length (nk_value_key (v_name_keys v)) = 32"
    using assms(1) by (cases "v_index v"; cases "v_name_keys v"; auto simp: derived_def index_derive_keys_def
        name_keys_derive_def and_then_Ok_iff map_err_def dest!: len split: sum.splits)+
qed

lemma derived_exists:
  assumes "hkdf_ok P" "mlkem_ok P"
  obtains v where "derived P rk vid v" "v_imported v = []"
proof -
  obtain a where a: "derive_subkey P rk INFO_INDEX = Ok a" by (rule derive_subkey_ok [OF assms(1)])
  obtain b where b: "derive_subkey P a (lit ''index-keying-v1'') = Ok b" by (rule derive_subkey_ok [OF assms(1)])
  obtain c where c: "derive_subkey P a (lit ''index-encryption-v1'') = Ok c"
    by (rule derive_subkey_ok [OF assms(1)])
  obtain nk where nk: "name_keys_derive P rk = Ok nk" by (rule name_keys_derive_ok [OF assms(1)])
  obtain kp where kp: "derive_recipient P rk RECIP_IDX_DEFAULT = Ok kp"
    by (rule derive_recipient_ok [OF assms])
  show thesis
    by (rule that [of "\<lparr>v_root_key = rk, v_name_keys = nk, v_vault_id = vid,
        v_index = \<lparr>keying_key = b, enc_key = c\<rparr>, v_chunk_size = DEFAULT_CHUNK_SIZE, v_identity = kp,
        v_identity_key_id = kp_key_id kp, v_imported = []\<rparr>"])
      (use a b c nk kp in \<open>simp_all add: derived_def index_derive_keys_def map_err_def\<close>)
qed

lemma assemble_spec:
  assumes v: "derived P rk vid v" "v_imported v = []"
    and mig: "spec (migrate P C (v_index v)) db Q'" and Q: "\<And>db'. Q' () db' \<Longrightarrow> Q v (objs, db')"
    and R: "R (objs, db)"
  shows "vspec (assemble P C rk vid) (objs, db) Q R"
proof -
  obtain a where a: "derive_subkey P rk INFO_INDEX = Ok a" "index_derive_keys P a = Ok (v_index v)"
    using v(1) by (auto simp: derived_def and_then_Ok_iff map_err_def split: sum.splits)
  have nk: "name_keys_derive P rk = Ok (v_name_keys v)"
    and kp: "derive_recipient P rk RECIP_IDX_DEFAULT = Ok (v_identity v)"
    using v(1) by (simp_all add: derived_def)
  have rec: "\<lparr>v_root_key = rk, v_name_keys = v_name_keys v, v_vault_id = vid, v_index = v_index v,
      v_chunk_size = DEFAULT_CHUNK_SIZE, v_identity = v_identity v, v_identity_key_id = kp_key_id (v_identity v),
      v_imported = []\<rparr> = v"
    using v by (simp add: derived_def)
  have open_eq: "index_open P C a = io_bind (migrate P C (v_index v)) (\<lambda>_. io_return (v_index v))"
    by (simp only: index_open_def a(2) io_bind_unit)
  have open_spec: "spec (index_open P C a) db (\<lambda>K db'. K = v_index v \<and> Q' () db')"
    unfolding open_eq spec_def
  proof (intro allI impI)
    fix c :: conn assume c: "c_db c = db"
    obtain r c' where r: "migrate P C (v_index v) c = (r, c')" by fastforce
    with spec_Ok [OF mig c] spec_Err [OF mig c]
    show "case io_bind (migrate P C (v_index v)) (\<lambda>_. io_return (v_index v)) c of
        (Ok x, c') \<Rightarrow> (x = v_index v \<and> Q' () (c_db c')) \<and> later c c'
      | (Err e, c') \<Rightarrow> e = Db \<and> (\<exists>n. c_faults c n)"
      by (cases r) (simp_all add: io_bind_Ok io_bind_Err)
  qed
  have atomic: "c_db c' = c_db c" if "index_open P C a c = (Err e, c')" for c e c'
    using that migrate_atomic [of P C "v_index v" c e c']
    by (auto simp: open_eq io_bind_Err_iff)
  show ?thesis
    unfolding assemble_def a(1) nk kp from_crypto_Ok io_bind_unit rec
  proof (rule vspec_index_bind [where R = R and Q = Q, OF open_spec], rule_tac [2] R, erule_tac [2] atomic)
    fix x db' assume "x = v_index v \<and> Q' () db'"
    with Q show "vspec (io_return \<lparr>v_root_key = rk, v_name_keys = v_name_keys v, v_vault_id = vid,
        v_index = x, v_chunk_size = DEFAULT_CHUNK_SIZE, v_identity = v_identity v,
        v_identity_key_id = kp_key_id (v_identity v), v_imported = []\<rparr>) (objs, db') Q R"
      by (simp only: rec vspec_return)
  qed
qed

text \<open>The database of a new vault is fresh; that of an old one is only read.\<close>

lemma migrate_fresh_spec:
  assumes "cipher_ok P" "length (enc_key K) = 32" "totals_ok C"
  shows "spec (migrate P C K) fresh_db (\<lambda>_ db'. db_user_version db' = 1 \<and>
    (\<forall>S. paths_ok P K S \<longrightarrow> index_rep P C K S Map.empty db'))"
proof -
  have one: "spec (migrate P C K) fresh_db (\<lambda>_. index_rep P C K S Map.empty)" if "paths_ok P K S" for S
    using that assms by (intro migrate_refines [OF _ fresh_old_rep fits_empty]) (simp add: env_ok_def)
  have none: "paths_ok P K {[]}"
    by (simp add: paths_ok_def parent_of_def rfind_byte_def)
  show ?thesis
    unfolding spec_def
  proof (intro allI impI)
    fix c :: conn assume c: "c_db c = fresh_db"
    obtain r c' where r: "migrate P C K c = (r, c')" by fastforce
    show "case migrate P C K c of
        (Ok x, c') \<Rightarrow> (db_user_version (c_db c') = 1 \<and>
          (\<forall>S. paths_ok P K S \<longrightarrow> index_rep P C K S Map.empty (c_db c'))) \<and> later c c'
      | (Err e, c') \<Rightarrow> e = Db \<and> (\<exists>n. c_faults c n)"
      using r spec_Ok [OF one c] spec_Err [OF one [OF none] c] spec_Ok [OF one [OF none] c]
      by (cases r) (auto simp: index_rep_def)
  qed
qed

lemma migrate_again_spec:
  assumes "db_user_version db = 1"
  shows "spec (migrate P C K) db (\<lambda>_ db'. db' = db)"
  unfolding spec_def
proof (intro allI impI)
  fix c :: conn assume c: "c_db c = db"
  with assms show "case migrate P C K c of (Ok x, c') \<Rightarrow> c_db c' = db \<and> later c c'
    | (Err e, c') \<Rightarrow> e = Db \<and> (\<exists>n. c_faults c n)"
    by (auto simp: migrate_def io_bind_def query_def sql_def io_return_def Let_def later_def
        intro: exI [of _ 0] exI [of _ 1])
qed

section \<open>A new vault\<close>

text \<open>The envelope among the objects gives a vault's root key to a key.\<close>

definition opens :: "prims \<Rightarrow> (str \<Rightarrow> bytes option) \<Rightarrow> unlock_key \<Rightarrow> vault \<Rightarrow> bool" where
  "opens P om key v \<longleftrightarrow> (\<exists>bs env. om ENVELOPE_OBJECT_KEY = Some bs \<and> parse bs = Ok env \<and>
     e_vault_id env = v_vault_id v \<and> recover_root P key (e_vault_id env) (e_slots env) = Some (v_root_key v))"

lemma vspec_draw:
  fixes f :: "rng \<Rightarrow> bytes \<times> rng"
  assumes "\<And>r. length (fst (f r)) = n" "\<And>x. length x = n \<Longrightarrow> vspec (k x) d Q R"
  shows "vspec (io_bind (with_rng (\<lambda>r. Ok (f r))) k) d Q R"
proof (rule vspec_bind, rule vspec_rng)
  fix r
  show "\<exists>x r'. (Ok (f r) :: (bytes \<times> rng) crypto) = Ok (x, r') \<and> vspec (k x) d Q R"
    using assms by (cases "f r") (metis fst_conv)
qed

lemma vspec_bind_crypto: "m = Ok x \<Longrightarrow> vspec (k x) d Q R \<Longrightarrow> vspec (io_bind (from_crypto m) k) d Q R"
  by simp

definition init_done ::
  "prims \<Rightarrow> postcard \<Rightarrow> str \<Rightarrow> (str \<times> bytes) list \<Rightarrow> new_vault \<Rightarrow> shelf \<Rightarrow> bool" where
  "init_done P C password objs nv d \<longleftrightarrow>
     derived P (v_root_key (nv_vault nv)) (v_vault_id (nv_vault nv)) (nv_vault nv) \<and>
     length (v_root_key (nv_vault nv)) = 32 \<and> v_imported (nv_vault nv) = [] \<and>
     (\<exists>bs. fst d = AList.update ENVELOPE_OBJECT_KEY bs objs) \<and>
     opens P (map_of (fst d)) (Password password) (nv_vault nv) \<and>
     opens P (map_of (fst d)) (RecoveryPhrase (nv_recovery_phrase nv)) (nv_vault nv) \<and>
     db_user_version (snd d) = 1 \<and>
     (\<forall>S. paths_ok P (v_index (nv_vault nv)) S \<longrightarrow> index_rep P C (v_index (nv_vault nv)) S Map.empty (snd d))"

definition init_left :: "(str \<times> bytes) list \<Rightarrow> shelf \<Rightarrow> bool" where
  "init_left objs d \<longleftrightarrow> snd d = fresh_db \<and>
     (fst d = objs \<or> (\<exists>bs. fst d = AList.update ENVELOPE_OBJECT_KEY bs objs))"

lemma init_slots_spec:
  assumes P: "prims_ok P" "argon_ok P" and cost: "cost_ok cost" and pw: "length (nfc P password) < 2 ^ 32"
    and rk: "length rk = 32" and ph: "bip39_seed P phrase = Some seed" "length seed = 64"
    and Q: "\<And>a b. seals P (Password password) rk vid a \<Longrightarrow> seals P (RecoveryPhrase phrase) rk vid b \<Longrightarrow> Q [a, b] d"
  shows "vspec (init_slots P password cost rk vid phrase) d Q R"
  unfolding init_slots_def
proof (rule vspec_draw [where n = 16], simp add: generate_salt_def,
    rule vspec_draw [where n = 16], simp add: generate_salt_def)
  fix s1 s2 :: bytes assume salts: "length s1 = 16" "length s2 = 16"
  have ok: "cipher_ok P" "hkdf_ok P" using P(1) by (simp_all add: prims_ok_def)
  obtain k1 where k1: "derive_kek P password None s1 cost = Ok k1" "length k1 = 32"
    by (rule argon2id_ok [OF P(2) cost pw, of s1])
      (use salts that in \<open>simp_all add: derive_kek_def normalize_passphrase_def\<close>)
  obtain k2 where k2: "derive_kek_from_mnemonic P phrase s2 cost = Ok k2" "length k2 = 32"
    by (rule argon2id_ok [OF P(2) cost, of seed s2])
      (use salts that ph in \<open>simp_all add: derive_kek_from_mnemonic_def mnemonic_parse_def\<close>)
  show "vspec (io_bind (from_crypto (derive_kek P password None s1 cost)) (\<lambda>password_kek.
     io_bind (from_crypto (derive_kek_from_mnemonic P phrase s2 cost)) (\<lambda>phrase_kek.
     io_bind (wrap P password_kek rk vid SLOT_TYPE_PASSWORD s1 cost) (\<lambda>s1.
     io_bind (wrap P phrase_kek rk vid SLOT_TYPE_MNEMONIC s2 cost) (\<lambda>s2. io_return [s1, s2]))))) d Q R"
  proof (rule vspec_bind_crypto [OF k1(1)], rule vspec_bind_crypto [OF k2(1)], rule vspec_bind,
      rule wrap_spec [where key = "Password password", OF ok k1(2) rk], goal_cases)
    case (4 a)
    show ?case
    proof (rule vspec_bind, rule wrap_spec [where key = "RecoveryPhrase phrase", OF ok k2(2) rk], goal_cases)
      case (4 b)
      show ?case by (rule vspec_return) (rule Q [OF \<open>seals P (Password password) rk vid a\<close> 4])
    qed (use salts k2 phrase_kek in auto)
  qed (use salts k1 password_kek in auto)
qed

lemma write_envelope_spec:
  assumes "valid_envelope \<lparr>e_vault_id = vid, e_slots = slots\<rparr>" "R (objs, db)"
    and "\<And>bs. R (AList.update ENVELOPE_OBJECT_KEY bs objs, db)"
    and "\<And>bs. parse bs = Ok \<lparr>e_vault_id = vid, e_slots = slots\<rparr> \<Longrightarrow>
      Q () (AList.update ENVELOPE_OBJECT_KEY bs objs, db)"
  shows "vspec (write_envelope P vid slots) (objs, db) Q R"
proof -
  obtain bs where bs: "serialize \<lparr>e_vault_id = vid, e_slots = slots\<rparr> = Ok bs"
    using envelope_format.build_total [OF assms(1)] by blast
  show ?thesis
    unfolding write_envelope_def
    by (rule vspec_bind_crypto [OF bs], rule vspec_put)
      (use assms(2-4) envelope_format.parse_build [OF assms(1) bs] in blast)+
qed

lemma init_spec:
  assumes P: "prims_ok P" "argon_ok P" "bip39_ok P" "totals_ok C" and cost: "cost_ok cost"
    and pw: "length (nfc P password) < 2 ^ 32"
  shows "vspec (init_with_cost P C password cost) (objs, fresh_db) (init_done P C password objs) (init_left objs)"
    (is "vspec _ _ ?Q ?R")
proof -
  have ok: "cipher_ok P" "hkdf_ok P" "mlkem_ok P" using P(1) by (simp_all add: prims_ok_def)
  have R: "?R (objs, fresh_db)" "?R (AList.update ENVELOPE_OBJECT_KEY bs objs, fresh_db)" for bs
    by (auto simp: init_left_def)
  have made: "vspec (io_bind (write_envelope P vid [a, b]) (\<lambda>_. io_bind (assemble P C rk vid) (\<lambda>v.
      io_return \<lparr>nv_vault = v, nv_recovery_phrase = phrase\<rparr>))) (objs, fresh_db) ?Q ?R"
    if len: "length rk = 32" "length vid = 16"
      and a: "seals P (Password password) rk vid a" and b: "seals P (RecoveryPhrase phrase) rk vid b"
    for rk vid phrase a b
  proof -
    obtain v where v: "derived P rk vid v" "v_imported v = []" by (rule derived_exists [OF ok(2,3)])
    have vr: "v_root_key v = rk" "v_vault_id v = vid" using v(1) by (simp_all add: derived_def)
    have o1: "recover_root P (Password password) vid [a, b] = Some rk"
      by (rule recover_root_seals [OF a])
    have "recover_root P (RecoveryPhrase phrase) vid [a, b] = recover_root P (RecoveryPhrase phrase) vid [b]"
      using a b recover_root_filter [of P "RecoveryPhrase phrase" vid "[a, b]"] by (simp add: seals_def)
    then have o2: "recover_root P (RecoveryPhrase phrase) vid [a, b] = Some rk"
      by (simp add: recover_root_seals [OF b] del: recover_root.simps)
    show ?thesis
    proof (rule vspec_bind, rule write_envelope_spec [where R = ?R, OF _ R])
      show "valid_envelope \<lparr>e_vault_id = vid, e_slots = [a, b]\<rparr>"
        using a b len by (simp add: valid_envelope_def seals_def)
    next
      fix bs assume bs: "parse bs = Ok \<lparr>e_vault_id = vid, e_slots = [a, b]\<rparr>"
      show "vspec (io_bind (assemble P C rk vid) (\<lambda>v. io_return \<lparr>nv_vault = v, nv_recovery_phrase = phrase\<rparr>))
          (AList.update ENVELOPE_OBJECT_KEY bs objs, fresh_db) ?Q ?R"
      proof (rule vspec_bind, rule assemble_spec [where R = ?R, OF v migrate_fresh_spec [OF ok(1) _ P(4)] _ R(2)])
        show "length (enc_key (v_index v)) = 32" by (rule derived_lengths [OF v(1) ok(2)])
      next
        fix db' assume db': "db_user_version db' = 1 \<and> (\<forall>S. paths_ok P (v_index v) S \<longrightarrow>
          index_rep P C (v_index v) S Map.empty db')"
        have "map_of (AList.update ENVELOPE_OBJECT_KEY bs objs) ENVELOPE_OBJECT_KEY = Some bs"
          by (simp add: update_conv')
        with v len bs o1 o2 db' show "vspec (io_return \<lparr>nv_vault = v, nv_recovery_phrase = phrase\<rparr>)
            (AList.update ENVELOPE_OBJECT_KEY bs objs, db') ?Q ?R"
          by (intro vspec_return) (auto simp: init_done_def opens_def vr simp del: recover_root.simps)
      qed
    qed
  qed
  show ?thesis
    unfolding init_with_cost_def
  proof (rule vspec_draw [where n = 32], simp add: generate_key_def,
      rule vspec_draw [where n = 16], simp add: generate_vault_id_def, rule vspec_bind, rule vspec_rng)
    fix rk vid :: bytes and r :: rng
    assume len: "length rk = 32" "length vid = 16"
    obtain phrase seed where ph: "bip39_phrase P (fst (rng_fill 32 r)) = Some phrase"
      "bip39_seed P phrase = Some seed" "length seed = 64"
      using P(3) unfolding bip39_ok_def by (metis length_fst_rng_fill)
    then have "generate_mnemonic P r = Ok (phrase, snd (rng_fill 32 r))"
      by (simp add: generate_mnemonic_def case_prod_beta)
    moreover have "vspec (io_bind (init_slots P password cost rk vid phrase) (\<lambda>slots.
        io_bind (write_envelope P vid slots) (\<lambda>_. io_bind (assemble P C rk vid) (\<lambda>v.
        io_return \<lparr>nv_vault = v, nv_recovery_phrase = phrase\<rparr>)))) (objs, fresh_db) ?Q ?R"
      by (rule vspec_bind, rule init_slots_spec [OF P(1,2) cost pw len(1) ph(2,3)]) (rule made [OF len])
    ultimately show "\<exists>x r'. generate_mnemonic P r = Ok (x, r') \<and>
        vspec (io_bind (init_slots P password cost rk vid x) (\<lambda>slots.
          io_bind (write_envelope P vid slots) (\<lambda>_. io_bind (assemble P C rk vid) (\<lambda>v.
          io_return \<lparr>nv_vault = v, nv_recovery_phrase = x\<rparr>)))) (objs, fresh_db) ?Q ?R"
      by blast
  qed
qed

section \<open>Imported key pairs\<close>

text \<open>Reading a page of entries leaves the shelf alone, and fails only when a request did.\<close>

lemma vspec_try_get_bind:
  assumes "\<And>blob. map_of objs key = Some blob \<Longrightarrow> vspec (k (Ok blob)) (objs, db) Q R"
    and "map_of objs key = None \<Longrightarrow> vspec (k (Err (S_NotFound key))) (objs, db) Q R"
    and "\<And>e. lax (k (Err e)) (objs, db) Q R"
  shows "vspec (io_bind (io_try (b_get key)) k) (objs, db) Q R"
  unfolding vspec_def
proof (intro allI impI)
  fix w :: world assume w: "shelf w = (objs, db)"
  obtain r w1 where g: "b_get key w = (r, w1)" by fastforce
  obtain r2 w2 where k2: "k r w1 = (r2, w2)" by fastforce
  have step: "io_bind (io_try (b_get key)) k w = (r2, w2)" using g k2 by (simp add: io_bind_Ok)
  have later: "later_world w w1" if "w_faults w1 = (\<lambda>n. w_faults w (n + 1))" "w_index w1 = w_index w"
    using that by (auto simp: later_world_def intro: exI [of _ 1])
  show "case io_bind (io_try (b_get key)) k w of (Ok x, w') \<Rightarrow> Q x (shelf w') \<and> later_world w w'
    | (Err e, w') \<Rightarrow> R (shelf w') \<and> noisy w"
    using g [unfolded b_get_def]
  proof (cases rule: store_call_cases)
    case (fault e landed)
    then have s: "shelf w1 = (objs, db)" using w by (auto simp: shelf_def split: if_splits)
    note l = later [OF fault(5,4)]
    have n: "noisy w" using fault(1) by (auto simp: noisy_def)
    have "case k r w1 of (Ok x, w') \<Rightarrow> Q x (shelf w') \<and> later_world w1 w' | (Err e, w') \<Rightarrow> R (shelf w')"
      using assms(3) [of e] s fault(2) by (simp add: lax_def)
    with k2 step n later_world_trans [OF l] show ?thesis by (cases r2) simp_all
  next
    case went
    then have s: "shelf w1 = (objs, db)" using w by (auto simp: shelf_def)
    note l = later [OF went(5,4)]
    have "vspec (k r) (objs, db) Q R"
      using went(2) assms(1,2) w by (cases "map_of objs key") (auto simp: shelf_def ok_or_def)
    from vspec_Ok [OF this s] vspec_Err [OF this s] k2 step later_world_trans [OF l] later_world_noisy [OF l]
    show ?thesis by (cases r2) auto
  qed
qed

lemma load_items_spec:
  assumes "length (v_root_key v) = 32"
  shows "vspec (load_items P v items out) (objs, db) (\<lambda>_ d'. d' = (objs, db)) (\<lambda>d'. d' = (objs, db))"
proof (induction items arbitrary: out)
  case Nil
  show ?case unfolding load_items.simps by (rule vspec_return) simp
next
  case (Cons key items)
  have r: "root v = io_return (v_root_key v)" using assms by (simp add: root_def)
  show ?case
    unfolding load_items.simps r io_bind_unit
  proof (rule vspec_try_get_bind, goal_cases)
    case (1 blob)
    show ?case by (cases "parse_dik1 P (v_root_key v) blob") (simp_all add: Cons.IH)
  next
    case 2
    show ?case by (simp add: Cons.IH)
  next
    case (3 e)
    show ?case by (cases e) (simp_all add: lax_fail lax_vspec [OF Cons.IH])
  qed
qed

lemma list_page_spec:
  "vspec (from_store (b_list_page prefix cursor)) d (\<lambda>_ d'. d' = d) (\<lambda>d'. d' = d)"
  unfolding vspec_def
proof (intro allI impI)
  fix w :: world assume w: "shelf w = d"
  let ?w = "w\<lparr>w_pages := \<lambda>n. w_pages w (n + 1)\<rparr>"
  let ?f = "\<lambda>objects. (Ok (page_of (w_pages w 0)
      (sort (filter (\<lambda>k. take (length prefix) k = prefix) (map fst objects))) cursor), objects)"
  obtain r w1 where c: "store_call ?f ?w = (r, w1)" by fastforce
  then have run: "from_store (b_list_page prefix cursor) w = (map_err StoreErr r, w1)"
    by (simp add: from_store_def b_list_page_def)
  from c show "case from_store (b_list_page prefix cursor) w of (Ok x, w') \<Rightarrow> shelf w' = d \<and> later_world w w'
    | (Err e, w') \<Rightarrow> shelf w' = d \<and> noisy w"
  proof (cases rule: store_call_cases)
    case (fault e landed)
    with run w show ?thesis by (auto simp: shelf_def noisy_def map_err_def)
  next
    case went
    have "later_world w w1" using went by (auto simp: later_world_def intro: exI [of _ 1])
    with run w went show ?thesis by (auto simp: shelf_def map_err_def)
  qed
qed

lemma load_pages_spec:
  assumes "length (v_root_key v) = 32" "load_pages P v cursor out w = (res, w')"
  shows "shelf w' = shelf w \<and> (case res of Ok _ \<Rightarrow> later_world w w' | Err _ \<Rightarrow> noisy w)"
  using assms
proof (induction P v cursor out w arbitrary: res w' rule: load_pages.induct)
  case (1 P v cursor out w)
  obtain r1 w1 where p: "from_store (b_list_page IMPORTED_KEY_PREFIX cursor) w = (r1, w1)" by fastforce
  show ?case
  proof (cases r1)
    case (Inl e)
    with 1(3) p vspec_Err [OF list_page_spec refl p [unfolded Inl]] show ?thesis
      by (auto simp: load_pages.simps [of P v cursor])
  next
    case (Inr page)
    obtain items nxt where page: "page = (items, nxt)" by fastforce
    note p = p [unfolded Inr page]
    note s1 = vspec_Ok [OF list_page_spec refl p]
    obtain r2 w2 where l: "load_items P v items out w1 = (r2, w2)" by fastforce
    have ls: "vspec (load_items P v items out) (shelf w1) (\<lambda>_ d'. d' = shelf w1) (\<lambda>d'. d' = shelf w1)"
      using load_items_spec [OF 1(2), of P items out "fst (shelf w1)" "snd (shelf w1)"] by simp
    show ?thesis
    proof (cases r2)
      case (Inl e)
      with 1(3) p l vspec_Err [OF ls refl l [unfolded Inl]] s1 show ?thesis
        by (auto simp: load_pages.simps [of P v cursor] dest: later_world_noisy)
    next
      case (Inr out')
      note l = l [unfolded Inr]
      note s2 = vspec_Ok [OF ls refl l]
      show ?thesis
      proof (cases nxt)
        case None
        with 1(3) p l s1 s2 show ?thesis
          by (auto simp: load_pages.simps [of P v cursor] dest: later_world_trans)
      next
        case (Some c)
        have "load_pages P v (Some c) out' w2 = (res, w')"
          using 1(3) p l Some by (simp add: load_pages.simps [of P v cursor])
        from 1(1) [OF p [symmetric] refl refl l [symmetric] refl Some 1(2) this] s1 s2
        show ?thesis
          by (cases res) (auto dest: later_world_trans later_world_noisy)
      qed
    qed
  qed
qed

lemma load_imported_spec:
  assumes "length (v_root_key v) = 32"
  shows "vspec (load_imported_identities P v) d (\<lambda>_ d'. d' = d) (\<lambda>d'. d' = d)"
  unfolding vspec_def load_imported_identities_def
proof (intro allI impI)
  fix w :: world assume w: "shelf w = d"
  obtain res w' where "load_pages P v None [] w = (res, w')" by fastforce
  with load_pages_spec [OF assms this] w
  show "case load_pages P v None [] w of (Ok x, w') \<Rightarrow> shelf w' = d \<and> later_world w w'
    | (Err e, w') \<Rightarrow> shelf w' = d \<and> noisy w"
    by (cases res) simp_all
qed

text \<open>
  When no request fails, what is loaded does not depend on the pages: it is the entries in the order of
  their keys, each once.
\<close>

definition imported_entry :: "prims \<Rightarrow> bytes \<Rightarrow> (str \<Rightarrow> bytes option) \<Rightarrow> str \<Rightarrow> recipient_keypair list" where
  "imported_entry P k om key = (case om key of None \<Rightarrow> [] | Some blob \<Rightarrow>
     (case parse_dik1 P k blob of Err _ \<Rightarrow> [] | Ok kp \<Rightarrow>
       if key_matches_path P key (kp_key_id kp) then [kp] else []))"

definition keys_under :: "str \<Rightarrow> (str \<times> bytes) list \<Rightarrow> str list" where
  "keys_under prefix objs = sort (filter (\<lambda>k. take (length prefix) k = prefix) (map fst objs))"

abbreviation imported_keys :: "(str \<times> bytes) list \<Rightarrow> str list" where
  "imported_keys \<equiv> keys_under IMPORTED_KEY_PREFIX"

definition remaining :: "str list \<Rightarrow> str option \<Rightarrow> str list" where
  "remaining ks cursor = (case cursor of None \<Rightarrow> ks | Some c \<Rightarrow> dropWhile (\<lambda>k. k \<le> c) ks)"

lemma dropWhile_sorted_split:
  fixes xs :: "str list"
  assumes "sorted (xs @ c # ys)" "distinct (xs @ c # ys)"
  shows "dropWhile (\<lambda>k. k \<le> c) (xs @ c # ys) = ys"
proof -
  have "dropWhile (\<lambda>k. k \<le> c) (xs @ c # ys) = dropWhile (\<lambda>k. k \<le> c) ys"
    using assms by (subst dropWhile_append2) (auto simp: sorted_append)
  also have "\<dots> = ys" using assms by (cases ys) (auto simp: sorted_append)
  finally show ?thesis .
qed

lemma page_of_remaining:
  assumes sorted: "sorted ks" "distinct ks" and page: "page_of limit ks cursor = (items, nxt)"
  shows "remaining ks cursor = items @ (case nxt of None \<Rightarrow> [] | Some c \<Rightarrow> remaining ks (Some c))"
proof -
  define rest where "rest = remaining ks cursor"
  have items: "items = take (max 1 limit) rest"
    "nxt = (if length items < length rest then Some (last items) else None)"
    using page by (auto simp: page_of_def rest_def remaining_def Let_def split: option.splits)
  show ?thesis
  proof (cases "length items < length rest")
    case False
    with items show ?thesis by (simp add: rest_def)
  next
    case True
    then have "items \<noteq> []" using items(1) by (cases rest) (auto simp: max_def split: if_splits)
    then obtain xs c where xc: "items = xs @ [c]" "last items = c" by (metis append_butlast_last_id)
    define ys where "ys = drop (max 1 limit) rest"
    have split: "rest = xs @ c # ys" using items(1) xc(1) by (metis append.assoc append_Cons append_Nil append_take_drop_id ys_def)
    obtain pre where pre: "ks = pre @ rest"
    proof (cases cursor)
      case (Some d)
      then show thesis using that [of "takeWhile (\<lambda>k. k \<le> d) ks"] by (simp add: rest_def remaining_def)
    qed (use that [of "[]"] in \<open>simp add: rest_def remaining_def\<close>)
    have "dropWhile (\<lambda>k. k \<le> c) ks = ys"
      using dropWhile_sorted_split [of "pre @ xs" c ys] sorted by (simp add: pre split)
    with True items(2) xc split show ?thesis by (simp add: rest_def [symmetric] remaining_def [of _ "Some c"])
  qed
qed

lemma list_page_Ok:
  assumes "from_store (b_list_page prefix cursor) w = (Ok (items, nxt), w')"
  shows "page_of (w_pages w 0) (keys_under prefix (w_objects w)) cursor = (items, nxt)"
proof -
  have "store_call (\<lambda>objects. (Ok (page_of (w_pages w 0) (keys_under prefix objects) cursor), objects))
      (w\<lparr>w_pages := \<lambda>n. w_pages w (n + 1)\<rparr>) = (Ok (items, nxt), w')"
    using assms by (simp add: from_store_Ok_iff b_list_page_def keys_under_def)
  then show ?thesis by (cases rule: store_call_cases) simp_all
qed

lemma page_of_keys: "page_of limit ks cursor = (items, nxt) \<Longrightarrow> set items \<subseteq> set ks"
  by (auto simp: page_of_def Let_def dest!: in_set_takeD set_dropWhileD split: option.splits)

lemma keys_under_ok:
  "sorted (keys_under prefix objs)" "distinct (map fst objs) \<Longrightarrow> distinct (keys_under prefix objs)"
  "key \<in> set (keys_under prefix objs) \<longleftrightarrow> map_of objs key \<noteq> None \<and> take (length prefix) key = prefix"
  by (auto simp: keys_under_def map_of_eq_None_iff) 

lemma quiet_load_items:
  assumes v: "length (v_root_key v) = 32"
  shows "\<not> noisy w \<Longrightarrow> load_items P v items out w = (res, w') \<Longrightarrow>
    res = Ok (out @ concat (map (imported_entry P (v_root_key v) (map_of (w_objects w))) items))"
proof (induction items arbitrary: out w)
  case (Cons key items)
  have r: "root v = io_return (v_root_key v)" using v by (simp add: root_def)
  obtain g w1 where g: "b_get key w = (g, w1)" by fastforce
  from g [unfolded b_get_def] Cons.prems(1) have g': "g = ok_or (S_NotFound key) (map_of (w_objects w) key)"
    "w_objects w1 = w_objects w" "\<not> noisy w1"
    by (cases rule: store_call_cases; auto simp: noisy_def)+
  note IH = Cons.IH [OF g'(3)]
  show ?case
  proof (cases "map_of (w_objects w) key")
    case None
    with Cons.prems(2) g g' IH r show ?thesis
      by (simp add: io_bind_def io_try_def imported_entry_def ok_or_def)
  next
    case (Some blob)
    with Cons.prems(2) g g' r show ?thesis
      by (cases "parse_dik1 P (v_root_key v) blob")
        (auto simp: io_bind_def io_try_def imported_entry_def ok_or_def split: if_splits dest!: IH)
  qed
qed simp

lemma quiet_load_pages:
  assumes "length (v_root_key v) = 32" "\<not> noisy w" "distinct (map fst (w_objects w))"
    and "load_pages P v cursor out w = (res, w')"
  shows "res = Ok (out @ concat (map (imported_entry P (v_root_key v) (map_of (w_objects w)))
    (remaining (imported_keys (w_objects w)) cursor)))"
  using assms
proof (induction P v cursor out w arbitrary: res w' rule: load_pages.induct)
  case (1 P v cursor out w)
  let ?e = "imported_entry P (v_root_key v) (map_of (w_objects w))"
  have ks: "sorted (imported_keys (w_objects w))" "distinct (imported_keys (w_objects w))"
    using keys_under_ok 1(4) by blast+
  obtain r1 w1 where p0: "from_store (b_list_page IMPORTED_KEY_PREFIX cursor) w = (r1, w1)" by fastforce
  obtain items nxt where r1: "r1 = Ok (items, nxt)"
    using vspec_Err [OF list_page_spec refl, of IMPORTED_KEY_PREFIX cursor w _ w1] p0 1(3) by (cases r1) auto
  note p = p0 [unfolded r1] and page = list_page_Ok [OF p0 [unfolded r1]]
  from vspec_Ok [OF list_page_spec refl p] 1(3) have w1: "shelf w1 = shelf w" "\<not> noisy w1"
    using later_world_noisy by blast+
  then have o1: "w_objects w1 = w_objects w" by (simp add: shelf_def)
  obtain r2 w2 where l0: "load_items P v items out w1 = (r2, w2)" by fastforce
  have r2: "r2 = Ok (out @ concat (map ?e items))"
    using quiet_load_items [OF 1(2) w1(2) l0] o1 by simp
  note l = l0 [unfolded r2]
  have "vspec (load_items P v items out) (shelf w1) (\<lambda>_ d'. d' = shelf w1) (\<lambda>d'. d' = shelf w1)"
    using load_items_spec [OF 1(2), of P items out "fst (shelf w1)" "snd (shelf w1)"] by simp
  from vspec_Ok [OF this refl l] w1 have w2: "w_objects w2 = w_objects w" "\<not> noisy w2"
    using later_world_noisy by (auto simp: shelf_def)
  note rem = page_of_remaining [OF ks page]
  show ?case
  proof (cases nxt)
    case None
    with 1(5) p l rem show ?thesis by (simp add: load_pages.simps [of P v cursor])
  next
    case (Some c)
    have "load_pages P v (Some c) (out @ concat (map ?e items)) w2 = (res, w')"
      using 1(5) p l Some by (simp add: load_pages.simps [of P v cursor])
    from 1(1) [OF p [symmetric] refl refl l [symmetric] refl Some 1(2) w2(2) _ this] 1(4) rem Some w2(1)
    show ?thesis by simp
  qed
qed

theorem load_imported_exact:
  assumes "length (v_root_key v) = 32" "\<not> noisy w" "distinct (map fst (w_objects w))"
    and "load_imported_identities P v w = (res, w')"
  shows "res = Ok (concat (map (imported_entry P (v_root_key v) (map_of (w_objects w)))
    (imported_keys (w_objects w))))"
  using quiet_load_pages [OF assms(1-3), of P None "[]" res w'] assms(4)
  by (simp add: load_imported_identities_def remaining_def)

section \<open>Unlocking\<close>

lemma unlock_spec:
  assumes "opens P (map_of objs) key v" "derived P (v_root_key v) (v_vault_id v) v" "v_imported v = []"
    and "length (v_root_key v) = 32" "db_user_version db = 1"
  shows "vspec (unlock P C key) (objs, db) (\<lambda>x d'. (\<exists>ids. x = v\<lparr>v_imported := ids\<rparr>) \<and> d' = (objs, db))
    (\<lambda>d'. d' = (objs, db))"
    (is "vspec _ _ ?Q ?R")
proof -
  obtain bs env where env: "map_of objs ENVELOPE_OBJECT_KEY = Some bs" "parse bs = Ok env"
    "e_vault_id env = v_vault_id v" "recover_root P key (v_vault_id v) (e_slots env) = Some (v_root_key v)"
    using assms(1) by (auto simp: opens_def)
  show ?thesis
    unfolding unlock_def
  proof (rule vspec_try_get_bind, goal_cases)
    case (1 blob)
    then have blob: "blob = bs" using env(1) by simp
    show ?case
      unfolding blob sum.case env option.case
    proof (rule vspec_bind, rule assemble_spec [where R = ?R, OF assms(2,3) migrate_again_spec [OF assms(5)]],
        goal_cases)
      case (1 db')
      show ?case
        unfolding 1
        by (rule vspec_bind, rule vspec_weaken [OF load_imported_spec [OF assms(4)]])
          (auto intro!: vspec_return)
    qed simp
  next
    case 2
    with env(1) show ?case by simp
  next
    case (3 e)
    show ?case by (cases e) (simp_all add: lax_fail)
  qed
qed

text \<open>A key that opens no slot does not unlock, whatever fails.\<close>

lemma unlock_refused:
  assumes "\<And>bs env. map_of (w_objects w) ENVELOPE_OBJECT_KEY = Some bs \<Longrightarrow> parse bs = Ok env \<Longrightarrow>
    recover_root P key (e_vault_id env) (e_slots env) = None"
    and "unlock P C key w = (res, w')"
  shows "\<exists>e. res = Err e \<and> w_index w' = w_index w \<and> (noisy w \<or>
    e = (if map_of (w_objects w) ENVELOPE_OBJECT_KEY = None then NoVault ENVELOPE_OBJECT_KEY else Unlock))"
proof -
  obtain g w1 where g: "b_get ENVELOPE_OBJECT_KEY w = (g, w1)" by fastforce
  from g [unfolded b_get_def] show ?thesis
  proof (cases rule: store_call_cases)
    case (fault e landed)
    with assms(2) g have "\<exists>e. res = Err e" "w' = w1"
      by (auto simp: unlock_def io_bind_def io_try_def io_fail_def split: store_error.splits)
    with fault show ?thesis by (auto simp: noisy_def)
  next
    case went
    show ?thesis
    proof (cases "map_of (w_objects w) ENVELOPE_OBJECT_KEY")
      case None
      with assms(2) g went show ?thesis
        by (auto simp: unlock_def io_bind_def io_try_def io_fail_def ok_or_def)
    next
      case (Some bs)
      with assms(2) g went assms(1) [OF Some] show ?thesis
        by (auto simp: unlock_def io_bind_def io_try_def io_fail_def ok_or_def split: sum.splits)
    qed
  qed
qed

section \<open>Changing the password\<close>

lemma replace_password_others:
  assumes "t \<noteq> SLOT_TYPE_PASSWORD" "slot_type new = SLOT_TYPE_PASSWORD"
  shows "filter (\<lambda>s. slot_type s = t) (fst (replace_password new ss done')) = filter (\<lambda>s. slot_type s = t) ss"
  using assms by (induction ss arbitrary: done') (auto simp: case_prod_beta Let_def)

lemma replace_password_own:
  assumes "slot_type new = SLOT_TYPE_PASSWORD"
  shows "filter (\<lambda>s. slot_type s = SLOT_TYPE_PASSWORD) (fst (replace_password new ss done')) =
      (if \<not> done' \<and> (\<exists>s \<in> set ss. slot_type s = SLOT_TYPE_PASSWORD) then [new] else [])"
    "snd (replace_password new ss done') = (done' \<or> (\<exists>s \<in> set ss. slot_type s = SLOT_TYPE_PASSWORD))"
  using assms by (induction ss arbitrary: done') (auto simp: case_prod_beta Let_def)

lemma replace_password_set:
  "set (fst (replace_password new ss done')) \<subseteq> insert new (set ss)"
  "length (fst (replace_password new ss done')) \<le> length ss"
  by (induction ss arbitrary: done') (auto simp: case_prod_beta Let_def le_SucI)

definition with_password :: "slot \<Rightarrow> slot list \<Rightarrow> slot list" where
  "with_password new ss = (let (slots, replaced) = replace_password new ss False in
     if \<not> replaced then slots @ [new] else slots)"

lemma with_password_filter:
  assumes "slot_type new = SLOT_TYPE_PASSWORD"
  shows "filter (\<lambda>s. slot_type s = SLOT_TYPE_PASSWORD) (with_password new ss) = [new]"
    and "t \<noteq> SLOT_TYPE_PASSWORD \<Longrightarrow>
      filter (\<lambda>s. slot_type s = t) (with_password new ss) = filter (\<lambda>s. slot_type s = t) ss"
  using assms replace_password_own [OF assms, of ss False] replace_password_others [of t new ss False]
  by (auto simp: with_password_def case_prod_beta Let_def)

lemma replace_password_rest:
  assumes "slot_type new = SLOT_TYPE_PASSWORD"
  shows "filter (\<lambda>s. slot_type s \<noteq> SLOT_TYPE_PASSWORD) (fst (replace_password new ss done')) =
    filter (\<lambda>s. slot_type s \<noteq> SLOT_TYPE_PASSWORD) ss"
  using assms by (induction ss arbitrary: done') (auto simp: case_prod_beta Let_def)

lemma with_password_rest:
  assumes "slot_type new = SLOT_TYPE_PASSWORD"
  shows "filter (\<lambda>s. slot_type s \<noteq> SLOT_TYPE_PASSWORD) (with_password new ss) =
    filter (\<lambda>s. slot_type s \<noteq> SLOT_TYPE_PASSWORD) ss"
  using assms replace_password_rest [OF assms, of ss False]
  by (auto simp: with_password_def case_prod_beta Let_def)

lemma with_password_set:
  assumes "slot_type new = SLOT_TYPE_PASSWORD"
  shows "set (with_password new ss) \<subseteq> insert new (set ss)"
    "length (with_password new ss) \<le> length ss + (if \<exists>s \<in> set ss. slot_type s = SLOT_TYPE_PASSWORD then 0 else 1)"
  using replace_password_set [of new ss False] replace_password_own(2) [OF assms, of ss False]
  by (auto simp: with_password_def case_prod_beta Let_def)

text \<open>The envelope after the change: the same identity, every other slot, and one slot for the password.\<close>

definition repassworded ::
  "prims \<Rightarrow> vault \<Rightarrow> str \<Rightarrow> slot list \<Rightarrow> (str \<times> bytes) list \<Rightarrow> (str \<times> bytes) list \<Rightarrow> bool" where
  "repassworded P v pw slots objs objs' \<longleftrightarrow> (\<exists>new bs. seals P (Password pw) (v_root_key v) (v_vault_id v) new \<and>
     parse bs = Ok \<lparr>e_vault_id = v_vault_id v, e_slots = with_password new slots\<rparr> \<and>
     objs' = AList.update ENVELOPE_OBJECT_KEY bs objs)"

lemma change_spec:
  assumes P: "prims_ok P" "argon_ok P" and pw: "length (nfc P pw) < 2 ^ 32"
    and env: "map_of objs ENVELOPE_OBJECT_KEY = Some bs" "parse bs = Ok env" "e_vault_id env = v_vault_id v"
    and rk: "length (v_root_key v) = 32"
    and room: "(\<exists>s \<in> set (e_slots env). slot_type s = SLOT_TYPE_PASSWORD) \<or> length (e_slots env) < MAX_SLOT_COUNT"
  shows "vspec (change_password P profile v pw) (objs, db)
    (\<lambda>_ d'. repassworded P v pw (e_slots env) objs (fst d') \<and> snd d' = db)
    (\<lambda>d'. (fst d' = objs \<or> repassworded P v pw (e_slots env) objs (fst d')) \<and> snd d' = db)"
    (is "vspec _ _ ?Q ?R")
proof -
  have ok: "cipher_ok P" "hkdf_ok P" using P(1) by (simp_all add: prims_ok_def)
  have ve: "valid_envelope env" using envelope_format.build_parse [OF env(2)] by simp
  have rt: "root v = io_return (v_root_key v)" using rk by (simp add: root_def)
  have stored: "vspec (write_envelope P (v_vault_id v) (with_password new (e_slots env))) (objs, db) ?Q ?R"
    if new: "seals P (Password pw) (v_root_key v) (v_vault_id v) new" for new
  proof -
    have type: "slot_type new = SLOT_TYPE_PASSWORD" using new by (simp add: seals_def)
    have "length (with_password new (e_slots env)) \<le> MAX_SLOT_COUNT"
      using with_password_set(2) [OF type, of "e_slots env"] room ve by (auto simp: valid_envelope_def split: if_splits)
    moreover have "with_password new (e_slots env) \<noteq> []"
      using with_password_filter(1) [OF type, of "e_slots env"] new by (auto simp: seals_def)
    moreover have "\<forall>s \<in> set (with_password new (e_slots env)). valid_slot s"
      using with_password_set(1) [OF type, of "e_slots env"] new ve by (auto simp: seals_def valid_envelope_def)
    ultimately have v': "valid_envelope \<lparr>e_vault_id = v_vault_id v, e_slots = with_password new (e_slots env)\<rparr>"
      using ve env(3) by (simp add: valid_envelope_def)
    obtain bs' where bs': "serialize \<lparr>e_vault_id = v_vault_id v, e_slots = with_password new (e_slots env)\<rparr> = Ok bs'"
      using envelope_format.build_total [OF v'] by blast
    have "repassworded P v pw (e_slots env) objs (AList.update ENVELOPE_OBJECT_KEY bs' objs)"
      using new envelope_format.parse_build [OF v' bs'] unfolding repassworded_def by blast
    then show ?thesis
      unfolding write_envelope_def
      by (intro vspec_bind_crypto [OF bs'] vspec_put) simp_all
  qed
  show ?thesis
    unfolding change_password_def
  proof (rule vspec_try_get_bind, goal_cases)
    case (1 blob)
    then have blob: "blob = bs" using env(1) by simp
    show ?case
      unfolding blob sum.case env(2,3) Let_def
    proof (simp only: simp_thms if_False not_True_eq_False, rule vspec_draw [where n = 16], simp add: generate_salt_def)
      fix salt :: bytes assume salt: "length salt = 16"
      obtain k where k: "derive_kek P pw None salt (cost_shipped profile) = Ok k" "length k = 32"
        by (rule argon2id_ok [OF P(2) shipped_cost_ok pw, of salt])
          (use salt that in \<open>simp_all add: derive_kek_def normalize_passphrase_def\<close>)
      show "vspec (io_bind (from_crypto (derive_kek P pw None salt (cost_shipped profile))) (\<lambda>kek.
          io_bind (root v) (\<lambda>root_key.
          io_bind (wrap P kek root_key (v_vault_id v) SLOT_TYPE_PASSWORD salt (cost_shipped profile)) (\<lambda>replacement.
          case replace_password replacement (e_slots env) False of (slots, replaced) \<Rightarrow>
            write_envelope P (v_vault_id v) (if \<not> replaced then slots @ [replacement] else slots)))))
          (objs, db) ?Q ?R"
        unfolding rt io_bind_unit
      proof (rule vspec_bind_crypto [OF k(1)], rule vspec_bind,
          rule wrap_spec [where key = "Password pw", OF ok k(2) rk], goal_cases)
        case (4 new)
        from stored [OF this] show ?case by (simp add: with_password_def case_prod_beta Let_def)
      qed (use salt k password_kek in auto)
    qed
  next
    case 2
    with env(1) show ?case by simp
  next
    case (3 e)
    show ?case by (simp add: lax_fail)
  qed
qed

lemma repassworded_opens:
  assumes "repassworded P v pw slots objs objs'"
  shows "opens P (map_of objs') (Password pw) v"
    and "map_of objs ENVELOPE_OBJECT_KEY = Some bs \<Longrightarrow> parse bs = Ok env \<Longrightarrow> e_slots env = slots \<Longrightarrow>
      e_vault_id env = v_vault_id v \<Longrightarrow>
      opens P (map_of objs') (RecoveryPhrase phrase) v = opens P (map_of objs) (RecoveryPhrase phrase) v"
    and "k \<noteq> ENVELOPE_OBJECT_KEY \<Longrightarrow> map_of objs' k = map_of objs k"
proof -
  obtain new bs' where new: "seals P (Password pw) (v_root_key v) (v_vault_id v) new"
    "parse bs' = Ok \<lparr>e_vault_id = v_vault_id v, e_slots = with_password new slots\<rparr>"
    "objs' = AList.update ENVELOPE_OBJECT_KEY bs' objs"
    using assms unfolding repassworded_def by blast
  have type: "slot_type new = SLOT_TYPE_PASSWORD" using new(1) by (simp add: seals_def)
  have "recover_root P (Password pw) (v_vault_id v) (with_password new slots) = Some (v_root_key v)"
    by (subst recover_root_filter [symmetric])
      (simp add: with_password_filter(1) [OF type, simplified] recover_root_seals [OF new(1)] del: recover_root.simps)
  with new show "opens P (map_of objs') (Password pw) v"
    by (simp add: opens_def update_conv')
  have "recover_root P (RecoveryPhrase phrase) vid (with_password new slots) =
      recover_root P (RecoveryPhrase phrase) vid slots" for vid
    by (subst (1 2) recover_root_filter [symmetric]) (simp add: with_password_filter(2) [OF type, simplified])
  with new show "map_of objs ENVELOPE_OBJECT_KEY = Some bs \<Longrightarrow> parse bs = Ok env \<Longrightarrow> e_slots env = slots \<Longrightarrow>
      e_vault_id env = v_vault_id v \<Longrightarrow>
      opens P (map_of objs') (RecoveryPhrase phrase) v = opens P (map_of objs) (RecoveryPhrase phrase) v"
    by (simp add: opens_def update_conv')
  from new show "k \<noteq> ENVELOPE_OBJECT_KEY \<Longrightarrow> map_of objs' k = map_of objs k"
    by (simp add: update_conv')
qed

section \<open>A new vault is an empty one\<close>

lemma envelope_key [simp]:
  "record_key P k p \<noteq> ENVELOPE_OBJECT_KEY" "object_key_for P f \<noteq> ENVELOPE_OBJECT_KEY"
  by (simp_all add: record_key_def object_key_for_def NAME_KEY_PREFIX_def OBJECT_KEY_PREFIX_def
      ENVELOPE_OBJECT_KEY_def lit_def)

lemma init_empty:
  assumes "init_done P C password [] nv d" "paths_ok P (v_index (nv_vault nv)) S"
  shows "vault_rep P C (nv_vault nv) S Map.empty Map.empty d"
proof -
  have om: "map_of (fst d) (record_key P k p) = None" for k p
    using assms(1) by (auto simp: init_done_def)
  show ?thesis
    using assms om unfolding init_done_def vault_rep_def owned_def files_ok_def resolves_def name_target_def
    by simp
qed

text \<open>What every vault in use looks like, whichever way it was opened and whatever chunk size it was given.\<close>

definition vault_wf :: "prims \<Rightarrow> vault \<Rightarrow> bool" where
  "vault_wf P v \<longleftrightarrow> length (v_root_key v) = KEY_LEN \<and> length (nk_hash_key (v_name_keys v)) = KEY_LEN \<and>
     length (nk_value_key (v_name_keys v)) = KEY_LEN \<and> length (keying_key (v_index v)) = KEY_LEN \<and>
     length (enc_key (v_index v)) = KEY_LEN \<and> v_chunk_size v \<noteq> 0 \<and> v_chunk_size v \<le> MAX_CHUNK_SIZE \<and>
     v_identity_key_id v = kp_key_id (v_identity v) \<and> (\<forall>kp \<in> set (all_identities v). kp_ok P kp)"

lemma derived_wf:
  assumes "derived P rk vid v" "hkdf_ok P" "mlkem_ok P" "length rk = 32" "\<forall>kp \<in> set (v_imported v). kp_ok P kp"
  shows "vault_wf P v"
proof -
  have len: "length k = 32" if "derive_subkey P a b = Ok k" for a b k
    by (rule derive_subkey_ok [OF assms(2), of a b]) (use that in simp)
  have "length (nk_hash_key (v_name_keys v)) = 32" "length (keying_key (v_index v)) = 32"
    using assms(1) by (cases "v_index v"; cases "v_name_keys v"; auto simp: derived_def index_derive_keys_def
        name_keys_derive_def and_then_Ok_iff map_err_def dest!: len split: sum.splits)+
  moreover have "kp_ok P (v_identity v)"
    by (rule derive_recipient_ok [OF assms(2,3), of rk RECIP_IDX_DEFAULT])
      (use assms(1) in \<open>simp add: derived_def\<close>)
  ultimately show ?thesis
    using assms derived_lengths [OF assms(1,2)]
    by (auto simp: vault_wf_def derived_def all_identities_def)
qed

lemma clamp_chunk_size_legal: "clamp_chunk_size n \<noteq> 0" "clamp_chunk_size n \<le> MAX_CHUNK_SIZE"
  by (auto simp: clamp_chunk_size_def Let_def not_less word_le_nat_alt word_less_nat_alt
      split: option.splits)

lemma with_chunk_size_wf: "vault_wf P v \<Longrightarrow> vault_wf P (with_chunk_size n v)"
  by (simp add: vault_wf_def with_chunk_size_def all_identities_def clamp_chunk_size_legal [simplified])

lemma load_items_wf:
  assumes "load_items P v items out w = (Ok ids, w')" "\<forall>kp \<in> set out. kp_ok P kp"
  shows "\<forall>kp \<in> set ids. kp_ok P kp"
  using assms
proof (induction items arbitrary: out w)
  case (Cons key items)
  obtain g w1 where g: "b_get key w = (g, w1)" by fastforce
  note run = Cons.prems(1) [unfolded load_items.simps io_bind_def io_try_def g prod.case sum.case]
  show ?case
  proof (cases g)
    case (Inl e)
    with run have "load_items P v items out w1 = (Ok ids, w')" by (cases e) (simp_all add: io_fail_def)
    from Cons.IH [OF this Cons.prems(2)] show ?thesis .
  next
    case (Inr blob)
    have r: "root v w1 = (Ok (v_root_key v), w1)"
      using run Inr by (auto simp: root_def split: if_splits)
    show ?thesis
    proof (cases "parse_dik1 P (v_root_key v) blob")
      case (Inl e)
      with run r \<open>g = Inr blob\<close> have "load_items P v items out w1 = (Ok ids, w')" by simp
      from Cons.IH [OF this Cons.prems(2)] show ?thesis .
    next
      case (Inr kp)
      have "\<forall>kp \<in> set (if key_matches_path P key (kp_key_id kp) then out @ [kp] else out). kp_ok P kp"
        using parse_dik1_ok(1) [OF Inr] Cons.prems(2) by auto
      moreover have "load_items P v items (if key_matches_path P key (kp_key_id kp) then out @ [kp] else out) w1
          = (Ok ids, w')"
        using run r \<open>g = Inr blob\<close> Inr by simp
      ultimately show ?thesis by (rule Cons.IH [rotated])
    qed
  qed
qed simp

lemma load_pages_wf:
  assumes "load_pages P v cursor out w = (Ok ids, w')" "\<forall>kp \<in> set out. kp_ok P kp"
  shows "\<forall>kp \<in> set ids. kp_ok P kp"
  using assms
proof (induction P v cursor out w arbitrary: ids w' rule: load_pages.induct)
  case (1 P v cursor out w)
  obtain r1 w1 where p: "from_store (b_list_page IMPORTED_KEY_PREFIX cursor) w = (r1, w1)" by fastforce
  obtain items nxt where r1: "r1 = Ok (items, nxt)"
    using 1(2) p by (cases r1) (auto simp: load_pages.simps [of P v cursor])
  note p = p [unfolded r1]
  obtain r2 w2 where l: "load_items P v items out w1 = (r2, w2)" by fastforce
  obtain out' where r2: "r2 = Ok out'"
    using 1(2) p l by (cases r2) (auto simp: load_pages.simps [of P v cursor])
  note l = l [unfolded r2]
  show ?case
  proof (cases nxt)
    case None
    with 1(2,3) p l load_items_wf [OF l] show ?thesis by (simp add: load_pages.simps [of P v cursor])
  next
    case (Some c)
    have "load_pages P v (Some c) out' w2 = (Ok ids, w')"
      using 1(2) p l Some by (simp add: load_pages.simps [of P v cursor])
    from 1(1) [OF p [symmetric] refl refl l [symmetric] refl Some this load_items_wf [OF l 1(3)]]
    show ?thesis .
  qed
qed

lemma assemble_derived:
  assumes "assemble P C rk vid w = (Ok v, w')"
  shows "derived P rk vid v" "v_imported v = []"
  using assms
  by (auto simp: assemble_def io_bind_Ok_iff derived_def index_open_def from_index_Ok_iff map_err_def)

lemma unlock_wf:
  assumes "hkdf_ok P" "mlkem_ok P" "unlock P C key w = (Ok v, w')"
  shows "vault_wf P v" "derived P (v_root_key v) (v_vault_id v) v"
proof -
  obtain rk vid bs env v0 w1 w2 ids where *: "parse bs = Ok env"
    "recover_root P key (e_vault_id env) (e_slots env) = Some rk" "assemble P C rk (e_vault_id env) w1 = (Ok v0, w2)"
    "load_imported_identities P v0 w2 = (Ok ids, w')" "v = v0\<lparr>v_imported := ids\<rparr>"
    using assms(3) [unfolded unlock_def, THEN iffD1 [OF io_bind_Ok_iff]]
  proof (elim exE conjE, goal_cases)
    case (1 got w0)
    obtain bs where bs: "got = Ok bs"
      using 1(3) by (cases got) (auto simp: io_fail_def split: store_error.splits)
    obtain env where env: "parse bs = Ok env" using 1(3) bs by (cases "parse bs") simp_all
    obtain rk where rk: "recover_root P key (e_vault_id env) (e_slots env) = Some rk"
      using 1(3) bs env by (cases "recover_root P key (e_vault_id env) (e_slots env)") simp_all
    show ?case using 1(3) bs env rk by (auto simp: io_bind_Ok_iff intro: 1(1))
  qed
  have "length rk = 32"
    by (rule recover_root_Some [OF *(2)]) (rule unwrap_slot_length)
  moreover have d: "derived P rk (e_vault_id env) v"
    using assemble_derived(1) [OF *(3)] by (simp add: *(5) derived_def)
  moreover have "\<forall>kp \<in> set (v_imported v). kp_ok P kp"
    using load_pages_wf *(4) by (fastforce simp: *(5) load_imported_identities_def)
  ultimately show "vault_wf P v" by (intro derived_wf [OF _ assms(1,2)])
  show "derived P (v_root_key v) (v_vault_id v) v" using d by (auto simp: derived_def)
qed

end
