(* ===== verification/Vault_Update.thy ===== *)
theory Vault_Update
  imports Vault_Correct
begin

text \<open>
  Storing and deleting a file, step by step: what each request makes of the files, so that a failure
  after any of them is accounted for.
\<close>

section \<open>The steps\<close>

definition in_use :: "prims \<Rightarrow> vault \<Rightarrow> str set \<Rightarrow> index_map \<Rightarrow> (str \<Rightarrow> bytes option) \<Rightarrow> str \<Rightarrow> bool" where
  "in_use P v S im om k \<longleftrightarrow> om k \<noteq> None \<or> (\<exists>q \<in> S. (\<exists>r. im q = Some r \<and> ir_object_key r = k) \<or>
     name_target P v om q = Some k)"

lemma vault_repD:
  assumes "vault_rep P C v S im m (objs, db)"
  shows "index_rep P C (v_index v) S im db" "owned P v S im (map_of objs)" "files_ok P v S im m (map_of objs)"
  using assms by (simp_all add: vault_rep_def)

lemma ownedE:
  assumes "owned P v S im om"
  obtains owner where "\<And>q r. q \<in> S \<Longrightarrow> im q = Some r \<Longrightarrow> owner (ir_object_key r) = q"
    "\<And>q r. q \<in> S \<Longrightarrow> im q = Some r \<Longrightarrow> \<exists>f. ir_object_key r = object_key_for P f"
    "\<And>q k. q \<in> S \<Longrightarrow> name_target P v om q = Some k \<Longrightarrow> owner k = q"
  using assms unfolding owned_def by blast

lemma ownedI:
  assumes "\<And>q r. q \<in> S \<Longrightarrow> im q = Some r \<Longrightarrow> owner (ir_object_key r) = q"
    "\<And>q r. q \<in> S \<Longrightarrow> im q = Some r \<Longrightarrow> \<exists>f. ir_object_key r = object_key_for P f"
    "\<And>q k. q \<in> S \<Longrightarrow> name_target P v om q = Some k \<Longrightarrow> owner k = q"
  shows "owned P v S im om"
  unfolding owned_def using assms by blast

lemma resolves_cases:
  assumes "resolves P v im om q = Some k"
  obtains r where "im q = Some r" "ir_object_key r = k" | "im q = None" "name_target P v om q = Some k"
  using assms by (auto simp: resolves_def split: option.splits)

lemma name_target_key: "name_target P v om q = Some k \<Longrightarrow> \<exists>f. k = object_key_for P f"
  by (auto simp: name_target_def split: option.splits sum.splits)

lemma resolves_key:
  assumes "owned P v S im om" "q \<in> S" "resolves P v im om q = Some k"
  obtains f where "k = object_key_for P f"
proof (rule ownedE [OF assms(1)])
  fix owner
  assume "\<And>q r. q \<in> S \<Longrightarrow> im q = Some r \<Longrightarrow> \<exists>f. ir_object_key r = object_key_for P f"
  from assms(3) this [OF assms(2)] show thesis
    by (cases rule: resolves_cases) (use that name_target_key in blast)+
qed

lemma resolves_in_use: "q \<in> S \<Longrightarrow> resolves P v im om q = Some k \<Longrightarrow> in_use P v S im om k"
  by (auto simp: in_use_def resolves_def split: option.splits)

lemma resolves_owner:
  assumes "owned P v S im om" "p \<in> S" "q \<in> S" "resolves P v im om p = Some k" "resolves P v im om q = Some k"
  shows "p = q"
proof (rule ownedE [OF assms(1)])
  fix owner
  assume o: "\<And>q r. q \<in> S \<Longrightarrow> im q = Some r \<Longrightarrow> owner (ir_object_key r) = q"
    "\<And>q k. q \<in> S \<Longrightarrow> name_target P v om q = Some k \<Longrightarrow> owner k = q"
  have "owner k = q" if "q \<in> S" "resolves P v im om q = Some k" for q
    using that(2) by (cases rule: resolves_cases) (use o that(1) in auto)
  from this [OF assms(2,4)] this [OF assms(3,5)] show ?thesis by simp
qed

lemma files_okI:
  assumes "\<And>p pt. p \<in> S \<Longrightarrow> m p = Some pt \<Longrightarrow> \<exists>k. resolves P v im om p = Some k \<and> stores P v om k pt"
    and "\<And>p k. p \<in> S \<Longrightarrow> m p = None \<Longrightarrow> resolves P v im om p = Some k \<Longrightarrow> om k = None"
  shows "files_ok P v S im m om"
  using assms by (auto simp: files_ok_def split: option.split)

lemma files_ok_Some:
  "files_ok P v S im m om \<Longrightarrow> p \<in> S \<Longrightarrow> m p = Some pt \<Longrightarrow> \<exists>k. resolves P v im om p = Some k \<and> stores P v om k pt"
  unfolding files_ok_def by (drule (1) bspec) simp

lemma files_ok_None:
  "files_ok P v S im m om \<Longrightarrow> p \<in> S \<Longrightarrow> m p = None \<Longrightarrow> resolves P v im om p = Some k \<Longrightarrow> om k = None"
  unfolding files_ok_def by (drule (1) bspec) simp

text \<open>A new object changes nothing.\<close>

lemma step_object:
  assumes rep: "vault_rep P C v S im m (objs, db)" and k: "k = object_key_for P f"
    and fresh: "\<not> in_use P v S im (map_of objs) k"
  shows "vault_rep P C v S im m (AList.update k obj objs, db)"
proof -
  note r = vault_repD [OF rep]
  have same: "resolves P v im ((map_of objs)(k := Some obj)) q = resolves P v im (map_of objs) q"
    "name_target P v ((map_of objs)(k := Some obj)) q = name_target P v (map_of objs) q" for q
    by (simp_all add: k resolves_upd name_target_upd)
  have "files_ok P v S im m ((map_of objs)(k := Some obj))"
  proof (rule files_okI, unfold same)
    fix p pt assume "p \<in> S" "m p = Some pt"
    from files_ok_Some [OF r(3) this] obtain j where j: "resolves P v im (map_of objs) p = Some j"
      "stores P v (map_of objs) j pt" by blast
    with stores_object [OF j(2)] fresh have "j \<noteq> k" by (auto simp: in_use_def)
    with j show "\<exists>k'. resolves P v im (map_of objs) p = Some k' \<and> stores P v ((map_of objs)(k := Some obj)) k' pt"
      by (auto simp: stores_upd)
  next
    fix p j assume p: "p \<in> S" "m p = None" and j: "resolves P v im (map_of objs) p = Some j"
    with resolves_in_use [OF p(1) j] fresh have "j \<noteq> k" by auto
    with files_ok_None [OF r(3) p j] show "((map_of objs)(k := Some obj)) j = None" by simp
  qed
  with r(1,2) show ?thesis by (simp add: vault_rep_def update_conv' owned_def same)
qed

text \<open>The name record makes the object the file, unless the index still names another.\<close>

lemma step_name:
  assumes rep: "vault_rep P C v S im m (objs, db)" and env: "vault_env P C v S" and p: "p \<in> S"
    and val: "open_record P (v_name_keys v) (v_vault_id v) (record_key P (v_name_keys v) p) val = Ok nr"
    and k: "k = object_key_for P (nr_file_id nr)" and obj: "stores P v (map_of objs) k pt"
    and free: "\<And>q. q \<in> S \<Longrightarrow> (\<forall>r. im q = Some r \<longrightarrow> ir_object_key r \<noteq> k) \<and> name_target P v (map_of objs) q \<noteq> Some k"
  shows "vault_rep P C v S im (if im p = None then m(p \<mapsto> pt) else m)
    (AList.update (record_key P (v_name_keys v) p) val objs, db)"
proof -
  note r = vault_repD [OF rep]
  define n om where "n = record_key P (v_name_keys v) p" and "om = (map_of objs)(n \<mapsto> val)"
  have inj: "n \<noteq> record_key P (v_name_keys v) q" if "q \<in> S" "q \<noteq> p" for q
    using vault_envD(8) [OF env] p that by (auto simp: n_def inj_on_def)
  have target: "name_target P v om q = (if q = p then Some k else name_target P v (map_of objs) q)" if "q \<in> S" for q
    using inj [OF that] val k by (auto simp: om_def name_target_upd) (simp add: name_target_def n_def)
  have res: "resolves P v im om q = (if q = p \<and> im p = None then Some k else resolves P v im (map_of objs) q)"
    if "q \<in> S" for q
    using target [OF that] by (auto simp: resolves_def split: option.split)
  have kept: "stores P v om j x = stores P v (map_of objs) j x" if "j = object_key_for P f" for j x f
    using that unfolding om_def by (intro stores_upd) (simp add: n_def)
  have "owned P v S im om"
  proof (rule ownedE [OF r(2)])
    fix owner
    assume o: "\<And>q r. q \<in> S \<Longrightarrow> im q = Some r \<Longrightarrow> owner (ir_object_key r) = q"
      "\<And>q r. q \<in> S \<Longrightarrow> im q = Some r \<Longrightarrow> \<exists>f. ir_object_key r = object_key_for P f"
      "\<And>q k. q \<in> S \<Longrightarrow> name_target P v (map_of objs) q = Some k \<Longrightarrow> owner k = q"
    show "owned P v S im om"
      by (rule ownedI [of _ _ "owner(k := p)"]) (use o free in \<open>auto simp: target split: if_splits\<close>)
  qed
  moreover have "files_ok P v S im (if im p = None then m(p \<mapsto> pt) else m) om"
  proof (rule files_okI)
    fix q x assume q: "q \<in> S" "(if im p = None then m(p \<mapsto> pt) else m) q = Some x"
    show "\<exists>k. resolves P v im om q = Some k \<and> stores P v om k x"
    proof (cases "q = p \<and> im p = None")
      case True
      with q obj show ?thesis by (simp add: res kept [OF k])
    next
      case False
      with q have "m q = Some x" by (auto split: if_splits)
      with files_ok_Some [OF r(3) q(1)] obtain j where
        "resolves P v im (map_of objs) q = Some j" "stores P v (map_of objs) j x" by blast
      with False q(1) stores_object [OF this(2)] kept show ?thesis by (auto simp: res)
    qed
  next
    fix q j assume q: "q \<in> S" "(if im p = None then m(p \<mapsto> pt) else m) q = None" and "resolves P v im om q = Some j"
    then have j: "resolves P v im (map_of objs) q = Some j" and m: "m q = None"
      by (auto simp: res split: if_splits)
    obtain f where "j = object_key_for P f" by (rule resolves_key [OF r(2) q(1) j])
    with files_ok_None [OF r(3) q(1) m j] show "om j = None" by (simp add: om_def n_def)
  qed
  ultimately show ?thesis
    using r(1) by (simp add: vault_rep_def update_conv' om_def n_def)
qed

text \<open>The index record of the same object makes it the file.\<close>

lemma step_index:
  assumes rep: "vault_rep P C v S im m (objs, db)" and p: "p \<in> S"
    and name: "name_target P v (map_of objs) p = Some (ir_object_key r)"
    and obj: "stores P v (map_of objs) (ir_object_key r) pt"
    and index: "index_rep P C (v_index v) S (im(p \<mapsto> r)) db'"
  shows "vault_rep P C v S (im(p \<mapsto> r)) (m(p \<mapsto> pt)) (objs, db')"
proof -
  note rep = vault_repD [OF rep]
  have res: "resolves P v (im(p \<mapsto> r)) (map_of objs) q =
      (if q = p then Some (ir_object_key r) else resolves P v im (map_of objs) q)" for q
    by (simp add: resolves_def)
  have "owned P v S (im(p \<mapsto> r)) (map_of objs)"
  proof (rule ownedE [OF rep(2)])
    fix owner
    assume o: "\<And>q r. q \<in> S \<Longrightarrow> im q = Some r \<Longrightarrow> owner (ir_object_key r) = q"
      "\<And>q r. q \<in> S \<Longrightarrow> im q = Some r \<Longrightarrow> \<exists>f. ir_object_key r = object_key_for P f"
      "\<And>q k. q \<in> S \<Longrightarrow> name_target P v (map_of objs) q = Some k \<Longrightarrow> owner k = q"
    show ?thesis
      by (rule ownedI [of _ _ owner])
        (use o name p stores_object [OF obj] in \<open>auto split: if_splits\<close>)
  qed
  moreover have "files_ok P v S (im(p \<mapsto> r)) (m(p \<mapsto> pt)) (map_of objs)"
    using files_ok_Some [OF rep(3)] files_ok_None [OF rep(3)] obj
    by (intro files_okI) (auto simp: res split: if_splits)
  ultimately show ?thesis using index by (simp add: vault_rep_def)
qed

text \<open>An object that no path resolves to can go.\<close>

lemma step_gone:
  assumes rep: "vault_rep P C v S im m (objs, db)" and k: "k = object_key_for P f"
    and free: "\<And>q. q \<in> S \<Longrightarrow> m q \<noteq> None \<Longrightarrow> resolves P v im (map_of objs) q \<noteq> Some k"
  shows "vault_rep P C v S im m (AList.delete k objs, db)"
proof -
  note r = vault_repD [OF rep]
  have same: "resolves P v im ((map_of objs)(k := None)) q = resolves P v im (map_of objs) q"
    "name_target P v ((map_of objs)(k := None)) q = name_target P v (map_of objs) q" for q
    by (simp_all add: k resolves_upd name_target_upd)
  have "files_ok P v S im m ((map_of objs)(k := None))"
  proof (rule files_okI, unfold same)
    fix p pt assume p: "p \<in> S" "m p = Some pt"
    from files_ok_Some [OF r(3) this] obtain j where j: "resolves P v im (map_of objs) p = Some j"
      "stores P v (map_of objs) j pt" by blast
    with free [OF p(1)] p(2) have "k \<noteq> j" by auto
    with j show "\<exists>k'. resolves P v im (map_of objs) p = Some k' \<and> stores P v ((map_of objs)(k := None)) k' pt"
      by (auto simp: stores_upd)
  next
    fix p j assume "p \<in> S" "m p = None" "resolves P v im (map_of objs) p = Some j"
    from files_ok_None [OF r(3) this] show "((map_of objs)(k := None)) j = None" by simp
  qed
  with r(1,2) show ?thesis by (simp add: vault_rep_def AList.delete_conv' owned_def same)
qed

section \<open>Storing\<close>

lemma gc_spec:
  assumes rep: "vault_rep P C v S im m (objs, db)" and p: "p \<in> S" "m p \<noteq> None"
    and now: "resolves P v im (map_of objs) p = Some current"
    and prev: "\<And>old. previous = Some old \<Longrightarrow> (\<exists>f. old = object_key_for P f) \<and>
      (\<forall>q \<in> S. q \<noteq> p \<longrightarrow> m q \<noteq> None \<longrightarrow> resolves P v im (map_of objs) q \<noteq> Some old)"
    and Q: "\<And>objs'. vault_rep P C v S im m (objs', db) \<Longrightarrow> Q () (objs', db)"
  shows "vspec (gc_superseded_object previous current) (objs, db) Q R"
proof (cases "\<exists>old. previous = Some old \<and> old \<noteq> current")
  case True
  then obtain old f where old: "previous = Some old" "old \<noteq> current" "old = object_key_for P f"
    using prev by blast
  have "vault_rep P C v S im m (AList.delete old objs, db)"
    by (rule step_gone [OF rep old(3)]) (use prev [OF old(1)] now old(2) in auto)
  with old Q rep show ?thesis
    unfolding gc_superseded_object_def
    by (auto intro!: vspec_bind vspec_try_delete vspec_return)
qed (auto simp: gc_superseded_object_def vspec_return Q rep split: option.split)

text \<open>
  The states a failed store can leave: the files as they were, or with the new content, which is then
  found by its name record.
\<close>

definition put_left ::
  "prims \<Rightarrow> postcard \<Rightarrow> vault \<Rightarrow> str set \<Rightarrow> (str \<rightharpoonup> bytes) \<Rightarrow> str \<Rightarrow> bytes \<Rightarrow> shelf \<Rightarrow> bool" where
  "put_left P C v S m p pt d \<longleftrightarrow> (\<exists>im' m'. vault_rep P C v S im' m' d \<and> (m' = m \<or> m' = m(p \<mapsto> pt)))"

definition put_done ::
  "prims \<Rightarrow> postcard \<Rightarrow> vault \<Rightarrow> str set \<Rightarrow> index_map \<Rightarrow> (str \<rightharpoonup> bytes) \<Rightarrow> str \<Rightarrow> bytes \<Rightarrow> shelf \<Rightarrow> bool" where
  "put_done P C v S im m p pt d \<longleftrightarrow> (\<exists>r. ir_size r = of_nat (length pt) \<and>
     ir_content_hash r = blake3_hash P pt \<and> vault_rep P C v S (im(p \<mapsto> r)) (m(p \<mapsto> pt)) d)"

lemma put_names_spec:
  assumes env: "vault_env P C v S" and rep: "vault_rep P C v S im m (objs, db)" and p: "p \<in> S"
    and k: "ir_path r = p" "ir_object_key r = object_key_for P f" "length f = 16"
      "ir_size r = of_nat (length pt)" "ir_content_hash r = blake3_hash P pt"
    and obj: "stores P v (map_of objs) (ir_object_key r) pt"
    and free: "\<And>q. q \<in> S \<Longrightarrow> (\<forall>r'. im q = Some r' \<longrightarrow> ir_object_key r' \<noteq> ir_object_key r) \<and>
      name_target P v (map_of objs) q \<noteq> Some (ir_object_key r)"
    and prev: "previous = None \<or> previous = resolves P v im (map_of objs) p"
    and r: "record_ok C r" "fits (im(p \<mapsto> r))"
  shows "vspec (put_names P C v previous f r) (objs, db) (\<lambda>_. put_done P C v S im m p pt) (put_left P C v S m p pt)"
    (is "vspec _ _ ?Q ?R")
proof -
  let ?nk = "v_name_keys v"
  let ?n = "record_key P ?nk p"
  have left: "?R d" if "vault_rep P C v S im' m' d" "m' = m \<or> m' = m(p \<mapsto> pt)" for im' m' d
    using that unfolding put_left_def by blast
  have seal: "\<exists>x g'. and_then (seal_record P ?nk (v_vault_id v) (ir_path r) f 0 g)
        (\<lambda>(key, val, g). Ok ((key, val), g)) = Ok (x, g') \<and> fst x = ?n \<and>
      open_record P ?nk (v_vault_id v) ?n (snd x) = Ok \<lparr>nr_file_id = f, nr_metadata_gen = 0, nr_path = p\<rparr>" for g
    using open_seal_record [OF vault_envD(2,7) [OF env] vault_env_path [OF env p] k(3), of "v_vault_id v" 0 g]
    by (metis (no_types, lifting) and_then_simps(2) case_prod_conv fst_conv k(1) snd_conv)
  have rest: "vspec (io_bind (from_store (b_put P ?n val (blake3_hash P val))) (\<lambda>_.
       io_bind (from_index (put P C (v_index v) r)) (\<lambda>_.
       gc_superseded_object previous (ir_object_key r)))) (objs, db) ?Q ?R"
    if val: "open_record P ?nk (v_vault_id v) ?n val = Ok \<lparr>nr_file_id = f, nr_metadata_gen = 0, nr_path = p\<rparr>" for val
  proof -
    define objs2 where "objs2 = AList.update ?n val objs"
    define m2 where "m2 = (if im p = None then m(p \<mapsto> pt) else m)"
    have rep2: "vault_rep P C v S im m2 (objs2, db)"
      unfolding objs2_def m2_def
      by (rule step_name [OF rep env p val _ obj free]) (simp_all add: k(2))
    have l2: "?R (objs2, db)" by (rule left [OF rep2]) (auto simp: m2_def)
    have name: "name_target P v (map_of objs2) p = Some (ir_object_key r)"
      using val k(2) by (simp add: name_target_def objs2_def update_conv')
    have obj2: "stores P v (map_of objs2) (ir_object_key r) pt"
      using obj by (simp add: objs2_def update_conv' stores_upd k(2))
    have res2: "resolves P v im (map_of objs2) q = resolves P v im (map_of objs) q" if "q \<in> S" "q \<noteq> p" for q
    proof -
      have "?n \<noteq> record_key P ?nk q" using vault_envD(8) [OF env] p that by (auto simp: inj_on_def)
      then show ?thesis by (simp add: objs2_def update_conv' resolves_upd)
    qed
    have index: "spec (put P C (v_index v) r) db (\<lambda>_. index_rep P C (v_index v) S (im(p \<mapsto> r)))"
      using put_refines [OF vault_envD(1) [OF env] vault_repD(1) [OF rep], of r] p r k(1) by simp
    have "vspec (io_bind (from_index (put P C (v_index v) r)) (\<lambda>_.
       gc_superseded_object previous (ir_object_key r))) (objs2, db) ?Q ?R"
    proof (rule vspec_index_bind [where R = ?R, OF index _ l2 put_atomic])
      fix db' assume "index_rep P C (v_index v) S (im(p \<mapsto> r)) db'"
      from step_index [OF rep2 p name obj2 this] have rep3: "vault_rep P C v S (im(p \<mapsto> r)) (m(p \<mapsto> pt)) (objs2, db')"
        by (simp add: m2_def fun_upd_twist split: if_splits)
      have res3: "resolves P v (im(p \<mapsto> r)) (map_of objs2) q = resolves P v im (map_of objs) q"
        if "q \<in> S" "q \<noteq> p" for q
        using res2 [OF that] that by (simp add: resolves_def)
      show "vspec (gc_superseded_object previous (ir_object_key r)) (objs2, db') ?Q ?R"
      proof (rule gc_spec [OF rep3 p])
        fix old assume "previous = Some old"
        with prev have old: "resolves P v im (map_of objs) p = Some old" by auto
        obtain g where "old = object_key_for P g" by (rule resolves_key [OF vault_repD(2) [OF rep] p old])
        then show "(\<exists>f. old = object_key_for P f) \<and> (\<forall>q \<in> S. q \<noteq> p \<longrightarrow> (m(p \<mapsto> pt)) q \<noteq> None \<longrightarrow>
            resolves P v (im(p \<mapsto> r)) (map_of objs2) q \<noteq> Some old)"
          using res3 resolves_owner [OF vault_repD(2) [OF rep] p _ old] by auto
      qed (use k(4,5) in \<open>auto simp: resolves_def put_done_def\<close>)
    qed
    then show ?thesis
      by (intro vspec_put_bind) (use l2 left [OF rep] in \<open>simp_all add: objs2_def\<close>)
  qed
  show ?thesis
    unfolding put_names_def
    by (rule vspec_bind, rule vspec_rng) (use seal rest in \<open>fastforce simp: case_prod_beta\<close>)
qed

lemma head_file_id:
  assumes "parse_head blob = Ok h"
  shows "h_file_id h = seg 52 68 blob"
proof -
  note b = build_parse_head [OF assms]
  have "seg 52 68 blob = seg 52 68 (take 68 blob)" by (simp add: seg_def drop_take)
  also have "\<dots> = seg 52 68 (build_head h)" by (simp only: b(3))
  also have "\<dots> = h_file_id h"
    using b(1) by (simp add: valid_head_def build_head_def seg_def)
  finally show ?thesis by simp
qed

lemma store_sealed_spec:
  assumes env: "vault_env P C v S" and rep: "vault_rep P C v S im m (objs, db)" and p: "p \<in> S"
    and obj: "open_object P (v_root_key v) obj = Ok x" "o_plaintext x = data" "length obj \<le> U64_MAX"
      "\<And>md. o_metadata x = Some md \<Longrightarrow> m_content_blake3 md = blake3_hash P data"
    and fresh: "\<not> in_use P v S im (map_of objs) (object_key_for P (seg 52 68 obj))"
    and prev: "previous = None \<or> previous = resolves P v im (map_of objs) p"
    and fits: "\<And>k. fits (im(p \<mapsto> \<lparr>ir_path = p, ir_object_key = k, ir_size = of_nat (length data),
      ir_modified_unix = t, ir_content_hash = blake3_hash P data\<rparr>))"
  shows "vspec (store_sealed P C v p previous t data obj) (objs, db)
    (\<lambda>_. put_done P C v S im m p data) (put_left P C v S m p data)"
    (is "vspec _ _ ?Q ?R")
proof -
  obtain h where h: "parse_head obj = Ok h" using obj(1) by (auto simp: open_object_def and_then_Ok_iff)
  define f k where "f = seg 52 68 obj" and "k = object_key_for P f"
  have f: "h_file_id h = f" "length f = 16" "68 \<le> length obj"
    using head_file_id [OF h] opened_head(2) [OF obj(1) h] build_parse_head(2) [OF h] by (simp_all add: f_def)
  define r where "r = \<lparr>ir_path = p, ir_object_key = k, ir_size = of_nat (length data),
      ir_modified_unix = t, ir_content_hash = blake3_hash P data\<rparr>"
  define objs1 where "objs1 = AList.update k obj objs"
  have left: "?R d" if "vault_rep P C v S im m d" for d
    using that unfolding put_left_def by blast
  have rep1: "vault_rep P C v S im m (objs1, db)"
    unfolding objs1_def by (rule step_object [OF rep k_def]) (use fresh in \<open>simp add: k_def f_def\<close>)
  have stored: "stores P v (map_of objs1) k data"
    using obj h f by (auto simp: stores_def objs1_def update_conv' k_def)
  have same: "name_target P v (map_of objs1) q = name_target P v (map_of objs) q"
    "resolves P v im (map_of objs1) q = resolves P v im (map_of objs) q" for q
    by (simp_all add: objs1_def update_conv' k_def name_target_upd resolves_upd)
  have free: "(\<forall>r'. im q = Some r' \<longrightarrow> ir_object_key r' \<noteq> k) \<and> name_target P v (map_of objs1) q \<noteq> Some k"
    if "q \<in> S" for q
    using fresh that by (auto simp: in_use_def same k_def f_def)
  have "length (blake3_hash P data) = 32" using vault_envD(4) [OF env] by (simp add: hashes_ok_def)
  then have ok: "record_ok C r" using env p f(2) by (simp add: vault_env_def r_def k_def)
  have "vspec (put_names P C v previous f r) (objs1, db) ?Q ?R"
    by (rule put_names_spec [OF env rep1 p])
      (use stored free prev ok fits [of k] f(2) in \<open>auto simp: r_def k_def same\<close>)
  then show ?thesis
    unfolding store_sealed_def Let_def f_def [symmetric] k_def [symmetric] r_def [symmetric]
    using f(3) left [OF rep] left [OF rep1] by (auto simp: objs1_def intro!: vspec_put_bind)
qed

theorem put_file_spec:
  assumes env: "vault_env P C v S" and rep: "vault_rep P C v S im m (shelf w)"
    and p: "Paths.normalize P raw = Ok p" "p \<in> S" and data: "2 ^ 19 + 17 * length data \<le> U64_MAX"
    and fresh: "\<And>obj g. seal P (v_root_key v) data (with_mtime (resolve now_unix modified) (metadata_new p))
        (v_chunk_size v) (c_rng (w_index w)) = Ok (obj, g) \<Longrightarrow>
      \<not> in_use P v S im (map_of (w_objects w)) (object_key_for P (seg 52 68 obj))"
    and fits: "\<And>k. fits (im(p \<mapsto> \<lparr>ir_path = p, ir_object_key = k, ir_size = of_nat (length data),
      ir_modified_unix = resolve now_unix modified, ir_content_hash = blake3_hash P data\<rparr>))"
    and run: "put_file P C v now_unix raw data modified w = (res, w')"
  shows "case res of Ok _ \<Rightarrow> put_done P C v S im m p data (shelf w')
    | Err _ \<Rightarrow> put_left P C v S m p data (shelf w') \<and> noisy w"
proof -
  let ?t = "resolve now_unix modified"
  let ?meta = "with_mtime ?t (metadata_new p)"
  obtain objs db where w: "shelf w = (objs, db)" by fastforce
  then have objs: "w_objects w = objs" by (simp add: shelf_def)
  note rep = rep [unfolded w]
  obtain r1 w1 where l: "lookup_object_key P C v p w = (r1, w1)" by fastforce
  note out = lookup_outcome [OF env vault_repD(1) [OF rep] p(2) w l]
  have left: "put_left P C v S m p data (objs, db)" using rep unfolding put_left_def by blast
  show ?thesis
  proof (cases r1)
    case (Inl e)
    then have "put_file P C v now_unix raw data modified w = (Err e, w1)"
      using l by (simp add: put_file_def p(1) io_bind_Err)
    with run out Inl left w show ?thesis by auto
  next
    case (Inr previous)
    have "p \<noteq> []" using p(1) by (auto simp: Paths.normalize_def Let_def validate_def and_then_Ok_iff)
    then have meta: "valid_metadata (recorded P data ?meta)"
      using vault_env_path [OF env p(2)] vault_envD(4) [OF env]
      by (auto simp: valid_metadata_def recorded_def with_mtime_def metadata_new_def hashes_ok_def is_tombstone_def
          split: option.split)
    obtain obj g where s: "seal P (v_root_key v) data ?meta (v_chunk_size v) (c_rng (w_index w1)) = Ok (obj, g)"
      "open_object P (v_root_key v) obj = Ok \<lparr>o_metadata = Some (recorded P data ?meta), o_plaintext = data\<rparr>"
    proof (rule seal_total [OF vault_envD(2,4,6) [OF env] _ vault_envD(9,10) [OF env] meta])
      show "length data \<le> U64_MAX" using data by simp
    qed
    define w2 where "w2 = w1\<lparr>w_index := (w_index w1)\<lparr>c_rng := g\<rparr>\<rparr>"
    have w2: "shelf w2 = (objs, db)" "later_world w w2" "noisy w2 \<Longrightarrow> noisy w"
      using out(1,2) w later_world_noisy [OF out(2)]
      by (auto simp: w2_def shelf_def noisy_def later_world_def later_def)
    have run2: "store_sealed P C v p previous ?t data obj w2 = (res, w')"
      using run l Inr s(1) vault_envD(6) [OF env]
      by (simp add: put_file_def p(1) io_bind_Ok root_def with_rng_def w2_def io_bind_def Let_def)
    have fresh': "length obj \<le> U64_MAX" "\<not> in_use P v S im (map_of objs) (object_key_for P (seg 52 68 obj))"
      using opened_length [OF vault_envD(2-4) [OF env] s(2)] data fresh s(1) out(3) objs by auto
    have prev: "previous = None \<or> previous = resolves P v im (map_of objs) p"
      using out(4) Inr by auto
    have "vspec (store_sealed P C v p previous ?t data obj) (objs, db)
      (\<lambda>_. put_done P C v S im m p data) (put_left P C v S m p data)"
      by (rule store_sealed_spec [OF env rep p(2) s(2)]) (use fresh' prev fits in \<open>auto simp: recorded_def\<close>)
    from vspec_Ok [OF this w2(1), of _ w'] vspec_Err [OF this w2(1), of _ w'] run2 w2(3) show ?thesis
      by (cases res) auto
  qed
qed

section \<open>Deleting\<close>

lemma step_delete_object:
  assumes rep: "vault_rep P C v S im m (objs, db)" and p: "p \<in> S"
    and k: "resolves P v im (map_of objs) p = Some k"
  shows "vault_rep P C v S im (m(p := None)) (AList.delete k objs, db)"
proof -
  note r = vault_repD [OF rep]
  obtain f where f: "k = object_key_for P f" by (rule resolves_key [OF r(2) p k])
  have same: "resolves P v im ((map_of objs)(k := None)) q = resolves P v im (map_of objs) q"
    "name_target P v ((map_of objs)(k := None)) q = name_target P v (map_of objs) q" for q
    by (simp_all add: f resolves_upd name_target_upd)
  have "files_ok P v S im (m(p := None)) ((map_of objs)(k := None))"
  proof (rule files_okI, unfold same)
    fix q pt assume q: "q \<in> S" "(m(p := None)) q = Some pt"
    then have "q \<noteq> p" "m q = Some pt" by (auto split: if_splits)
    from files_ok_Some [OF r(3) q(1) this(2)] obtain j where j: "resolves P v im (map_of objs) q = Some j"
      "stores P v (map_of objs) j pt" by blast
    with resolves_owner [OF r(2) q(1) p _ k] \<open>q \<noteq> p\<close> have "k \<noteq> j" by auto
    with j show "\<exists>k'. resolves P v im (map_of objs) q = Some k' \<and> stores P v ((map_of objs)(k := None)) k' pt"
      by (auto simp: stores_upd)
  next
    fix q j assume q: "q \<in> S" "(m(p := None)) q = None" and j: "resolves P v im (map_of objs) q = Some j"
    then show "((map_of objs)(k := None)) j = None"
      using files_ok_None [OF r(3) q(1) _ j] k by (auto split: if_splits)
  qed
  with r(1,2) show ?thesis by (simp add: vault_rep_def AList.delete_conv' owned_def same)
qed

lemma step_delete_name:
  assumes rep: "vault_rep P C v S im m (objs, db)" and env: "vault_env P C v S" and p: "p \<in> S" "m p = None"
  shows "vault_rep P C v S im m (AList.delete (record_key P (v_name_keys v) p) objs, db)"
proof -
  note r = vault_repD [OF rep]
  define n om where "n = record_key P (v_name_keys v) p" and "om = (map_of objs)(n := None)"
  have inj: "n \<noteq> record_key P (v_name_keys v) q" if "q \<in> S" "q \<noteq> p" for q
    using vault_envD(8) [OF env] p that by (auto simp: n_def inj_on_def)
  have target: "name_target P v om q = (if q = p then None else name_target P v (map_of objs) q)" if "q \<in> S" for q
    using inj [OF that] by (auto simp: om_def name_target_upd) (simp add: name_target_def n_def)
  have res: "resolves P v im om q = (if q = p \<and> im p = None then None else resolves P v im (map_of objs) q)"
    if "q \<in> S" for q
    using target [OF that] by (auto simp: resolves_def split: option.split)
  have kept: "stores P v om j x = stores P v (map_of objs) j x" if "j = object_key_for P f" for j x f
    using that unfolding om_def by (intro stores_upd) (simp add: n_def)
  have "owned P v S im om"
  proof (rule ownedE [OF r(2)])
    fix owner
    assume o: "\<And>q r. q \<in> S \<Longrightarrow> im q = Some r \<Longrightarrow> owner (ir_object_key r) = q"
      "\<And>q r. q \<in> S \<Longrightarrow> im q = Some r \<Longrightarrow> \<exists>f. ir_object_key r = object_key_for P f"
      "\<And>q k. q \<in> S \<Longrightarrow> name_target P v (map_of objs) q = Some k \<Longrightarrow> owner k = q"
    show "owned P v S im om"
      by (rule ownedI [of _ _ owner]) (use o in \<open>auto simp: target split: if_splits\<close>)
  qed
  moreover have "files_ok P v S im m om"
  proof (rule files_okI)
    fix q x assume q: "q \<in> S" "m q = Some x"
    with p have "q \<noteq> p" by auto
    from files_ok_Some [OF r(3) q] obtain j where
      "resolves P v im (map_of objs) q = Some j" "stores P v (map_of objs) j x" by blast
    with \<open>q \<noteq> p\<close> q(1) stores_object [OF this(2)] kept
    show "\<exists>k. resolves P v im om q = Some k \<and> stores P v om k x" by (auto simp: res)
  next
    fix q j assume q: "q \<in> S" "m q = None" and "resolves P v im om q = Some j"
    then have j: "resolves P v im (map_of objs) q = Some j" by (simp add: res split: if_splits)
    from files_ok_None [OF r(3) q j] show "om j = None" by (simp add: om_def)
  qed
  ultimately show ?thesis using r(1) by (simp add: vault_rep_def AList.delete_conv' om_def n_def)
qed

lemma step_delete_index:
  assumes rep: "vault_rep P C v S im m (objs, db)" and p: "m p = None"
    and name: "name_target P v (map_of objs) p = None"
    and index: "index_rep P C (v_index v) S (im(p := None)) db'"
  shows "vault_rep P C v S (im(p := None)) m (objs, db')"
proof -
  note rep = vault_repD [OF rep]
  have res: "resolves P v (im(p := None)) (map_of objs) q =
      (if q = p then None else resolves P v im (map_of objs) q)" for q
    using name by (simp add: resolves_def)
  have "owned P v S (im(p := None)) (map_of objs)"
  proof (rule ownedE [OF rep(2)])
    fix owner
    assume o: "\<And>q r. q \<in> S \<Longrightarrow> im q = Some r \<Longrightarrow> owner (ir_object_key r) = q"
      "\<And>q r. q \<in> S \<Longrightarrow> im q = Some r \<Longrightarrow> \<exists>f. ir_object_key r = object_key_for P f"
      "\<And>q k. q \<in> S \<Longrightarrow> name_target P v (map_of objs) q = Some k \<Longrightarrow> owner k = q"
    show ?thesis by (rule ownedI [of _ _ owner]) (use o in \<open>auto split: if_splits\<close>)
  qed
  moreover have "files_ok P v S (im(p := None)) m (map_of objs)"
    using files_ok_Some [OF rep(3)] files_ok_None [OF rep(3)] p
    by (intro files_okI) (auto simp: res split: if_splits)
  ultimately show ?thesis using index by (simp add: vault_rep_def)
qed

definition delete_left ::
  "prims \<Rightarrow> postcard \<Rightarrow> vault \<Rightarrow> str set \<Rightarrow> (str \<rightharpoonup> bytes) \<Rightarrow> str \<Rightarrow> shelf \<Rightarrow> bool" where
  "delete_left P C v S m p d \<longleftrightarrow> (\<exists>im' m'. vault_rep P C v S im' m' d \<and> (m' = m \<or> m' = m(p := None)))"

lemma delete_found_spec:
  assumes env: "vault_env P C v S" and rep: "vault_rep P C v S im m (objs, db)" and p: "p \<in> S"
    and k: "resolves P v im (map_of objs) p = Some k"
  shows "vspec (io_bind (from_store (b_delete k)) (\<lambda>_.
      io_bind (from_store (b_delete (record_key P (v_name_keys v) p))) (\<lambda>_.
      io_bind (from_index (delete P C (v_index v) p)) (\<lambda>_. io_return True)))) (objs, db)
    (\<lambda>x d'. x \<and> vault_rep P C v S (im(p := None)) (m(p := None)) d') (delete_left P C v S m p)"
    (is "vspec _ _ ?Q ?R")
proof -
  let ?n = "record_key P (v_name_keys v) p"
  have left: "?R d" if "vault_rep P C v S im m' d" "m' = m \<or> m' = m(p := None)" for d m'
    using that unfolding delete_left_def by blast
  have rep1: "vault_rep P C v S im (m(p := None)) (AList.delete k objs, db)"
    by (rule step_delete_object [OF rep p k])
  have rep2: "vault_rep P C v S im (m(p := None)) (AList.delete ?n (AList.delete k objs), db)"
    by (rule step_delete_name [OF rep1 env p]) simp
  have name: "name_target P v (map_of (AList.delete ?n (AList.delete k objs))) p = None"
    by (simp add: name_target_def AList.delete_conv')
  show ?thesis
    by (rule vspec_delete_bind, rule vspec_delete_bind,
        rule vspec_index_bind [where R = ?R, OF delete_refines [OF vault_envD(1) [OF env] vault_repD(1) [OF rep] p]
          _ left [OF rep2] delete_atomic])
      (use left [OF rep] left [OF rep1] left [OF rep2] step_delete_index [OF rep2 _ name] in
        \<open>auto intro!: vspec_return\<close>)
qed

theorem delete_file_spec:
  assumes env: "vault_env P C v S" and rep: "vault_rep P C v S im m (shelf w)"
    and p: "Paths.normalize P raw = Ok p" "p \<in> S" and run: "delete_file P C v raw w = (res, w')"
  shows "case res of
      Ok True \<Rightarrow> vault_rep P C v S (im(p := None)) (m(p := None)) (shelf w')
    | Ok False \<Rightarrow> shelf w' = shelf w \<and> (m p = None \<or> noisy w)
    | Err _ \<Rightarrow> delete_left P C v S m p (shelf w') \<and> noisy w"
proof -
  obtain objs db where w: "shelf w = (objs, db)" by fastforce
  note rep = rep [unfolded w]
  obtain r1 w1 where l: "lookup_object_key P C v p w = (r1, w1)" by fastforce
  note out = lookup_outcome [OF env vault_repD(1) [OF rep] p(2) w l]
  have left: "delete_left P C v S m p (objs, db)" using rep unfolding delete_left_def by blast
  show ?thesis
  proof (cases r1)
    case (Inl e)
    then have "delete_file P C v raw w = (Err e, w1)"
      using l by (simp add: delete_file_def p(1) io_bind_Err)
    with run out Inl left w show ?thesis by auto
  next
    case (Inr found)
    show ?thesis
    proof (cases found)
      case None
      then have "delete_file P C v raw w = (Ok False, w1)"
        using l Inr by (simp add: delete_file_def p(1) io_bind_Ok)
      moreover have "m p = None" if "resolves P v im (map_of objs) p = None"
        using files_ok_Some [OF vault_repD(3) [OF rep] p(2)] that by (cases "m p") auto
      ultimately show ?thesis using run out Inr None w by auto
    next
      case (Some k)
      have k: "resolves P v im (map_of objs) p = Some k" using out(4) Inr Some by auto
      have "io_bind (from_store (b_delete k)) (\<lambda>_.
          io_bind (from_store (b_delete (record_key P (v_name_keys v) p))) (\<lambda>_.
          io_bind (from_index (delete P C (v_index v) p)) (\<lambda>_. io_return True))) w1 = (res, w')"
        using run l Inr Some by (simp add: delete_file_def p(1) io_bind_Ok Let_def)
      with vspec_Ok [OF delete_found_spec [OF env rep p(2) k], of w1 _ w']
        vspec_Err [OF delete_found_spec [OF env rep p(2) k], of w1 _ w'] out(1) w later_world_noisy [OF out(2)]
      show ?thesis by (cases res) (auto split: bool.split)
    qed
  qed
qed

end
