(* ===== verification/Vault_Restore_Correct.thy ===== *)
theory Vault_Restore_Correct
  imports Vault_Restore Vault_Keys_Correct Vault_Update
begin

text \<open>
  What rebuilding the index promises. Whatever requests fail on the way, no file is lost, changed or
  invented, and when none does, every file that has a name record is in the index under the object it
  names, with what the object says of itself.
\<close>

section \<open>Describing an object\<close>

definition described_of :: "opened \<Rightarrow> described" where
  "described_of x = (case o_metadata x of
     None \<Rightarrow> unmeasured\<lparr>d_size := of_nat (length (o_plaintext x))\<rparr>
   | Some meta \<Rightarrow> \<lparr>d_size = of_nat (length (o_plaintext x)), d_modified_unix = recorded_mtime meta,
       d_content_hash = m_content_blake3 meta\<rparr>)"

definition described_at :: "prims \<Rightarrow> vault \<Rightarrow> (str \<Rightarrow> bytes option) \<Rightarrow> str \<Rightarrow> described" where
  "described_at P v om k = (case om k of None \<Rightarrow> unmeasured
     | Some blob \<Rightarrow> (case open_object P (v_root_key v) blob of Err _ \<Rightarrow> unmeasured | Ok x \<Rightarrow> described_of x))"

lemma describe_stored:
  assumes env: "vault_env P C v S" and obj: "stores P v (map_of objs) k pt"
  shows "vspec (describe P v k path) (objs, db) (\<lambda>d d'. d = described_at P v (map_of objs) k) (\<lambda>_. True)"
proof -
  obtain blob x h where o: "map_of objs (object_key_for P (h_file_id h)) = Some blob" "length blob \<le> U64_MAX"
    "open_object P (v_root_key v) blob = Ok x" "parse_head blob = Ok h" "k = object_key_for P (h_file_id h)"
    using obj unfolding stores_def by blast
  have d: "described_at P v (map_of objs) (object_key_for P (h_file_id h)) = described_of x"
    using o by (simp add: described_at_def)
  show ?thesis
    unfolding describe_def o(5) d
  proof (rule header_bind [where K = "\<lambda>_ header. let size = h_plaintext_len (rh_head header) in
      case rh_metadata header of
        None \<Rightarrow> io_return (unmeasured\<lparr>d_size := size\<rparr>)
      | Some meta \<Rightarrow> io_return \<lparr>d_size = size, d_modified_unix = recorded_mtime meta,
          d_content_hash = m_content_blake3 meta\<rparr>", OF env o(1,3,4,2)], goal_cases)
    case (1 rh hb cts pts)
    then show ?case
      by (auto simp: described_of_def Let_def intro!: vspec_return split: option.split)
  qed simp
qed

lemma describe_gone:
  assumes "map_of objs k = None"
  shows "lax (describe P v k path) (objs, db) (\<lambda>_ _. False) (\<lambda>_. True)"
proof -
  have "lax (from_store (b_get_range k 0 len)) (objs, db) Q (\<lambda>_. True)" for len Q
    unfolding lax_def
  proof (intro allI impI)
    fix w :: world assume w: "shelf w = (objs, db)"
    obtain r w1 where c: "b_get_range k 0 len w = (r, w1)" by fastforce
    from c [unfolded b_get_range_def] have "\<exists>e. r = Err e"
      by (cases rule: store_call_cases) (use assms w in \<open>auto simp: shelf_def ok_or_def\<close>)
    with c show "case from_store (b_get_range k 0 len) w of (Ok x, w') \<Rightarrow> Q x (shelf w') \<and> later_world w w'
      | (Err e, w') \<Rightarrow> True"
      by (auto simp: from_store_def map_err_def)
  qed
  then show ?thesis
    unfolding describe_def fetch_header_def MAX_HEADER_PROBES_def
    by (simp only: eval_nat_numeral(3) probe_header.simps) (intro lax_bind)
qed

lemma describe_outcome:
  assumes env: "vault_env P C v S" and w: "shelf w = (objs, db)"
    and k: "(\<exists>pt. m p = Some pt \<and> stores P v (map_of objs) k pt) \<or> map_of objs k = None"
    and run: "describe P v k path w = (res, w')"
  shows "shelf w' = shelf w" "later_world w w'"
    "case res of Ok d \<Rightarrow> map_of objs k \<noteq> None \<and> d = described_at P v (map_of objs) k
     | Err _ \<Rightarrow> noisy w \<or> map_of objs k = None"
proof -
  show "shelf w' = shelf w" "later_world w w'"
    using reads_onlyD [OF reads_only_describe run] by simp_all
  from k show "case res of Ok d \<Rightarrow> map_of objs k \<noteq> None \<and> d = described_at P v (map_of objs) k
     | Err _ \<Rightarrow> noisy w \<or> map_of objs k = None"
  proof
    assume "\<exists>pt. m p = Some pt \<and> stores P v (map_of objs) k pt"
    then obtain pt where s: "stores P v (map_of objs) k pt" by blast
    from stores_object [OF s] vspec_Ok [OF describe_stored [OF env s] w] vspec_Err [OF describe_stored [OF env s] w] run
    show ?thesis by (cases res) auto
  next
    assume g: "map_of objs k = None"
    from lax_Ok [OF describe_gone [OF g] w] run g show ?thesis by (cases res) auto
  qed
qed

lemma described_bounds:
  assumes "hashes_ok P" "stores P v om k pt"
  shows "unat (d_size (described_at P v om k)) \<le> length pt" "length (d_content_hash (described_at P v om k)) \<le> 32"
proof -
  have "unat (of_nat (length pt) :: u64) \<le> length pt" by (simp add: unat_of_nat)
  with assms show "unat (d_size (described_at P v om k)) \<le> length pt"
    "length (d_content_hash (described_at P v om k)) \<le> 32"
    by (auto simp: stores_def described_at_def described_of_def unmeasured_def hashes_ok_def split: option.split)
qed

lemma described_fits:
  assumes "hashes_ok P" "(\<exists>pt. m p = Some pt \<and> stores P v om k pt) \<or> om k = None"
    and "\<And>pt. m p = Some pt \<Longrightarrow> length pt \<le> b" "d = described_at P v om k \<or> d = unmeasured"
  shows "unat (d_size d) \<le> b" "length (d_content_hash d) \<le> 32"
proof -
  have "unat (d_size d) \<le> b \<and> length (d_content_hash d) \<le> 32"
  proof (cases "d = unmeasured")
    case True
    then show ?thesis by (simp add: unmeasured_def)
  next
    case False
    with assms(4) have d: "d = described_at P v om k" by simp
    with False assms(2) obtain pt where "m p = Some pt" "stores P v om k pt"
      by (auto simp: described_at_def)
    with described_bounds [OF assms(1) this(2)] assms(3) [OF this(1)] show ?thesis by (simp add: d)
  qed
  then show "unat (d_size d) \<le> b" "length (d_content_hash d) \<le> 32" by simp_all
qed

section \<open>One record\<close>

text \<open>What is relied on: the name records name paths in use, of which the contents fit the index.\<close>

definition rebuildable ::
  "prims \<Rightarrow> postcard \<Rightarrow> vault \<Rightarrow> str set \<Rightarrow> (str \<Rightarrow> nat) \<Rightarrow> (str \<rightharpoonup> bytes) \<Rightarrow> (str \<Rightarrow> bytes option) \<Rightarrow> bool" where
  "rebuildable P C v S bound m om \<longleftrightarrow> vault_env P C v S \<and> finite S \<and> card S \<le> U64_MAX \<and>
     (\<Sum>p \<in> S. bound p) \<le> U64_MAX \<and> (\<forall>p \<in> S. \<forall>pt. m p = Some pt \<longrightarrow> length pt \<le> bound p) \<and>
     (\<forall>key val nr. om key = Some val \<longrightarrow> open_record P (v_name_keys v) (v_vault_id v) key val = Ok nr \<longrightarrow>
       nr_path nr \<in> S)"

text \<open>The index names what the name records do, or more.\<close>

definition indexed_ok ::
  "prims \<Rightarrow> vault \<Rightarrow> str set \<Rightarrow> (str \<Rightarrow> nat) \<Rightarrow> (str \<Rightarrow> bytes option) \<Rightarrow> index_map \<Rightarrow> bool" where
  "indexed_ok P v S bound om im \<longleftrightarrow> (\<forall>p \<in> S. \<forall>r. im p = Some r \<longrightarrow> unat (ir_size r) \<le> bound p \<and>
     (\<forall>k. name_target P v om p = Some k \<longrightarrow> k = ir_object_key r))"

definition record_from :: "str \<Rightarrow> str \<Rightarrow> described \<Rightarrow> index_record" where
  "record_from p k d = \<lparr>ir_path = p, ir_object_key = k, ir_size = d_size d,
     ir_modified_unix = d_modified_unix d, ir_content_hash = d_content_hash d\<rparr>"

lemma rebuildableD:
  assumes "rebuildable P C v S bound m om"
  shows "vault_env P C v S" "finite S" "card S \<le> U64_MAX" "(\<Sum>p \<in> S. bound p) \<le> U64_MAX"
    "\<And>p pt. p \<in> S \<Longrightarrow> m p = Some pt \<Longrightarrow> length pt \<le> bound p"
    "\<And>key val nr. om key = Some val \<Longrightarrow> open_record P (v_name_keys v) (v_vault_id v) key val = Ok nr \<Longrightarrow> nr_path nr \<in> S"
  using assms unfolding rebuildable_def by simp_all

lemma indexed_okD:
  assumes "indexed_ok P v S bound om im" "p \<in> S" "im p = Some r"
  shows "unat (ir_size r) \<le> bound p" "name_target P v om p = Some k \<Longrightarrow> k = ir_object_key r"
  using assms unfolding indexed_ok_def by blast+

lemma indexed_fits:
  assumes "rebuildable P C v S bound m om" "indexed_ok P v S bound om im" "dom im \<subseteq> S"
  shows "fits im"
proof -
  note r = rebuildableD [OF assms(1)]
  have "card (dom im) \<le> U64_MAX" using card_mono [OF r(2) assms(3)] r(3) by simp
  moreover have "measured_sum im \<le> (\<Sum>p \<in> {p \<in> dom im. \<not> ir_unmeasured (the (im p))}. bound p)"
    unfolding measured_sum_def
    by (rule sum_mono) (use indexed_okD(1) [OF assms(2)] assms(3) in auto)
  moreover have "\<dots> \<le> (\<Sum>p \<in> S. bound p)"
    by (rule sum_mono2) (use r(2) assms(3) in auto)
  ultimately show ?thesis using r(4) by (simp add: fits_def)
qed

lemma step_reindex:
  assumes rep: "vault_rep P C v S im m (objs, db)" and p: "p \<in> S"
    and name: "name_target P v (map_of objs) p = Some (ir_object_key r)"
    and same: "\<And>r'. im p = Some r' \<Longrightarrow> ir_object_key r' = ir_object_key r"
    and index: "index_rep P C (v_index v) S (im(p \<mapsto> r)) db'"
  shows "vault_rep P C v S (im(p \<mapsto> r)) m (objs, db')"
proof -
  note rep = vault_repD [OF rep]
  have res: "resolves P v (im(p \<mapsto> r)) (map_of objs) = resolves P v im (map_of objs)"
    using name same by (auto simp: resolves_def fun_eq_iff split: option.split)
  have "owned P v S (im(p \<mapsto> r)) (map_of objs)"
  proof (rule ownedE [OF rep(2)])
    fix owner
    assume o: "\<And>q r. q \<in> S \<Longrightarrow> im q = Some r \<Longrightarrow> owner (ir_object_key r) = q"
      "\<And>q r. q \<in> S \<Longrightarrow> im q = Some r \<Longrightarrow> \<exists>f. ir_object_key r = object_key_for P f"
      "\<And>q k. q \<in> S \<Longrightarrow> name_target P v (map_of objs) q = Some k \<Longrightarrow> owner k = q"
    show "owned P v S (im(p \<mapsto> r)) (map_of objs)"
      by (rule ownedI [of _ _ owner]) (use o p name name_target_key [OF name] in \<open>auto split: if_splits\<close>)
  qed
  moreover have "files_ok P v S (im(p \<mapsto> r)) m (map_of objs)"
    using rep(3) unfolding files_ok_def res .
  ultimately show ?thesis using index by (simp add: vault_rep_def)
qed

lemma resolves_named:
  assumes "indexed_ok P v S bound om im" "p \<in> S" "name_target P v om p = Some k"
  shows "resolves P v im om p = Some k"
  using assms by (auto simp: resolves_def indexed_ok_def split: option.split)

lemma resolved_object:
  assumes "vault_rep P C v S im m (objs, db)" "p \<in> S" "resolves P v im (map_of objs) p = Some k"
  shows "(\<exists>pt. m p = Some pt \<and> stores P v (map_of objs) k pt) \<or> map_of objs k = None"
  using files_ok_Some [OF vault_repD(3) [OF assms(1)] assms(2)] files_ok_None [OF vault_repD(3) [OF assms(1)] assms(2)]
    assms(3) by (cases "m p") fastforce+

lemma put_step:
  assumes R: "rebuildable P C v S bound m (map_of objs)" and rep: "vault_rep P C v S im m (objs, db)"
    and ok: "indexed_ok P v S bound (map_of objs) im" and p: "p \<in> S"
    and name: "name_target P v (map_of objs) p = Some k" and k: "k = object_key_for P f" "length f = 16"
    and d: "unat (d_size d) \<le> bound p" "length (d_content_hash d) \<le> 32"
  shows "vspec (from_index (put P C (v_index v) (record_from p k d))) (objs, db)
      (\<lambda>_ d'. fst d' = objs \<and> vault_rep P C v S (im(p \<mapsto> record_from p k d)) m d') (\<lambda>d'. d' = (objs, db))"
    and "indexed_ok P v S bound (map_of objs) (im(p \<mapsto> record_from p k d))"
proof -
  note r = rebuildableD [OF R] and rep' = vault_repD [OF rep]
  show ok': "indexed_ok P v S bound (map_of objs) (im(p \<mapsto> record_from p k d))"
    using ok d(1) name by (auto simp: indexed_ok_def record_from_def)
  have "record_ok C (record_from p k d)"
    using r(1) p k d(2) by (simp add: vault_env_def record_from_def)
  moreover have "dom im \<subseteq> S" using rep'(1) by (auto simp: index_rep_def map_ok_def)
  then have "fits (im(p \<mapsto> record_from p k d))" using indexed_fits [OF R ok'] p by auto
  ultimately have "spec (put P C (v_index v) (record_from p k d)) db
      (\<lambda>_. index_rep P C (v_index v) S (im(p \<mapsto> record_from p k d)))"
    using put_refines [OF vault_envD(1) [OF r(1)] rep'(1), of "record_from p k d"] p
    by (simp add: record_from_def)
  then show "vspec (from_index (put P C (v_index v) (record_from p k d))) (objs, db)
      (\<lambda>_ d'. fst d' = objs \<and> vault_rep P C v S (im(p \<mapsto> record_from p k d)) m d') (\<lambda>d'. d' = (objs, db))"
  proof (rule vspec_index, goal_cases)
    case (1 x db')
    have "vault_rep P C v S (im(p \<mapsto> record_from p k d)) m (objs, db')"
      by (rule step_reindex [OF rep p]) (use name indexed_okD(2) [OF ok p] 1 in \<open>auto simp: record_from_def\<close>)
    then show ?case by simp
  qed (simp_all add: put_atomic)
qed

text \<open>The paths that a name record gives, what is put into the index for one, and how it is counted.\<close>

definition name_entry :: "prims \<Rightarrow> vault \<Rightarrow> (str \<Rightarrow> bytes option) \<Rightarrow> str \<Rightarrow> (str \<times> str) list" where
  "name_entry P v om key = (case om key of None \<Rightarrow> []
     | Some val \<Rightarrow> (case open_record P (v_name_keys v) (v_vault_id v) key val of Err _ \<Rightarrow> []
         | Ok nr \<Rightarrow> [(nr_path nr, object_key_for P (nr_file_id nr))]))"

definition rebuilt_record :: "prims \<Rightarrow> vault \<Rightarrow> (str \<Rightarrow> bytes option) \<Rightarrow> str \<Rightarrow> str \<Rightarrow> index_record" where
  "rebuilt_record P v om p k = record_from p k (described_at P v om k)"

fun reindex :: "prims \<Rightarrow> vault \<Rightarrow> (str \<Rightarrow> bytes option) \<Rightarrow> str \<times> str \<Rightarrow> index_map \<Rightarrow> index_map" where
  "reindex P v om (p, k) im = im(p \<mapsto> rebuilt_record P v om p k)"

fun tally :: "(str \<Rightarrow> bytes option) \<Rightarrow> str \<times> str \<Rightarrow> rebuilt \<Rightarrow> rebuilt" where
  "tally om (p, k) rb =
     (let rb = (if om k = None then rb\<lparr>rb_unmeasured := rb_unmeasured rb + 1\<rparr>
        else rb\<lparr>rb_measured := rb_measured rb + 1\<rparr>) in rb\<lparr>rb_files := rb_files rb + 1\<rparr>)"

text \<open>A part of the loop that handled the entries \<open>es\<close>, if no request failed.\<close>

definition rebuilds ::
  "prims \<Rightarrow> postcard \<Rightarrow> vault \<Rightarrow> str set \<Rightarrow> (str \<Rightarrow> nat) \<Rightarrow> (str \<rightharpoonup> bytes) \<Rightarrow> (str \<times> bytes) list \<Rightarrow> (str \<times> str) list \<Rightarrow>
    rebuilt \<Rightarrow> index_map \<Rightarrow> world \<Rightarrow> (core_error + rebuilt) \<times> world \<Rightarrow> bool" where
  "rebuilds P C v S bound m objs es rb im w out \<longleftrightarrow> (case out of (res, w') \<Rightarrow>
     \<exists>im'. fst (shelf w') = objs \<and> vault_rep P C v S im' m (shelf w') \<and> indexed_ok P v S bound (map_of objs) im' \<and>
       (case res of
          Ok rb' \<Rightarrow> later_world w w' \<and>
            (\<not> noisy w \<longrightarrow> im' = fold (reindex P v (map_of objs)) es im \<and> rb' = fold (tally (map_of objs)) es rb)
        | Err _ \<Rightarrow> noisy w))"

lemma rebuildsI:
  assumes "fst (shelf w') = objs" "vault_rep P C v S im' m (shelf w')" "indexed_ok P v S bound (map_of objs) im'"
    and "\<And>rb'. res = Ok rb' \<Longrightarrow> later_world w w'"
    and "\<And>rb'. res = Ok rb' \<Longrightarrow> \<not> noisy w \<Longrightarrow>
      im' = fold (reindex P v (map_of objs)) es im \<and> rb' = fold (tally (map_of objs)) es rb"
    and "\<And>e. res = Err e \<Longrightarrow> noisy w"
  shows "rebuilds P C v S bound m objs es rb im w (res, w')"
  using assms unfolding rebuilds_def by (cases res) auto

lemma rebuilds_trans:
  assumes "rebuilds P C v S bound m objs es rb im w (Ok rb1, w1)"
    and "\<And>im1. \<lbrakk>fst (shelf w1) = objs; vault_rep P C v S im1 m (shelf w1); indexed_ok P v S bound (map_of objs) im1\<rbrakk> \<Longrightarrow>
      rebuilds P C v S bound m objs es' rb1 im1 w1 out"
  shows "rebuilds P C v S bound m objs (es @ es') rb im w out"
proof -
  obtain im1 where im1: "fst (shelf w1) = objs" "vault_rep P C v S im1 m (shelf w1)"
    "indexed_ok P v S bound (map_of objs) im1" "later_world w w1"
    "\<not> noisy w \<longrightarrow> im1 = fold (reindex P v (map_of objs)) es im \<and> rb1 = fold (tally (map_of objs)) es rb"
    using assms(1) by (auto simp: rebuilds_def)
  note l = later_world_trans [OF im1(4)] and n = later_world_noisy [OF im1(4)]
  obtain res w2 where out: "out = (res, w2)" by fastforce
  from assms(2) [OF im1(1-3)] obtain im2 where im2: "fst (shelf w2) = objs" "vault_rep P C v S im2 m (shelf w2)"
    "indexed_ok P v S bound (map_of objs) im2" "case res of Ok rb' \<Rightarrow> later_world w1 w2 \<and>
      (\<not> noisy w1 \<longrightarrow> im2 = fold (reindex P v (map_of objs)) es' im1 \<and> rb' = fold (tally (map_of objs)) es' rb1)
    | Err _ \<Rightarrow> noisy w1"
    unfolding rebuilds_def out by blast
  show ?thesis
    unfolding out by (rule rebuildsI [OF im2(1-3)]) (use im2(4) im1(5) l n in auto)
qed

text \<open>How a record that opens is handled.\<close>

lemma rebuild_item_run:
  assumes "from_store (b_get key) w = (Ok val, w1)" "open_record P (v_name_keys v) (v_vault_id v) key val = Ok nr"
    and "describe P v (object_key_for P (nr_file_id nr)) (nr_path nr) w1 = (got, w2)"
    and "from_index (put P C (v_index v) (record_from (nr_path nr) (object_key_for P (nr_file_id nr))
      (case got of Ok d \<Rightarrow> d | Err _ \<Rightarrow> unmeasured))) w2 = (res, w3)"
  shows "rebuild_item P C v key rb w = (case res of Err e \<Rightarrow> Err e | Ok _ \<Rightarrow>
    Ok ((case got of Ok _ \<Rightarrow> rb\<lparr>rb_measured := rb_measured rb + 1\<rparr>
      | Err _ \<Rightarrow> rb\<lparr>rb_unmeasured := rb_unmeasured rb + 1\<rparr>)\<lparr>rb_files := rb_files rb + 1\<rparr>), w3)"
  using assms(4)
  by (cases got; cases res)
    (simp_all add: rebuild_item_def io_bind_def io_try_def assms(1-3) record_from_def io_return_def Let_def)

lemma rebuild_record_outcome:
  assumes R: "rebuildable P C v S bound m (map_of objs)" and rep: "vault_rep P C v S im m (objs, db)"
    and ok: "indexed_ok P v S bound (map_of objs) im" and val: "map_of objs key = Some val"
    and nr: "open_record P (v_name_keys v) (v_vault_id v) key val = Ok nr"
    and g: "from_store (b_get key) w = (Ok val, w1)" and w1: "shelf w1 = (objs, db)" "later_world w w1"
  shows "rebuilds P C v S bound m objs (name_entry P v (map_of objs) key) rb im w (rebuild_item P C v key rb w)"
proof -
  note r = rebuildableD [OF R]
  define p k where "p = nr_path nr" and "k = object_key_for P (nr_file_id nr)"
  have p: "p \<in> S" unfolding p_def by (rule r(6) [OF val nr])
  have name: "name_target P v (map_of objs) p = Some k"
    using open_record_key(1) [OF nr] nr by (simp add: name_target_def val p_def k_def)
  note at = resolved_object [OF rep p resolves_named [OF ok p name]]
  obtain got w2 where got: "describe P v k p w1 = (got, w2)" by fastforce
  define d where "d = (case got of Ok d \<Rightarrow> d | Err _ \<Rightarrow> unmeasured)"
  note out = describe_outcome [where m = m and p = p, OF r(1) w1(1) at got]
  have w2: "shelf w2 = (objs, db)" using out(1) w1(1) by simp
  have "d = described_at P v (map_of objs) k \<or> d = unmeasured"
    using out(3) by (cases got) (simp_all add: d_def)
  note d = described_fits [where m = m and p = p, OF vault_envD(4) [OF r(1)] at r(5) [OF p] this]
  note put = put_step [OF R rep ok p name k_def open_record_key(3) [OF nr] d]
  obtain res w3 where run: "from_index (put P C (v_index v) (record_from p k d)) w2 = (res, w3)" by fastforce
  note step = rebuild_item_run [OF g nr got [unfolded p_def k_def] run [unfolded d_def p_def k_def]]
  have l: "later_world w w2" by (rule later_world_trans [OF w1(2) out(2)])
  show ?thesis
  proof (cases res)
    case (Inl e)
    with vspec_Err [OF put(1) w2 run [unfolded Inl]] rep ok later_world_noisy [OF l] show ?thesis
      unfolding step by (intro rebuildsI [where im' = im]) simp_all
  next
    case (Inr u)
    have entry: "name_entry P v (map_of objs) key = [(p, k)]"
      by (simp add: name_entry_def val nr p_def k_def)
    note fin = vspec_Ok [OF put(1) w2 run [unfolded Inr]]
    have quiet: "record_from p k d = rebuilt_record P v (map_of objs) p k \<and>
        (map_of objs k = None \<longleftrightarrow> (\<exists>e. got = Err e))" if "\<not> noisy w"
      using out(3) later_world_noisy [OF w1(2)] that
      by (cases got) (auto simp: d_def described_at_def rebuilt_record_def)
    show ?thesis
      unfolding step entry Inr
      by (rule rebuildsI [OF _ _ put(2)])
        (use fin later_world_trans [OF l] quiet in \<open>cases got; auto simp: Let_def\<close>)+
  qed
qed

lemma rebuild_item_outcome:
  assumes R: "rebuildable P C v S bound m (map_of objs)" and rep: "vault_rep P C v S im m (shelf w)"
    and ok: "indexed_ok P v S bound (map_of objs) im" and objs: "fst (shelf w) = objs" and key: "map_of objs key \<noteq> None"
  shows "rebuilds P C v S bound m objs (name_entry P v (map_of objs) key) rb im w (rebuild_item P C v key rb w)"
proof -
  obtain val db where val: "map_of objs key = Some val" and w: "shelf w = (objs, db)"
    using key objs by (cases "shelf w") auto
  obtain g w1 where g: "from_store (b_get key) w = (g, w1)" by fastforce
  have get: "vspec (from_store (b_get key)) (objs, db) (\<lambda>x d'. x = val \<and> d' = (objs, db)) (\<lambda>d'. d' = (objs, db))"
    by (rule vspec_get [OF val]) simp_all
  show ?thesis
  proof (cases g)
    case (Inl e)
    with vspec_Err [OF get w] g w rep ok show ?thesis
      by (auto simp: rebuild_item_def io_bind_Err intro!: rebuildsI [where im' = im])
  next
    case (Inr x)
    with vspec_Ok [OF get w] g have w1: "x = val" "shelf w1 = (objs, db)" "later_world w w1" by auto
    show ?thesis
    proof (cases "open_record P (v_name_keys v) (v_vault_id v) key val")
      case (Inl e)
      with Inr g w1 w rep ok show ?thesis
        by (auto simp: rebuild_item_def io_bind_Ok name_entry_def val intro!: rebuildsI [where im' = im])
    next
      case nr: (Inr nr)
      show ?thesis
        by (rule rebuild_record_outcome [OF R rep [unfolded w] ok val nr g [unfolded Inr w1(1)] w1(2,3)])
    qed
  qed
qed

section \<open>The loop\<close>

lemma rebuilds_Err: "rebuilds P C v S bound m objs es rb im w (Err e, w') \<Longrightarrow>
    rebuilds P C v S bound m objs es' rb' im w (Err e, w')"
  by (simp add: rebuilds_def)

lemma rebuild_items_outcome:
  assumes R: "rebuildable P C v S bound m (map_of objs)"
  shows "\<lbrakk>vault_rep P C v S im m (shelf w); indexed_ok P v S bound (map_of objs) im; fst (shelf w) = objs;
      set items \<subseteq> dom (map_of objs)\<rbrakk> \<Longrightarrow>
    rebuilds P C v S bound m objs (concat (map (name_entry P v (map_of objs)) items)) rb im w
      (rebuild_items P C v items rb w)"
proof (induction items arbitrary: im rb w)
  case Nil
  then show ?case by (auto intro: rebuildsI)
next
  case (Cons key items)
  obtain r w1 where run: "rebuild_item P C v key rb w = (r, w1)" by fastforce
  have one: "rebuilds P C v S bound m objs (name_entry P v (map_of objs) key) rb im w (r, w1)"
    using rebuild_item_outcome [OF R Cons.prems(1-3), of key rb] Cons.prems(4) run by auto
  show ?case
  proof (cases r)
    case (Inl e)
    with run rebuilds_Err [OF one [unfolded Inl]] show ?thesis by (simp add: io_bind_Err)
  next
    case (Inr rb1)
    with run have "rebuild_items P C v (key # items) rb w = rebuild_items P C v items rb1 w1"
      by (simp add: io_bind_Ok)
    then show ?thesis
      using rebuilds_trans [OF one [unfolded Inr]] Cons.IH Cons.prems(4) by simp
  qed
qed

lemma rebuilds_later:
  assumes "later_world w w1" "rebuilds P C v S bound m objs es rb im w1 out"
  shows "rebuilds P C v S bound m objs es rb im w out"
proof -
  obtain res w2 where out: "out = (res, w2)" by fastforce
  from assms(2) obtain im2 where im2: "fst (shelf w2) = objs" "vault_rep P C v S im2 m (shelf w2)"
    "indexed_ok P v S bound (map_of objs) im2" "case res of Ok rb' \<Rightarrow> later_world w1 w2 \<and>
      (\<not> noisy w1 \<longrightarrow> im2 = fold (reindex P v (map_of objs)) es im \<and> rb' = fold (tally (map_of objs)) es rb)
    | Err _ \<Rightarrow> noisy w1"
    unfolding rebuilds_def out by blast
  show ?thesis
    unfolding out
    by (rule rebuildsI [OF im2(1-3)])
      (use im2(4) later_world_trans [OF assms(1)] later_world_noisy [OF assms(1)] in auto)
qed

lemma rebuild_pages_outcome:
  assumes "rebuildable P C v S bound m (map_of objs)" "distinct (map fst objs)"
    and "vault_rep P C v S im m (shelf w)" "indexed_ok P v S bound (map_of objs) im" "fst (shelf w) = objs"
  shows "rebuilds P C v S bound m objs
      (concat (map (name_entry P v (map_of objs)) (remaining (keys_under NAME_KEY_PREFIX objs) cursor))) rb im w
      (rebuild_pages P C v cursor rb w)"
  using assms
proof (induction P C v cursor rb w arbitrary: im rule: rebuild_pages.induct)
  case (1 P C v cursor rb w)
  let ?es = "\<lambda>ks. concat (map (name_entry P v (map_of objs)) ks)" and ?ks = "keys_under NAME_KEY_PREFIX objs"
  note rep = 1(4) and ok = 1(5)
  have o: "w_objects w = objs" using 1(6) by (simp add: shelf_def)
  obtain r1 w1 where p0: "from_store (b_list_page NAME_KEY_PREFIX cursor) w = (r1, w1)" by fastforce
  show ?case
  proof (cases r1)
    case (Inl e)
    with vspec_Err [OF list_page_spec refl p0 [unfolded Inl]] p0 rep ok 1(6) show ?thesis
      by (auto simp: rebuild_pages.simps [of P C v cursor] intro!: rebuildsI [where im' = im])
  next
    case (Inr page)
    obtain items nxt where page: "page = (items, nxt)" by fastforce
    note p = p0 [unfolded Inr page]
    have w1: "shelf w1 = shelf w" "later_world w w1" using vspec_Ok [OF list_page_spec refl p] by simp_all
    have pg: "page_of (w_pages w 0) ?ks cursor = (items, nxt)" using list_page_Ok [OF p] o by simp
    note rem = page_of_remaining [OF keys_under_ok(1) keys_under_ok(2) [OF 1(3)] pg]
    have dom: "set items \<subseteq> dom (map_of objs)" using page_of_keys [OF pg] keys_under_ok(3) [of _ NAME_KEY_PREFIX objs] by blast
    obtain r2 w2 where l: "rebuild_items P C v items rb w1 = (r2, w2)" by fastforce
    have one: "rebuilds P C v S bound m objs (?es items) rb im w (r2, w2)"
      unfolding l [symmetric] using w1 rep ok 1(6)
      by (intro rebuilds_later [OF w1(2)] rebuild_items_outcome [OF 1(2)]) (simp_all add: dom)
    show ?thesis
    proof (cases r2)
      case (Inl e)
      with p l rebuilds_Err [OF one [unfolded Inl]] show ?thesis by (simp add: rebuild_pages.simps [of P C v cursor])
    next
      case (Inr rb1)
      note one = one [unfolded Inr] and l = l [unfolded Inr]
      show ?thesis
      proof (cases nxt)
        case None
        with p l one rem show ?thesis by (simp add: rebuild_pages.simps [of P C v cursor])
      next
        case (Some c)
        have run: "rebuild_pages P C v cursor rb w = rebuild_pages P C v (Some c) rb1 w2"
          using p l Some by (simp add: rebuild_pages.simps [of P C v cursor])
        note IH = 1(1) [OF p [symmetric] refl refl l [symmetric] refl Some 1(2,3)]
        show ?thesis
          unfolding run rem Some option.case map_append concat_append
          by (rule rebuilds_trans [OF one]) (rule IH)
      qed
    qed
  qed
qed

text \<open>What the loop makes of the index: the records of the paths that have a name.\<close>

definition rebuilt_map ::
  "prims \<Rightarrow> vault \<Rightarrow> str set \<Rightarrow> (str \<Rightarrow> bytes option) \<Rightarrow> index_map \<Rightarrow> index_map" where
  "rebuilt_map P v S om im p = (if p \<in> S then
     (case name_target P v om p of None \<Rightarrow> im p | Some k \<Rightarrow> Some (rebuilt_record P v om p k)) else im p)"

lemma fold_reindex:
  "distinct (map fst es) \<Longrightarrow> fold (reindex P v om) es im p =
    (case map_of es p of None \<Rightarrow> im p | Some k \<Rightarrow> Some (rebuilt_record P v om p k))"
proof (induction es arbitrary: im)
  case (Cons e es)
  obtain q k where e: "e = (q, k)" by fastforce
  with Cons.prems have q: "map_of es q = None" by (simp add: map_of_eq_None_iff)
  have "fold (reindex P v om) es (im(q \<mapsto> rebuilt_record P v om q k)) p = (case map_of es p of
      None \<Rightarrow> (im(q \<mapsto> rebuilt_record P v om q k)) p | Some k \<Rightarrow> Some (rebuilt_record P v om p k))"
    by (rule Cons.IH) (use Cons.prems in simp)
  then show ?case by (simp only: e q List.fold_simps reindex.simps) (simp add: q split: option.split)
qed simp

text \<open>Each named path has one entry.\<close>

lemma distinct_concat_map:
  assumes "\<And>k. distinct (map fst (f k))" "\<And>k e. e \<in> set (f k) \<Longrightarrow> g (fst e) = k" "distinct ks"
  shows "distinct (map fst (concat (map f ks)))"
  using assms(3)
proof (induction ks)
  case (Cons k ks)
  have "fst ` set (f k) \<inter> fst ` set (concat (map f ks)) = {}"
    using Cons.prems assms(2) by auto metis
  with Cons assms(1) show ?case by simp
qed simp

lemma entries_map:
  assumes R: "rebuildable P C v S bound m (map_of objs)" and objs: "distinct (map fst objs)"
  defines "es \<equiv> concat (map (name_entry P v (map_of objs)) (keys_under NAME_KEY_PREFIX objs))"
  shows "distinct (map fst es)" "map_of es p = (if p \<in> S then name_target P v (map_of objs) p else None)"
proof -
  note r = rebuildableD [OF R]
  have entry: "e \<in> set (name_entry P v (map_of objs) key) \<longleftrightarrow>
      fst e \<in> S \<and> record_key P (v_name_keys v) (fst e) = key \<and> name_target P v (map_of objs) (fst e) = Some (snd e)" for e key
  proof
    assume "e \<in> set (name_entry P v (map_of objs) key)"
    then obtain val nr where val: "map_of objs key = Some val"
      "open_record P (v_name_keys v) (v_vault_id v) key val = Ok nr"
      "e = (nr_path nr, object_key_for P (nr_file_id nr))"
      by (cases "map_of objs key"; cases "open_record P (v_name_keys v) (v_vault_id v) key (the (map_of objs key))")
        (auto simp: name_entry_def)
    with r(6) [OF val(1,2)] open_record_key(1) [OF val(2)]
    show "fst e \<in> S \<and> record_key P (v_name_keys v) (fst e) = key \<and> name_target P v (map_of objs) (fst e) = Some (snd e)"
      by (simp add: name_target_def)
  next
    assume a: "fst e \<in> S \<and> record_key P (v_name_keys v) (fst e) = key \<and> name_target P v (map_of objs) (fst e) = Some (snd e)"
    then obtain val nr where val: "map_of objs key = Some val"
      "open_record P (v_name_keys v) (v_vault_id v) key val = Ok nr" "snd e = object_key_for P (nr_file_id nr)"
      by (cases "map_of objs key"; cases "open_record P (v_name_keys v) (v_vault_id v) key (the (map_of objs key))")
        (auto simp: name_target_def)
    have "nr_path nr = fst e"
      using r(6) [OF val(1,2)] open_record_key(1) [OF val(2)] a vault_envD(8) [OF r(1)] by (auto simp: inj_on_def)
    with val show "e \<in> set (name_entry P v (map_of objs) key)"
      by (cases e) (simp add: name_entry_def)
  qed
  show d: "distinct (map fst es)"
    unfolding es_def
  proof (rule distinct_concat_map [of _ "record_key P (v_name_keys v)"])
    show "distinct (map fst (name_entry P v (map_of objs) k))" for k
      by (auto simp: name_entry_def split: option.split sum.split)
  qed (use entry keys_under_ok(2) [OF objs] in auto)
  have listed: "record_key P (v_name_keys v) p \<in> set (keys_under NAME_KEY_PREFIX objs)"
    if "name_target P v (map_of objs) p = Some k" for k
    using that unfolding keys_under_ok(3)
    by (cases "map_of objs (record_key P (v_name_keys v) p)") (simp_all add: name_target_def record_key_def)
  have "(p, k) \<in> set es \<longleftrightarrow> (\<exists>key \<in> set (keys_under NAME_KEY_PREFIX objs). (p, k) \<in> set (name_entry P v (map_of objs) key))" for k
    unfolding es_def by simp
  then have "map_of es p = Some k \<longleftrightarrow> p \<in> S \<and> name_target P v (map_of objs) p = Some k" for k
    unfolding map_of_eq_Some_iff [OF d] entry fst_conv snd_conv using listed by blast
  then show "map_of es p = (if p \<in> S then name_target P v (map_of objs) p else None)"
    by (metis not_Some_eq)
qed

text \<open>And so every file is counted once.\<close>

definition counted :: "nat \<Rightarrow> nat \<Rightarrow> rebuilt" where
  "counted a b = \<lparr>rb_files = of_nat (a + b), rb_measured = of_nat a, rb_unmeasured = of_nat b\<rparr>"

lemma fold_tally:
  "fold (tally om) es (counted a b) =
    counted (a + length (filter (\<lambda>(_, k). om k \<noteq> None) es)) (b + length (filter (\<lambda>(_, k). om k = None) es))"
proof (induction es arbitrary: a b)
  case (Cons e es)
  have "tally om e (counted a b) = (if om (snd e) = None then counted a (Suc b) else counted (Suc a) b)"
    by (cases e) (auto simp: counted_def Let_def)
  with Cons show ?case by (cases e) auto
qed (simp add: counted_def)

lemma count_entries:
  assumes "distinct (map fst es)" "\<And>p. map_of es p = (if p \<in> S then nt p else None)"
  shows "length (filter (\<lambda>(_, k). Q k) es) = card {p \<in> S. \<exists>k. nt p = Some k \<and> Q k}"
proof -
  have d: "distinct (map fst (filter (\<lambda>(_, k). Q k) es))" using assms(1) by (rule distinct_map_filter)
  have mem: "(p, k) \<in> set es \<longleftrightarrow> p \<in> S \<and> nt p = Some k" for p k
    unfolding map_of_eq_Some_iff [OF assms(1), symmetric] assms(2) by simp
  have "{p \<in> S. \<exists>k. nt p = Some k \<and> Q k} = set (map fst (filter (\<lambda>(_, k). Q k) es))"
    by (auto simp: mem [symmetric] image_iff) (use mem in blast)+
  then show ?thesis using distinct_card [OF d] by (simp only: length_map)
qed

theorem rebuild_index_outcome:
  assumes R: "rebuildable P C v S bound m (map_of objs)" and objs: "distinct (map fst objs)"
    and rep: "vault_rep P C v S im m (shelf w)" and ok: "indexed_ok P v S bound (map_of objs) im"
    and w: "fst (shelf w) = objs" and run: "rebuild_index P C v w = (res, w')"
  obtains im' where "fst (shelf w') = objs" "vault_rep P C v S im' m (shelf w')"
    "indexed_ok P v S bound (map_of objs) im'"
    "case res of Ok rb \<Rightarrow> later_world w w' \<and> (\<not> noisy w \<longrightarrow> im' = rebuilt_map P v S (map_of objs) im \<and>
        rb = counted (card {p \<in> S. \<exists>k. name_target P v (map_of objs) p = Some k \<and> map_of objs k \<noteq> None})
          (card {p \<in> S. \<exists>k. name_target P v (map_of objs) p = Some k \<and> map_of objs k = None}))
     | Err _ \<Rightarrow> noisy w"
proof -
  let ?es = "concat (map (name_entry P v (map_of objs)) (keys_under NAME_KEY_PREFIX objs))"
  note es = entries_map [OF R objs]
  have "rebuilds P C v S bound m objs ?es rebuilt_default im w (res, w')"
    using rebuild_pages_outcome [OF R objs rep ok w, of None rebuilt_default] run
    by (simp add: rebuild_index_def remaining_def)
  then obtain im' where im': "fst (shelf w') = objs" "vault_rep P C v S im' m (shelf w')"
    "indexed_ok P v S bound (map_of objs) im'" "case res of Ok rb' \<Rightarrow> later_world w w' \<and>
      (\<not> noisy w \<longrightarrow> im' = fold (reindex P v (map_of objs)) ?es im \<and> rb' = fold (tally (map_of objs)) ?es rebuilt_default)
    | Err _ \<Rightarrow> noisy w"
    unfolding rebuilds_def by blast
  have m: "fold (reindex P v (map_of objs)) ?es im = rebuilt_map P v S (map_of objs) im"
    by (rule ext) (simp add: fold_reindex [OF es(1)] es(2) rebuilt_map_def)
  note c = count_entries [OF es]
  have start: "rebuilt_default = counted 0 0" by (simp add: rebuilt_default_def counted_def)
  have f: "fold (tally (map_of objs)) ?es rebuilt_default =
      counted (card {p \<in> S. \<exists>k. name_target P v (map_of objs) p = Some k \<and> map_of objs k \<noteq> None})
        (card {p \<in> S. \<exists>k. name_target P v (map_of objs) p = Some k \<and> map_of objs k = None})"
    using fold_tally [of "map_of objs" ?es 0 0] unfolding c add_0 start .
  have "case res of Ok rb \<Rightarrow> later_world w w' \<and> (\<not> noisy w \<longrightarrow> im' = rebuilt_map P v S (map_of objs) im \<and>
        rb = counted (card {p \<in> S. \<exists>k. name_target P v (map_of objs) p = Some k \<and> map_of objs k \<noteq> None})
          (card {p \<in> S. \<exists>k. name_target P v (map_of objs) p = Some k \<and> map_of objs k = None}))
     | Err _ \<Rightarrow> noisy w"
    using im'(4) unfolding m f .
  with im'(1-3) show thesis by (rule that)
qed

end
