(* ===== verification/Vault_Runs.thy ===== *)
theory Vault_Runs
  imports Vault_Update
begin

text \<open>
  The life of a vault: files are stored and deleted, requests fail before or after they take effect, and
  between two operations the failures to come, the sizes of pages and the random bytes are whatever they
  are. What an operation was asked and what it answered is a history, and the history alone says which
  contents a file can have.
\<close>

section \<open>Histories\<close>

text \<open>The most recent event is the first of the list.\<close>

datatype vault_event =
    Stored str bytes bool \<comment> \<open>the path, the content, and whether storing it succeeded\<close>
  | Removed str "core_error + bool"

fun possible :: "vault_event list \<Rightarrow> str \<Rightarrow> bytes option set" where
  "possible [] p = {None}"
| "possible (Stored q pt ok # h) p =
     (if p \<noteq> q then possible h p
      else if ok then {Some pt} else insert (Some pt) (possible h p))"
| "possible (Removed q res # h) p =
     (if p \<noteq> q then possible h p
      else case res of Ok True \<Rightarrow> {None} | Ok False \<Rightarrow> possible h p | Err _ \<Rightarrow> insert None (possible h p))"

text \<open>
  A file is stored under a drawn identity that nothing in the vault uses yet, and the counters of the
  index have room for it.
\<close>

definition can_store ::
  "prims \<Rightarrow> postcard \<Rightarrow> vault \<Rightarrow> str set \<Rightarrow> u64 option \<Rightarrow> str \<Rightarrow> bytes \<Rightarrow> world \<Rightarrow> bool" where
  "can_store P C v S mtime p data w \<longleftrightarrow> 2 ^ 19 + 17 * length data \<le> U64_MAX \<and>
     (\<forall>im m. vault_rep P C v S im m (shelf w) \<longrightarrow>
       (\<forall>obj g. seal P (v_root_key v) data (with_mtime mtime (metadata_new p)) (v_chunk_size v)
           (c_rng (w_index w)) = Ok (obj, g) \<longrightarrow>
         \<not> in_use P v S im (map_of (w_objects w)) (object_key_for P (seg 52 68 obj))) \<and>
       (\<forall>k. fits (im(p \<mapsto> \<lparr>ir_path = p, ir_object_key = k, ir_size = of_nat (length data),
         ir_modified_unix = mtime, ir_content_hash = blake3_hash P data\<rparr>))))"

inductive vault_run :: "prims \<Rightarrow> postcard \<Rightarrow> vault \<Rightarrow> str set \<Rightarrow> vault_event list \<Rightarrow> world \<Rightarrow> bool"
  for P C v S where
  fresh: "vault_rep P C v S Map.empty Map.empty (shelf w) \<Longrightarrow> vault_run P C v S [] w"
| weather: "vault_run P C v S h w \<Longrightarrow> shelf w' = shelf w \<Longrightarrow> vault_run P C v S h w'"
| stored: "vault_run P C v S h w \<Longrightarrow> Paths.normalize P raw = Ok p \<Longrightarrow> p \<in> S \<Longrightarrow>
    can_store P C v S (resolve now_unix modified) p data w \<Longrightarrow>
    put_file P C v now_unix raw data modified w = (res, w') \<Longrightarrow>
    vault_run P C v S (Stored p data (res = Ok ()) # h) w'"
| removed: "vault_run P C v S h w \<Longrightarrow> Paths.normalize P raw = Ok p \<Longrightarrow> p \<in> S \<Longrightarrow>
    delete_file P C v raw w = (res, w') \<Longrightarrow> vault_run P C v S (Removed p res # h) w'"

section \<open>What is kept\<close>

text \<open>However the requests failed, the vault represents a map that the history explains.\<close>

definition explained ::
  "prims \<Rightarrow> postcard \<Rightarrow> vault \<Rightarrow> str set \<Rightarrow> vault_event list \<Rightarrow> shelf \<Rightarrow> bool" where
  "explained P C v S h d \<longleftrightarrow> (\<exists>im m. vault_rep P C v S im m d \<and> (\<forall>p \<in> S. m p \<in> possible h p))"

lemma explainedI:
  assumes "vault_rep P C v S im m d" "\<And>q. q \<in> S \<Longrightarrow> m q \<in> possible h q"
  shows "explained P C v S h d"
  using assms unfolding explained_def by blast

lemma stored_explained:
  assumes env: "vault_env P C v S" and h: "explained P C v S h (shelf w)"
    and p: "Paths.normalize P raw = Ok p" "p \<in> S"
    and can: "can_store P C v S (resolve now_unix modified) p data w"
    and run: "put_file P C v now_unix raw data modified w = (res, w')"
  shows "explained P C v S (Stored p data (res = Ok ()) # h) (shelf w')"
proof -
  obtain im m where m: "vault_rep P C v S im m (shelf w)" "\<forall>q \<in> S. m q \<in> possible h q"
    using h unfolding explained_def by blast
  have data: "2 ^ 19 + 17 * length data \<le> U64_MAX" using can by (simp add: can_store_def)
  have "case res of Ok _ \<Rightarrow> put_done P C v S im m p data (shelf w')
    | Err _ \<Rightarrow> put_left P C v S m p data (shelf w') \<and> noisy w"
    by (rule put_file_spec [OF env m(1) p data _ _ run]) (use can m(1) in \<open>auto simp: can_store_def\<close>)
  then show ?thesis
  proof (cases res)
    case (Inl e)
    with \<open>case res of Ok _ \<Rightarrow> _ | Err _ \<Rightarrow> _\<close> obtain im' m' where
      m': "vault_rep P C v S im' m' (shelf w')" "m' = m \<or> m' = m(p \<mapsto> data)"
      by (auto simp: put_left_def)
    show ?thesis
    proof (rule explainedI [OF m'(1)])
      fix q assume "q \<in> S"
      with m(2) m'(2) Inl show "m' q \<in> possible (Stored p data (res = Ok ()) # h) q"
        by (cases "q = p") auto
    qed
  next
    case (Inr x)
    with \<open>case res of Ok _ \<Rightarrow> _ | Err _ \<Rightarrow> _\<close> obtain im' where
      m': "vault_rep P C v S im' (m(p \<mapsto> data)) (shelf w')"
      by (auto simp: put_done_def)
    show ?thesis
    proof (rule explainedI [OF m'])
      fix q assume "q \<in> S"
      with m(2) Inr show "(m(p \<mapsto> data)) q \<in> possible (Stored p data (res = Ok ()) # h) q"
        by (cases "q = p") auto
    qed
  qed
qed

lemma removed_explained:
  assumes env: "vault_env P C v S" and h: "explained P C v S h (shelf w)"
    and p: "Paths.normalize P raw = Ok p" "p \<in> S" and run: "delete_file P C v raw w = (res, w')"
  shows "explained P C v S (Removed p res # h) (shelf w')"
proof -
  obtain im m where m: "vault_rep P C v S im m (shelf w)" "\<forall>q \<in> S. m q \<in> possible h q"
    using h unfolding explained_def by blast
  note out = delete_file_spec [OF env m(1) p run]
  have "\<exists>im' m'. vault_rep P C v S im' m' (shelf w') \<and>
    (\<forall>q \<in> S. m' q \<in> possible (Removed p res # h) q)"
  proof (cases res)
    case (Inl e)
    with out obtain im' m' where m': "vault_rep P C v S im' m' (shelf w')" "m' = m \<or> m' = m(p := None)"
      by (auto simp: delete_left_def)
    have "m' q \<in> possible (Removed p res # h) q" if "q \<in> S" for q
      using that m(2) m'(2) Inl by (cases "q = p") auto
    with m'(1) show ?thesis by blast
  next
    case (Inr found)
    show ?thesis
    proof (cases found)
      case True
      have "(m(p := None)) q \<in> possible (Removed p res # h) q" if "q \<in> S" for q
        using that m(2) Inr True by (cases "q = p") auto
      moreover have "vault_rep P C v S (im(p := None)) (m(p := None)) (shelf w')"
        using out Inr True by simp
      ultimately show ?thesis by blast
    next
      case False
      have "m q \<in> possible (Removed p res # h) q" if "q \<in> S" for q
        using that m(2) Inr False by (cases "q = p") auto
      moreover have "vault_rep P C v S im m (shelf w')" using out Inr False m(1) by simp
      ultimately show ?thesis by blast
    qed
  qed
  then show ?thesis unfolding explained_def .
qed

theorem run_explained:
  assumes env: "vault_env P C v S" and run: "vault_run P C v S h w"
  shows "explained P C v S h (shelf w)"
  using run
proof induction
  case (fresh w)
  then show ?case by (rule explainedI) simp
next
  case (weather h w w')
  then show ?case by simp
next
  case (stored h w raw p now_unix modified data res w')
  then show ?case by (intro stored_explained [OF env])
next
  case (removed h w raw p res w')
  then show ?case by (intro removed_explained [OF env])
qed

lemma run_holds:
  assumes "vault_env P C v S" "vault_run P C v S h w" "possible h p = {Some x}" "p \<in> S" "shelf w = (objs, db)"
  obtains im m where "vault_rep P C v S im m (objs, db)" "m p = Some x"
  using run_explained [OF assms(1,2)] assms(3-5) unfolding explained_def by fastforce

section \<open>What is read\<close>

theorem run_reads:
  assumes env: "vault_env P C v S" and run: "vault_run P C v S h w"
    and p: "Paths.normalize P raw = Ok p" "p \<in> S" and get: "get_file P C v raw w = (res, w')"
  shows "case res of Ok x \<Rightarrow> Some x \<in> possible h p \<and> vault_run P C v S h w'
    | Err _ \<Rightarrow> (None \<in> possible h p \<or> noisy w) \<and> vault_run P C v S h w'"
proof -
  obtain objs db where w: "shelf w = (objs, db)" by fastforce
  obtain im m where m: "vault_rep P C v S im m (objs, db)" "\<forall>q \<in> S. m q \<in> possible h q"
    using run_explained [OF env run] w unfolding explained_def by auto
  have keep: "shelf w' = shelf w \<Longrightarrow> vault_run P C v S h w'" by (rule vault_run.weather [OF run])
  show ?thesis
  proof (cases "m p")
    case None
    note absent = get_file_absent [OF env m(1) p None]
    show ?thesis
    proof (cases res)
      case (Inl e)
      with lax_Err [OF absent w] get m(2) p(2) None w keep show ?thesis by fastforce
    next
      case (Inr x)
      with lax_Ok [OF absent w] get show ?thesis by fastforce
    qed
  next
    case (Some pt)
    note found = get_file_exact [OF env m(1) p Some]
    show ?thesis
    proof (cases res)
      case (Inl e)
      with vspec_Err [OF found w] get w keep show ?thesis by fastforce
    next
      case (Inr x)
      with vspec_Ok [OF found w] get m(2) p(2) Some w keep show ?thesis by fastforce
    qed
  qed
qed

end
