(* ===== verification/Samples.thy ===== *)
theory Samples
  imports Vault_Restore_Correct Vault_Runs Vault_Keys_Correct Object_Range
begin

text \<open>
  Concrete inputs: a key, metadata, an encoding for the rows of the index, three paths, and a vault, on
  which the properties are applied. The primitives are the toy instance of \<open>Primitives\<close>.
\<close>

section \<open>Objects\<close>

definition sample_key :: bytes where
  "sample_key = replicate 32 7"

definition sample_meta :: metadata where
  "sample_meta = metadata_new (lit ''docs/a.txt'')"

lemma sample_valid:
  "valid_metadata (recorded toy_prims pt sample_meta)" "length sample_key = 32"
  by (simp_all add: sample_meta_def sample_key_def metadata_new_def recorded_def
      valid_metadata_def is_tombstone_def utf8_valid_ascii ascii_def toy_prims_def)

section \<open>The index\<close>

definition toy_record :: "str \<Rightarrow> index_record" where
  "toy_record p = \<lparr>ir_path = p, ir_object_key = replicate 18 0, ir_size = 3, ir_modified_unix = None,
     ir_content_hash = replicate 32 0\<rparr>"

text \<open>
  An encoding of the records: the fields of fixed width, the time after a byte that says whether there is
  one, the hash after its length, and the path.
\<close>

definition toy_postcard :: postcard where
  "toy_postcard = \<lparr>
     record_to_bytes = (\<lambda>r. if length (ir_object_key r) = 18 \<and> length (ir_content_hash r) \<le> 32
       then Some (ir_object_key r @ u64_le (ir_size r)
         @ (case ir_modified_unix r of None \<Rightarrow> 0 # u64_le 0 | Some t \<Rightarrow> 1 # u64_le t)
         @ of_nat (length (ir_content_hash r)) # ir_content_hash r @ ir_path r)
       else None),
     record_from_bytes = (\<lambda>b. Some \<lparr>ir_path = drop (36 + unat (b ! 35)) b, ir_object_key = seg 0 18 b,
       ir_size = u64_from_le (seg 18 26 b),
       ir_modified_unix = (if b ! 26 = 0 then None else Some (u64_from_le (seg 27 35 b))),
       ir_content_hash = seg 36 (36 + unat (b ! 35)) b\<rparr>),
     totals_to_bytes = (\<lambda>t. Some (u64_le (tot_objects t) @ u64_le (tot_bytes t) @ u64_le (tot_unmeasured t))),
     totals_from_bytes = (\<lambda>b. Some \<lparr>tot_objects = u64_from_le (seg 0 8 b),
       tot_bytes = u64_from_le (seg 8 16 b), tot_unmeasured = u64_from_le (seg 16 24 b)\<rparr>)\<rparr>"

lemma toy_record_bytes:
  assumes "length (ir_object_key r) = 18" "length (ir_content_hash r) \<le> 32" "length (ir_path r) < 2 ^ 16"
  shows "record_ok toy_postcard r"
proof -
  obtain p k n t h where r: "r = \<lparr>ir_path = p, ir_object_key = k, ir_size = n, ir_modified_unix = t, ir_content_hash = h\<rparr>"
    by (cases r) auto
  have k: "length k = 18" "length h \<le> 32" "length p < 2 ^ 16" using assms by (simp_all add: r)
  have "unat (of_nat (length h) :: 8 word) = length h" using k(2) by (simp add: unat_of_nat)
  note k = k this
  show ?thesis
    by (cases t) (use k in \<open>simp_all add: record_ok_def toy_postcard_def r seg_def nth_append drop_Cons'\<close>)
qed

definition toy_keys :: index_keys where
  "toy_keys = \<lparr>keying_key = sample_key, enc_key = sample_key\<rparr>"

definition toy_paths :: "str set" where
  "toy_paths = {[], lit ''d'', lit ''d/a''}"

lemma toy_env: "env_ok toy_prims toy_postcard toy_keys toy_paths"
proof -
  have "totals_ok toy_postcard"
    by (simp add: totals_ok_def toy_postcard_def seg_def)
  moreover have "inj_on (index_key toy_prims k) toy_paths" for k
    by (rule inj_on_inverseI [of _ "takeWhile (\<lambda>b. b \<noteq> 0)"])
      (auto simp: toy_paths_def index_key_def toy_prims_def pad_def takeWhile_replicate)
  then have "paths_ok toy_prims toy_keys toy_paths"
    by (auto simp: paths_ok_def toy_paths_def parent_of_def rfind_byte_def utf8_valid_ascii ascii_def)
  ultimately show ?thesis
    by (simp add: env_ok_def toy_keys_def sample_valid)
qed

definition toy_conn :: conn where
  "toy_conn = \<lparr>c_db = fresh_db, c_rng = (\<lambda>_. 0), c_faults = (\<lambda>_. False)\<rparr>"

lemma toy_runs:
  assumes "spec f (c_db c) Q" "\<forall>n. \<not> c_faults c n"
  obtains x c' where "f c = (Ok x, c')" "Q x (c_db c')" "\<forall>n. \<not> c_faults c' n"
  using assms spec_Ok [OF assms(1) refl] spec_Err [OF assms(1) refl]
  by (metis (no_types, lifting) later_def prod.exhaust sum.exhaust)

lemma toy_paths_short: "p \<in> toy_paths \<Longrightarrow> length p < 2 ^ 16"
  by (auto simp: toy_paths_def)

lemma toy_record_ok: "p \<in> toy_paths \<Longrightarrow> record_ok toy_postcard (toy_record p)"
  using toy_paths_short by (intro toy_record_bytes) (simp_all add: toy_record_def)

lemma toy_fits: "fits [p \<mapsto> toy_record p]"
  by (simp add: fits_def measured_sum_def ir_unmeasured_def toy_record_def U64_MAX_def)

lemma toy_opened:
  obtains c where "index_reachable toy_prims toy_postcard toy_keys toy_paths Map.empty c"
    "\<forall>n. \<not> c_faults c n" "index_rep toy_prims toy_postcard toy_keys toy_paths Map.empty (c_db c)"
proof (rule toy_runs [of "migrate toy_prims toy_postcard toy_keys" toy_conn])
  show "spec (migrate toy_prims toy_postcard toy_keys) (c_db toy_conn)
      (\<lambda>_. index_rep toy_prims toy_postcard toy_keys toy_paths Map.empty)"
    using migrate_refines [OF toy_env fresh_old_rep fits_empty] by (simp add: toy_conn_def)
next
  fix x c'
  assume "migrate toy_prims toy_postcard toy_keys toy_conn = (Ok x, c')" "\<forall>n. \<not> c_faults c' n"
    "index_rep toy_prims toy_postcard toy_keys toy_paths Map.empty (c_db c')"
  then show thesis
    using that index_reachable.opened [of toy_conn toy_prims toy_postcard toy_keys c' toy_paths]
    by (simp add: toy_conn_def)
qed (simp add: toy_conn_def)

section \<open>A vault\<close>

lemma toy_third_party: "prims_ok toy_prims" "argon_ok toy_prims" "bip39_ok toy_prims" "totals_ok toy_postcard"
proof -
  show "prims_ok toy_prims" by (simp add: prims_ok_def)
  show "argon_ok toy_prims" "bip39_ok toy_prims"
    by (simp_all add: argon_ok_def bip39_ok_def toy_prims_def)
  show "totals_ok toy_postcard"
    by (simp add: totals_ok_def toy_postcard_def seg_def)
qed

lemma toy_index_keys: "paths_ok toy_prims K toy_paths"
proof -
  have "inj_on (index_key toy_prims k) toy_paths" for k
    by (rule inj_on_inverseI [of _ "takeWhile (\<lambda>b. b \<noteq> 0)"])
      (auto simp: toy_paths_def index_key_def toy_prims_def pad_def takeWhile_replicate)
  then show ?thesis
    by (auto simp: paths_ok_def toy_paths_def parent_of_def rfind_byte_def utf8_valid_ascii ascii_def)
qed

lemma toy_record_keys: "inj_on (record_key toy_prims k) toy_paths"
  by (rule inj_on_inverseI [of _ "\<lambda>k. takeWhile (\<lambda>b. b \<noteq> 0) (drop 2 k)"])
    (auto simp: toy_paths_def record_key_def NAME_KEY_PREFIX_def toy_prims_def pad_def takeWhile_replicate)

lemma toy_vault_env:
  assumes "derived toy_prims rk vid v" "length rk = 32"
  shows "vault_env toy_prims toy_postcard v toy_paths"
proof -
  have "hkdf_ok toy_prims" by simp
  note len = derived_lengths [OF assms(1) this]
  have "record_ok toy_postcard \<lparr>ir_path = p, ir_object_key = object_key_for toy_prims f, ir_size = n,
      ir_modified_unix = t, ir_content_hash = h\<rparr>" if "p \<in> toy_paths" "length f = 16" "length h \<le> 32" for p f n t h
    using that toy_paths_short
    by (intro toy_record_bytes) (simp_all add: object_key_for_def OBJECT_KEY_PREFIX_def toy_prims_def)
  with len assms toy_index_keys toy_record_keys toy_paths_short show ?thesis
    by (auto simp: vault_env_def env_ok_def derived_def toy_third_party)
qed

definition toy_world :: world where
  "toy_world = \<lparr>w_objects = [], w_faults = (\<lambda>_. None), w_pages = (\<lambda>_. 0), w_index = toy_conn\<rparr>"

lemma toy_world: "shelf toy_world = ([], fresh_db)" "\<not> noisy toy_world"
  by (simp_all add: shelf_def noisy_def toy_world_def toy_conn_def)

lemma toy_init:
  obtains nv w where "init toy_prims toy_postcard None (lit ''pw'') toy_world = (Ok nv, w)" "\<not> noisy w"
    "init_done toy_prims toy_postcard (lit ''pw'') [] nv (shelf w)"
proof (rule vspec_quiet [OF _ toy_world(2)])
  show "vspec (init toy_prims toy_postcard None (lit ''pw'')) (shelf toy_world)
      (init_done toy_prims toy_postcard (lit ''pw'') []) (init_left [])"
    unfolding init_def toy_world(1)
    by (rule init_spec [OF toy_third_party shipped_cost_ok]) (simp add: toy_prims_def)
qed (rule that)

lemma toy_vault:
  obtains v w bs where "vault_env toy_prims toy_postcard v toy_paths"
    "vault_run toy_prims toy_postcard v toy_paths [] w" "\<not> noisy w" "w_objects w = [(ENVELOPE_OBJECT_KEY, bs)]"
    "vault_rep toy_prims toy_postcard v toy_paths Map.empty Map.empty (shelf w)"
proof (rule toy_init)
  fix nv w assume nv: "\<not> noisy w" "init_done toy_prims toy_postcard (lit ''pw'') [] nv (shelf w)"
  note rep = init_empty [OF nv(2) toy_index_keys]
  from nv(2) obtain bs where "w_objects w = [(ENVELOPE_OBJECT_KEY, bs)]"
    by (auto simp: init_done_def shelf_def)
  moreover have "vault_env toy_prims toy_postcard (nv_vault nv) toy_paths"
    using nv(2) by (intro toy_vault_env) (auto simp: init_done_def)
  ultimately show thesis
    using that [OF _ vault_run.fresh [OF rep] nv(1) _ rep] by blast
qed

text \<open>A connection on which no statement fails, to read a database with.\<close>

lemma index_rep_unique:
  assumes env: "env_ok P C K S" and rep: "index_rep P C K S m db" "index_rep P C K S m' db"
  shows "m = m'"
proof
  fix p
  define c where "c = \<lparr>c_db = db, c_rng = (\<lambda>_. 0), c_faults = (\<lambda>_. False)\<rparr>"
  have c: "c_db c = db" "\<forall>n. \<not> c_faults c n" by (simp_all add: c_def)
  show "m p = m' p"
  proof (cases "p \<in> S")
    case True
    obtain x c' where run: "get P C K p c = (Ok x, c')"
      by (rule toy_runs [OF get_refines [OF env rep(1) True, folded c(1)] c(2)])
    from spec_Ok [OF get_refines [OF env rep(1) True] c(1) run] spec_Ok [OF get_refines [OF env rep(2) True] c(1) run]
    show ?thesis by simp
  next
    case False
    have "map_ok S m" "map_ok S m'" using rep by (simp_all add: index_rep_def)
    with False show ?thesis unfolding map_ok_def by (metis not_None_eq)
  qed
qed

lemma toy_can_store:
  assumes env: "vault_env toy_prims toy_postcard v toy_paths" and objs: "w_objects w = [(ENVELOPE_OBJECT_KEY, bs)]"
    and rep: "vault_rep toy_prims toy_postcard v toy_paths Map.empty Map.empty (shelf w)"
    and data: "length data \<le> 3"
  shows "can_store toy_prims toy_postcard v toy_paths t p data w"
  unfolding can_store_def
proof (intro conjI allI impI)
  show "2 ^ 19 + 17 * length data \<le> U64_MAX" using data by (simp add: U64_MAX_def)
next
  fix im m obj g
  assume "vault_rep toy_prims toy_postcard v toy_paths im m (shelf w)"
  then have im: "im = Map.empty"
    using index_rep_unique [OF vault_envD(1) [OF env]] rep by (auto simp: vault_rep_def)
  show "\<not> in_use toy_prims v toy_paths im (map_of (w_objects w)) (object_key_for toy_prims (seg 52 68 obj))"
    by (simp add: in_use_def im objs name_target_def)
next
  fix im m k
  assume "vault_rep toy_prims toy_postcard v toy_paths im m (shelf w)"
  then have im: "im = Map.empty"
    using index_rep_unique [OF vault_envD(1) [OF env]] rep by (auto simp: vault_rep_def)
  have one: "card {q. q = p \<and> A q} \<le> 1" for A
    using card_mono [of "{p}" "{q. q = p \<and> A q}"] by auto
  have "card {q. q = p \<and> A q} * length data \<le> 3" for A
    using mult_le_mono [OF one data, of A] by simp
  then have "card {q. q = p \<and> A q} * length data \<le> U64_MAX" for A
    by (rule order_trans) (simp add: U64_MAX_def)
  then show "fits (im(p \<mapsto> \<lparr>ir_path = p, ir_object_key = k, ir_size = of_nat (length data), ir_modified_unix = t,
      ir_content_hash = blake3_hash toy_prims data\<rparr>))"
    using data by (simp add: fits_def measured_sum_def im ir_unmeasured_def U64_MAX_def unat_of_nat)
qed

lemma toy_path: "Paths.normalize toy_prims (lit ''d/a'') = Ok (lit ''d/a'')" "lit ''d/a'' \<in> toy_paths"
  "Paths.normalize toy_prims (lit ''d'') = Ok (lit ''d'')" "lit ''d'' \<in> toy_paths"
proof -
  have "chars (lit ''d/a'') = map unat (lit ''d/a'')" "chars (lit ''d'') = map unat (lit ''d'')"
    by (rule chars_ascii, simp add: ascii_def)+
  then have "valid_path toy_prims (lit ''d/a'')" "valid_path toy_prims (lit ''d'')"
    by (simp_all add: valid_path_def proper_segment_def allowed_char_def is_banned_control_def
        is_noncharacter_def drive_prefix_def toy_prims_def)
  then show "Paths.normalize toy_prims (lit ''d/a'') = Ok (lit ''d/a'')"
    "Paths.normalize toy_prims (lit ''d'') = Ok (lit ''d'')"
    unfolding Paths.normalize_Ok_iff by (simp_all add: toy_prims_def)
qed (simp_all add: toy_paths_def)

lemma toy_stored:
  obtains v w where "vault_env toy_prims toy_postcard v toy_paths" "\<not> noisy w"
    "vault_run toy_prims toy_postcard v toy_paths [Stored (lit ''d/a'') [1, 2, 3] True] w"
proof (rule toy_vault)
  fix v w bs
  assume v: "vault_env toy_prims toy_postcard v toy_paths" "vault_run toy_prims toy_postcard v toy_paths [] w"
    "\<not> noisy w" "w_objects w = [(ENVELOPE_OBJECT_KEY, bs)]"
    "vault_rep toy_prims toy_postcard v toy_paths Map.empty Map.empty (shelf w)"
  have can: "can_store toy_prims toy_postcard v toy_paths (resolve None Now) (lit ''d/a'') [1, 2, 3] w"
    by (rule toy_can_store [OF v(1,4,5)]) simp
  obtain res w1 where run: "put_file toy_prims toy_postcard v None (lit ''d/a'') [1, 2, 3] Now w = (res, w1)"
    by fastforce
  have "case res of Ok _ \<Rightarrow> put_done toy_prims toy_postcard v toy_paths Map.empty Map.empty (lit ''d/a'') [1, 2, 3] (shelf w1)
    | Err _ \<Rightarrow> put_left toy_prims toy_postcard v toy_paths Map.empty (lit ''d/a'') [1, 2, 3] (shelf w1) \<and> noisy w"
    by (rule put_file_spec [OF v(1,5) toy_path(1,2) _ _ _ run]) (use can v(5) in \<open>auto simp: can_store_def\<close>)
  with v(3) have "res = Ok ()" by (cases res) simp_all
  define w2 where "w2 = w1\<lparr>w_faults := \<lambda>_. None, w_index := (w_index w1)\<lparr>c_faults := \<lambda>_. False\<rparr>\<rparr>"
  have "\<not> noisy w2" "shelf w2 = shelf w1" by (simp_all add: w2_def noisy_def shelf_def)
  then show thesis
    using that [OF v(1), of w2] vault_run.weather [OF vault_run.stored [OF v(2) toy_path(1,2) can run], of w2]
    by (simp only: \<open>res = Ok ()\<close> simp_thms)
qed

text \<open>A vault of which the index is lost: an object, the name record of it, and empty tables.\<close>

lemma toy_lost:
  obtains v w where "rebuildable toy_prims toy_postcard v toy_paths (\<lambda>_. 3) [lit ''d/a'' \<mapsto> [1, 2, 3]] (objects w)"
    "vault_rep toy_prims toy_postcard v toy_paths Map.empty [lit ''d/a'' \<mapsto> [1, 2, 3]] (shelf w)"
    "distinct (map fst (w_objects w))" "\<not> noisy w"
proof (rule toy_vault)
  fix v w bs
  let ?p = "lit ''d/a''" and ?data = "[1, 2, 3] :: bytes"
  assume env: "vault_env toy_prims toy_postcard v toy_paths"
    and w: "\<not> noisy w" "vault_rep toy_prims toy_postcard v toy_paths Map.empty Map.empty (shelf w)"
  define db where "db = c_db (w_index w)"
  have "index_rep toy_prims toy_postcard (v_index v) toy_paths Map.empty db"
    using w(2) by (simp add: vault_rep_def shelf_def db_def)
  then have rep0: "vault_rep toy_prims toy_postcard v toy_paths Map.empty Map.empty ([], db)"
    by (auto simp: vault_rep_def owned_def files_ok_def resolves_def name_target_def)
  have meta: "valid_metadata (recorded toy_prims ?data (metadata_new ?p))"
    using vault_env_path [OF env toy_path(2)] vault_envD(4) [OF env]
    by (auto simp: valid_metadata_def recorded_def metadata_new_def hashes_ok_def is_tombstone_def lit_def)
  obtain obj g where obj: "open_object toy_prims (v_root_key v) obj =
      Ok \<lparr>o_metadata = Some (recorded toy_prims ?data (metadata_new ?p)), o_plaintext = ?data\<rparr>"
    by (rule seal_total [OF vault_envD(2,4,6) [OF env] _ vault_envD(9,10) [OF env] meta]) (simp add: U64_MAX_def)
  then obtain h where h: "parse_head obj = Ok h" by (auto simp: open_object_def and_then_Ok_iff)
  note h' = head_file_id [OF h] opened_head(2) [OF obj h]
  define k where "k = object_key_for toy_prims (h_file_id h)"
  define objs where "objs = AList.update k obj []"
  have rep1: "vault_rep toy_prims toy_postcard v toy_paths Map.empty Map.empty (objs, db)"
    unfolding objs_def by (rule step_object [OF rep0 k_def]) (simp add: in_use_def name_target_def)
  have stored: "stores toy_prims v (map_of objs) k ?data"
    using obj h opened_length [OF vault_envD(2-4) [OF env] obj]
    by (auto simp: stores_def objs_def k_def recorded_def U64_MAX_def)
  obtain val r where val: "open_record toy_prims (v_name_keys v) (v_vault_id v) (record_key toy_prims (v_name_keys v) ?p) val =
      Ok \<lparr>nr_file_id = h_file_id h, nr_metadata_gen = 0, nr_path = ?p\<rparr>"
    by (rule open_seal_record [OF vault_envD(2,7) [OF env] vault_env_path [OF env toy_path(2)] h'(2)])
  let ?n = "record_key toy_prims (v_name_keys v) ?p"
  have rep2: "vault_rep toy_prims toy_postcard v toy_paths Map.empty [?p \<mapsto> ?data] (AList.update ?n val objs, db)"
    using step_name [OF rep1 env toy_path(2) val _ stored] by (simp add: k_def objs_def name_target_def)
  define w' where "w' = w\<lparr>w_objects := AList.update ?n val objs\<rparr>"
  have w': "shelf w' = (AList.update ?n val objs, db)" "\<not> noisy w'"
    using w(1) by (simp_all add: w'_def shelf_def noisy_def db_def)
  have names: "nr_path nr \<in> toy_paths" if "objects w' key = Some x"
    "open_record toy_prims (v_name_keys v) (v_vault_id v) key x = Ok nr" for key x nr
    using that open_record_key(1) [OF that(2)] val toy_path(2)
    by (auto simp: w'_def objs_def update_conv' k_def split: if_splits)
  have "rebuildable toy_prims toy_postcard v toy_paths (\<lambda>_. 3) [?p \<mapsto> ?data] (objects w')"
    using env names by (auto simp: rebuildable_def toy_paths_def U64_MAX_def)
  then show thesis
    by (rule that) (use w' rep2 in \<open>simp_all add: w'_def objs_def k_def\<close>)
qed

end
