(* ===== verification/Spec2Isabelle.thy ===== *)
theory Spec2Isabelle
  imports Path_Filter_Correct Transfer_Engine_Correct
    Paths Envelope Object_Stream Object_Range Object_Recipient Sidecar Discovery Imported_Key
    Retry Samples
begin

text \<open>
  DCTL keeps encrypted files in untrusted storage. This development models its core, in the order the code
  is built up, and proves what makes it correct. Third-party code (the cipher, the hashes, X25519, ML-KEM,
  Argon2, BIP-39, Unicode normalization, the postcard encoding) is an argument of the definitions: the
  records \<open>prims\<close> of \<open>Primitives\<close> and \<open>postcard\<close> of \<open>Index\<close>, with what is relied on as named predicates
  (\<open>cipher_ok\<close>, \<open>hkdf_ok\<close>, \<open>argon_ok\<close>, ...), for each of which \<open>toy_prims\<close> is an instance.

  \<^bold>\<open>The format\<close>, \<open>dctl-crypto\<close>. \<open>Prelude\<close> has the errors as values, the words as little-endian bytes, slices
  that panic out of range, state and error passing, and two locales for formats, which \<open>Envelope\<close>, \<open>Kem\<close>,
  \<open>Object_Head\<close> and \<open>Object_Meta\<close> interpret. \<open>Format_Constants\<close> is \<open>constants.rs\<close>; \<open>Primitives\<close> is \<open>aead\<close>,
  \<open>keys\<close> and \<open>rng.rs\<close>; \<open>Utf8\<close> is the check of \<open>str\<close>; \<open>Paths\<close> is \<open>path.rs\<close>; \<open>Envelope\<close> is
  \<open>envelope\<close>; \<open>Kdf\<close> is \<open>kdf\<close>; \<open>Names\<close> is \<open>names.rs\<close>; \<open>Object_Head\<close>, \<open>Object_Meta\<close>, \<open>Object_Seal\<close>,
  \<open>Object_Stream\<close>, \<open>Object_Range\<close> and \<open>Object_Recipient\<close> are \<open>object\<close>; \<open>Kem\<close>, \<open>Sidecar\<close>, \<open>Discovery\<close> and
  \<open>Imported_Key\<close> are \<open>kem\<close>. Their lemmas show round trips and that nothing else parses, equivalence of the
  streaming and the one-shot operations, and that only what was sealed opens.

  \<^bold>\<open>The index\<close>, \<open>dctl-index\<close>. \<open>Index_Keying\<close> is \<open>keying.rs\<close> and \<open>record.rs\<close>, \<open>Index\<close> is \<open>index.rs\<close> over lists
  of rows, with a tape that says which statements fail. \<open>Index_Refinement\<close> relates a database to a map from
  paths to records and proves that every operation refines its counterpart on maps; \<open>Index_Runs\<close> has the
  reachable databases.

  \<^bold>\<open>The store\<close>, \<open>dctl-store\<close>. \<open>Errors\<close> is \<open>error.rs\<close> of all crates. \<open>Retry\<close> is \<open>retry\<close> with the deadline and the
  stall counter of \<open>deadline\<close>: the clock and the entropy are tapes, a duration is its nanoseconds. \<open>Store\<close> is the
  contract of the operations of the \<open>Backend\<close> trait over a map from keys to bytes; a tape says which calls
  fail, and whether such a call took effect, as a request does of which the answer is lost. \<open>Store_Logic\<close> is a
  calculus for the programs on it: what they leave on success and on failure, and that they fail only when
  a request or a statement did.

  \<^bold>\<open>The vault\<close>, \<open>dctl-core\<close>. \<open>Range_Reader\<close> is \<open>range.rs\<close> and the loop of \<open>read_stream.rs\<close>; \<open>Vault\<close> is \<open>mod.rs\<close>,
  \<open>get.rs\<close>, \<open>put.rs\<close>, \<open>list.rs\<close>, \<open>chunking.rs\<close> and \<open>modified.rs\<close>; \<open>Vault_Keys\<close> is \<open>init.rs\<close>, \<open>unlock.rs\<close>,
  \<open>rekey.rs\<close> and \<open>imported.rs\<close>. The specification of a vault is a map from paths to contents:
  \<open>vault_rep\<close> of \<open>Vault_Correct\<close> relates it to the objects and the index. \<open>Reader_Correct\<close>, \<open>Vault_Correct\<close> and
  \<open>Vault_Update\<close> prove that reading, storing and deleting refine it, with a failure at any request;
  \<open>Vault_Runs\<close> composes them into histories, and \<open>Vault_Keys_Correct\<close> has the theorems about keys, from
  a fresh database to the empty vault. \<open>Samples\<close> has the concrete inputs of the witnesses.

  \<open>Vault_Restore\<close> is \<open>restore.rs\<close>, the rebuilding of a lost index, and \<open>Vault_Restore_Correct\<close> its correctness.

  \<^bold>\<open>The command line\<close>, \<open>dctl-cli\<close>. \<open>Glob\<close> is \<open>filter/glob.rs\<close>, the parser of patterns and the machine they are
  compiled to; \<open>Glob_Correct\<close> proves that it decides the language of the pattern. \<open>Logical_Path\<close> is
  \<open>platform/path.rs\<close>. \<open>Path_Filter\<close> is the rest of \<open>filter\<close>: rules, limits and the filter that the flags build, of
  which \<open>Path_Filter_Correct\<close> proves what it selects. \<open>Transfer_Plan\<close> is the part of \<open>commands/transfer\<close> that decides
  (\<open>entry.rs\<close>, \<open>compare.rs\<close>, \<open>plan.rs\<close>, \<open>immutable.rs\<close>) and \<open>Transfer_Plan_Correct\<close> what a plan leaves when it is
  performed. \<open>Transfer_Run\<close> is the part that acts (\<open>pipeline.rs\<close>, \<open>retry.rs\<close>, \<open>execute.rs\<close>, \<open>sync/execute.rs\<close> and
  \<open>limits/budget.rs\<close>), for any driver. Its contract with a driver is the locale \<open>transfer_sides\<close> of
  \<open>Transfer_Run_Correct\<close>, in which \<open>Transfer_Sync\<close> proves what a sync does; \<open>Transfer_Engine\<close> is the driver between
  two directories of \<open>engine.rs\<close>, over a file system in which a list of faults says which calls fail, and
  \<open>Transfer_Engine_Correct\<close> interprets the locale on it and has the theorems about \<open>sync\<close> and \<open>move\<close>.

  Termination. Loops of the code are recursions with a measure: the chunks left, the bytes a reader has left,
  the attempts a policy allows, the keys after the cursor of a listing, the characters left of a pattern, the
  states of a machine not seen yet. None needs fuel, except that a header is read in at most the three requests
  the code allows. Integers are words or naturals with the bound of \<open>u64\<close> written out; sizes that a \<open>u64\<close> cannot
  hold are excluded by hypotheses.

  Not modelled: logging; wiping and locking of memory; concurrency, as a vault is driven by one task at a time
  and other writers are not considered, and a transfer runs with one lane (only the budget is proved for
  several); the opening of the database file; the timing of \<open>kdf/calibrate.rs\<close>; sharing, sampled verification and
  transfers from and to files of the operating system (\<open>share.rs\<close>, \<open>verify_sample.rs\<close>, \<open>put_stream.rs\<close>); the
  providers behind the \<open>Backend\<close> trait; and of the command line the arguments, the other commands, the
  transfers to and from remotes, mounting, configuration and output.
\<close>

section \<open>Sealed objects\<close>

text \<open>
  C1. Sealing is total and opening inverts it: for every content and every metadata that a record
  can hold, at every legal chunk size, \<open>seal\<close> produces an object, and \<open>open\<close> under the same key
  gives back exactly the content and the metadata, with the size and hash of the content in it.
\<close>

theorem seal_open_roundtrip:
  assumes "cipher_ok P" "hashes_ok P" "length key = KEY_LEN" "length pt \<le> U64_MAX"
    and "cs \<noteq> 0" "cs \<le> MAX_CHUNK_SIZE" "valid_metadata (recorded P pt meta)"
  shows "\<exists>blob r'. seal P key pt meta cs r = Ok (blob, r') \<and>
    open_object P key blob = Ok \<lparr>o_metadata = Some (recorded P pt meta), o_plaintext = pt\<rparr>"
  using seal_total [of P key pt cs meta r] assms by (metis KEY_LEN_def)

lemma seal_open_roundtrip_witness:
  "\<exists>blob r'. seal toy_prims sample_key [1, 2, 3] sample_meta 2 (\<lambda>_. 0) = Ok (blob, r') \<and>
    open_object toy_prims sample_key blob =
      Ok \<lparr>o_metadata = Some (recorded toy_prims [1, 2, 3] sample_meta), o_plaintext = [1, 2, 3]\<rparr>"
  by (rule seal_open_roundtrip) (simp_all add: sample_valid U64_MAX_def)


lemma sample_object:
  obtains blob r' x where "seal toy_prims sample_key [1, 2, 3] sample_meta 2 (\<lambda>_. 0) = Ok (blob, r')"
    "open_object toy_prims sample_key blob = Ok x" "o_plaintext x = [1, 2, 3]"
  by (rule seal_total [of toy_prims sample_key "[1, 2, 3]" 2 sample_meta "\<lambda>_. 0"])
    (simp_all add: sample_valid U64_MAX_def that)

text \<open>
  C2. Only what was sealed opens: when the cipher accepts no ciphertext but its own, an object that
  opens under a key is, byte for byte, a sealing of the content it opens to. Its chunks are the
  content cut at the chunk size of the head, each sealed under the nonce and the additional data of
  its own index, so no chunk is missing, repeated, moved or taken from another object.
\<close>

theorem opened_was_sealed:
  assumes "cipher_tidy P" "open_object P key blob = Ok x"
  shows "\<exists>h dek w n m body. parse_head blob = Ok h \<and>
    length (o_plaintext x) = unat (h_plaintext_len h) \<and>
    header_opens P key (build_head h) h w n m dek (o_metadata x) \<and>
    seal_chunks P dek (h_base_nonce h) (build_head h) 0
      (chunks_of (unat (h_chunk_size h)) (o_plaintext x))
      (build_head h @ u16_le 0 @ header_bytes w n m) = Ok body \<and>
    blob = body @ footer_for P h body"
  using assms by (rule open_only_sealed)

lemma opened_was_sealed_witness:
  "\<exists>blob x h dek w n m body. open_object toy_prims sample_key blob = Ok x \<and>
    o_plaintext x = [1, 2, 3] \<and> parse_head blob = Ok h \<and>
    seal_chunks toy_prims dek (h_base_nonce h) (build_head h) 0
      (chunks_of (unat (h_chunk_size h)) (o_plaintext x))
      (build_head h @ u16_le 0 @ header_bytes w n m) = Ok body \<and>
    blob = body @ footer_for toy_prims h body"
proof -
  obtain blob r' x where blob: "open_object toy_prims sample_key blob = Ok x"
    "o_plaintext x = [1, 2, 3]"
    by (rule sample_object)
  from opened_was_sealed [OF toy_ok(2) blob(1)] blob show ?thesis by blast
qed

text \<open>
  C3. The two-pass sealer that never holds the content in memory writes, byte for byte, what the
  one-shot sealer returns: for a file that both passes read alike, in whatever pieces the reads come,
  the writer receives the object that \<open>seal\<close> makes from the same randomness, and it fails with the
  same error when \<open>seal\<close> does.
\<close>

theorem seal_stream_is_seal:
  assumes "serves (in_first input) pt" "in_rewound input = Some rd" "serves rd pt"
    and "length pt \<le> 2 ^ 59"
  shows "(case seal P key pt meta cs r of
      Ok (blob, r') \<Rightarrow>
        seal_stream P key input (length pt) meta cs append_writer r [] = (Ok r', blob)
    | Err e \<Rightarrow> fst (seal_stream P key input (length pt) meta cs append_writer r []) = Err e)"
  using assms by (rule seal_stream_eq)

lemma seal_stream_is_seal_witness:
  "\<exists>blob r'. seal toy_prims sample_key [1, 2, 3] sample_meta 2 (\<lambda>_. 0) = Ok (blob, r') \<and>
    seal_stream toy_prims sample_key
      \<lparr>in_first = [Some [1], Some [2, 3]], in_rewound = Some [Some [1, 2, 3]]\<rparr>
      3 sample_meta 2 append_writer (\<lambda>_. 0) [] = (Ok r', blob)"
proof -
  obtain blob r' x where "seal toy_prims sample_key [1, 2, 3] sample_meta 2 (\<lambda>_. 0) = Ok (blob, r')"
    by (rule sample_object)
  with seal_stream_is_seal [of "\<lparr>in_first = [Some [1], Some [2, 3]], in_rewound = Some [Some [1, 2, 3]]\<rparr>"
      "[1, 2, 3]" "[Some [1, 2, 3]]" toy_prims sample_key sample_meta 2 "\<lambda>_. 0"]
  show ?thesis by (auto simp: serves_Cons numeral_3_eq_3)
qed

text \<open>
  C4. The opener that reads an object front to back, holding one chunk at a time, accepts exactly
  the objects the in-memory opener accepts and writes the same content.
\<close>

theorem open_reader_is_open:
  assumes "hashes_ok P" "serves rd blob"
  shows "open_reader P key rd append_writer [] = (Ok md, out) \<longleftrightarrow>
    open_object P key blob = Ok \<lparr>o_metadata = md, o_plaintext = out\<rparr>"
  using assms by (rule open_reader_iff)

lemma open_reader_is_open_witness:
  "\<exists>blob md. open_object toy_prims sample_key blob
      = Ok \<lparr>o_metadata = md, o_plaintext = [1, 2, 3]\<rparr> \<and>
    open_reader toy_prims sample_key [Some blob] append_writer [] = (Ok md, [1, 2, 3])"
proof -
  obtain blob r' x where blob: "open_object toy_prims sample_key blob = Ok x"
    "o_plaintext x = [1, 2, 3]"
    by (rule sample_object)
  then have x: "open_object toy_prims sample_key blob
      = Ok \<lparr>o_metadata = o_metadata x, o_plaintext = [1, 2, 3]\<rparr>" by simp
  have "blob \<noteq> []"
    using blob(1) by (auto simp: open_object_def parse_head_def)
  then have "serves [Some blob] blob" by (simp add: serves_Cons)
  from open_reader_is_open [OF toy_ok(3) this] x show ?thesis by blast
qed



section \<open>Formats\<close>

text \<open>
  C6. The head of an object has one encoding: bytes parse to a head exactly when the head is legal
  and the bytes start with its image, which is 68 bytes long.
\<close>

theorem head_codec:
  "parse_head bs = Ok h \<longleftrightarrow> valid_head h \<and> (\<exists>rest. bs = build_head h @ rest)"
  by (rule head_format.parse_iff)

text \<open>
  C7. The metadata of an object has one encoding: bytes parse to a record exactly when the record is
  one that can be recorded and the bytes are its image, with nothing after it.
\<close>

theorem metadata_codec:
  "parse_metadata bs = Ok m \<longleftrightarrow> valid_metadata m \<and> build_metadata m = Ok bs"
  by (rule metadata_format.parse_iff)

text \<open>
  C8. The vault envelope has one encoding: bytes parse to an envelope of 1 to 64 slots exactly when
  they are its serialization, to the last byte.
\<close>

theorem envelope_codec:
  "parse bs = Ok e \<longleftrightarrow> valid_envelope e \<and> serialize e = Ok bs"
  by (rule envelope_format.parse_iff)

text \<open>
  C9. No input makes a parser of the core read out of range: the envelope parser, the head and
  metadata parsers and the opener return an error or a value on every byte string, and never panic.
\<close>

theorem parsers_never_panic:
  "no_panic (parse bs) \<and> no_panic (parse_head bs) \<and> no_panic (parse_metadata bs) \<and>
   no_panic (open_object P key bs)"
  by (intro conjI no_panic_parse no_panic_parse_head no_panic_parse_metadata no_panic_open_object)

text \<open>
  C10. Within an object no two seals share a nonce: the nonces of two chunks differ, and neither is
  the nonce of the metadata, which carries the other domain byte.
\<close>

theorem object_nonces_distinct:
  "(i \<noteq> j \<longrightarrow> chunk_nonce (fst (base_nonce r)) i \<noteq> chunk_nonce (fst (base_nonce r)) j) \<and>
   chunk_nonce (fst (base_nonce r)) i \<noteq> fst (metadata_nonce r')"
proof -
  have "chunk_nonce (fst (base_nonce r)) i ! 23 = 0"
    using chunk_nonce_tail [of 23 "fst (base_nonce r)" i] base_nonce_domain by simp
  then have "chunk_nonce (fst (base_nonce r)) i \<noteq> fst (metadata_nonce r')"
    using metadata_nonce_domain [of r'] by auto
  then show ?thesis
    using chunk_nonce_inj [of "fst (base_nonce r)" i j] by auto
qed

lemma object_nonces_distinct_witness:
  "chunk_nonce (fst (base_nonce (\<lambda>_. 0))) 0 \<noteq> chunk_nonce (fst (base_nonce (\<lambda>_. 0))) 1"
  using object_nonces_distinct [of 0 1 "\<lambda>_. 0"] by simp

section \<open>The vault key\<close>

text \<open>
  C11. A slot gives the root key back to the key that wrapped it and to no other: unwrapping after
  wrapping returns the root key, the slot can be written to an envelope, and a key with another
  commitment is refused before the cipher runs.
\<close>

theorem wrap_unwrap_slot:
  assumes "cipher_ok P" "hkdf_ok P" "length kek = KEY_LEN" "length root_key = KEY_LEN"
    and "length salt < 2 ^ 8" "length aux < 2 ^ 16"
  shows "\<exists>s r'. wrap_slot P kek root_key vid ty kdf m t p salt aux r = Ok (s, r') \<and> valid_slot s \<and>
    unwrap_slot P s kek vid = Ok root_key \<and>
    (\<forall>kek'. commitment P kek' \<noteq> commitment P kek \<longrightarrow> unwrap_slot P s kek' vid = Err Aead)"
proof -
  obtain s r' where s: "wrap_slot P kek root_key vid ty kdf m t p salt aux r = Ok (s, r')"
    "unwrap_slot P s kek vid = Ok root_key" "valid_slot s"
    by (rule unwrap_wrap_slot [of P kek root_key salt aux vid ty kdf m t p r]) (use assms in simp_all)
  have "commitment P kek = Ok (slot_commit s)"
    using s(2) by (auto simp: unwrap_slot_def and_then_Ok_iff)
  moreover have "unwrap_slot P s kek' vid = Err Aead" if "commitment P kek' \<noteq> Ok (slot_commit s)" for kek'
  proof -
    obtain c where "commitment P kek' = Ok c"
      by (rule commitment_ok [OF assms(2)])
    with that show ?thesis by (intro unwrap_slot_wrong_key) auto
  qed
  ultimately show ?thesis using s by auto
qed

lemma wrap_unwrap_slot_witness:
  "\<exists>s r'. wrap_slot toy_prims sample_key (replicate 32 1) [] 1 1 65536 3 4 [1, 2] [] (\<lambda>_. 0) = Ok (s, r') \<and>
    valid_slot s \<and> unwrap_slot toy_prims s sample_key [] = Ok (replicate 32 1) \<and>
    (\<forall>kek'. commitment toy_prims kek' \<noteq> commitment toy_prims sample_key \<longrightarrow>
      unwrap_slot toy_prims s kek' [] = Err Aead)"
  by (rule wrap_unwrap_slot) (simp_all add: sample_valid)

text \<open>
  The additional data of a slot binds every field it covers: two slots of the same additional
  data agree on the vault, the type, the flags, the algorithms, the salt and the auxiliary bytes, so
  wrapped bytes cannot be carried to a slot of another shape.
\<close>

theorem slot_aad_binds:
  assumes "slot_aad v t f k w s a = Ok x" "slot_aad v' t' f' k' w' s' a' = Ok x"
    and "length v = VAULT_ID_LEN" "length v' = VAULT_ID_LEN"
  shows "v = v' \<and> t = t' \<and> f = f' \<and> k = k' \<and> w = w' \<and> s = s' \<and> a = a'"
  using assms by (rule slot_aad_inj)

lemma slot_aad_binds_witness:
  "(\<exists>x. slot_aad (replicate 16 0) 1 0 1 1 [1] [2] = Ok x) \<and> [1] = [1 :: byte]"
  using slot_aad_binds [of "replicate 16 0" 1 0 1 1 "[1]" "[2]" _ "replicate 16 0" 1 0 1 1 "[1]" "[2]"]
  by (auto simp: slot_aad_def len_u8_def len_u16_def)

section \<open>Paths\<close>

text \<open>
  C12. \<open>validate\<close> accepts exactly the paths of allowed characters whose segments, between single
  slashes, are proper names within the limits, and a path it accepts leads from any directory down
  through its segments and nowhere else.
\<close>

theorem validate_exact:
  "(validate P path = Ok () \<longleftrightarrow> valid_path P path) \<and>
   (valid_path P path \<longrightarrow>
      walk dir (split_on 0x2F path) = Some (dir @ split_on 0x2F path) \<and>
      path = join_with 0x2F (split_on 0x2F path))"
  using validate_Ok_iff valid_path_walk join_split_on by metis

lemma validate_exact_witness:
  "walk [lit ''root''] (split_on 0x2F (lit ''docs/a.txt'')) = Some [lit ''root'', lit ''docs'', lit ''a.txt'']"
proof -
  have "chars (lit ''docs/a.txt'') = map unat (lit ''docs/a.txt'')"
    by (rule chars_ascii) (simp add: ascii_def)
  then have "valid_path toy_prims (lit ''docs/a.txt'')"
    by (simp add: valid_path_def proper_segment_def allowed_char_def is_banned_control_def
        is_noncharacter_def drive_prefix_def toy_prims_def)
  with validate_exact [of toy_prims "lit ''docs/a.txt''" "[lit ''root'']"] show ?thesis by simp
qed

section \<open>Ranged reads\<close>

text \<open>
  C13. A ranged read is a window of the whole read: for an object that opens, any prefix that covers its
  header decodes to the same header, every window of the content lies in one run of bytes of the
  object, and decrypting that run alone gives exactly that window of the content.
\<close>

theorem ranged_read_exact:
  assumes "cipher_tidy P" "open_object P key blob = Ok x" "length blob \<le> U64_MAX"
  shows "\<exists>n rh. n \<le> length blob \<and> rh_metadata rh = o_metadata x \<and>
    (\<forall>k. n \<le> k \<longrightarrow> k \<le> length blob \<longrightarrow> range_open P key (take k blob) = Ok rh) \<and>
    (\<forall>offset len. \<exists>sp. span rh offset len = Ok sp \<and>
      sp_ciphertext_offset sp + sp_ciphertext_len sp \<le> length blob \<and>
      read_window P rh sp (seg (sp_ciphertext_offset sp) (sp_ciphertext_offset sp + sp_ciphertext_len sp) blob)
        = Ok ((case len of None \<Rightarrow> id | Some l \<Rightarrow> take l) (drop offset (o_plaintext x))))"
proof -
  obtain h w n m rest rh cts pts where o: "blob = full_header h [] w n m @ rest"
    "rh_metadata rh = o_metadata x"
    "\<And>k. \<lbrakk>length (full_header h [] w n m) \<le> k; k \<le> length blob\<rbrakk> \<Longrightarrow> range_open P key (take k blob) = Ok rh"
    "ranged_object P rh cts pts blob" "concat pts = o_plaintext x"
    "length (o_plaintext x) = unat (h_plaintext_len (rh_head rh))"
    by (rule opened_ranged [OF assms]) (rule that; assumption)
  have "\<exists>sp. span rh offset len = Ok sp \<and>
      sp_ciphertext_offset sp + sp_ciphertext_len sp \<le> length blob \<and>
      read_window P rh sp (seg (sp_ciphertext_offset sp) (sp_ciphertext_offset sp + sp_ciphertext_len sp) blob)
        = Ok ((case len of None \<Rightarrow> id | Some l \<Rightarrow> take l) (drop offset (o_plaintext x)))" for offset len
    by (rule ranged_read [OF o(4), of offset len]) (use o(5,6) in auto)
  with o(2,3) show ?thesis
    by (intro exI [of _ "length (full_header h [] w n m)"] exI [of _ rh]) (auto simp: o(1))
qed

lemma ranged_read_exact_witness:
  "\<exists>blob n rh sp. range_open toy_prims sample_key (take n blob) = Ok rh \<and> span rh 1 (Some 5) = Ok sp \<and>
    read_window toy_prims rh sp
      (seg (sp_ciphertext_offset sp) (sp_ciphertext_offset sp + sp_ciphertext_len sp) blob) = Ok [2, 3]"
proof -
  obtain blob r' x where blob: "seal toy_prims sample_key [1, 2, 3] sample_meta 2 (\<lambda>_. 0) = Ok (blob, r')"
    "open_object toy_prims sample_key blob = Ok x" "o_plaintext x = [1, 2, 3]"
    by (rule sample_object)
  have "length blob \<le> U64_MAX"
    using opened_length [OF toy_ok(1-3) blob(2)] by (simp add: blob(3) U64_MAX_def)
  from ranged_read_exact [OF toy_ok(2) blob(2) this] obtain n rh where
    "range_open toy_prims sample_key (take n blob) = Ok rh" and
    s: "\<forall>offset len. \<exists>sp. span rh offset len = Ok sp \<and>
      sp_ciphertext_offset sp + sp_ciphertext_len sp \<le> length blob \<and>
      read_window toy_prims rh sp (seg (sp_ciphertext_offset sp) (sp_ciphertext_offset sp + sp_ciphertext_len sp) blob)
        = Ok ((case len of None \<Rightarrow> id | Some l \<Rightarrow> take l) (drop offset (o_plaintext x)))"
    by blast
  moreover from s [rule_format, of 1 "Some 5"] obtain sp where "span rh 1 (Some 5) = Ok sp"
    "read_window toy_prims rh sp
      (seg (sp_ciphertext_offset sp) (sp_ciphertext_offset sp + sp_ciphertext_len sp) blob) = Ok [2, 3]"
    by (auto simp: blob(3))
  ultimately show ?thesis by blast
qed

section \<open>Recipients\<close>



text \<open>
  C15. A sidecar of grants has one encoding: bytes parse, for a file and an object head, exactly when
  they are the serialization of well formed grants for that file and that head.
\<close>

theorem sidecar_codec:
  assumes "hashes_ok P" "length file_id = 16"
  shows "sidecar_parse P bs file_id hb = Ok s \<longleftrightarrow>
    (\<forall>g \<in> set (ps_grants s). good_grant g) \<and>
    sidecar_serialize P file_id hb (ps_grant_gen s) (ps_grants s) = Ok bs"
  using assms by (rule sidecar_parse_iff)

lemma sidecar_codec_witness:
  "\<exists>bs. sidecar_parse toy_prims bs (replicate 16 5) [1, 2] = Ok \<lparr>ps_grant_gen = 7, ps_grants = []\<rparr>"
  using sidecar_codec [of toy_prims "replicate 16 5" _ "[1, 2]" "\<lparr>ps_grant_gen = 7, ps_grants = []\<rparr>"]
  by (simp add: sidecar_serialize_def)



text \<open>
  A discovery note opens for the recipient it was sealed to, under the head of its object, with
  what was written in it; under a head of another hash it is refused.
\<close>

theorem discovery_roundtrip:
  assumes "prims_ok P" "kp_ok P kp" "parse_head hb = Ok h" "valid_disc P (h_file_id h) d"
  shows "\<exists>bs r'. seal_dgd1 P (kp_public kp) hb d r = Ok (bs, r') \<and> open_dgd1 P bs kp (Some hb) = Ok d \<and>
    (\<forall>hb'. blake3_hash P hb' \<noteq> blake3_hash P hb \<longrightarrow>
       open_dgd1 P bs kp (Some hb') = Err (Format ''DGD1 head_hash mismatch''))"
  using dgd1_roundtrip [of P kp hb h d r] assms unfolding prims_ok_def by metis

lemma discovery_roundtrip_witness:
  "\<exists>kp hb d bs r'. seal_dgd1 toy_prims (kp_public kp) hb d (\<lambda>_. 0) = Ok (bs, r') \<and>
    open_dgd1 toy_prims bs kp (Some hb) = Ok d \<and> d_path d = lit ''a''"
proof -
  define h where "h = \<lparr>h_algo = 1, h_kem_id = 0, h_flags = 0, h_chunk_size = 4, h_plaintext_len = 0,
    h_chunk_count = 0, h_base_nonce = replicate 24 0, h_file_id = replicate 16 0\<rparr>"
  define d where "d = \<lparr>d_obj_suite = KEM_SUITE_X25519_MLKEM768, d_file_id = h_file_id h, d_size = 0,
    d_content_hash = replicate 32 0, d_path = lit ''a'', d_ext = []\<rparr>"
  obtain kp where kp: "kp_ok toy_prims kp"
    by (rule derive_recipient_ok [of toy_prims sample_key 0]) simp_all
  have "parse_head (build_head h) = Ok h"
    using parse_build_head [of h "[]"] by (simp add: h_def valid_head_def)
  moreover have "chars (lit ''a'') = map unat (lit ''a'')"
    by (rule chars_ascii) (simp add: ascii_def)
  then have "valid_disc toy_prims (h_file_id h) d"
    by (simp add: d_def valid_disc_def valid_path_def proper_segment_def allowed_char_def
        is_banned_control_def is_noncharacter_def drive_prefix_def toy_prims_def utf8_valid_ascii ascii_def)
  ultimately show ?thesis
    using discovery_roundtrip [of toy_prims kp "build_head h" h d "\<lambda>_. 0"] kp
    by (force simp: prims_ok_def d_def)
qed

text \<open>
  An imported key survives its encrypted form: what is written under the root key parses back to
  the same key pair, and only self-consistent key pairs ever parse.
\<close>

theorem imported_key_roundtrip:
  assumes "prims_ok P" "kp_ok P kp"
  shows "(\<exists>bs r'. serialize_dik1 P root_key kp r = Ok (bs, r') \<and> parse_dik1 P root_key bs = Ok kp) \<and>
    (\<forall>bs kp'. parse_dik1 P root_key bs = Ok kp' \<longrightarrow> kp_ok P kp')"
  using parse_serialize_dik1 [of P kp root_key r] parse_dik1_ok(1) [of P root_key] assms
  unfolding prims_ok_def by metis

lemma imported_key_roundtrip_witness:
  "\<exists>kp bs r'. serialize_dik1 toy_prims sample_key kp (\<lambda>_. 0) = Ok (bs, r') \<and>
    parse_dik1 toy_prims sample_key bs = Ok kp"
proof -
  obtain kp where "kp_ok toy_prims kp"
    by (rule derive_recipient_ok [of toy_prims sample_key 0]) simp_all
  from imported_key_roundtrip [OF _ this] show ?thesis by (force simp: prims_ok_def)
qed

section \<open>Names and passwords\<close>

text \<open>
  C17. A name record opens under its own key to the path it was made for, and no record opens under a
  key that is not the hash of the path sealed inside it, so a host cannot answer the lookup of one path
  with the record of another.
\<close>

theorem name_record_bound:
  assumes "cipher_ok P" "length (nk_value_key k) = 32" "utf8_valid path" "length path < 2 ^ 16"
    and "length file_id = 16"
  shows "(\<exists>v r'. seal_record P k vid path file_id gen r = Ok (record_key P k path, v, r') \<and>
      open_record P k vid (record_key P k path) v
        = Ok \<lparr>nr_file_id = file_id, nr_metadata_gen = gen, nr_path = path\<rparr>) \<and>
    (\<forall>rec_key v nr. open_record P k vid rec_key v = Ok nr \<longrightarrow> record_key P k (nr_path nr) = rec_key)"
  using open_seal_record [of P k path file_id vid gen r] open_record_key(1) [of P k vid] assms by metis

lemma name_record_bound_witness:
  "\<exists>v r'. seal_record toy_prims \<lparr>nk_hash_key = sample_key, nk_value_key = sample_key\<rparr> [9] (lit ''a'')
      (replicate 16 3) 4 (\<lambda>_. 0)
      = Ok (record_key toy_prims \<lparr>nk_hash_key = sample_key, nk_value_key = sample_key\<rparr> (lit ''a''), v, r')"
  using name_record_bound [of toy_prims "\<lparr>nk_hash_key = sample_key, nk_value_key = sample_key\<rparr>"
      "lit ''a''" "replicate 16 3" "[9]" 4 "\<lambda>_. 0"]
  by (auto simp: sample_valid utf8_valid_ascii ascii_def)

text \<open>
  The password hash runs exactly at the costs within the bounds: whatever cost an envelope names,
  the hash gets it only when it is at most 1 GiB, 16 passes and 8 lanes and not degenerate, and any
  other cost is an error that names it. The costs the program writes are within the bounds.
\<close>

theorem kdf_cost_bounded:
  "argon2id P secret salt c =
    (if 8 \<le> m_cost c \<and> m_cost c \<le> 2 ^ 20 \<and> 1 \<le> t_cost c \<and> t_cost c \<le> 16 \<and> 1 \<le> p_lanes c \<and> p_lanes c \<le> 8
     then ok_or (Kdf ''argon2'') (argon2_hash P secret salt (m_cost c) (t_cost c) (p_lanes c))
     else Err (InvalidKdfParams (m_cost c) (t_cost c) (p_lanes c))) \<and>
   cost_validate (cost_shipped profile) = Ok ()"
  using argon2id_outside [of c P secret salt] shipped_valid [of profile]
  by (simp add: argon2id_def cost_validate_def validate_params_def)

section \<open>The index\<close>

text \<open>
  C18. Putting a record makes the database represent the map with that record at its path, the counters
  of its directories and the totals included; the only error is of the database, and only when a
  statement failed.
\<close>

theorem index_put_refines:
  assumes "env_ok P C K S" "index_rep P C K S m (c_db c)"
    and "ir_path r \<in> S" "record_ok C r" "fits (m(ir_path r \<mapsto> r))"
  shows "case put P C K r c of
      (Ok _, c') \<Rightarrow> index_rep P C K S (m(ir_path r \<mapsto> r)) (c_db c')
    | (Err e, c') \<Rightarrow> e = Db \<and> c_db c' = c_db c \<and> (\<exists>n. c_faults c n)"
proof (cases "put P C K r c")
  case (Pair res c')
  with spec_Ok [OF put_refines [OF assms] refl] spec_Err [OF put_refines [OF assms] refl] put_atomic
  show ?thesis by (cases res) auto
qed

text \<open>A codec of records and totals, and an index on three paths, for the witnesses.\<close>

lemma index_put_refines_witness:
  "\<exists>c c'. put toy_prims toy_postcard toy_keys (toy_record (lit ''d/a'')) c = (Ok (), c') \<and>
    index_rep toy_prims toy_postcard toy_keys toy_paths
      [lit ''d/a'' \<mapsto> toy_record (lit ''d/a'')] (c_db c')"
proof -
  obtain c where c: "index_reachable toy_prims toy_postcard toy_keys toy_paths Map.empty c"
    "\<forall>n. \<not> c_faults c n" "index_rep toy_prims toy_postcard toy_keys toy_paths Map.empty (c_db c)"
    by (rule toy_opened)
  have "ir_path (toy_record (lit ''d/a'')) = lit ''d/a''" "lit ''d/a'' \<in> toy_paths"
    by (simp_all add: toy_record_def toy_paths_def)
  with index_put_refines [OF toy_env c(3), of "toy_record (lit ''d/a'')"] c(2) toy_record_ok toy_fits
  show ?thesis
    by (cases "put toy_prims toy_postcard toy_keys (toy_record (lit ''d/a'')) c") (force split: sum.splits)
qed

text \<open>
  Deleting a path says whether it was there and makes the database represent the map without it;
  a directory that loses its last file is gone, and a failure leaves the database as it was.
\<close>

theorem index_delete_refines:
  assumes "env_ok P C K S" "index_rep P C K S m (c_db c)" "p \<in> S"
  shows "case delete P C K p c of
      (Ok found, c') \<Rightarrow> found = (m p \<noteq> None) \<and> index_rep P C K S (m(p := None)) (c_db c')
    | (Err e, c') \<Rightarrow> e = Db \<and> c_db c' = c_db c \<and> (\<exists>n. c_faults c n)"
proof (cases "delete P C K p c")
  case (Pair res c')
  with spec_Ok [OF delete_refines [OF assms] refl] spec_Err [OF delete_refines [OF assms] refl]
    delete_atomic
  show ?thesis by (cases res) auto
qed

lemma index_delete_refines_witness:
  "\<exists>c c'. delete toy_prims toy_postcard toy_keys (lit ''d'') c = (Ok False, c') \<and>
    index_rep toy_prims toy_postcard toy_keys toy_paths Map.empty (c_db c')"
proof -
  obtain c where c: "index_reachable toy_prims toy_postcard toy_keys toy_paths Map.empty c"
    "\<forall>n. \<not> c_faults c n" "index_rep toy_prims toy_postcard toy_keys toy_paths Map.empty (c_db c)"
    by (rule toy_opened)
  have "lit ''d'' \<in> toy_paths" by (simp add: toy_paths_def)
  from index_delete_refines [OF toy_env c(3) this] c(2) show ?thesis
    by (cases "delete toy_prims toy_postcard toy_keys (lit ''d'') c") (force split: sum.splits)
qed

text \<open>
  C19. Whatever operations succeeded and failed since the database was created, a listing of a
  directory reads exactly the records and the subdirectories the successful operations left in it, a
  lookup reads the record they left, and the totals count them.
\<close>

theorem index_reads_exact:
  assumes env: "env_ok P C K S" and reach: "index_reachable P C K S m c" and q: "q \<in> S"
  shows "(get P C K q c = (Ok x, c1) \<longrightarrow> x = m q) \<and>
    (children P C K q (\<lambda>_. True) c = (Ok rs, c2) \<longrightarrow>
      distinct rs \<and> set rs = {r \<in> ran m. parent_of (ir_path r) = q}) \<and>
    (child_dirs P K q (\<lambda>_. True) c = (Ok ds, c3) \<longrightarrow>
      distinct ds \<and> set ds = {e. parent_of e = q \<and> (\<exists>p \<in> dom m. e \<in> set (ancestors_of p))}) \<and>
    (totals_of P C K c = (Ok t, c4) \<longrightarrow> totals_match m t)"
proof -
  note rep = reachable_rep [OF env reach]
  have all: "visited (\<lambda>_. True) xs = xs" for xs :: "'b list"
    by (induction xs) auto
  show ?thesis
  proof (intro conjI impI)
    assume "get P C K q c = (Ok x, c1)"
    from spec_Ok [OF get_refines [OF env rep q] refl this] show "x = m q" by simp
  next
    assume "children P C K q (\<lambda>_. True) c = (Ok rs, c2)"
    from spec_Ok [OF children_refines [OF env rep q] refl this]
    show "distinct rs" "set rs = {r \<in> ran m. parent_of (ir_path r) = q}" by (auto simp only: all)
  next
    assume "child_dirs P K q (\<lambda>_. True) c = (Ok ds, c3)"
    from spec_Ok [OF child_dirs_refines [OF env rep q] refl this]
    show "distinct ds" "set ds = {e. parent_of e = q \<and> (\<exists>p \<in> dom m. e \<in> set (ancestors_of p))}"
      by (auto simp only: all)
  next
    assume "totals_of P C K c = (Ok t, c4)"
    from spec_Ok [OF totals_refines [OF rep] refl this] show "totals_match m t" by simp
  qed
qed

lemma index_reads_exact_witness:
  "\<exists>c c'. index_reachable toy_prims toy_postcard toy_keys toy_paths Map.empty c \<and>
    get toy_prims toy_postcard toy_keys (lit ''d'') c = (Ok None, c')"
proof -
  obtain c where c: "index_reachable toy_prims toy_postcard toy_keys toy_paths Map.empty c"
    "\<forall>n. \<not> c_faults c n" "index_rep toy_prims toy_postcard toy_keys toy_paths Map.empty (c_db c)"
    by (rule toy_opened)
  have d: "lit ''d'' \<in> toy_paths" by (simp add: toy_paths_def)
  obtain x c' where "get toy_prims toy_postcard toy_keys (lit ''d'') c = (Ok x, c')"
    by (rule toy_runs [OF get_refines [OF toy_env c(3) d] c(2)])
  with index_reads_exact [OF toy_env c(1) d] c(1) show ?thesis by fastforce
qed

text \<open>
  C20. Migrating an index of the first schema, which has records but no parents, directories or
  totals, makes it represent the same map with all of them, or fails and leaves it as it was.
\<close>

theorem index_migrate_refines:
  assumes "env_ok P C K S" "old_rep P C K S m (c_db c)" "fits m"
    and "migrate P C K c = (res, c')"
  shows "case res of Ok _ \<Rightarrow> index_rep P C K S m (c_db c') | Err _ \<Rightarrow> c_db c' = c_db c"
  using spec_Ok [OF migrate_refines [OF assms(1-3)] refl] assms(4)
    migrate_atomic
  by (cases res) auto

lemma index_migrate_refines_witness:
  "\<exists>c'. migrate toy_prims toy_postcard toy_keys toy_conn = (Ok (), c') \<and>
    index_rep toy_prims toy_postcard toy_keys toy_paths Map.empty (c_db c')"
proof -
  have old: "old_rep toy_prims toy_postcard toy_keys toy_paths Map.empty (c_db toy_conn)"
    by (simp add: toy_conn_def fresh_old_rep)
  obtain x c' where "migrate toy_prims toy_postcard toy_keys toy_conn = (Ok x, c')"
    by (rule toy_runs [OF migrate_refines [OF toy_env old fits_empty]]) (simp add: toy_conn_def)
  with index_migrate_refines [OF toy_env old fits_empty this] show ?thesis by auto
qed

section \<open>Failures\<close>

text \<open>
  C21. A retried operation is attempted at least once unless the deadline or the stall counter stops it,
  and at most as often as the policy allows. Every attempt but the last failed transiently and was not
  already retried further down; the result is the one of the last attempt, and an error keeps its cause,
  unless the deadline or the stall counter cut the run short. All sleeps together stay within the
  budget. The policy of every backend is one of these.
\<close>

theorem retry_bounded:
  assumes "run policy deadline stall (logged f) s = (res, s')" "total_budget policy \<le> DURATION_MAX"
  shows "(\<exists>log. snd (rs_world s') = snd (rs_world s) @ log \<and> log_explains 1 log res \<and>
      length log \<le> max 1 (unat (max_attempts policy)) \<and>
      length (rs_slept s') \<le> length (rs_slept s) + length log \<and>
      sum_list (rs_slept s') \<le> sum_list (rs_slept s) + total_budget policy) \<and>
    total_budget (for_backend name) \<le> DURATION_MAX \<and> unat (max_attempts (for_backend name)) \<le> 6"
  using run_log [OF assms] policy_budgets by blast

text \<open>An operation that finds nobody there the first time.\<close>

definition flaky :: "u32 \<Rightarrow> (unit, store_error, unit) io" where
  "flaky n w = (if n = 1 then Err (S_Transport ''connect'' []) else Ok (), w)"

lemma retry_bounded_witness:
  "\<exists>s'. run policy_local None None (logged flaky) \<lparr>rs_world = ((), []), rs_clock = id, rs_entropy = of_nat,
      rs_unanswered = 0, rs_slept = []\<rparr> = (Ok (), s') \<and>
    map fst (snd (rs_world s')) = [1, 2] \<and> sum_list (rs_slept s') \<le> total_budget policy_local"
proof -
  let ?s = "\<lparr>rs_world = ((), []), rs_clock = id, rs_entropy = of_nat, rs_unanswered = 0, rs_slept = []\<rparr>"
  have v: "verdict observed_transport 1 0 policy_local = After 100000000"
    by (simp add: verdict_def observed_transport_def policy_local_def backoff_def Let_def
        LOCAL_TOTAL_BUDGET_def LOCAL_FIRST_BACKOFF_def LOCAL_MAX_BACKOFF_def from_secs_def
        from_millis_def duration_mul_def DURATION_MAX_def shl_one_def word_le_nat_alt)
  have n: "(1 :: u32) \<noteq> - 1" by (simp add: word_eq_iff_unsigned unsigned_minus_1_eq_mask)
  have again: "\<exists>s'. run_loop policy_local None None (logged flaky) 2 waited s = (Ok (), s') \<and>
      snd (rs_world s') = snd (rs_world s) @ [(2, Ok ())]" for waited s
    by (subst run_loop.simps) (simp add: logged_def flaky_def now_def exceeded_def left_at_def
        stall_exhausted_def stall_answered_def split: prod.split)
  have "\<exists>w s1. run policy_local None None (logged flaky) ?s =
      run_loop policy_local None None (logged flaky) 2 w s1 \<and>
      snd (rs_world s1) = [(1, Err (S_Transport ''connect'' []))]"
    unfolding run_def using n
    by (subst run_loop.simps) (simp add: logged_def flaky_def now_def exceeded_def left_at_def
        stall_exhausted_def settle_def Let_def v [unfolded observed_transport_def] note_reach_def
        observed_transport_def stall_unanswered_def choose_delay_def entropy_def shorten_def,
        rule exI, rule exI, rule conjI, rule refl, simp)
  then obtain w s1 where s1: "run policy_local None None (logged flaky) ?s =
      run_loop policy_local None None (logged flaky) 2 w s1"
    "snd (rs_world s1) = [(1, Err (S_Transport ''connect'' []))]" by blast
  obtain s' where "run_loop policy_local None None (logged flaky) 2 w s1 = (Ok (), s')"
    "snd (rs_world s') = snd (rs_world s1) @ [(2, Ok ())]" using again by blast
  with s1 have r: "run policy_local None None (logged flaky) ?s = (Ok (), s')"
    and w: "map fst (snd (rs_world s')) = [1, 2]" by simp_all
  have b: "total_budget policy_local \<le> DURATION_MAX"
    by (simp add: policy_local_def LOCAL_TOTAL_BUDGET_def from_secs_def DURATION_MAX_def)
  have "sum_list (rs_slept s') \<le> total_budget policy_local"
    using retry_bounded [OF r b, where name = "[]"]
    by (elim exE conjE) (simp only: run_state.simps sum_list.Nil add_0)
  with r w show ?thesis by (intro exI conjI)
qed

text \<open>
  The stable code of an error decides what it means: two errors of the vault with the same code
  have the same kind, whatever crate they come from and however often the operation behind them was
  attempted, and the thousands of the code name the crate.
\<close>

theorem error_code_decides:
  assumes "core_code d = core_code e" "core_code e = Some c"
  shows "core_kind d = core_kind e \<and> c div 1000 = crate e \<and> crate d = crate e"
  using core_code_kind [OF assms(1)] code_crate [OF assms(2)] code_crate [of d c] assms by simp_all

lemma error_code_decides_witness:
  "core_kind (StoreErr (S_Retried 3 (S_Transport ''connect'' []))) =
    core_kind (StoreErr (S_Transport ''read'' (lit ''reset'')))"
  by (rule conjunct1 [OF error_code_decides [where c = 2010]]) simp_all

section \<open>The files of a vault\<close>

text \<open>
  C22. Reading never lies: in every vault that storing and deleting can lead to, with any requests failing
  before or after they took effect, what a file is read as is a content the history allows: the one stored
  last, or that of a later attempt that failed. An error means that a request failed or that the file may
  not be there. Reading changes nothing.
\<close>

theorem reads_are_possible:
  assumes "vault_env P C v S" "vault_run P C v S h w"
    and "Paths.normalize P raw = Ok p" "p \<in> S" "get_file P C v raw w = (res, w')"
  shows "(case res of Ok x \<Rightarrow> Some x \<in> possible h p | Err _ \<Rightarrow> None \<in> possible h p \<or> noisy w) \<and>
    vault_run P C v S h w'"
  using run_reads [OF assms] by (cases res) simp_all

lemma reads_are_possible_witness:
  "\<exists>v w w'. vault_run toy_prims toy_postcard v toy_paths [Stored (lit ''d/a'') [1, 2, 3] True] w \<and>
    get_file toy_prims toy_postcard v (lit ''d/a'') w = (Ok [1, 2, 3], w')"
proof (rule toy_stored)
  fix v w
  assume v: "vault_env toy_prims toy_postcard v toy_paths" "\<not> noisy w"
    "vault_run toy_prims toy_postcard v toy_paths [Stored (lit ''d/a'') [1, 2, 3] True] w"
  obtain res w' where get: "get_file toy_prims toy_postcard v (lit ''d/a'') w = (res, w')" by fastforce
  from reads_are_possible [OF v(1,3) toy_path(1,2) this] v(2) have "res = Ok [1, 2, 3]"
    by (cases res) (auto simp: lit_def)
  with get v(3) show ?thesis by blast
qed

text \<open>
  C23. A stored file is there: when no request fails, the file that was stored last is read back whole, is
  streamed with its length and hash, and passes verification.
\<close>

theorem stored_is_readable:
  assumes "vault_env P C v S" "vault_run P C v S h w" "\<not> noisy w" "possible h p = {Some x}"
    and "Paths.normalize P raw = Ok p" "Paths.normalize P p = Ok p" "p \<in> S"
  shows "\<exists>w1 w2 w3. get_file P C v raw w = (Ok x, w1) \<and>
    stream_file_to P C append_writer (\<lambda>s. (Ok (), s)) v raw (w, []) =
      (Ok \<lparr>sd_bytes = length x, sd_plaintext_hash = blake3_hash P x\<rparr>, (w2, x)) \<and>
    verify_file P C v raw w = (Ok (), w3)"
proof -
  obtain objs db where w: "shelf w = (objs, db)" by fastforce
  obtain im m where rep: "vault_rep P C v S im m (objs, db)" and m: "m p = Some x"
    by (rule run_holds [OF assms(1,2,4,7) w])
  obtain r1 w1 where g: "get_file P C v raw w = (r1, w1)" by fastforce
  obtain r2 w2 out where s: "stream_file_to P C append_writer (\<lambda>s. (Ok (), s)) v raw (w, []) = (r2, w2, out)"
    using prod_cases3 by blast
  obtain r3 w3 where f: "verify_file P C v raw w = (r3, w3)" by fastforce
  note gs = get_file_exact [OF assms(1) rep assms(5,7) m]
  have "r1 = Ok x"
    using vspec_Ok [OF gs w, of _ w1] vspec_Err [OF gs w, of _ w1] g assms(3) by (cases r1) auto
  moreover note ss = stream_file_exact [OF assms(1) rep assms(5,6,7) m]
  have "r2 = Ok \<lparr>sd_bytes = length x, sd_plaintext_hash = blake3_hash P x\<rparr> \<and> out = x"
    using sspec_Ok [OF ss w, of _ w2 out] sspec_Err [OF ss w, of _ w2 out] s assms(3) by (cases r2) auto
  moreover note vs = verify_file_exact [OF assms(1) rep assms(5,6,7) m]
  have "r3 = Ok ()"
    using vspec_Err [OF vs w, of _ w3] f assms(3) by (cases r3) auto
  ultimately show ?thesis using g s f by simp
qed

lemma stored_is_readable_witness:
  "\<exists>v w w'. stream_file_to toy_prims toy_postcard append_writer (\<lambda>s. (Ok (), s)) v (lit ''d/a'') (w, []) =
      (Ok \<lparr>sd_bytes = length [1, 2, 3 :: byte], sd_plaintext_hash = blake3_hash toy_prims [1, 2, 3]\<rparr>,
       (w', [1, 2, 3]))"
proof (rule toy_stored)
  fix v w
  assume v: "vault_env toy_prims toy_postcard v toy_paths" "\<not> noisy w"
    "vault_run toy_prims toy_postcard v toy_paths [Stored (lit ''d/a'') [1, 2, 3] True] w"
  have "possible [Stored (lit ''d/a'') [1, 2, 3] True] (lit ''d/a'') = {Some [1, 2, 3]}" by simp
  from stored_is_readable [OF v(1,3,2) this toy_path(1,1,2)] show ?thesis by (elim exE conjE) (intro exI)
qed

text \<open>
  C24. What a streamed read has released when a request fails is always the beginning of the file: nothing
  that was not authenticated, reordered or taken from another file reaches the writer, and when it ends
  well it has written exactly the file.
\<close>

theorem stream_releases_prefix:
  assumes "vault_env P C v S" "vault_run P C v S h w" "possible h p = {Some x}"
    and "Paths.normalize P raw = Ok p" "Paths.normalize P p = Ok p" "p \<in> S"
    and "stream_file_to P C append_writer (\<lambda>s. (Ok (), s)) v raw (w, []) = (res, (w', out))"
  shows "case res of Ok sd \<Rightarrow> out = x \<and> sd = \<lparr>sd_bytes = length x, sd_plaintext_hash = blake3_hash P x\<rparr>
    | Err _ \<Rightarrow> noisy w \<and> (\<exists>rest. x = out @ rest)"
proof -
  obtain objs db where w: "shelf w = (objs, db)" by fastforce
  obtain im m where rep: "vault_rep P C v S im m (objs, db)" and m: "m p = Some x"
    by (rule run_holds [OF assms(1,2,3,6) w])
  note ss = stream_file_exact [OF assms(1) rep assms(4,5,6) m]
  from sspec_Ok [OF ss w, of _ w' out] sspec_Err [OF ss w, of _ w' out] assms(7) show ?thesis
    by (cases res) auto
qed

text \<open>The connection breaks at the second request of the read.\<close>

lemma stream_releases_prefix_witness:
  "\<exists>v w res w' out rest. stream_file_to toy_prims toy_postcard append_writer (\<lambda>s. (Ok (), s)) v (lit ''d/a'') (w, [])
      = (res, (w', out)) \<and> [1, 2, 3] = out @ rest \<and> noisy w"
proof (rule toy_stored)
  fix v w
  assume v: "vault_env toy_prims toy_postcard v toy_paths"
    "vault_run toy_prims toy_postcard v toy_paths [Stored (lit ''d/a'') [1, 2, 3] True] w"
  define w0 where "w0 = w\<lparr>w_faults := (\<lambda>n. if n = 1 then Some (S_Transport ''read'' [], False) else None)\<rparr>"
  have "shelf w0 = shelf w" by (simp add: w0_def shelf_def)
  note run = vault_run.weather [OF v(2) this]
  have n: "noisy w0" by (auto simp: w0_def noisy_def)
  obtain res w' out where s: "stream_file_to toy_prims toy_postcard append_writer (\<lambda>s. (Ok (), s)) v
      (lit ''d/a'') (w0, []) = (res, (w', out))"
    using prod_cases3 by blast
  have "possible [Stored (lit ''d/a'') [1, 2, 3] True] (lit ''d/a'') = {Some [1, 2, 3]}" by simp
  from stream_releases_prefix [OF v(1) run this toy_path(1,1,2) s] have "\<exists>rest. [1, 2, 3] = out @ rest"
    by (cases res) auto
  with s n show ?thesis by blast
qed

text \<open>
  C25. Storing a file is safe against failure at every request. When it succeeds the vault is the one before
  with the new content; when it fails, a request failed, every other file is as it was, and this one reads
  as the old content or as the new one, never as anything else and never as a mixture.
\<close>

theorem put_is_crash_safe:
  assumes env: "vault_env P C v S" and rep: "vault_rep P C v S im m (shelf w)"
    and p: "Paths.normalize P raw = Ok p" "p \<in> S" and can: "can_store P C v S (resolve now_unix modified) p data w"
    and run: "put_file P C v now_unix raw data modified w = (res, w')"
  shows "case res of
      Ok _ \<Rightarrow> (\<exists>r. ir_size r = of_nat (length data) \<and> ir_content_hash r = blake3_hash P data \<and>
        vault_rep P C v S (im(p \<mapsto> r)) (m(p \<mapsto> data)) (shelf w'))
    | Err _ \<Rightarrow> noisy w \<and> (\<exists>im' m'. vault_rep P C v S im' m' (shelf w') \<and> (m' = m \<or> m' = m(p \<mapsto> data)))"
proof -
  have "2 ^ 19 + 17 * length data \<le> U64_MAX" using can by (simp add: can_store_def)
  then have "case res of Ok _ \<Rightarrow> put_done P C v S im m p data (shelf w')
    | Err _ \<Rightarrow> put_left P C v S m p data (shelf w') \<and> noisy w"
    by (rule put_file_spec [OF env rep p _ _ _ run]) (use can rep in \<open>auto simp: can_store_def\<close>)
  then show ?thesis by (cases res) (auto simp: put_done_def put_left_def)
qed

lemma put_is_crash_safe_witness:
  "\<exists>v w res w' im' m'. put_file toy_prims toy_postcard v None (lit ''d/a'') [1, 2, 3] Now w = (res, w') \<and>
    vault_rep toy_prims toy_postcard v toy_paths im' m' (shelf w') \<and>
    (m' = Map.empty \<or> m' = [lit ''d/a'' \<mapsto> [1, 2, 3]])"
proof (rule toy_vault)
  fix v w bs
  assume v: "vault_env toy_prims toy_postcard v toy_paths" "w_objects w = [(ENVELOPE_OBJECT_KEY, bs)]"
    "vault_rep toy_prims toy_postcard v toy_paths Map.empty Map.empty (shelf w)"
  have can: "can_store toy_prims toy_postcard v toy_paths (resolve None Now) (lit ''d/a'') [1, 2, 3] w"
    by (rule toy_can_store [OF v]) simp
  obtain res w' where run: "put_file toy_prims toy_postcard v None (lit ''d/a'') [1, 2, 3] Now w = (res, w')"
    by fastforce
  from put_is_crash_safe [OF v(1,3) toy_path(1,2) can run] run show ?thesis
    by (cases res) (simp_all only: sum.case, blast+)
qed



section \<open>The keys of a vault\<close>



text \<open>
  C28. Nobody else gets in: a key that matches the commitment of no slot of its type unlocks nothing,
  whatever requests fail; what it is told is that it does not open the vault, or that there is none.
\<close>

theorem unlock_only_with_key:
  assumes "\<And>bs env s kek. map_of (w_objects w) ENVELOPE_OBJECT_KEY = Some bs \<Longrightarrow> parse bs = Ok env \<Longrightarrow>
      s \<in> set (e_slots env) \<Longrightarrow> slot_kek P key s = Some kek \<Longrightarrow> commitment P kek \<noteq> Ok (slot_commit s)"
    and "unlock P C key w = (res, w')"
  shows "\<exists>e. res = Err e \<and> (noisy w \<or> e = (if map_of (w_objects w) ENVELOPE_OBJECT_KEY = None
    then NoVault ENVELOPE_OBJECT_KEY else Unlock))"
proof -
  have "recover_root P key (e_vault_id env) (e_slots env) = None"
    if "map_of (w_objects w) ENVELOPE_OBJECT_KEY = Some bs" "parse bs = Ok env" for bs env
    by (rule recover_root_None) (rule assms(1) [OF that])
  then have "\<exists>e. res = Err e \<and> w_index w' = w_index w \<and> (noisy w \<or>
      e = (if map_of (w_objects w) ENVELOPE_OBJECT_KEY = None then NoVault ENVELOPE_OBJECT_KEY else Unlock))"
    by (intro unlock_refused [OF _ assms(2)])
  then show ?thesis by blast
qed

definition locked_slot :: slot where
  "locked_slot = \<lparr>slot_type = SLOT_TYPE_PASSWORD, slot_flags = 0, slot_kdf_id = KDF_ID_ARGON2ID,
     slot_wrap_algo = WRAP_ALGO_XCHACHA20_POLY1305, slot_m_cost = 8, slot_t_cost = 1, slot_p_lanes = 1,
     slot_commit = replicate 32 9, slot_salt = replicate 16 5, slot_aux = [], slot_wrapped_root = replicate 72 0\<rparr>"

lemma unlock_only_with_key_witness:
  "\<exists>w w'. map_of (w_objects w) ENVELOPE_OBJECT_KEY \<noteq> None \<and>
    unlock toy_prims toy_postcard (Password (lit ''no'')) w = (Err Unlock, w')"
proof -
  have v: "valid_envelope \<lparr>e_vault_id = replicate 16 1, e_slots = [locked_slot]\<rparr>"
    by (simp add: valid_envelope_def valid_slot_def locked_slot_def)
  obtain bs where "serialize \<lparr>e_vault_id = replicate 16 1, e_slots = [locked_slot]\<rparr> = Ok bs"
    using envelope_format.build_total [OF v] by blast
  note parsed = envelope_format.parse_build [OF v this]
  define w where "w = toy_world\<lparr>w_objects := [(ENVELOPE_OBJECT_KEY, bs)]\<rparr>"
  have w: "map_of (w_objects w) ENVELOPE_OBJECT_KEY = Some bs" "\<not> noisy w"
    using toy_world(2) by (simp_all add: w_def noisy_def)
  have c: "commitment toy_prims kek \<noteq> Ok (slot_commit locked_slot)"
    if "slot_kek toy_prims (Password (lit ''no'')) locked_slot = Some kek" for kek
  proof -
    have "kek = pad 32 (lit ''no'' @ replicate 16 5)"
      using that by (simp add: slot_kek_def locked_slot_def derive_kek_def argon2id_def cost_validate_def
          validate_params_def normalize_passphrase_def toy_prims_def)
    then have "commitment toy_prims kek = Ok (pad 32 (lit ''no'' @ replicate 16 5))"
      by (simp add: commitment_def derive_subkey_def derive_subkey_from_ikm_def toy_prims_def pad_def)
    moreover have "hd (pad 32 (lit ''no'' @ replicate 16 5)) \<noteq> hd (replicate 32 9)" by (simp add: pad_def)
    ultimately show ?thesis by (metis locked_slot_def slot.simps(8) sum.inject(2))
  qed
  obtain res w' where r: "unlock toy_prims toy_postcard (Password (lit ''no'')) w = (res, w')" by fastforce
  have "\<exists>e. res = Err e \<and> (noisy w \<or> e = (if map_of (w_objects w) ENVELOPE_OBJECT_KEY = None
      then NoVault ENVELOPE_OBJECT_KEY else Unlock))"
    by (rule unlock_only_with_key [OF _ r]) (use w parsed c in auto)
  with w r show ?thesis by auto
qed









text \<open>
  The existence probe is exact when no request fails. Against its documentation it can also answer
  without knowing: when the index does not have the file and the read of its name record fails, it answers
  that the file does not exist, whether it does or not.
\<close>

theorem exists_answers:
  assumes env: "vault_env P C v S" and rep: "vault_rep P C v S im m (shelf w)"
    and p: "Paths.normalize P raw = Ok p" "p \<in> S" and run: "object_exists P C v raw w = (res, w')"
  shows "(\<not> noisy w \<longrightarrow> res = Ok (m p \<noteq> None)) \<and>
    (im p = None \<longrightarrow> w_faults w 0 \<noteq> None \<longrightarrow> (\<forall>n. \<not> c_faults (w_index w) n) \<longrightarrow> res = Ok False)"
proof (intro conjI impI)
  obtain objs db where w: "shelf w = (objs, db)" by fastforce
  note r = vault_repD [OF rep [unfolded w]]
  obtain lk w1 where l: "lookup_object_key P C v p w = (lk, w1)" by fastforce
  note out = lookup_outcome [OF env r(1) p(2) w l]
  {
    assume quiet: "\<not> noisy w"
    with out(4) have lk: "lk = Ok (resolves P v im (map_of objs) p)" by (cases lk) auto
    have w1: "\<not> noisy w1" "w_objects w1 = objs"
      using later_world_noisy [OF out(2)] quiet out(1) w by (auto simp: shelf_def)
    have ok: "case m p of Some pt \<Rightarrow> (\<exists>k. resolves P v im (map_of objs) p = Some k \<and> stores P v (map_of objs) k pt)
      | None \<Rightarrow> (\<forall>k. resolves P v im (map_of objs) p = Some k \<longrightarrow> map_of objs k = None)"
      using r(3) p(2) unfolding files_ok_def by blast
    show "res = Ok (m p \<noteq> None)"
    proof (cases "resolves P v im (map_of objs) p")
      case None
      with run l lk ok p(1) show ?thesis
        by (simp add: object_exists_def io_bind_Ok split: option.splits)
    next
      case (Some k)
      have "(map_of objs k \<noteq> None) = (m p \<noteq> None)"
        using ok Some by (cases "m p") (auto dest: stores_object)
      moreover have "w_faults w1 0 = None" using w1(1) unfolding noisy_def by blast
      ultimately show ?thesis
        using run l lk Some p(1) w1(2) by (simp add: object_exists_def io_bind_Ok from_store_def b_exists_def
            store_call_def map_err_def Let_def)
    qed
  next
    assume lost: "im p = None" "w_faults w 0 \<noteq> None" "\<forall>n. \<not> c_faults (w_index w) n"
    have db: "c_db (w_index w) = db" using w by (simp add: shelf_def)
    obtain x c where g: "get P C (v_index v) p (w_index w) = (Ok x, c)"
      by (rule toy_runs [OF get_refines [OF vault_envD(1) [OF env] r(1) p(2), folded db] lost(3)])
    from spec_Ok [OF get_refines [OF vault_envD(1) [OF env] r(1) p(2)] db g] lost(1) have "x = None" by simp
    with lost(2) l g have "lk = Ok None"
      by (auto simp: lookup_object_key_def io_bind_def from_index_def map_err_def io_try_def b_get_def store_call_def
          Let_def)
    with run l p(1) show "res = Ok False" by (simp add: object_exists_def io_bind_Ok)
  }
qed

lemma exists_answers_witness:
  "\<exists>v w w'. object_exists toy_prims toy_postcard v (lit ''d/a'') w = (Ok True, w')"
proof (rule toy_stored)
  fix v w
  assume v: "vault_env toy_prims toy_postcard v toy_paths" "\<not> noisy w"
    "vault_run toy_prims toy_postcard v toy_paths [Stored (lit ''d/a'') [1, 2, 3] True] w"
  have only: "possible [Stored (lit ''d/a'') [1, 2, 3] True] (lit ''d/a'') = {Some [1, 2, 3]}" by simp
  obtain objs db where w: "shelf w = (objs, db)" by fastforce
  obtain im m where rep: "vault_rep toy_prims toy_postcard v toy_paths im m (shelf w)"
    and m: "m (lit ''d/a'') = Some [1, 2, 3]"
    using run_holds [OF v(1,3) only toy_path(2) w] w by metis
  obtain res w' where run: "object_exists toy_prims toy_postcard v (lit ''d/a'') w = (res, w')" by fastforce
  from exists_answers [OF v(1) rep toy_path(1,2) run] v(2) m have "res = Ok True" by simp
  with run show ?thesis by blast
qed

text \<open>
  A listing is complete and in order: it has exactly the files of the index under the prefix, each once,
  sorted by path; when it fails a statement failed, and it changes nothing.
\<close>

theorem list_exact:
  assumes env: "vault_env P C v S" and rep: "index_rep P C (v_index v) S im (c_db (w_index w))"
    and run: "list_records P C v start w = (res, w')"
  shows "shelf w' = shelf w \<and> (case res of
      Ok rs \<Rightarrow> sorted (map ir_path rs) \<and> distinct (map ir_path rs) \<and>
        set rs = {r \<in> ran im. starts_with (ir_path r) start}
    | Err _ \<Rightarrow> noisy w)"
proof -
  have w: "shelf w = (w_objects w, c_db (w_index w))" by (simp add: shelf_def)
  have ok: "map_ok S im" using rep by (simp add: index_rep_def)
  have "ir_path r = ir_path s \<Longrightarrow> r = s" if "r \<in> ran im" "s \<in> ran im" for r s
    using that ok unfolding map_ok_def ran_def by force
  then have inj: "inj_on ir_path (ran im)" by (simp add: inj_on_def)
  have atomic: "c_db c' = c_db c" if "for_each P C (v_index v) (\<lambda>_. True) c = (Err e, c')" for c e c'
    using that by (auto simp: for_each_def io_bind_def query_def sql_def Let_def io_lift_def
        split: if_splits sum.splits)
  have "vspec (list_records P C v start) (shelf w) (\<lambda>rs d'. (sorted (map ir_path rs) \<and> distinct (map ir_path rs) \<and>
      set rs = {r \<in> ran im. starts_with (ir_path r) start}) \<and> d' = shelf w) (\<lambda>d'. d' = shelf w)"
    (is "vspec _ _ ?Q ?R")
    unfolding list_records_def w
  proof (rule vspec_index_bind [where Q = ?Q and R = ?R,
        OF all_refines [OF vault_envD(1) [OF env] rep, unfolded all_records_def], unfolded w], goal_cases)
    case (1 rs db')
    then have "distinct (map ir_path (filter (\<lambda>r. starts_with (ir_path r) start) rs))"
      using inj by (auto simp: distinct_map intro: inj_on_subset)
    with 1 show ?case
      by (intro vspec_return) (auto simp: distinct_map)
  qed (use atomic in auto)
  from vspec_Ok [OF this refl] vspec_Err [OF this refl] run show ?thesis by (cases res) auto
qed

lemma list_exact_witness:
  "\<exists>v w w'. list_records toy_prims toy_postcard v [] w = (Ok [], w')"
proof (rule toy_vault)
  fix v w
  assume v: "vault_env toy_prims toy_postcard v toy_paths" "\<not> noisy w"
    "vault_rep toy_prims toy_postcard v toy_paths Map.empty Map.empty (shelf w)"
  then have rep: "index_rep toy_prims toy_postcard (v_index v) toy_paths Map.empty (c_db (w_index w))"
    by (simp add: vault_rep_def shelf_def)
  obtain res w' where run: "list_records toy_prims toy_postcard v [] w = (res, w')" by fastforce
  from list_exact [OF v(1) rep run] v(2) have "res = Ok []" by (cases res) auto
  with run show ?thesis by blast
qed



text \<open>
  A vault that is not there is not always called so: when the request for the envelope was answered that
  there is none only at the second attempt, the retry driver hands the answer up with its count, which
  unlocking does not recognize. The error then has the code of the store instead of that of the vault.
\<close>

lemma unlock_misses_retried_absence:
  assumes "w_faults w 0 = Some (record_attempts (S_NotFound k) 2, landed)"
  shows "fst (unlock P C key w) = Err (StoreErr (S_Retried 2 (S_NotFound k)))"
    and "core_code (StoreErr (S_Retried 2 (S_NotFound k))) \<noteq> core_code (NoVault ENVELOPE_OBJECT_KEY)"
  using assms by (simp_all add: unlock_def io_bind_def io_try_def b_get_def store_call_def Let_def
      record_attempts_def io_fail_def word_le_nat_alt)

end
